(* ===== verification/Prelude.thy ===== *)
theory Prelude
  imports Main "HOL-Library.AList" "HOL-Library.Multiset" "HOL-Library.List_Lexorder"
    "HOL-Library.Char_ord"
begin

text \<open>
  Shared vocabulary of the development: Go maps as association lists, loops with early
  returns, string trimming at the byte level, and the generic lemmas the components use.
  \<^item> A Go \<^verbatim>\<open>map[K]V\<close> is an association list without repeated keys. The order of
    the list stands for the iteration order of \<^verbatim>\<open>range\<close>, which Go leaves open, so a
    theorem about every list is a theorem about every iteration order.
  \<^item> A Go \<^verbatim>\<open>for ... range\<close> loop whose body may return an error is \<open>fold_res\<close>.
  \<^item> A Go \<^verbatim>\<open>string\<close> is its list of bytes; \<open>\<le>\<close> on strings is the bytewise lexicographic
    order that Go's \<^verbatim>\<open><\<close> is.
\<close>

named_theorems res_simps \<open>unfolding rules for error-carrying loops\<close>
named_theorems gomap_simps \<open>lookup and update of Go maps\<close>

section \<open>Results and loops with early return\<close>

text \<open>\<open>Inl e\<close> is an error return, \<open>Inr x\<close> a normal one.\<close>

type_synonym ('e, 'a) result = "'e + 'a"

fun fold_res :: "('a \<Rightarrow> 's \<Rightarrow> ('e, 's) result) \<Rightarrow> 'a list \<Rightarrow> 's \<Rightarrow> ('e, 's) result" where
  "fold_res f [] s = Inr s"
| "fold_res f (x # xs) s = (case f x s of Inl e \<Rightarrow> Inl e | Inr s' \<Rightarrow> fold_res f xs s')"

fun map_res :: "('a \<Rightarrow> ('e, 'b) result) \<Rightarrow> 'a list \<Rightarrow> ('e, 'b list) result" where
  "map_res f [] = Inr []"
| "map_res f (x # xs) =
     (case f x of Inl e \<Rightarrow> Inl e
      | Inr y \<Rightarrow> (case map_res f xs of Inl e \<Rightarrow> Inl e | Inr ys \<Rightarrow> Inr (y # ys)))"

lemma fold_res_append [res_simps]:
  "fold_res f (xs @ ys) s =
     (case fold_res f xs s of Inl e \<Rightarrow> Inl e | Inr s' \<Rightarrow> fold_res f ys s')"
  by (induction xs arbitrary: s) (auto split: sum.splits)

text \<open>Nested loops that thread one state are one loop over the concatenation.\<close>

lemma fold_res_concat [res_simps]:
  "fold_res (\<lambda>x. fold_res f (g x)) xs s = fold_res f (concat (map g xs)) s"
  by (induction xs arbitrary: s) (auto simp: fold_res_append split: sum.splits)

lemma fold_concat_map: "fold (\<lambda>x. fold f (g x)) xs s = fold f (concat (map g xs)) s"
  by (induction xs arbitrary: s) auto

text \<open>The invariant rule of a loop that returned normally.\<close>

lemma fold_res_invariant_prefix:
  assumes run: "fold_res f xs s = Inr t" and init: "P [] s"
    and step: "\<And>ds x rest s s'. \<lbrakk>xs = ds @ x # rest; P ds s; f x s = Inr s'\<rbrakk> \<Longrightarrow> P (ds @ [x]) s'"
  shows "P xs t"
proof -
  have "P (ds @ xs') t" if "fold_res f xs' s' = Inr t" "P ds s'" "xs = ds @ xs'" for xs' s' ds
    using that
  proof (induction xs' arbitrary: s' ds)
    case (Cons x xs')
    from Cons.prems(1) obtain s'' where s'': "f x s' = Inr s''" "fold_res f xs' s'' = Inr t"
      by (auto split: sum.splits)
    have "P (ds @ [x]) s''"
      using step [OF Cons.prems(3) Cons.prems(2) s''(1)] .
    from Cons.IH [OF s''(2) this] Cons.prems(3) show ?case by simp
  qed simp
  from this [of xs s "[]"] run init show ?thesis by simp
qed

lemma fold_res_invariant:
  assumes run: "fold_res f xs s = Inr t" and init: "P [] s"
    and step: "\<And>ds x s s'. \<lbrakk>x \<in> set xs; P ds s; f x s = Inr s'\<rbrakk> \<Longrightarrow> P (ds @ [x]) s'"
  shows "P xs t"
  using run init by (rule fold_res_invariant_prefix) (auto intro: step)

lemma map_res_Inr_iff:
  "map_res f xs = Inr ys \<longleftrightarrow> list_all2 (\<lambda>x y. f x = Inr y) xs ys"
proof (induction xs arbitrary: ys)
  case Nil
  then show ?case by auto
next
  case (Cons x xs)
  show ?case
    by (cases "f x"; cases "map_res f xs"; cases ys) (auto simp: Cons.IH [symmetric])
qed

lemma map_res_Inl: "map_res f xs = Inl e \<Longrightarrow> \<exists>x \<in> set xs. f x = Inl e"
  by (induction xs) (auto split: sum.splits)

lemma map_res_length: "map_res f xs = Inr ys \<Longrightarrow> length ys = length xs"
  by (simp add: map_res_Inr_iff list_all2_lengthD)

text \<open>A loop whose body may fail to return.\<close>

fun fold_opt :: "('a \<Rightarrow> 's \<Rightarrow> 's option) \<Rightarrow> 'a list \<Rightarrow> 's \<Rightarrow> 's option" where
  "fold_opt f [] s = Some s"
| "fold_opt f (x # xs) s = (case f x s of None \<Rightarrow> None | Some s' \<Rightarrow> fold_opt f xs s')"

lemma fold_opt_append [res_simps]:
  "fold_opt f (xs @ ys) s = (case fold_opt f xs s of None \<Rightarrow> None | Some s' \<Rightarrow> fold_opt f ys s')"
  by (induction xs arbitrary: s) (auto split: option.splits)

lemma fold_opt_invariant:
  assumes "fold_opt f xs s = Some t" and "P s"
    and "\<And>x s s'. \<lbrakk>x \<in> set xs; P s; f x s = Some s'\<rbrakk> \<Longrightarrow> P s'"
  shows "P t"
  using assms
proof (induction xs arbitrary: s)
  case (Cons x xs)
  then obtain s' where s': "f x s = Some s'" "fold_opt f xs s' = Some t" by (auto split: option.splits)
  have "P s'" by (rule Cons.prems(3) [OF _ Cons.prems(2) s'(1)]) simp
  then show ?case by (rule Cons.IH [OF s'(2)]) (rule Cons.prems(3), simp_all)
qed simp

text \<open>A call into application code either returns or panics with a message.\<close>

datatype 'a call = Returns 'a | Panics string

section \<open>Go maps\<close>

type_synonym ('k, 'v) gomap = "('k \<times> 'v) list"

abbreviation gm_get :: "('k, 'v) gomap \<Rightarrow> 'k \<Rightarrow> 'v option" where
  "gm_get \<equiv> map_of"

definition gm_put :: "'k \<Rightarrow> 'v \<Rightarrow> ('k, 'v) gomap \<Rightarrow> ('k, 'v) gomap" where
  "gm_put k v m = AList.update k v m"

definition gm_del :: "'k \<Rightarrow> ('k, 'v) gomap \<Rightarrow> ('k, 'v) gomap" where
  "gm_del k m = AList.delete k m"

text \<open>Reading a missing key of a map of integers, of slices or of strings gives the zero value.\<close>

definition gm_int :: "('k, int) gomap \<Rightarrow> 'k \<Rightarrow> int" where
  "gm_int m k = (case map_of m k of None \<Rightarrow> 0 | Some v \<Rightarrow> v)"

definition gm_list :: "('k, 'v list) gomap \<Rightarrow> 'k \<Rightarrow> 'v list" where
  "gm_list m k = (case map_of m k of None \<Rightarrow> [] | Some v \<Rightarrow> v)"

definition gm_bool :: "('k, bool) gomap \<Rightarrow> 'k \<Rightarrow> bool" where
  "gm_bool m k \<longleftrightarrow> map_of m k = Some True"

definition gm_wf :: "('k, 'v) gomap \<Rightarrow> bool" where
  "gm_wf m \<longleftrightarrow> distinct (map fst m)"

lemma gm_get_put [simp, gomap_simps]: "gm_get (gm_put k v m) = (gm_get m)(k \<mapsto> v)"
  by (simp only: gm_put_def update_conv')

lemma gm_get_del [simp, gomap_simps]: "gm_get (gm_del k m) = (gm_get m)(k := None)"
  by (simp only: gm_del_def delete_conv')

lemma dom_gm_put: "dom (gm_get (gm_put k v m)) = insert k (dom (gm_get m))"
  by (simp only: gm_get_put dom_fun_upd option.distinct if_False)

lemma gm_int_put [simp, gomap_simps]: "gm_int (gm_put k v m) k' = (if k' = k then v else gm_int m k')"
  by (simp add: gm_int_def)

lemma gm_list_put [simp, gomap_simps]: "gm_list (gm_put k v m) k' = (if k' = k then v else gm_list m k')"
  by (simp add: gm_list_def)

lemma gm_bool_put [simp, gomap_simps]: "gm_bool (gm_put k v m) k' = (if k' = k then v else gm_bool m k')"
  by (simp add: gm_bool_def)

lemma gm_keys_put [simp, gomap_simps]: "fst ` set (gm_put k v m) = insert k (fst ` set m)"
  by (simp add: gm_put_def dom_update)

lemma gm_keys_del [simp, gomap_simps]: "fst ` set (gm_del k m) = fst ` set m - {k}"
proof -
  have "set (map fst (AList.delete k m)) = set (map fst m) - {k}"
    by (simp only: AList.delete_keys set_removeAll)
  then show ?thesis by (simp only: gm_del_def set_map)
qed

lemma gm_keys_put_list: "map fst (gm_put k v m) = (if k \<in> fst ` set m then map fst m else map fst m @ [k])"
  by (simp add: gm_put_def update_keys)

lemma gm_wf_Nil [simp]: "gm_wf []"
  by (simp add: gm_wf_def)

lemma gm_wf_put [simp]: "gm_wf m \<Longrightarrow> gm_wf (gm_put k v m)"
  by (simp add: gm_wf_def gm_put_def distinct_update)

lemma gm_wf_del [simp]: "gm_wf m \<Longrightarrow> gm_wf (gm_del k m)"
  by (simp add: gm_wf_def gm_del_def distinct_delete)

lemma gm_get_map_values: "gm_get (map (\<lambda>(k, v). (k, f v)) m) k = map_option f (gm_get m k)"
  by (induction m) auto

lemma gm_get_in_set: "gm_wf m \<Longrightarrow> gm_get m k = Some v \<longleftrightarrow> (k, v) \<in> set m"
  by (simp add: gm_wf_def)

lemma gm_int_filter:
  assumes "gm_wf m"
  shows "v \<in> fst ` set (filter (\<lambda>(_, d). P d) m) \<longleftrightarrow> v \<in> fst ` set m \<and> P (gm_int m v)"
proof -
  have "v \<in> fst ` set (filter (\<lambda>(_, d). P d) m) \<longleftrightarrow> (\<exists>d. (v, d) \<in> set m \<and> P d)" by force
  also have "\<dots> \<longleftrightarrow> (\<exists>d. gm_get m v = Some d \<and> P d)" using gm_get_in_set [OF assms] by simp
  also have "\<dots> \<longleftrightarrow> gm_get m v \<noteq> None \<and> P (gm_int m v)" by (auto simp: gm_int_def)
  also have "gm_get m v \<noteq> None \<longleftrightarrow> v \<in> fst ` set m" by (metis map_of_eq_None_iff)
  finally show ?thesis .
qed

lemma gm_get_None: "gm_get m k = None \<longleftrightarrow> k \<notin> fst ` set m"
  by (rule map_of_eq_None_iff)

text \<open>
  A list of keyed values agrees with itself and with a map: what a loop that records the first
  value of every key and fails on a different one establishes.
\<close>

definition consistent :: "('a \<Rightarrow> 'k) \<Rightarrow> ('a \<Rightarrow> 'v) \<Rightarrow> 'a list \<Rightarrow> ('k \<Rightarrow> 'v option) \<Rightarrow> bool" where
  "consistent f g xs m \<longleftrightarrow>
     (\<forall>x \<in> set xs. (\<forall>y \<in> set xs. f x = f y \<longrightarrow> g x = g y) \<and> (\<forall>v. m (f x) = Some v \<longrightarrow> g x = v))"

lemma consistent_Nil [simp]: "consistent f g [] m"
  by (simp add: consistent_def)

lemma consistent_Cons:
  "consistent f g (x # xs) m \<longleftrightarrow>
     (\<forall>v. m (f x) = Some v \<longrightarrow> v = g x) \<and> consistent f g xs (m(f x \<mapsto> g x))" (is "?l \<longleftrightarrow> ?m \<and> ?r")
proof (intro iffI conjI)
  assume l: ?l
  then show ?m unfolding consistent_def by (metis list.set_intros(1))
  show ?r
    unfolding consistent_def
  proof (intro ballI conjI allI impI)
    fix y z assume "y \<in> set xs" "z \<in> set xs" "f y = f z"
    with l show "g y = g z" unfolding consistent_def by (meson list.set_intros(2))
  next
    fix y v assume y: "y \<in> set xs" "(m(f x \<mapsto> g x)) (f y) = Some v"
    show "g y = v"
    proof (cases "f y = f x")
      case True
      with l y(1) have "g y = g x" unfolding consistent_def by (meson list.set_intros)
      with True y(2) show ?thesis by simp
    next
      case False
      with l y show ?thesis unfolding consistent_def by (metis fun_upd_other list.set_intros(2))
    qed
  qed
next
  assume a: "?m \<and> ?r"
  then have xy: "g y = g x" if "y \<in> set xs" "f y = f x" for y
    using that unfolding consistent_def by (metis fun_upd_same)
  show ?l
    unfolding consistent_def
  proof (intro ballI conjI allI impI)
    fix y z assume yz: "y \<in> set (x # xs)" "z \<in> set (x # xs)" "f y = f z"
    show "g y = g z"
    proof (cases "f y = f x")
      case True
      with yz xy have "g y = g x" "g z = g x" by auto
      then show ?thesis by simp
    next
      case False
      with yz a show ?thesis unfolding consistent_def by (metis set_ConsD)
    qed
  next
    fix y v assume y: "y \<in> set (x # xs)" "m (f y) = Some v"
    show "g y = v"
    proof (cases "f y = f x")
      case True
      with y xy have "g y = g x" by auto
      with True y(2) a show ?thesis by metis
    next
      case False
      with y a show ?thesis unfolding consistent_def by (metis fun_upd_other set_ConsD)
    qed
  qed
qed

section \<open>Lists\<close>

text \<open>The first position of an element.\<close>

fun index_of :: "'a \<Rightarrow> 'a list \<Rightarrow> nat option" where
  "index_of x [] = None"
| "index_of x (y # ys) = (if y = x then Some 0 else map_option Suc (index_of x ys))"

lemma index_of_Some: "index_of x xs = Some i \<Longrightarrow> i < length xs \<and> xs ! i = x"
  by (induction xs arbitrary: i) (auto split: if_splits)

lemma index_of_None: "index_of x xs = None \<longleftrightarrow> x \<notin> set xs"
  by (induction xs) auto

text \<open>Keep the first element of every key.\<close>

fun dedupe_on :: "('a \<Rightarrow> 'k) \<Rightarrow> 'k list \<Rightarrow> 'a list \<Rightarrow> 'a list" where
  "dedupe_on f seen [] = []"
| "dedupe_on f seen (x # xs) =
     (if f x \<in> set seen then dedupe_on f seen xs else x # dedupe_on f (f x # seen) xs)"

lemma dedupe_on_seen_cong: "set seen = set seen' \<Longrightarrow> dedupe_on f seen xs = dedupe_on f seen' xs"
proof (induction xs arbitrary: seen seen')
  case (Cons x xs)
  from Cons.IH [OF Cons.prems] Cons.IH [of "f x # seen" "f x # seen'"] Cons.prems show ?case by simp
qed simp

lemma dedupe_on_keys: "f ` set (dedupe_on f seen xs) = f ` set xs - set seen"
  by (induction f seen xs rule: dedupe_on.induct) auto

lemma dedupe_on_subset: "set (dedupe_on f seen xs) \<subseteq> set xs"
  by (induction f seen xs rule: dedupe_on.induct) auto

lemma dedupe_on_distinct: "distinct (map f (dedupe_on f seen xs))"
proof (induction f seen xs rule: dedupe_on.induct)
  case (2 f seen x xs)
  have "f x \<notin> f ` set (dedupe_on f (f x # seen) xs)"
    by (simp add: dedupe_on_keys)
  with 2 show ?case by auto
qed simp

lemma dedupe_on_first:
  "x \<in> set (dedupe_on f seen xs) \<Longrightarrow> find (\<lambda>y. f y = f x) xs = Some x"
proof (induction f seen xs rule: dedupe_on.induct)
  case (2 f seen y ys)
  have "f ` set (dedupe_on f (f y # seen) ys) = f ` set ys - set (f y # seen)"
    by (rule dedupe_on_keys)
  moreover have "f ` set (dedupe_on f seen ys) = f ` set ys - set seen"
    by (rule dedupe_on_keys)
  ultimately show ?case using 2 by (auto split: if_splits)
qed simp

lemma ball_triple: "(\<forall>(a, b, c) \<in> S. P a b c) \<longleftrightarrow> (\<forall>a b c. (a, b, c) \<in> S \<longrightarrow> P a b c)"
  by auto

lemma sort_key_set [simp]: "set (sort_key f xs) = set xs"
  by simp

lemma distinct_sort_key_map: "distinct (map f xs) \<Longrightarrow> distinct (map f (sort_key f xs))"
  by (metis distinct_map_filter mset_eq_imp_distinct_iff mset_map mset_sort)

lemma find_append: "find P (xs @ ys) = (case find P xs of None \<Rightarrow> find P ys | Some x \<Rightarrow> Some x)"
  by (induction xs) auto

lemma find_SomeD: "find P xs = Some x \<Longrightarrow> x \<in> set xs \<and> P x"
  by (auto simp: find_Some_iff)

text \<open>A list that is sorted by a key without repetition is determined by its set.\<close>

lemma sorted_key_unique:
  assumes "sorted (map f xs)" "distinct (map f xs)" "sorted (map f ys)" "distinct (map f ys)"
    and "set xs = set ys"
  shows "xs = ys"
proof -
  have "set (map f xs) = set (map f ys)" using assms(5) by simp
  with assms have "map f xs = map f ys" by (blast intro: sorted_distinct_set_unique)
  moreover have "inj_on f (set xs \<union> set ys)" using assms(2,5) by (simp add: distinct_map)
  ultimately show ?thesis by (rule map_inj_on)
qed

section \<open>Strings\<close>

text \<open>
  \<^verbatim>\<open>strings.TrimSpace\<close> removes leading and trailing runes for which
  \<^verbatim>\<open>unicode.IsSpace\<close> holds. Over bytes, these are the UTF-8 encodings below; UTF-8 is
  self-synchronising, so matching an encoding at either end is matching the rune.
\<close>

definition space_encodings :: "string list" where
  "space_encodings =
     [[CHR 0x09], [CHR 0x0A], [CHR 0x0B], [CHR 0x0C], [CHR 0x0D], [CHR 0x20],
      [CHR 0xC2, CHR 0x85], [CHR 0xC2, CHR 0xA0], [CHR 0xE1, CHR 0x9A, CHR 0x80],
      [CHR 0xE2, CHR 0x80, CHR 0x80], [CHR 0xE2, CHR 0x80, CHR 0x81],
      [CHR 0xE2, CHR 0x80, CHR 0x82], [CHR 0xE2, CHR 0x80, CHR 0x83],
      [CHR 0xE2, CHR 0x80, CHR 0x84], [CHR 0xE2, CHR 0x80, CHR 0x85],
      [CHR 0xE2, CHR 0x80, CHR 0x86], [CHR 0xE2, CHR 0x80, CHR 0x87],
      [CHR 0xE2, CHR 0x80, CHR 0x88], [CHR 0xE2, CHR 0x80, CHR 0x89],
      [CHR 0xE2, CHR 0x80, CHR 0x8A], [CHR 0xE2, CHR 0x80, CHR 0xA8],
      [CHR 0xE2, CHR 0x80, CHR 0xA9], [CHR 0xE2, CHR 0x80, CHR 0xAF],
      [CHR 0xE2, CHR 0x81, CHR 0x9F], [CHR 0xE3, CHR 0x80, CHR 0x80]]"

text \<open>The length of the first of the given words that \<open>s\<close> starts with; 0 when there is none.\<close>

fun match_len :: "'a list list \<Rightarrow> 'a list \<Rightarrow> nat" where
  "match_len [] s = 0"
| "match_len (p # ps) s = (if take (length p) s = p then length p else match_len ps s)"

function strip_while :: "'a list list \<Rightarrow> 'a list \<Rightarrow> 'a list" where
  "strip_while ps s =
     (let n = match_len ps s in if n = 0 \<or> s = [] then s else strip_while ps (drop n s))"
  by pat_completeness auto
termination
  by (relation "measure (\<lambda>(ps, s). length s)") auto

declare strip_while.simps [simp del]

definition trim_left :: "string \<Rightarrow> string" where
  "trim_left s = strip_while space_encodings s"

definition trim_right :: "string \<Rightarrow> string" where
  "trim_right s = rev (strip_while (map rev space_encodings) (rev s))"

definition trim_space :: "string \<Rightarrow> string" where
  "trim_space s = trim_right (trim_left s)"

lemma strip_while_no_match:
  "strip_while ps s = [] \<or> match_len ps (strip_while ps s) = 0"
proof (induction ps s rule: strip_while.induct)
  case (1 ps s)
  show ?case
  proof (cases "match_len ps s = 0 \<or> s = []")
    case True
    then show ?thesis by (auto simp: strip_while.simps [of ps s] Let_def)
  next
    case False
    with 1 show ?thesis by (simp add: strip_while.simps [of ps s] Let_def)
  qed
qed

lemma strip_while_fix: "match_len ps s = 0 \<Longrightarrow> strip_while ps s = s"
  by (simp add: strip_while.simps [of ps s])

lemma strip_while_Nil [simp]: "strip_while ps [] = []"
  by (simp add: strip_while.simps [of ps "[]"] Let_def)

lemma strip_while_idem: "strip_while ps (strip_while ps s) = strip_while ps s"
  using strip_while_no_match [of ps s] by (auto simp: strip_while_fix)

lemma strip_while_suffix: "\<exists>xs. s = xs @ strip_while ps s"
proof (induction ps s rule: strip_while.induct)
  case (1 ps s)
  show ?case
  proof (cases "match_len ps s = 0 \<or> s = []")
    case True
    then have "strip_while ps s = s" by (auto simp: strip_while.simps [of ps s] Let_def)
    then show ?thesis by simp
  next
    case False
    with 1 obtain xs where "drop (match_len ps s) s = xs @ strip_while ps (drop (match_len ps s) s)"
      by auto
    then have "s = (take (match_len ps s) s @ xs) @ strip_while ps (drop (match_len ps s) s)"
      by (metis append.assoc append_take_drop_id)
    moreover from False have "strip_while ps s = strip_while ps (drop (match_len ps s) s)"
      by (simp add: strip_while.simps [of ps s] Let_def)
    ultimately show ?thesis by metis
  qed
qed

text \<open>A word that a prefix of \<open>s\<close> starts with is a word \<open>s\<close> starts with.\<close>

lemma match_len_prefix:
  "[] \<notin> set ps \<Longrightarrow> match_len ps (s @ t) = 0 \<Longrightarrow> match_len ps s = 0"
proof (induction ps)
  case (Cons p ps)
  show ?case
  proof (cases "take (length p) s = p")
    case True
    then have "length p \<le> length s" by (metis length_take min.cobounded1)
    with True have "take (length p) (s @ t) = p" by simp
    with Cons.prems show ?thesis by simp
  next
    case False
    from Cons.prems have "match_len ps (s @ t) = 0"
      by (auto split: if_splits)
    with Cons False show ?thesis by simp
  qed
qed simp

lemma trim_right_prefix: "\<exists>xs. s = trim_right s @ xs"
proof -
  obtain xs where "rev s = xs @ strip_while (map rev space_encodings) (rev s)"
    using strip_while_suffix by blast
  then have "s = trim_right s @ rev xs"
    by (metis rev_append rev_rev_ident trim_right_def)
  then show ?thesis by blast
qed

lemma trim_space_idem [simp]: "trim_space (trim_space s) = trim_space s"
proof -
  define l where "l = trim_left s"
  have ne: "[] \<notin> set space_encodings" by (simp add: space_encodings_def)
  obtain xs where xs: "l = trim_right l @ xs" using trim_right_prefix by blast
  have "trim_left (trim_right l) = trim_right l"
  proof (cases "l = []")
    case True
    then show ?thesis by (simp add: trim_right_def trim_left_def)
  next
    case False
    then have "match_len space_encodings l = 0"
      using strip_while_no_match unfolding l_def trim_left_def by blast
    then have "match_len space_encodings (trim_right l) = 0"
      using match_len_prefix [OF ne] xs by metis
    then show ?thesis by (simp add: trim_left_def strip_while_fix)
  qed
  moreover have "trim_right (trim_right l) = trim_right l"
    by (simp add: trim_right_def strip_while_idem)
  ultimately show ?thesis by (simp add: trim_space_def l_def)
qed

lemma trim_space_Nil [simp]: "trim_space [] = []"
  by (simp add: trim_space_def trim_left_def trim_right_def)

text \<open>\<^verbatim>\<open>strings.Split\<close> on a single separator byte.\<close>

fun split_on :: "'a \<Rightarrow> 'a list \<Rightarrow> 'a list list" where
  "split_on c [] = [[]]"
| "split_on c (x # xs) =
     (if x = c then [] # split_on c xs
      else (case split_on c xs of [] \<Rightarrow> [[x]] | s # ss \<Rightarrow> (x # s) # ss))"

lemma split_on_nonempty [simp]: "split_on c xs \<noteq> []"
  by (cases xs) (auto split: list.splits)

text \<open>\<^verbatim>\<open>strings.Join\<close>.\<close>

fun join :: "'a list \<Rightarrow> 'a list list \<Rightarrow> 'a list" where
  "join sep [] = []"
| "join sep [s] = s"
| "join sep (s # t # ss) = s @ sep @ join sep (t # ss)"

lemma join_split_on: "join [c] (split_on c xs) = xs"
proof (induction xs)
  case (Cons x xs)
  obtain s ss where "split_on c xs = s # ss"
    by (cases "split_on c xs") auto
  with Cons show ?case by (cases ss) auto
qed simp

lemma split_on_no_sep: "s \<in> set (split_on c xs) \<Longrightarrow> c \<notin> set s"
proof (induction xs arbitrary: s)
  case (Cons x xs)
  then show ?case by (auto split: if_splits list.splits)
qed simp

text \<open>
  \<^verbatim>\<open>strings.ToLower\<close>, for comparison with lower-case ASCII words. Outside ASCII exactly two letters
  have an ASCII lower case, U+0130 (bytes C4 B0, to \<open>i\<close>) and U+212A (bytes E2 84 AA, to \<open>k\<close>); every other
  byte above 7F stays part of a letter outside ASCII, and is left as it is.
\<close>

definition ascii_lower :: "char \<Rightarrow> char" where
  "ascii_lower c = (if CHR ''A'' \<le> c \<and> c \<le> CHR ''Z'' then char_of (of_char c + 32 :: nat) else c)"

fun ToLower :: "string \<Rightarrow> string" where
  "ToLower [] = []"
| "ToLower (a # s) =
     (case s of
        b # s' \<Rightarrow>
          if a = CHR 0xC4 \<and> b = CHR 0xB0 then CHR ''i'' # ToLower s'
          else
            (case s' of
               c # s'' \<Rightarrow>
                 if a = CHR 0xE2 \<and> b = CHR 0x84 \<and> c = CHR 0xAA then CHR ''k'' # ToLower s''
                 else ascii_lower a # ToLower s
             | [] \<Rightarrow> ascii_lower a # ToLower s)
      | [] \<Rightarrow> [ascii_lower a])"

text \<open>Decimal digits, for the \<^verbatim>\<open>%d\<close> of a message.\<close>

fun nat_digits :: "nat \<Rightarrow> string" where
  "nat_digits n = (if n < 10 then [char_of (n + 48)] else nat_digits (n div 10) @ [char_of (n mod 10 + 48)])"

declare nat_digits.simps [simp del]

lemma map_sum_eq_Inr: "map_sum f g x = Inr y \<longleftrightarrow> (\<exists>x'. x = Inr x' \<and> y = g x')"
  by (cases x) auto

text \<open>The hexadecimal text of bytes.\<close>

definition hex_digit :: "nat \<Rightarrow> char" where
  "hex_digit n = (if n < 10 then char_of (48 + n) else char_of (87 + n))"

definition hex_EncodeToString :: "string \<Rightarrow> string" where
  "hex_EncodeToString bytes =
     concat (map (\<lambda>c. [hex_digit (of_char c div 16), hex_digit (of_char c mod 16)]) bytes)"

text \<open>The result of an operation on durations, at its 64 bits.\<close>

definition duration_wrap :: "int \<Rightarrow> int" where
  "duration_wrap x = (x + 2 ^ 63) mod 2 ^ 64 - 2 ^ 63"

lemma duration_wrap_id: "- (2 ^ 63) \<le> x \<Longrightarrow> x < 2 ^ 63 \<Longrightarrow> duration_wrap x = x"
  by (simp add: duration_wrap_def)

lemma duration_wrap_range: "- (2 ^ 63) \<le> duration_wrap x" "duration_wrap x < 2 ^ 63"
  using pos_mod_bound [of "2 ^ 64" "x + 2 ^ 63"] pos_mod_sign [of "2 ^ 64" "x + 2 ^ 63"] by (simp_all add: duration_wrap_def)

end
