(* ===== verification/Digraph.thy ===== *)
theory Digraph
  imports Prelude
begin

text \<open>
  The two graph algorithms the planner and the ordering package share. Both sort with Kahn's
  algorithm over a map of in-degrees and a pool of eligible nodes, and both recover a concrete
  cycle by a depth-first search when nodes are left over; they differ in the pool (a heap
  keyed by insertion index, a slice kept sorted by identity) and in the successor lists.
  \<^item> \<open>ready_pool\<close> is the interface of a pool of eligible nodes.
  \<^item> \<open>kahn\<close> is the contract of a loop that drains such a pool; the order it emits is shown
    to be the greedy topological order, once, for both implementations.
  \<^item> \<open>visit\<close> and \<open>find_cycle\<close> model the depth-first search; what it reports is a cycle,
    and it reports one whenever there is one.
\<close>

section \<open>Relaxing the successors of an emitted node\<close>

text \<open>
  \<^verbatim>\<open>for _, next := range adj[id] { indeg[next]--; if indeg[next] == 0 { push(next) } }\<close>
\<close>

fun relax :: "('a \<Rightarrow> 'p \<Rightarrow> 'p) \<Rightarrow> 'a list \<Rightarrow> ('a, int) gomap \<Rightarrow> 'p \<Rightarrow> ('a, int) gomap \<times> 'p" where
  "relax push [] deg p = (deg, p)"
| "relax push (y # ys) deg p =
     (let deg' = gm_put y (gm_int deg y - 1) deg
      in relax push ys deg' (if gm_int deg' y = 0 then push y p else p))"

text \<open>How many entries of the in-degree map are still positive: what bounds the loop.\<close>

definition positive_count :: "('a, int) gomap \<Rightarrow> nat" where
  "positive_count deg = card {k \<in> fst ` set deg. 0 < gm_int deg k}"

lemma positive_count_put_nonpos:
  assumes "gm_int deg y - 1 = 0"
  shows "Suc (positive_count (gm_put y (gm_int deg y - 1) deg)) = positive_count deg"
proof -
  let ?P = "{k \<in> fst ` set deg. 0 < gm_int deg k}"
  from assms have y: "gm_int deg y = 1" by simp
  have "y \<in> fst ` set deg"
  proof (rule ccontr)
    assume "y \<notin> fst ` set deg"
    then have "gm_int deg y = 0" by (simp add: gm_int_def gm_get_None [THEN iffD2])
    with y show False by simp
  qed
  with y have "y \<in> ?P" by simp
  moreover have "{k \<in> fst ` set (gm_put y (gm_int deg y - 1) deg).
      0 < gm_int (gm_put y (gm_int deg y - 1) deg) k} = ?P - {y}"
    using y by auto
  moreover have "finite ?P" by simp
  ultimately show ?thesis
    unfolding positive_count_def by (metis card_Suc_Diff1)
qed

lemma positive_count_put_le: "positive_count (gm_put y (gm_int deg y - 1) deg) \<le> positive_count deg"
proof -
  have "{k \<in> fst ` set (gm_put y (gm_int deg y - 1) deg).
      0 < gm_int (gm_put y (gm_int deg y - 1) deg) k}
    \<subseteq> {k \<in> fst ` set deg. 0 < gm_int deg k}"
  proof
    fix k
    assume k: "k \<in> {k \<in> fst ` set (gm_put y (gm_int deg y - 1) deg).
      0 < gm_int (gm_put y (gm_int deg y - 1) deg) k}"
    then have pos: "0 < gm_int deg k" by (auto split: if_splits)
    then have "k \<in> fst ` set deg"
      using gm_get_None [of deg k] by (fastforce simp: gm_int_def)
    with pos show "k \<in> {k \<in> fst ` set deg. 0 < gm_int deg k}" by simp
  qed
  moreover have "finite {k \<in> fst ` set deg. 0 < gm_int deg k}" by simp
  ultimately show ?thesis
    unfolding positive_count_def by (rule card_mono [rotated])
qed

text \<open>A push spends a positive entry, so entries and pool together never grow.\<close>

lemma relax_measure:
  assumes push: "\<And>x p. size_p (push x p) = Suc (size_p p)"
  shows "relax push ys deg p = (deg', p') \<Longrightarrow>
     positive_count deg' + size_p p' \<le> positive_count deg + size_p p"
proof (induction ys arbitrary: deg p)
  case (Cons y ys)
  let ?d = "gm_put y (gm_int deg y - 1) deg"
  show ?case
  proof (cases "gm_int deg y - 1 = 0")
    case True
    with Cons.prems have "relax push ys ?d (push y p) = (deg', p')" by (simp add: Let_def)
    from Cons.IH [OF this] positive_count_put_nonpos [OF True] show ?thesis
      by (simp add: push)
  next
    case False
    with Cons.prems have "relax push ys ?d p = (deg', p')" by (simp add: Let_def)
    from Cons.IH [OF this] positive_count_put_le [of y deg] show ?thesis by simp
  qed
qed simp

lemma relax_deg: "relax push ys deg p = (deg', p') \<Longrightarrow> gm_int deg' v = gm_int deg v - int (count_list ys v)"
  by (induction ys arbitrary: deg p) (auto simp: Let_def)

lemma relax_keys:
  "relax push ys deg p = (deg', p') \<Longrightarrow> set ys \<subseteq> fst ` set deg \<Longrightarrow> map fst deg' = map fst deg"
proof (induction ys arbitrary: deg p)
  case (Cons y ys)
  let ?d = "gm_put y (gm_int deg y - 1) deg"
  have "map fst ?d = map fst deg" using Cons.prems(2) by (simp add: gm_keys_put_list)
  moreover have "fst ` set ?d = fst ` set deg" using Cons.prems(2) by auto
  ultimately show ?case
    using Cons.IH [of ?d] Cons.prems by (auto simp: Let_def simp del: gm_keys_put)
qed simp

section \<open>The pool of eligible nodes\<close>

locale ready_pool =
  fixes push :: "'a \<Rightarrow> 'p \<Rightarrow> 'p"
    and pop :: "'p \<Rightarrow> ('a \<times> 'p) option"
    and items :: "'p \<Rightarrow> 'a multiset"
    and key :: "'a \<Rightarrow> 'k::linorder"
    and ok :: "'p \<Rightarrow> bool"
  assumes items_push: "items (push x p) = add_mset x (items p)"
    and pop_None: "pop p = None \<longleftrightarrow> items p = {#}"
    and pop_Some: "pop p = Some (x, p') \<Longrightarrow> items p = add_mset x (items p')"
    and ok_push: "ok p \<Longrightarrow> ok (push x p)"
    and ok_pop: "ok p \<Longrightarrow> pop p = Some (x, p') \<Longrightarrow> ok p'"
    and pop_min: "ok p \<Longrightarrow> pop p = Some (x, p') \<Longrightarrow> y \<in># items p \<Longrightarrow> key x \<le> key y"
begin

lemma relax_ok: "ok p \<Longrightarrow> relax push ys deg p = (deg', p') \<Longrightarrow> ok p'"
proof (induction ys arbitrary: deg p)
  case (Cons y ys)
  let ?p = "if gm_int deg y - 1 = 0 then push y p else p"
  have "ok ?p" using Cons.prems(1) by (simp add: ok_push)
  moreover have "relax push ys (gm_put y (gm_int deg y - 1) deg) ?p = (deg', p')"
    using Cons.prems(2) by (simp add: Let_def)
  ultimately show ?case by (rule Cons.IH)
qed simp

text \<open>Relaxing pushes exactly the nodes whose in-degree reaches zero, each once.\<close>

lemma relax_items:
  "relax push ys deg p = (deg', p') \<Longrightarrow> (\<And>v. int (count_list ys v) \<le> gm_int deg v) \<Longrightarrow>
   count (items p') v = count (items p) v + (if 0 < gm_int deg v \<and> gm_int deg' v = 0 then 1 else 0)"
proof (induction ys arbitrary: deg p)
  case (Cons y ys)
  let ?d = "gm_put y (gm_int deg y - 1) deg"
  let ?p = "if gm_int deg y - 1 = 0 then push y p else p"
  from Cons.prems(1) have run: "relax push ys ?d ?p = (deg', p')" by (simp add: Let_def)
  have le: "int (count_list ys w) \<le> gm_int ?d w" for w
    using Cons.prems(2) [of w] by (auto split: if_splits)
  have y: "0 < gm_int deg y"
    using Cons.prems(2) [of y] by (simp split: if_splits)
  have "gm_int deg' v \<le> gm_int ?d v"
    using relax_deg [OF run, of v] by simp
  moreover have "0 \<le> gm_int deg' v"
    using relax_deg [OF run, of v] le [of v] by simp
  ultimately show ?case
    using Cons.IH [OF run le] y by (auto simp: items_push)
qed auto

lemma relax_items_subset:
  "relax push ys deg p = (deg', p') \<Longrightarrow> set_mset (items p') \<subseteq> set_mset (items p) \<union> set ys"
proof (induction ys arbitrary: deg p)
  case (Cons y ys)
  then show ?case
    by (fastforce simp: Let_def items_push split: if_splits)
qed auto

end

section \<open>Kahn's algorithm\<close>

text \<open>
  The abstract specification: a node is eligible when every predecessor has been emitted, and
  the greedy order emits, at each position, the eligible node of least key.
\<close>

definition eligible :: "'a list \<Rightarrow> ('a \<Rightarrow> 'a list) \<Rightarrow> 'a list \<Rightarrow> 'a set" where
  "eligible nodes succ emitted =
     {v \<in> set nodes. v \<notin> set emitted \<and>
        (\<forall>u \<in> set nodes. v \<in> set (succ u) \<longrightarrow> u \<in> set emitted)}"

definition greedy_order :: "'a list \<Rightarrow> ('a \<Rightarrow> 'a list) \<Rightarrow> ('a \<Rightarrow> 'k::linorder) \<Rightarrow> 'a list \<Rightarrow> bool" where
  "greedy_order nodes succ key ord \<longleftrightarrow>
     (\<forall>i < length ord. ord ! i \<in> eligible nodes succ (take i ord) \<and>
        (\<forall>v \<in> eligible nodes succ (take i ord). key (ord ! i) \<le> key v))"

definition edges_of :: "'a list \<Rightarrow> ('a \<Rightarrow> 'a list) \<Rightarrow> ('a \<times> 'a) set" where
  "edges_of nodes succ = {(u, v). u \<in> set nodes \<and> v \<in> set (succ u)}"

lemma greedy_order_snoc:
  "greedy_order nodes succ key (ord @ [x]) \<longleftrightarrow>
     greedy_order nodes succ key ord \<and> x \<in> eligible nodes succ ord \<and>
     (\<forall>v \<in> eligible nodes succ ord. key x \<le> key v)"
  unfolding greedy_order_def by (auto simp: nth_append less_Suc_eq)

lemma greedy_order_nodes:
  "greedy_order nodes succ key ord \<Longrightarrow> distinct ord \<and> set ord \<subseteq> set nodes"
proof (induction ord rule: rev_induct)
  case (snoc x ord)
  then show ?case by (auto simp: greedy_order_snoc eligible_def)
qed simp

lemma greedy_order_preds:
  "greedy_order nodes succ key ord \<Longrightarrow> u \<in> set nodes \<Longrightarrow> v \<in> set (succ u) \<Longrightarrow> v \<in> set ord \<Longrightarrow>
     u \<in> set ord"
proof (induction ord rule: rev_induct)
  case (snoc x ord)
  then show ?case by (auto simp: greedy_order_snoc eligible_def)
qed simp

text \<open>An emitted node comes after all of its predecessors.\<close>

lemma greedy_order_before:
  assumes ord: "greedy_order nodes succ key ord"
    and edge: "u \<in> set nodes" "v \<in> set (succ u)" and j: "j < length ord" "ord ! j = v"
  shows "\<exists>i < j. ord ! i = u"
proof -
  from ord j edge have "u \<in> set (take j ord)"
    by (auto simp: greedy_order_def eligible_def)
  with j show ?thesis by (auto simp: in_set_conv_nth)
qed

lemma greedy_order_acyclic:
  assumes ord: "greedy_order nodes succ key ord" and all: "set nodes \<subseteq> set ord"
    and closed: "\<And>u. u \<in> set nodes \<Longrightarrow> set (succ u) \<subseteq> set nodes"
  shows "acyclic (edges_of nodes succ)"
proof -
  from ord have dist: "distinct ord" by (auto dest: greedy_order_nodes)
  define pos where "pos v = (LEAST i. i < length ord \<and> ord ! i = v)" for v
  have pos: "pos (ord ! i) = i" if "i < length ord" for i
    unfolding pos_def using that dist by (auto intro!: Least_equality simp: nth_eq_iff_index_eq)
  have "edges_of nodes succ \<subseteq> measure pos"
  proof
    fix e assume "e \<in> edges_of nodes succ"
    then obtain u v where e: "e = (u, v)" "u \<in> set nodes" "v \<in> set (succ u)"
      by (auto simp: edges_of_def)
    with closed all have "v \<in> set ord" by blast
    then obtain j where j: "j < length ord" "ord ! j = v" by (auto simp: in_set_conv_nth)
    from greedy_order_before [OF ord e(2,3) j] obtain i where "i < j" "ord ! i = u" by blast
    with j e pos show "e \<in> measure pos" by fastforce
  qed
  then show ?thesis
    by (meson acyclic_subset wf_acyclic wf_measure)
qed

text \<open>The greedy order is determined by the graph and an injective key.\<close>

lemma greedy_order_unique:
  assumes "greedy_order nodes succ key xs" "greedy_order nodes succ key ys"
    and len: "length xs = length ys" and inj: "inj_on key (set nodes)"
  shows "xs = ys"
proof -
  have "take i xs = take i ys" if "i \<le> length xs" for i
    using that
  proof (induction i)
    case (Suc i)
    then have IH: "take i xs = take i ys" by simp
    let ?E = "eligible nodes succ (take i xs)"
    have "xs ! i \<in> ?E" "\<forall>v \<in> ?E. key (xs ! i) \<le> key v"
      using Suc.prems assms(1) by (auto simp: greedy_order_def)
    moreover have "ys ! i \<in> ?E" "\<forall>v \<in> ?E. key (ys ! i) \<le> key v"
      using Suc.prems assms(2) len IH by (auto simp: greedy_order_def)
    ultimately have "key (xs ! i) = key (ys ! i)" by (meson order_antisym)
    moreover have "xs ! i \<in> set nodes" "ys ! i \<in> set nodes"
      using \<open>xs ! i \<in> ?E\<close> \<open>ys ! i \<in> ?E\<close> by (auto simp: eligible_def)
    ultimately have "xs ! i = ys ! i" using inj by (auto dest: inj_onD)
    with Suc.prems IH len show ?case by (simp add: take_Suc_conv_app_nth)
  qed simp
  from this [of "length xs"] len show ?thesis by simp
qed

lemma greedy_order_cong:
  "(\<And>u. set (succ u) = set (succ' u)) \<Longrightarrow> greedy_order nodes succ key ord = greedy_order nodes succ' key ord"
  by (simp add: greedy_order_def eligible_def)

text \<open>Incoming edges from the nodes that have not been emitted.\<close>

definition pending :: "'a list \<Rightarrow> ('a \<Rightarrow> 'a list) \<Rightarrow> 'a list \<Rightarrow> 'a \<Rightarrow> nat" where
  "pending nodes succ ord v = count_list (concat (map succ (filter (\<lambda>u. u \<notin> set ord) nodes))) v"

lemma count_list_concat_zero:
  "count_list (concat xss) v = 0 \<longleftrightarrow> (\<forall>xs \<in> set xss. v \<notin> set xs)"
  by (induction xss) (auto simp: count_list_0_iff)

lemma pending_zero:
  "pending nodes succ ord v = 0 \<longleftrightarrow> (\<forall>u \<in> set nodes. v \<in> set (succ u) \<longrightarrow> u \<in> set ord)"
  by (auto simp: pending_def count_list_concat_zero)

lemma pending_cong:
  "(\<And>u v. count_list (succ u) v = count_list (succ' u) v) \<Longrightarrow> pending nodes succ ord v = pending nodes succ' ord v"
  unfolding pending_def by (induction nodes) auto

lemma pending_emitted:
  "greedy_order nodes succ key ord \<Longrightarrow> v \<in> set ord \<Longrightarrow> pending nodes succ ord v = 0"
  by (auto simp: pending_zero dest: greedy_order_preds)

lemma pending_snoc:
  assumes "distinct nodes" "x \<in> set nodes" "x \<notin> set ord"
  shows "pending nodes succ ord v = count_list (succ x) v + pending nodes succ (ord @ [x]) v"
proof -
  from assms(2) obtain as bs where nodes: "nodes = as @ x # bs" by (auto simp: in_set_conv_decomp)
  with assms(1) have "x \<notin> set as" "x \<notin> set bs" by auto
  then have "filter (\<lambda>u. u \<notin> set (ord @ [x])) as = filter (\<lambda>u. u \<notin> set ord) as"
    "filter (\<lambda>u. u \<notin> set (ord @ [x])) bs = filter (\<lambda>u. u \<notin> set ord) bs"
    by (auto intro!: filter_cong)
  with assms(3) nodes show ?thesis by (simp add: pending_def)
qed

text \<open>One more edge from a node is one more pending edge into its target.\<close>

lemma pending_add_edge:
  assumes "distinct nodes" "f \<in> set nodes"
  shows "pending nodes (\<lambda>u. if u = f then succ f @ [t] else succ u) [] v
     = pending nodes succ [] v + (if v = t then 1 else 0)"
proof -
  from assms(2) obtain as bs where nodes: "nodes = as @ f # bs" by (auto simp: in_set_conv_decomp)
  let ?succ = "\<lambda>u. if u = f then succ f @ [t] else succ u"
  from nodes assms(1) have "map ?succ as = map succ as" "map ?succ bs = map succ bs" by auto
  then have "concat (map ?succ nodes) = concat (map succ as) @ succ f @ [t] @ concat (map succ bs)"
    unfolding nodes by (simp del: map_eq_conv)
  then show ?thesis by (simp add: pending_def nodes)
qed

definition kahn_inv ::
  "'a list \<Rightarrow> ('a \<Rightarrow> 'a list) \<Rightarrow> ('a \<Rightarrow> 'k::linorder) \<Rightarrow> ('a, int) gomap \<Rightarrow> 'a multiset \<Rightarrow> 'a list \<Rightarrow> bool" where
  "kahn_inv nodes succ key deg m ord \<longleftrightarrow>
     distinct nodes \<and> (\<forall>u \<in> set nodes. set (succ u) \<subseteq> set nodes) \<and>
     greedy_order nodes succ key ord \<and>
     (\<forall>v. gm_int deg v = int (pending nodes succ ord v)) \<and>
     (\<forall>v. count m v = (if v \<in> eligible nodes succ ord then 1 else 0))"

lemma eligible_pending:
  "v \<in> eligible nodes succ ord \<longleftrightarrow> v \<in> set nodes \<and> v \<notin> set ord \<and> pending nodes succ ord v = 0"
  by (auto simp: eligible_def pending_zero)

text \<open>What is left over when the pool is empty: every node still has a predecessor there.\<close>

lemma kahn_leftover_pred:
  assumes "kahn_inv nodes succ key deg {#} ord" "v \<in> set nodes - set ord"
  shows "\<exists>u \<in> set nodes - set ord. v \<in> set (succ u)"
proof -
  from assms(1) have "v \<notin> eligible nodes succ ord"
    unfolding kahn_inv_def by (metis count_empty zero_neq_one)
  with assms(2) show ?thesis by (auto simp: eligible_def)
qed

locale kahn = ready_pool push pop items key ok
  for push :: "'a \<Rightarrow> 'p \<Rightarrow> 'p" and pop :: "'p \<Rightarrow> ('a \<times> 'p) option"
    and items :: "'p \<Rightarrow> 'a multiset" and key :: "'a \<Rightarrow> 'k::linorder" and ok :: "'p \<Rightarrow> bool" +
  fixes succ :: "'a \<Rightarrow> 'a list"
    and loop :: "('a, int) gomap \<Rightarrow> 'p \<Rightarrow> 'a list \<Rightarrow> ('a, int) gomap \<times> 'a list"
  assumes loop_unfold:
    "loop deg p ord =
       (case pop p of None \<Rightarrow> (deg, ord)
        | Some (x, p') \<Rightarrow> (case relax push (succ x) deg p' of (deg', p'') \<Rightarrow> loop deg' p'' (ord @ [x])))"
begin

lemma step_inv:
  assumes inv: "kahn_inv nodes succ key deg (items p) ord" and ok: "ok p"
    and pop: "pop p = Some (x, p')" and relax: "relax push (succ x) deg p' = (deg', p'')"
  shows "kahn_inv nodes succ key deg' (items p'') (ord @ [x])"
proof -
  note i = inv [unfolded kahn_inv_def]
  have ps: "items p = add_mset x (items p')" by (rule pop_Some [OF pop])
  have elig: "v \<in> eligible nodes succ ord \<longleftrightarrow> v \<in># items p" for v
    using i by (metis count_eq_zero_iff zero_neq_one)
  have x: "x \<in> eligible nodes succ ord" using ps by (simp add: elig)
  then have xn: "x \<in> set nodes" "x \<notin> set ord" by (auto simp: eligible_def)
  have pend: "pending nodes succ ord v = count_list (succ x) v + pending nodes succ (ord @ [x]) v" for v
    using pending_snoc i xn by metis
  have deg: "gm_int deg v = int (pending nodes succ ord v)" for v using i by blast
  have le: "int (count_list (succ x) v) \<le> gm_int deg v" for v by (simp add: deg pend)
  have deg': "gm_int deg' v = int (pending nodes succ (ord @ [x]) v)" for v
    by (simp add: relax_deg [OF relax] deg pend)
  have ord: "greedy_order nodes succ key (ord @ [x])"
    using i x pop_min [OF ok pop] by (auto simp: greedy_order_snoc elig)
  have "count (items p'') v = (if v \<in> eligible nodes succ (ord @ [x]) then 1 else 0)" for v
  proof -
    have cnt: "count (items p'') v = count (items p') v +
        (if 0 < pending nodes succ ord v \<and> pending nodes succ (ord @ [x]) v = 0 then 1 else 0)"
      using relax_items [OF relax le] deg deg' by simp
    have old: "count (items p') v = (if v \<in> eligible nodes succ ord \<and> v \<noteq> x then 1 else 0)"
    proof -
      have "count (items p) v = (if v \<in> eligible nodes succ ord then 1 else 0)" using i by blast
      moreover have "count (items p) v = count (items p') v + (if v = x then 1 else 0)"
        by (simp add: ps)
      ultimately show ?thesis using x by (simp split: if_splits)
    qed
    have nodes: "0 < pending nodes succ ord v \<Longrightarrow> v \<in> set nodes"
      using i by (auto simp: pending_def neq0_conv [symmetric] count_list_concat_zero simp del: neq0_conv)
    have emitted: "v \<in> set ord \<Longrightarrow> pending nodes succ ord v = 0"
      using i by (auto simp: pending_zero dest: greedy_order_preds)
    have "pending nodes succ (ord @ [x]) v \<le> pending nodes succ ord v" by (simp add: pend)
    then show ?thesis
      using cnt old nodes emitted x by (auto simp: eligible_pending)
  qed
  with i ord deg' show ?thesis unfolding kahn_inv_def by blast
qed

lemma step_measure:
  assumes "pop p = Some (x, p')" "relax push (succ x) deg p' = (deg', p'')"
  shows "positive_count deg' + size (items p'') < positive_count deg + size (items p)"
  using relax_measure [of "\<lambda>p. size (items p)" push, OF _ assms(2)] pop_Some [OF assms(1)]
  by (simp add: items_push)

lemma loop_inv:
  "ok p \<Longrightarrow> kahn_inv nodes succ key deg (items p) ord \<Longrightarrow> loop deg p ord = (deg', ord') \<Longrightarrow>
     kahn_inv nodes succ key deg' {#} ord'"
proof (induction "positive_count deg + size (items p)" arbitrary: deg p ord rule: less_induct)
  case less
  show ?case
  proof (cases "pop p")
    case None
    then have "loop deg p ord = (deg, ord)" by (simp add: loop_unfold [of deg p ord])
    with None less.prems pop_None show ?thesis by simp
  next
    case (Some a)
    obtain x p' where a: "a = (x, p')" by (cases a)
    obtain deg2 p2 where r: "relax push (succ x) deg p' = (deg2, p2)" by fastforce
    have "loop deg2 p2 (ord @ [x]) = (deg', ord')"
      using less.prems(3) Some a r by (simp add: loop_unfold [of deg p ord])
    moreover have "ok p2"
      using relax_ok [OF ok_pop [OF less.prems(1) Some [unfolded a]] r] .
    ultimately show ?thesis
      using less.hyps [OF step_measure [OF Some [unfolded a] r]]
        step_inv [OF less.prems(2,1) Some [unfolded a] r] by blast
  qed
qed

lemma loop_keys:
  "(\<And>u. set (succ u) \<subseteq> fst ` set deg) \<Longrightarrow> loop deg p ord = (deg', ord') \<Longrightarrow> map fst deg' = map fst deg"
proof (induction "positive_count deg + size (items p)" arbitrary: deg p ord rule: less_induct)
  case less
  show ?case
  proof (cases "pop p")
    case None
    with less.prems(2) show ?thesis by (simp add: loop_unfold [of deg p ord])
  next
    case (Some a)
    obtain x p' where a: "a = (x, p')" by (cases a)
    obtain deg2 p2 where r: "relax push (succ x) deg p' = (deg2, p2)" by fastforce
    have run: "loop deg2 p2 (ord @ [x]) = (deg', ord')"
      using less.prems(2) Some a r by (simp add: loop_unfold [of deg p ord])
    have keys: "map fst deg2 = map fst deg" using relax_keys [OF r less.prems(1)] .
    then have "fst ` set deg2 = fst ` set deg" by (metis set_map)
    with less.prems(1) less.hyps [OF step_measure [OF Some [unfolded a] r] _ run] keys show ?thesis by simp
  qed
qed

end

section \<open>Recovering a cycle\<close>

text \<open>
  The local state of \<^verbatim>\<open>findCycle\<close>: the nodes visited, those on the stack, and the stack.
  \<open>visit fuel x st\<close> is the closure \<^verbatim>\<open>visit\<close>; its result is \<open>Inl path\<close> for the return
  \<^verbatim>\<open>true\<close> with \<^verbatim>\<open>found\<close> set and \<open>Inr st\<close> for the return \<^verbatim>\<open>false\<close>. The fuel bounds the
  depth of the recursion, and \<open>None\<close> is running out of it: \<open>find_cycle_total\<close> shows that the
  number of nodes is enough.
\<close>

record 'a dfs =
  visited :: "'a list"
  on_stack :: "'a list"
  stack :: "'a list"

fun visit :: "('a \<Rightarrow> 'a list) \<Rightarrow> nat \<Rightarrow> 'a \<Rightarrow> 'a dfs \<Rightarrow> ('a list + 'a dfs) option"
and visit_each :: "('a \<Rightarrow> 'a list) \<Rightarrow> nat \<Rightarrow> 'a list \<Rightarrow> 'a dfs \<Rightarrow> ('a list + 'a dfs) option" where
  "visit succ 0 x st = None"
| "visit succ (Suc n) x st =
     (case visit_each succ n (succ x)
             (st\<lparr>visited := x # visited st, on_stack := x # on_stack st, stack := stack st @ [x]\<rparr>) of
        None \<Rightarrow> None
      | Some (Inl found) \<Rightarrow> Some (Inl found)
      | Some (Inr st') \<Rightarrow>
          Some (Inr (st'\<lparr>on_stack := removeAll x (on_stack st'), stack := butlast (stack st')\<rparr>)))"
| "visit_each succ n [] st = Some (Inr st)"
| "visit_each succ n (y # ys) st =
     (if y \<in> set (on_stack st) then
        Some (Inl (drop (case index_of y (stack st) of None \<Rightarrow> 0 | Some i \<Rightarrow> i) (stack st) @ [y]))
      else if y \<notin> set (visited st) then
        (case visit succ n y st of
           None \<Rightarrow> None
         | Some (Inl found) \<Rightarrow> Some (Inl found)
         | Some (Inr st') \<Rightarrow> visit_each succ n ys st')
      else visit_each succ n ys st)"

fun visit_roots :: "('a \<Rightarrow> 'a list) \<Rightarrow> nat \<Rightarrow> 'a list \<Rightarrow> 'a dfs \<Rightarrow> 'a list option" where
  "visit_roots succ n [] st = Some []"
| "visit_roots succ n (r # rs) st =
     (if r \<in> set (visited st) then visit_roots succ n rs st
      else (case visit succ n r st of
              None \<Rightarrow> None
            | Some (Inl found) \<Rightarrow> Some found
            | Some (Inr st') \<Rightarrow> visit_roots succ n rs st'))"

definition find_cycle :: "('a \<Rightarrow> 'a list) \<Rightarrow> 'a list \<Rightarrow> 'a list option" where
  "find_cycle succ roots =
     visit_roots succ (length roots) roots \<lparr>visited = [], on_stack = [], stack = []\<rparr>"

text \<open>A closed walk with its entry node repeated at the end.\<close>

definition is_cycle :: "('a \<Rightarrow> 'a list) \<Rightarrow> 'a list \<Rightarrow> bool" where
  "is_cycle succ path \<longleftrightarrow>
     2 \<le> length path \<and> hd path = last path \<and> successively (\<lambda>a b. b \<in> set (succ a)) path"

abbreviation succ_rel :: "('a \<Rightarrow> 'a list) \<Rightarrow> ('a \<times> 'a) set" where
  "succ_rel succ \<equiv> {(a, b). b \<in> set (succ a)}"

text \<open>A finished node was visited and left the stack: nothing it reaches can reach back.\<close>

definition finished :: "'a dfs \<Rightarrow> 'a set" where
  "finished st = set (visited st) - set (stack st)"

definition dfs_ok :: "('a \<Rightarrow> 'a list) \<Rightarrow> 'a set \<Rightarrow> 'a dfs \<Rightarrow> bool" where
  "dfs_ok succ nodes st \<longleftrightarrow>
     distinct (stack st) \<and> set (on_stack st) = set (stack st) \<and>
     set (stack st) \<subseteq> set (visited st) \<and> set (visited st) \<subseteq> nodes \<and>
     successively (\<lambda>a b. b \<in> set (succ a)) (stack st) \<and>
     (\<forall>x \<in> finished st. set (succ x) \<subseteq> finished st \<and> (x, x) \<notin> (succ_rel succ)\<^sup>+)"

lemma successively_snoc:
  "successively P (xs @ [x]) \<longleftrightarrow> successively P xs \<and> (xs \<noteq> [] \<longrightarrow> P (last xs) x)"
  by (auto simp: successively_append_iff)

lemma dfs_ok_push:
  assumes "dfs_ok succ nodes st" "x \<notin> set (visited st)" "x \<in> nodes"
    "stack st \<noteq> [] \<longrightarrow> x \<in> set (succ (last (stack st)))"
  shows "dfs_ok succ nodes
    (st\<lparr>visited := x # visited st, on_stack := x # on_stack st, stack := stack st @ [x]\<rparr>)"
proof -
  have "finished (st\<lparr>visited := x # visited st, on_stack := x # on_stack st, stack := stack st @ [x]\<rparr>)
     = finished st"
    using assms(2) by (auto simp: finished_def)
  then show ?thesis using assms by (auto simp: dfs_ok_def successively_snoc)
qed

lemma dfs_ok_pop:
  assumes ok: "dfs_ok succ nodes st" and stack: "stack st = xs @ [x]"
    and fins: "set (succ x) \<subseteq> finished st"
  shows "dfs_ok succ nodes (st\<lparr>on_stack := removeAll x (on_stack st), stack := butlast (stack st)\<rparr>)"
proof -
  let ?st = "st\<lparr>on_stack := removeAll x (on_stack st), stack := butlast (stack st)\<rparr>"
  have xs: "x \<notin> set xs" "x \<notin> finished st" "x \<in> set (visited st)"
    using ok stack by (auto simp: dfs_ok_def finished_def)
  then have fin: "finished ?st = insert x (finished st)"
    using stack by (auto simp: finished_def)
  have closed: "z \<in> finished st" if "(y, z) \<in> (succ_rel succ)\<^sup>+" "y \<in> finished st" for y z
    using that by (induction rule: trancl_induct) (use ok in \<open>auto simp: dfs_ok_def\<close>)
  have "(x, x) \<notin> (succ_rel succ)\<^sup>+"
  proof
    assume "(x, x) \<in> (succ_rel succ)\<^sup>+"
    then obtain y where "(x, y) \<in> succ_rel succ" "(y, x) \<in> (succ_rel succ)\<^sup>*"
      by (meson tranclD)
    with fins have "y \<in> finished st" by auto
    with \<open>(y, x) \<in> (succ_rel succ)\<^sup>*\<close> closed xs(2) show False
      by (metis rtranclD)
  qed
  with ok stack fin fins xs show ?thesis
    by (auto simp: dfs_ok_def successively_snoc)
qed

lemma back_edge_cycle:
  assumes "dfs_ok succ nodes st" "y \<in> set (on_stack st)" "y \<in> set (succ (last (stack st)))"
  shows "is_cycle succ (drop (case index_of y (stack st) of None \<Rightarrow> 0 | Some i \<Rightarrow> i) (stack st) @ [y])"
proof -
  from assms have "y \<in> set (stack st)" by (simp add: dfs_ok_def)
  then obtain i where i: "index_of y (stack st) = Some i"
    by (cases "index_of y (stack st)") (auto simp: index_of_None)
  from index_of_Some [OF i] have il: "i < length (stack st)" "stack st ! i = y" by auto
  have "successively (\<lambda>a b. b \<in> set (succ a)) (take i (stack st) @ drop i (stack st))"
    using assms(1) by (simp add: dfs_ok_def)
  then have "successively (\<lambda>a b. b \<in> set (succ a)) (drop i (stack st))"
    by (simp only: successively_append_iff)
  moreover have "last (drop i (stack st)) = last (stack st)" using il by simp
  ultimately have "successively (\<lambda>a b. b \<in> set (succ a)) (drop i (stack st) @ [y])"
    using assms(3) by (simp add: successively_snoc)
  with il show ?thesis
    by (auto simp: is_cycle_def i hd_drop_conv_nth hd_append)
qed

definition visit_post :: "('a \<Rightarrow> 'a list) \<Rightarrow> 'a set \<Rightarrow> 'a list \<Rightarrow> 'a dfs \<Rightarrow> ('a list + 'a dfs) option \<Rightarrow> bool" where
  "visit_post succ nodes ys st r \<longleftrightarrow>
     (case r of
        None \<Rightarrow> False
      | Some (Inl path) \<Rightarrow> is_cycle succ path
      | Some (Inr st') \<Rightarrow> dfs_ok succ nodes st' \<and> stack st' = stack st \<and>
          set (visited st) \<subseteq> set (visited st') \<and> set ys \<subseteq> finished st')"

lemma visit_correct:
  assumes fin: "finite nodes"
  shows "\<lbrakk>\<forall>u \<in> nodes. set (succ u) \<subseteq> nodes; dfs_ok succ nodes st; x \<notin> set (visited st); x \<in> nodes;
      stack st \<noteq> [] \<longrightarrow> x \<in> set (succ (last (stack st))); card nodes \<le> n + length (stack st)\<rbrakk>
    \<Longrightarrow> visit_post succ nodes [x] st (visit succ n x st)"
    and "\<lbrakk>\<forall>u \<in> nodes. set (succ u) \<subseteq> nodes; dfs_ok succ nodes st; stack st \<noteq> []; set ys \<subseteq> set (succ (last (stack st)));
      card nodes \<le> n + length (stack st)\<rbrakk>
    \<Longrightarrow> visit_post succ nodes ys st (visit_each succ n ys st)"
proof (induction succ n x st and succ n ys st rule: visit_visit_each.induct)
  case (1 succ x st)
  have "length (stack st) < card nodes"
  proof -
    have "insert x (set (stack st)) \<subseteq> nodes" using 1 by (auto simp: dfs_ok_def)
    then have "card (insert x (set (stack st))) \<le> card nodes" by (rule card_mono [OF fin])
    moreover have "x \<notin> set (stack st)" using 1 by (auto simp: dfs_ok_def)
    ultimately show ?thesis using 1 by (simp add: dfs_ok_def distinct_card)
  qed
  with 1 show ?case by simp
next
  case (2 succ n x st)
  let ?st = "st\<lparr>visited := x # visited st, on_stack := x # on_stack st, stack := stack st @ [x]\<rparr>"
  have post: "visit_post succ nodes (succ x) ?st (visit_each succ n (succ x) ?st)"
    using 2 by (intro "2.IH") (auto intro: dfs_ok_push)
  show ?case
  proof (cases "visit_each succ n (succ x) ?st")
    case None
    with post show ?thesis by (simp add: visit_post_def)
  next
    case (Some r)
    show ?thesis
    proof (cases r)
      case (Inl path)
      with Some post show ?thesis by (simp add: visit_post_def)
    next
      case (Inr st')
      with Some post have st': "dfs_ok succ nodes st'" "stack st' = stack st @ [x]"
        "set (x # visited st) \<subseteq> set (visited st')" "set (succ x) \<subseteq> finished st'"
        by (auto simp: visit_post_def)
      from dfs_ok_pop [OF st'(1,2,4)] st' Some Inr 2 show ?thesis
        by (auto simp: visit_post_def finished_def dfs_ok_def)
    qed
  qed
next
  case (3 succ n st)
  then show ?case by (simp add: visit_post_def)
next
  case (4 succ n y ys st)
  have y: "y \<in> set (succ (last (stack st)))" and ys: "set ys \<subseteq> set (succ (last (stack st)))"
    using 4 by auto
  show ?case
  proof (cases "y \<in> set (on_stack st)")
    case True
    with back_edge_cycle [OF "4.prems"(2) True y] show ?thesis by (simp add: visit_post_def)
  next
    case on: False
    show ?thesis
    proof (cases "y \<in> set (visited st)")
      case True
      with on have "visit_post succ nodes ys st (visit_each succ n ys st)" using 4 ys by simp
      moreover have "y \<in> finished st" using True on "4.prems"(2) by (simp add: finished_def dfs_ok_def)
      ultimately show ?thesis
        using on True by (auto simp: visit_post_def finished_def split: option.splits sum.splits)
    next
      case False
      have "last (stack st) \<in> nodes"
        using "4.prems"(2,3) last_in_set [of "stack st"] unfolding dfs_ok_def by blast
      with "4.prems"(1) y have "y \<in> nodes" by blast
      then have post: "visit_post succ nodes [y] st (visit succ n y st)"
        using 4 on False y by (intro "4.IH"(1)) auto
      then obtain r where r: "visit succ n y st = Some r" by (auto simp: visit_post_def split: option.splits)
      show ?thesis
      proof (cases r)
        case (Inl path)
        with r post on False show ?thesis by (simp add: visit_post_def)
      next
        case (Inr st')
        with r post have st': "dfs_ok succ nodes st'" "stack st' = stack st"
          "set (visited st) \<subseteq> set (visited st')" "y \<in> finished st'" by (auto simp: visit_post_def)
        have "visit_post succ nodes ys st' (visit_each succ n ys st')"
          using on False r Inr st' 4 ys by (intro "4.IH"(2)) auto
        with on False r Inr st' show ?thesis
          by (auto simp: visit_post_def finished_def split: option.splits sum.splits)
      qed
    qed
  qed
qed

text \<open>
  Over the nodes Kahn's algorithm left over, the search terminates within its fuel and reports
  a cycle: the leftover nodes all have a predecessor among themselves.
\<close>

lemma visit_roots_correct:
  assumes fin: "finite nodes" and closed: "\<And>u. u \<in> nodes \<Longrightarrow> set (succ u) \<subseteq> nodes"
    and n: "card nodes \<le> n"
  shows "\<lbrakk>dfs_ok succ nodes st; stack st = []; set rs \<subseteq> nodes\<rbrakk> \<Longrightarrow>
    \<exists>path. visit_roots succ n rs st = Some path \<and>
      (path = [] \<longrightarrow> (\<forall>x \<in> set rs \<union> set (visited st). (x, x) \<notin> (succ_rel succ)\<^sup>+)) \<and>
      (path \<noteq> [] \<longrightarrow> is_cycle succ path)"
proof (induction rs arbitrary: st)
  case Nil
  then show ?case by (auto simp: dfs_ok_def finished_def)
next
  case (Cons r rs)
  show ?case
  proof (cases "r \<in> set (visited st)")
    case True
    obtain path where "visit_roots succ n rs st = Some path"
      "path = [] \<longrightarrow> (\<forall>x \<in> set rs \<union> set (visited st). (x, x) \<notin> (succ_rel succ)\<^sup>+)"
      "path \<noteq> [] \<longrightarrow> is_cycle succ path"
      using Cons.IH [of st] Cons.prems by auto
    with True show ?thesis by auto
  next
    case False
    have "visit_post succ nodes [r] st (visit succ n r st)"
      using visit_correct(1) [OF fin] closed Cons.prems False n by auto
    then consider (cyc) path where "visit succ n r st = Some (Inl path)" "is_cycle succ path"
      | (ok) st' where "visit succ n r st = Some (Inr st')" "dfs_ok succ nodes st'" "stack st' = []"
          "set (visited st) \<subseteq> set (visited st')" "r \<in> set (visited st')"
      using Cons.prems(2) by (auto simp: visit_post_def finished_def split: option.splits sum.splits)
    then show ?thesis
    proof cases
      case cyc
      with False show ?thesis by (auto simp: is_cycle_def)
    next
      case ok
      with Cons.IH [OF ok(2,3)] Cons.prems False show ?thesis by fastforce
    qed
  qed
qed

lemma find_cycle_total:
  assumes dist: "distinct roots" and closed: "\<And>u. u \<in> set roots \<Longrightarrow> set (succ u) \<subseteq> set roots"
  shows "\<exists>path. find_cycle succ roots = Some path \<and>
      (path = [] \<longrightarrow> (\<forall>x \<in> set roots. (x, x) \<notin> (succ_rel succ)\<^sup>+)) \<and> (path \<noteq> [] \<longrightarrow> is_cycle succ path)"
proof -
  have "dfs_ok succ (set roots) \<lparr>visited = [], on_stack = [], stack = []\<rparr>"
    by (simp add: dfs_ok_def finished_def)
  from visit_roots_correct [OF _ closed _ this, where n = "length roots"] dist show ?thesis
    by (simp add: find_cycle_def distinct_card)
qed

lemma preds_imp_cycle:
  assumes fin: "finite S" and ne: "S \<noteq> {}"
    and pred: "\<And>v. v \<in> S \<Longrightarrow> \<exists>u \<in> S. v \<in> set (succ u)"
  shows "\<exists>x \<in> S. (x, x) \<in> (succ_rel succ)\<^sup>+"
proof (rule ccontr)
  assume no: "\<not> ?thesis"
  let ?R = "{(u, v). u \<in> S \<and> v \<in> S \<and> v \<in> set (succ u)}"
  have sub: "?R\<^sup>+ \<subseteq> (succ_rel succ)\<^sup>+" by (rule subsetI, erule trancl_mono) auto
  have "acyclic ?R"
  proof (rule acyclicI, rule allI, rule notI)
    fix x assume x: "(x, x) \<in> ?R\<^sup>+"
    then have "x \<in> S" by (auto dest!: tranclD)
    with x sub no show False by blast
  qed
  moreover have "finite ?R" using fin by (auto intro: finite_subset [of _ "S \<times> S"])
  ultimately have "wf ?R" by (rule finite_acyclic_wf [rotated])
  moreover from ne obtain s where "s \<in> S" by blast
  ultimately obtain z where "z \<in> S" "\<And>y. (y, z) \<in> ?R \<Longrightarrow> y \<notin> S"
    by (rule wfE_min) blast
  with pred show False by blast
qed

text \<open>The successors restricted to the nodes the search is told to consider.\<close>

definition restrict_succ :: "'a list \<Rightarrow> ('a \<Rightarrow> 'a list) \<Rightarrow> 'a \<Rightarrow> 'a list" where
  "restrict_succ S succ u = filter (\<lambda>v. v \<in> set S) (succ u)"

lemma find_cycle_leftover:
  assumes dist: "distinct S" and ne: "S \<noteq> []"
    and pred: "\<And>v. v \<in> set S \<Longrightarrow> \<exists>u \<in> set S. v \<in> set (succ' u)"
    and closed: "\<And>u. u \<in> set S \<Longrightarrow> set (succ' u) \<subseteq> set S"
  shows "\<exists>path. find_cycle succ' S = Some path \<and> is_cycle succ' path"
proof -
  from find_cycle_total [of S succ', OF dist closed] obtain path where
    p: "find_cycle succ' S = Some path"
      "path = [] \<longrightarrow> (\<forall>x \<in> set S. (x, x) \<notin> (succ_rel succ')\<^sup>+)" "path \<noteq> [] \<longrightarrow> is_cycle succ' path"
    by blast
  have "\<exists>x \<in> set S. (x, x) \<in> (succ_rel succ')\<^sup>+"
    using preds_imp_cycle [of "set S" succ'] ne pred by simp
  with p show ?thesis by blast
qed

lemma is_cycle_mono:
  "is_cycle succ path \<Longrightarrow> (\<And>a. set (succ a) \<subseteq> set (succ' a)) \<Longrightarrow> is_cycle succ' path"
  unfolding is_cycle_def by (auto elim!: successively_mono)

lemma is_cycle_closed:
  assumes "is_cycle succ path" "\<And>a. set (succ a) \<subseteq> S"
  shows "set path \<subseteq> S"
proof -
  have tail: "set (tl xs) \<subseteq> S" if "successively (\<lambda>a b. b \<in> set (succ a)) xs" for xs
    using that assms(2) by (induction xs rule: induct_list012) auto
  from assms(1) have path: "2 \<le> length path" "hd path = last path"
    "successively (\<lambda>a b. b \<in> set (succ a)) path" by (auto simp: is_cycle_def)
  then obtain x y zs where xs: "path = x # y # zs" by (cases path; cases "tl path") auto
  with path(2) have "x \<in> set (tl path)" by (cases zs rule: rev_cases) auto
  with tail [OF path(3)] xs show ?thesis by auto
qed

lemma is_cycle_trancl:
  assumes "is_cycle succ path"
  shows "(hd path, hd path) \<in> (succ_rel succ)\<^sup>+"
proof -
  have "(hd xs, last xs) \<in> (succ_rel succ)\<^sup>+"
    if "successively (\<lambda>a b. b \<in> set (succ a)) xs" "2 \<le> length xs" for xs
    using that
  proof (induction xs rule: induct_list012)
    case (3 x y zs)
    then show ?case
      by (cases zs) (auto intro: trancl_into_trancl2)
  qed auto
  with assms show ?thesis unfolding is_cycle_def by metis
qed

end
