(* ===== verification/Ordering.thy ===== *)
theory Ordering
  imports Digraph
begin

text \<open>
  The stable topological sorter of \<^verbatim>\<open>plugin/ordering/graph.go\<close>. A \<open>graph\<close> is built by
  \<open>New\<close>, \<open>AddNode\<close>, \<open>AddHardEdge\<close> and \<open>AddSoftEdge\<close> in any order (\<open>built\<close>), and
  \<open>Sort\<close> validates the edges, runs Kahn's algorithm over a heap keyed by insertion index and
  recovers a cycle when nodes are left over. \<^verbatim>\<open>container/heap\<close> is used by its documented
  contract: \<open>heap_pop\<close> removes the least element of \<open>Less\<close>. \<open>Sort\<close> returns \<open>None\<close> only
  if the cycle search runs out of depth, which \<open>Sort_total\<close> excludes.
\<close>

section \<open>Data\<close>

record edge =
  edge_from :: string
  edge_to :: string
  edge_hard :: bool

record graph =
  g_order :: "string list"
  g_seen :: "(string, bool) gomap"
  g_index :: "(string, int) gomap"
  g_edges :: "edge list"

definition New :: graph where
  "New = \<lparr>g_order = [], g_seen = [], g_index = [], g_edges = []\<rparr>"

definition AddNode :: "string \<Rightarrow> graph \<Rightarrow> graph" where
  "AddNode n g =
     (if gm_bool (g_seen g) n then g
      else g\<lparr>g_seen := gm_put n True (g_seen g),
             g_index := gm_put n (int (length (g_order g))) (g_index g),
             g_order := g_order g @ [n]\<rparr>)"

definition AddHardEdge :: "string \<Rightarrow> string \<Rightarrow> graph \<Rightarrow> graph" where
  "AddHardEdge f t g = g\<lparr>g_edges := g_edges g @ [\<lparr>edge_from = f, edge_to = t, edge_hard = True\<rparr>]\<rparr>"

definition AddSoftEdge :: "string \<Rightarrow> string \<Rightarrow> graph \<Rightarrow> graph" where
  "AddSoftEdge f t g = g\<lparr>g_edges := g_edges g @ [\<lparr>edge_from = f, edge_to = t, edge_hard = False\<rparr>]\<rparr>"

datatype direction = After | Before | DirectionOther nat

fun direction_string :: "direction \<Rightarrow> string" where
  "direction_string After = ''after''"
| "direction_string Before = ''before''"
| "direction_string (DirectionOther _) = ''unknown''"

record miss =
  miss_node :: string
  miss_ref :: string
  miss_dir :: direction

datatype graph_error = CycleError "string list" | MissingNodeError string string

text \<open>The arrow of the messages, U+2192 between two spaces, in UTF-8.\<close>

definition arrow :: string where
  "arrow = [CHR 0x20, CHR 0xE2, CHR 0x86, CHR 0x92, CHR 0x20]"

fun graph_error_string :: "graph_error \<Rightarrow> string" where
  "graph_error_string (CycleError path) = ''graph: cycle detected '' @ join arrow path"
| "graph_error_string (MissingNodeError f t) =
     ''graph: hard dependency references non-existent node: '' @ f @ arrow @ t"

section \<open>The heap of eligible ids\<close>

text \<open>
  \<^verbatim>\<open>idHeap\<close> holds the ids and the graph's index map; the map never changes while the heap
  lives, so the heap is its list of ids and the index is an argument.
\<close>

type_synonym idHeap = "string list"

definition heap_less :: "(string, int) gomap \<Rightarrow> string \<Rightarrow> string \<Rightarrow> bool" where
  "heap_less ix a b \<longleftrightarrow> gm_int ix a < gm_int ix b"

definition heap_push :: "string \<Rightarrow> idHeap \<Rightarrow> idHeap" where
  "heap_push x h = h @ [x]"

fun heap_least :: "(string, int) gomap \<Rightarrow> string \<Rightarrow> string list \<Rightarrow> string" where
  "heap_least ix m [] = m"
| "heap_least ix m (x # xs) = heap_least ix (if heap_less ix x m then x else m) xs"

definition heap_pop :: "(string, int) gomap \<Rightarrow> idHeap \<Rightarrow> (string \<times> idHeap) option" where
  "heap_pop ix h =
     (case h of [] \<Rightarrow> None
      | x # xs \<Rightarrow> (let m = heap_least ix x xs in Some (m, remove1 m h)))"

lemma heap_least_in: "heap_least ix m xs \<in> insert m (set xs)"
  by (induction xs arbitrary: m) (auto split: if_splits)

lemma heap_least_min: "y \<in> insert m (set xs) \<Longrightarrow> gm_int ix (heap_least ix m xs) \<le> gm_int ix y"
proof (induction xs arbitrary: m y)
  case (Cons x xs)
  let ?m = "if heap_less ix x m then x else m"
  have "gm_int ix (heap_least ix ?m xs) \<le> gm_int ix ?m" by (rule Cons.IH) simp
  moreover have "gm_int ix ?m \<le> gm_int ix x" "gm_int ix ?m \<le> gm_int ix m"
    by (auto simp: heap_less_def)
  moreover have "y \<in> set xs \<Longrightarrow> gm_int ix (heap_least ix ?m xs) \<le> gm_int ix y"
    by (rule Cons.IH) simp
  moreover have "y = x \<or> y = m \<or> y \<in> set xs" using Cons.prems by auto
  ultimately show ?case unfolding heap_least.simps by (elim disjE) (auto intro: order_trans)
qed simp

lemma heap_pop_Some:
  assumes "heap_pop ix h = Some (x, h')"
  shows "x \<in> set h" "h' = remove1 x h" "y \<in> set h \<Longrightarrow> gm_int ix x \<le> gm_int ix y"
proof -
  from assms obtain a as where h: "h = a # as" "x = heap_least ix a as" "h' = remove1 x h"
    by (auto simp: heap_pop_def Let_def split: list.splits)
  show "x \<in> set h" using heap_least_in [of ix a as] h by simp
  show "h' = remove1 x h" by (rule h(3))
  show "gm_int ix x \<le> gm_int ix y" if "y \<in> set h"
    using heap_least_min [of y a as ix] h that by simp
qed

interpretation id_pool: ready_pool heap_push "heap_pop ix" mset "gm_int ix" "\<lambda>_. True" for ix
proof (unfold_locales, goal_cases)
  case (1 x p)
  then show ?case by (simp add: heap_push_def)
next
  case (2 p)
  then show ?case by (auto simp: heap_pop_def Let_def split: list.splits)
next
  case (3 p x p')
  with heap_pop_Some [OF 3] show ?case by simp
next
  case (6 p x p' y)
  with heap_pop_Some [OF 6(2)] show ?case by simp
qed simp_all

section \<open>Sorting\<close>

definition missFor :: "edge \<Rightarrow> bool \<Rightarrow> bool \<Rightarrow> miss option" where
  "missFor e fromOK toOK =
     (if fromOK \<and> \<not> toOK then
        Some \<lparr>miss_node = edge_from e, miss_ref = edge_to e, miss_dir = Before\<rparr>
      else if \<not> fromOK \<and> toOK then
        Some \<lparr>miss_node = edge_to e, miss_ref = edge_from e, miss_dir = After\<rparr>
      else None)"

type_synonym adjacency = "(string, string list) gomap"

text \<open>The body of the loop over the declared edges.\<close>

definition sort_edge ::
  "graph \<Rightarrow> edge \<Rightarrow> adjacency \<times> (string, int) gomap \<times> miss list
     \<Rightarrow> (graph_error, adjacency \<times> (string, int) gomap \<times> miss list) result" where
  "sort_edge g e st =
     (case st of (adj, indeg, misses) \<Rightarrow>
       let fromOK = gm_bool (g_seen g) (edge_from e); toOK = gm_bool (g_seen g) (edge_to e)
       in if fromOK \<and> toOK then
            Inr (gm_put (edge_from e) (gm_list adj (edge_from e) @ [edge_to e]) adj,
                 gm_put (edge_to e) (gm_int indeg (edge_to e) + 1) indeg, misses)
          else if edge_hard e then Inl (MissingNodeError (edge_from e) (edge_to e))
          else (case missFor e fromOK toOK of
                  Some m \<Rightarrow> Inr (adj, indeg, misses @ [m])
                | None \<Rightarrow> Inr (adj, indeg, misses)))"

lemma drain_heap_decreases:
  assumes "heap_pop ix h = Some (x, h')" "(indeg', h'') = relax heap_push ys indeg h'"
  shows "positive_count indeg' + length h'' < positive_count indeg + length h"
proof -
  have "length h = Suc (length h')"
    using id_pool.pop_Some [OF assms(1)] by (metis size_add_mset size_mset)
  with relax_measure [of length heap_push, OF _ assms(2) [symmetric]] show ?thesis
    by (simp add: heap_push_def)
qed

text \<open>The loop \<^verbatim>\<open>for h.Len() > 0\<close>.\<close>

function drain_heap ::
  "(string, int) gomap \<Rightarrow> adjacency \<Rightarrow> (string, int) gomap \<Rightarrow> idHeap \<Rightarrow> string list
     \<Rightarrow> (string, int) gomap \<times> string list" where
  "drain_heap ix adj indeg h ord =
     (case heap_pop ix h of
        None \<Rightarrow> (indeg, ord)
      | Some (x, h') \<Rightarrow>
          (case relax heap_push (gm_list adj x) indeg h' of
             (indeg', h'') \<Rightarrow> drain_heap ix adj indeg' h'' (ord @ [x])))"
  by pat_completeness auto
termination
  by (relation "measure (\<lambda>(ix, adj, indeg, h, ord). positive_count indeg + length h)")
    (auto intro: drain_heap_decreases)

declare drain_heap.simps [simp del]

definition findCycle :: "string list \<Rightarrow> string list \<Rightarrow> adjacency \<Rightarrow> string list option" where
  "findCycle insertionOrder remaining adj =
     find_cycle (restrict_succ remaining (gm_list adj)) (filter (\<lambda>n. n \<in> set remaining) insertionOrder)"

definition Sort :: "graph \<Rightarrow> (graph_error, string list \<times> miss list) result option" where
  "Sort g =
     (case fold_res (sort_edge g) (g_edges g) ([], fold (\<lambda>n. gm_put n 0) (g_order g) [], []) of
        Inl e \<Rightarrow> Some (Inl e)
      | Inr (adj, indeg, misses) \<Rightarrow>
          let h = fold (\<lambda>n h. if gm_int indeg n = 0 then heap_push n h else h) (g_order g) [];
              order = snd (drain_heap (g_index g) adj indeg h [])
          in if length order < length (g_order g) then
               map_option (\<lambda>path. Inl (CycleError path))
                 (findCycle (g_order g) (filter (\<lambda>n. n \<notin> set order) (g_order g)) adj)
             else Some (Inr (order, misses)))"

interpretation heap_kahn: kahn heap_push "heap_pop ix" mset "gm_int ix" "\<lambda>_. True" "gm_list adj" "drain_heap ix adj"
  for ix adj
  by unfold_locales (rule drain_heap.simps)

section \<open>Graphs built through the interface\<close>

inductive built :: "graph \<Rightarrow> bool" where
  built_New: "built New"
| built_AddNode: "built g \<Longrightarrow> built (AddNode n g)"
| built_AddHardEdge: "built g \<Longrightarrow> built (AddHardEdge f t g)"
| built_AddSoftEdge: "built g \<Longrightarrow> built (AddSoftEdge f t g)"

text \<open>What the three views of the node set keep in common.\<close>

definition graph_wf :: "graph \<Rightarrow> bool" where
  "graph_wf g \<longleftrightarrow> distinct (g_order g) \<and> (\<forall>n. gm_bool (g_seen g) n \<longleftrightarrow> n \<in> set (g_order g)) \<and>
     (\<forall>i < length (g_order g). gm_int (g_index g) (g_order g ! i) = int i)"

lemma built_wf: "built g \<Longrightarrow> graph_wf g"
proof (induction rule: built.induct)
  case (built_AddNode g n)
  then show ?case
    by (auto simp: graph_wf_def AddNode_def nth_append less_Suc_eq)
qed (auto simp: graph_wf_def New_def AddHardEdge_def AddSoftEdge_def gm_bool_def)

lemma graph_wf_index_inj: "graph_wf g \<Longrightarrow> inj_on (gm_int (g_index g)) (set (g_order g))"
  unfolding graph_wf_def inj_on_def by (metis in_set_conv_nth of_nat_eq_iff)

section \<open>The edge loop\<close>

definition known_edge :: "graph \<Rightarrow> edge \<Rightarrow> bool" where
  "known_edge g e \<longleftrightarrow> edge_from e \<in> set (g_order g) \<and> edge_to e \<in> set (g_order g)"

text \<open>The dependency relation the graph declares between registered nodes.\<close>

definition graph_edges :: "graph \<Rightarrow> (string \<times> string) set" where
  "graph_edges g = {(edge_from e, edge_to e) | e. e \<in> set (g_edges g) \<and> known_edge g e}"

text \<open>The misses are those of the soft edges, in declaration order.\<close>

definition edge_misses :: "graph \<Rightarrow> edge list \<Rightarrow> miss list" where
  "edge_misses g es =
     List.map_filter (\<lambda>e. missFor e (edge_from e \<in> set (g_order g)) (edge_to e \<in> set (g_order g))) es"

definition edge_loop_inv ::
  "graph \<Rightarrow> edge list \<Rightarrow> adjacency \<times> (string, int) gomap \<times> miss list \<Rightarrow> bool" where
  "edge_loop_inv g es st \<longleftrightarrow>
     (case st of (adj, indeg, misses) \<Rightarrow>
       (\<forall>u v. v \<in> set (gm_list adj u) \<longleftrightarrow> (\<exists>e \<in> set es. known_edge g e \<and> edge_from e = u \<and> edge_to e = v)) \<and>
       (\<forall>v. gm_int indeg v = int (pending (g_order g) (gm_list adj) [] v)) \<and>
       misses = edge_misses g es)"

lemma edge_misses_snoc:
  "edge_misses g (es @ [e]) = edge_misses g es @
     (case missFor e (edge_from e \<in> set (g_order g)) (edge_to e \<in> set (g_order g)) of
        None \<Rightarrow> [] | Some m \<Rightarrow> [m])"
  by (auto simp: edge_misses_def List.map_filter_def split: option.splits)

lemma sort_edge_inv:
  assumes wf: "graph_wf g" and inv: "edge_loop_inv g es st" and run: "sort_edge g e st = Inr st'"
  shows "edge_loop_inv g (es @ [e]) st'"
proof -
  obtain adj indeg misses where st: "st = (adj, indeg, misses)" by (cases st)
  note seen = wf [unfolded graph_wf_def, THEN conjunct2, THEN conjunct1, rule_format]
  show ?thesis
  proof (cases "known_edge g e")
    case True
    let ?f = "edge_from e" and ?t = "edge_to e"
    let ?adj = "gm_put ?f (gm_list adj ?f @ [?t]) adj"
    have st': "st' = (?adj, gm_put ?t (gm_int indeg ?t + 1) indeg, misses)"
      using run True st by (simp add: sort_edge_def seen known_edge_def)
    have "pending (g_order g) (gm_list ?adj) [] v
       = pending (g_order g) (gm_list adj) [] v + (if v = ?t then 1 else 0)" for v
    proof -
      have "gm_list ?adj = (\<lambda>u. if u = ?f then gm_list adj ?f @ [?t] else gm_list adj u)"
        by (rule ext) simp
      with pending_add_edge [of "g_order g" ?f "gm_list adj" ?t v] True wf show ?thesis
        by (simp add: known_edge_def graph_wf_def)
    qed
    moreover have "edge_misses g (es @ [e]) = edge_misses g es"
      using True by (simp add: edge_misses_snoc known_edge_def missFor_def)
    ultimately show ?thesis
      using inv True unfolding st st' edge_loop_inv_def by auto
  next
    case False
    then have "st' = (adj, indeg, edge_misses g (es @ [e]))"
      using run inv st by (auto simp: sort_edge_def seen known_edge_def edge_loop_inv_def
          edge_misses_snoc Let_def split: if_splits option.splits)
    then show ?thesis using inv False st by (auto simp: edge_loop_inv_def)
  qed
qed

lemma edge_loop_start: "edge_loop_inv g [] ([], fold (\<lambda>n. gm_put n 0) ns [], [])"
proof -
  have "\<forall>n. gm_int m n = 0 \<Longrightarrow> gm_int (fold (\<lambda>n. gm_put n 0) ns m) v = 0" for v m
    by (induction ns arbitrary: m) auto
  moreover have "gm_int [] n = 0" for n :: string by (simp add: gm_int_def)
  ultimately show ?thesis
    by (simp add: edge_loop_inv_def gm_list_def pending_def edge_misses_def List.map_filter_def
        count_list_concat_zero)
qed

lemma edge_loop_inv_result:
  assumes "graph_wf g"
    "fold_res (sort_edge g) (g_edges g) ([], fold (\<lambda>n. gm_put n 0) (g_order g) [], []) = Inr st"
  shows "edge_loop_inv g (g_edges g) st"
  using fold_res_invariant [OF assms(2), where P = "edge_loop_inv g"] edge_loop_start
    sort_edge_inv [OF assms(1)] by blast

text \<open>The loop fails on the first hard edge with an endpoint that is not registered, only there.\<close>

lemma edge_loop_error:
  assumes "graph_wf g"
  shows "fold_res (sort_edge g) es st = Inl err \<longleftrightarrow>
     (\<exists>e. find (\<lambda>e. edge_hard e \<and> \<not> known_edge g e) es = Some e \<and>
        err = MissingNodeError (edge_from e) (edge_to e))"
proof (induction es arbitrary: st)
  case (Cons e es)
  show ?case
  proof (cases "edge_hard e \<and> \<not> known_edge g e")
    case True
    with assms show ?thesis
      by (auto simp: sort_edge_def known_edge_def graph_wf_def Let_def split: prod.splits)
  next
    case False
    then have "\<exists>st'. sort_edge g e st = Inr st'"
      using assms by (auto simp: sort_edge_def known_edge_def graph_wf_def Let_def
          split: prod.splits option.splits)
    with Cons False show ?thesis by auto
  qed
qed auto

section \<open>Correctness of Sort\<close>

lemma heap_start_items:
  "mset (fold (\<lambda>n h. if P n then heap_push n h else h) ns h) = mset h + mset (filter P ns)"
  by (induction ns arbitrary: h) (auto simp: heap_push_def)

text \<open>The state of \<open>Sort\<close> when the heap is empty.\<close>

lemma Sort_drained:
  assumes wf: "graph_wf g"
    and run: "fold_res (sort_edge g) (g_edges g) ([], fold (\<lambda>n. gm_put n 0) (g_order g) [], [])
      = Inr (adj, indeg, misses)"
    and h: "h = fold (\<lambda>n h. if gm_int indeg n = 0 then heap_push n h else h) (g_order g) []"
  shows "kahn_inv (g_order g) (gm_list adj) (gm_int (g_index g))
    (fst (drain_heap (g_index g) adj indeg h [])) {#} (snd (drain_heap (g_index g) adj indeg h []))"
proof (rule heap_kahn.loop_inv [OF TrueI])
  have inv: "edge_loop_inv g (g_edges g) (adj, indeg, misses)"
    by (rule edge_loop_inv_result [OF wf run])
  have "count (mset h) v = (if v \<in> eligible (g_order g) (gm_list adj) [] then 1 else 0)" for v
    using wf inv unfolding h heap_start_items
    by (auto simp: edge_loop_inv_def eligible_pending graph_wf_def distinct_count_atmost_1)
  with wf inv show "kahn_inv (g_order g) (gm_list adj) (gm_int (g_index g)) indeg (mset h) []"
    by (auto simp: kahn_inv_def edge_loop_inv_def graph_wf_def greedy_order_def known_edge_def)
  show "drain_heap (g_index g) adj indeg h [] =
    (fst (drain_heap (g_index g) adj indeg h []), snd (drain_heap (g_index g) adj indeg h []))"
    by simp
qed

text \<open>Successors as a function of the declared edges, independent of the run.\<close>

definition graph_succ :: "graph \<Rightarrow> string \<Rightarrow> string list" where
  "graph_succ g u = map edge_to (filter (\<lambda>e. known_edge g e \<and> edge_from e = u) (g_edges g))"

lemma edge_loop_succ:
  "edge_loop_inv g (g_edges g) (adj, indeg, misses) \<Longrightarrow> set (gm_list adj u) = set (graph_succ g u)"
  by (auto simp: edge_loop_inv_def graph_succ_def)

lemma graph_edges_succ: "graph_edges g = edges_of (g_order g) (graph_succ g)"
  by (auto simp: graph_edges_def edges_of_def graph_succ_def known_edge_def)

lemma succ_rel_graph: "succ_rel (graph_succ g) = graph_edges g"
  by (auto simp: graph_edges_def graph_succ_def)

text \<open>Everything \<open>Sort\<close> can return, in terms of the declared edges.\<close>

lemma Sort_cases:
  assumes wf: "graph_wf g"
  obtains (missing) e where "find (\<lambda>e. edge_hard e \<and> \<not> known_edge g e) (g_edges g) = Some e"
      "Sort g = Some (Inl (MissingNodeError (edge_from e) (edge_to e)))"
  | (cycle) path where "find (\<lambda>e. edge_hard e \<and> \<not> known_edge g e) (g_edges g) = None"
      "Sort g = Some (Inl (CycleError path))" "is_cycle (graph_succ g) path"
  | (sorted) order where "find (\<lambda>e. edge_hard e \<and> \<not> known_edge g e) (g_edges g) = None"
      "Sort g = Some (Inr (order, edge_misses g (g_edges g)))"
      "greedy_order (g_order g) (graph_succ g) (gm_int (g_index g)) order"
      "set order = set (g_order g)"
proof (cases "fold_res (sort_edge g) (g_edges g) ([], fold (\<lambda>n. gm_put n 0) (g_order g) [], [])")
  case (Inl err)
  with edge_loop_error [OF wf] missing show ?thesis by (force simp: Sort_def)
next
  case (Inr st)
  obtain adj indeg misses where st: "st = (adj, indeg, misses)" by (cases st)
  define h where "h = fold (\<lambda>n h. if gm_int indeg n = 0 then heap_push n h else h) (g_order g) []"
  define ord where "ord = snd (drain_heap (g_index g) adj indeg h [])"
  note run = Inr [unfolded st]
  have inv: "edge_loop_inv g (g_edges g) (adj, indeg, misses)"
    by (rule edge_loop_inv_result [OF wf run])
  note succ = edge_loop_succ [OF inv]
  have k: "kahn_inv (g_order g) (gm_list adj) (gm_int (g_index g))
      (fst (drain_heap (g_index g) adj indeg h [])) {#} ord"
    unfolding ord_def by (rule Sort_drained [OF wf run h_def])
  then have greedy: "greedy_order (g_order g) (gm_list adj) (gm_int (g_index g)) ord"
    by (simp add: kahn_inv_def)
  note ordn = greedy_order_nodes [OF greedy]
  have none: "find (\<lambda>e. edge_hard e \<and> \<not> known_edge g e) (g_edges g) = None"
  proof (rule ccontr)
    assume "\<not> ?thesis"
    then obtain e where "find (\<lambda>e. edge_hard e \<and> \<not> known_edge g e) (g_edges g) = Some e" by blast
    then have "\<exists>err. fold_res (sort_edge g) (g_edges g)
        ([], fold (\<lambda>n. gm_put n 0) (g_order g) [], []) = Inl err"
      by (simp add: edge_loop_error [OF wf])
    with run show False by simp
  qed
  have sort: "Sort g = (if length ord < length (g_order g)
      then map_option (\<lambda>path. Inl (CycleError path))
        (findCycle (g_order g) (filter (\<lambda>n. n \<notin> set ord) (g_order g)) adj)
      else Some (Inr (ord, misses)))"
    unfolding Sort_def run by (simp add: Let_def h_def ord_def)
  have dist: "distinct (g_order g)" using wf by (simp add: graph_wf_def)
  show ?thesis
  proof (cases "length ord < length (g_order g)")
    case True
    let ?S = "filter (\<lambda>n. n \<notin> set ord) (g_order g)"
    let ?succ = "restrict_succ ?S (gm_list adj)"
    have ne: "?S \<noteq> []"
    proof
      assume "?S = []"
      then have "set (g_order g) \<subseteq> set ord" by (auto simp: filter_empty_conv)
      then have "card (set (g_order g)) \<le> card (set ord)" by (rule card_mono [rotated]) simp
      with True ordn dist show False by (simp add: distinct_card)
    qed
    have roots: "filter (\<lambda>n. n \<in> set ?S) (g_order g) = ?S" by (rule filter_cong) auto
    have "\<exists>path. find_cycle ?succ ?S = Some path \<and> is_cycle ?succ path"
    proof (rule find_cycle_leftover [OF _ ne])
      show "distinct ?S" using dist by simp
      show "\<exists>u \<in> set ?S. v \<in> set (?succ u)" if "v \<in> set ?S" for v
        using kahn_leftover_pred [OF k, of v] that by (auto simp: restrict_succ_def)
      show "set (?succ u) \<subseteq> set ?S" for u by (auto simp: restrict_succ_def)
    qed
    then obtain path where p: "find_cycle ?succ ?S = Some path" "is_cycle ?succ path" by blast
    have "is_cycle (graph_succ g) path"
      by (rule is_cycle_mono [OF p(2)]) (auto simp: restrict_succ_def succ)
    moreover have "Sort g = Some (Inl (CycleError path))"
      using sort True p(1) by (simp only: findCycle_def roots if_True option.map)
    ultimately show ?thesis using cycle none by blast
  next
    case False
    then have "card (set (g_order g)) \<le> card (set ord)"
      using ordn dist by (simp add: distinct_card)
    then have "set ord = set (g_order g)"
      using ordn by (intro card_seteq) auto
    moreover have "misses = edge_misses g (g_edges g)" using inv by (simp add: edge_loop_inv_def)
    ultimately show ?thesis
      using none sort False greedy
      by (intro sorted [of ord]) (simp_all add: greedy_order_cong [OF succ, symmetric])
  qed
qed

lemma Sort_total: "built g \<Longrightarrow> Sort g \<noteq> None"
  by (rule Sort_cases [OF built_wf]) auto

text \<open>
  C1. A successful \<open>Sort\<close> of a graph built through the interface lists every registered node
  exactly once, and every declared edge between registered nodes points forward in the list.
\<close>

theorem Sort_topological:
  assumes "built g" "Sort g = Some (Inr (order, misses))"
  shows "distinct order \<and> set order = set (g_order g) \<and>
    (\<forall>(u, v) \<in> graph_edges g. \<exists>i j. i < j \<and> j < length order \<and> order ! i = u \<and> order ! j = v)"
  using built_wf [OF assms(1)]
proof (cases rule: Sort_cases)
  case (sorted ord)
  with assms(2) have ord: "ord = order" by simp
  note greedy = sorted(3) [unfolded ord] and all = sorted(4) [unfolded ord]
  have "\<exists>i j. i < j \<and> j < length order \<and> order ! i = u \<and> order ! j = v"
    if "(u, v) \<in> graph_edges g" for u v
  proof -
    from that have uv: "u \<in> set (g_order g)" "v \<in> set (graph_succ g u)" "v \<in> set order"
      unfolding graph_edges_succ edges_of_def all by (auto simp: graph_succ_def known_edge_def)
    then obtain j where j: "j < length order" "order ! j = v" by (auto simp: in_set_conv_nth)
    from greedy_order_before [OF greedy uv(1,2) j] j show ?thesis by blast
  qed
  with greedy_order_nodes [OF greedy] all show ?thesis by blast
qed (use assms(2) in auto)

definition sample_graph :: graph where
  "sample_graph = AddSoftEdge ''b'' ''zz'' (AddHardEdge ''c'' ''a''
     (AddNode ''c'' (AddNode ''b'' (AddNode ''a'' New))))"

lemma sample_graph_built: "built sample_graph"
  unfolding sample_graph_def by (intro built.intros)

lemma sample_graph_sort:
  "Sort sample_graph = Some (Inr ([''b'', ''c'', ''a''],
     [\<lparr>miss_node = ''b'', miss_ref = ''zz'', miss_dir = Before\<rparr>]))"
  by code_simp

theorem Sort_topological_witness:
  "Sort sample_graph = Some (Inr ([''b'', ''c'', ''a''],
     [\<lparr>miss_node = ''b'', miss_ref = ''zz'', miss_dir = Before\<rparr>])) \<and>
   distinct [''b'', ''c'', ''a''] \<and> set [''b'', ''c'', ''a''] = set (g_order sample_graph) \<and>
   (\<exists>i j. i < j \<and> j < length [''b'', ''c'', ''a''] \<and> [''b'', ''c'', ''a''] ! i = ''c'' \<and>
      [''b'', ''c'', ''a''] ! j = ''a'')"
proof -
  have "(''c'', ''a'') \<in> graph_edges sample_graph"
    unfolding graph_edges_def
    by (rule CollectI, rule exI [of _ "\<lparr>edge_from = ''c'', edge_to = ''a'', edge_hard = True\<rparr>"])
      (simp add: known_edge_def sample_graph_def AddSoftEdge_def AddHardEdge_def AddNode_def New_def gm_bool_def)
  note e = this and t = Sort_topological [OF sample_graph_built sample_graph_sort]
  from bspec [OF t [THEN conjunct2, THEN conjunct2] e] show ?thesis
    unfolding split_conv
    by (intro conjI sample_graph_sort t [THEN conjunct1] t [THEN conjunct2, THEN conjunct1])
qed

text \<open>
  C2. The order is the stable one: at every position \<open>Sort\<close> emits, among the nodes whose
  predecessors have all been emitted, the one registered first; and no other complete order
  of the same graph has that property, so the result is determined by the declarations.
\<close>

theorem Sort_stable:
  assumes "built g" "Sort g = Some (Inr (order, misses))"
  shows "greedy_order (g_order g) (graph_succ g) (gm_int (g_index g)) order \<and>
    (\<forall>other. greedy_order (g_order g) (graph_succ g) (gm_int (g_index g)) other \<and>
       length other = length order \<longrightarrow> other = order)"
  using built_wf [OF assms(1)]
proof (cases rule: Sort_cases)
  case (sorted ord)
  with assms(2) have "greedy_order (g_order g) (graph_succ g) (gm_int (g_index g)) order" by simp
  with greedy_order_unique [OF _ this _ graph_wf_index_inj [OF built_wf [OF assms(1)]]]
  show ?thesis by blast
qed (use assms(2) in auto)

theorem Sort_stable_witness:
  "greedy_order (g_order sample_graph) (graph_succ sample_graph) (gm_int (g_index sample_graph))
     [''b'', ''c'', ''a'']"
  using Sort_stable [OF sample_graph_built sample_graph_sort] by blast


definition looped_graph :: graph where
  "looped_graph = AddSoftEdge ''b'' ''a'' (AddHardEdge ''a'' ''b'' (AddNode ''b'' (AddNode ''a'' New)))"


text \<open>
  \<open>Sort\<close> reports a \<open>MissingNodeError\<close> exactly when some hard edge names a node that was
  never registered, and it names the endpoints of the first such edge in declaration order;
  otherwise, on success, the misses are those of the soft edges, in declaration order.
\<close>

lemma Sort_missing:
  assumes "built g"
  shows "(Sort g = Some (Inl (MissingNodeError f t)) \<longleftrightarrow>
      (\<exists>e. find (\<lambda>e. edge_hard e \<and> \<not> known_edge g e) (g_edges g) = Some e \<and> f = edge_from e \<and> t = edge_to e)) \<and>
    (Sort g = Some (Inr (order, misses)) \<longrightarrow> misses = edge_misses g (g_edges g))"
  using built_wf [OF assms] by (cases rule: Sort_cases) auto

lemma Sort_missing_example:
  "Sort (AddHardEdge ''a'' ''x'' (AddNode ''a'' New)) = Some (Inl (MissingNodeError ''a'' ''x''))"
proof -
  have "built (AddHardEdge ''a'' ''x'' (AddNode ''a'' New))" by (intro built.intros)
  from Sort_missing [OF this] show ?thesis
    by (simp add: AddHardEdge_def AddNode_def New_def known_edge_def gm_bool_def)
qed

end
