(* ===== verification/Command.thy ===== *)
theory Command
  imports Prelude
begin

text \<open>
  The command line of the runtime: \<^verbatim>\<open>runtime/command.go\<close>.
  \<^item> \<open>flag_parse\<close> is \<^verbatim>\<open>(*flag.FlagSet).Parse\<close> for the three flags the runtime declares.
  \<^item> \<open>parseArgs\<close> finds the subcommand, parses what belongs to the runtime and leaves the rest to a
    subcommand of the application.
\<close>

section \<open>The flag set\<close>

record command =
  cmd_subcommand :: string
  cmd_config :: string
  cmd_profile :: string
  cmd_migrate :: bool
  cmd_args :: "string list"

definition zero_command :: command where
  "zero_command = \<lparr>cmd_subcommand = [], cmd_config = [], cmd_profile = [], cmd_migrate = False, cmd_args = []\<rparr>"

datatype flag_error = BadFlagSyntax string | HelpRequested | FlagNotDefined string | InvalidBoolean string string | NeedsArgument string

text \<open>\<^verbatim>\<open>strconv.ParseBool\<close>.\<close>

definition ParseBool :: "string \<Rightarrow> bool option" where
  "ParseBool s =
     (if s \<in> {''1'', ''t'', ''T'', ''TRUE'', ''true'', ''True''} then Some True
      else if s \<in> {''0'', ''f'', ''F'', ''FALSE'', ''false'', ''False''} then Some False else None)"

text \<open>The name of a flag and its value after \<^verbatim>\<open>=\<close>, which is looked for from the second character on.\<close>

definition split_flag :: "string \<Rightarrow> string \<times> string option" where
  "split_flag name =
     (case name of
        [] \<Rightarrow> ([], None)
      | c # rest \<Rightarrow>
          (case dropWhile (\<lambda>x. x \<noteq> CHR ''='') rest of
             [] \<Rightarrow> (name, None)
           | _ # v \<Rightarrow> (c # takeWhile (\<lambda>x. x \<noteq> CHR ''='') rest, Some v)))"

definition set_flag :: "string \<Rightarrow> string \<Rightarrow> command \<Rightarrow> command" where
  "set_flag name v cmd = (if name = ''config'' then cmd\<lparr>cmd_config := v\<rparr> else cmd\<lparr>cmd_profile := v\<rparr>)"

text \<open>The result is the command so far and the arguments that are no flags.\<close>

fun flag_parse :: "string list \<Rightarrow> command \<Rightarrow> (flag_error, command \<times> string list) result" where
  "flag_parse [] cmd = Inr (cmd, [])"
| "flag_parse (s # args) cmd =
     (if length s < 2 \<or> hd s \<noteq> CHR ''-'' then Inr (cmd, s # args)
      else if s = ''--'' then Inr (cmd, args)
      else
        let name = (if s ! 1 = CHR ''-'' then drop 2 s else drop 1 s) in
        if name = [] \<or> hd name = CHR ''-'' \<or> hd name = CHR ''='' then Inl (BadFlagSyntax s)
        else
          (case split_flag name of (name, v) \<Rightarrow>
            if name = ''migrate'' then
              (case v of
                 None \<Rightarrow> flag_parse args (cmd\<lparr>cmd_migrate := True\<rparr>)
               | Some v \<Rightarrow>
                   (case ParseBool v of
                      None \<Rightarrow> Inl (InvalidBoolean name v)
                    | Some b \<Rightarrow> flag_parse args (cmd\<lparr>cmd_migrate := b\<rparr>)))
            else if name = ''config'' \<or> name = ''profile'' then
              (case v of
                 Some v \<Rightarrow> flag_parse args (set_flag name v cmd)
               | None \<Rightarrow>
                   (case args of
                      [] \<Rightarrow> Inl (NeedsArgument name)
                    | v # args' \<Rightarrow> flag_parse args' (set_flag name v cmd)))
            else if name = ''help'' \<or> name = ''h'' then Inl HelpRequested
            else Inl (FlagNotDefined name)))"

section \<open>Subcommands\<close>

text \<open>Of a registered run function only whether it is given matters here.\<close>

record customCommand =
  cc_name :: string
  cc_usage :: string
  cc_run :: bool

definition migrateSubcommand :: string where "migrateSubcommand = ''migrate''"

definition doctorSubcommand :: string where "doctorSubcommand = ''doctor''"

definition validateSubcommand :: string where "validateSubcommand = ''validate''"

definition builtinSubcommands :: "string list" where
  "builtinSubcommands = [migrateSubcommand, doctorSubcommand, validateSubcommand]"

datatype command_option_error =
  EmptyCommandName | CommandLooksLikeFlag string | CommandWithoutRun string | CommandReserved string | CommandTwice string

definition validateCommand :: "customCommand \<Rightarrow> customCommand list \<Rightarrow> command_option_error option" where
  "validateCommand c registered =
     (if cc_name c = [] then Some EmptyCommandName
      else if hd (cc_name c) = CHR ''-'' then Some (CommandLooksLikeFlag (cc_name c))
      else if \<not> cc_run c then Some (CommandWithoutRun (cc_name c))
      else if list_ex (\<lambda>reserved. cc_name c = reserved) builtinSubcommands then Some (CommandReserved (cc_name c))
      else if list_ex (\<lambda>existing. cc_name existing = cc_name c) registered then Some (CommandTwice (cc_name c))
      else None)"

text \<open>The loop of \<^verbatim>\<open>New\<close> over the commands its options registered.\<close>

fun validate_commands :: "customCommand list \<Rightarrow> customCommand list \<Rightarrow> command_option_error option" where
  "validate_commands registered [] = None"
| "validate_commands registered (c # cs) =
     (case validateCommand c registered of Some e \<Rightarrow> Some e | None \<Rightarrow> validate_commands (registered @ [c]) cs)"

definition lookupCommand :: "customCommand list \<Rightarrow> string \<Rightarrow> customCommand option" where
  "lookupCommand commands name = find (\<lambda>c. cc_name c = name) commands"

definition isBuiltinSubcommand :: "string \<Rightarrow> bool" where
  "isBuiltinSubcommand name \<longleftrightarrow> list_ex (\<lambda>builtin. name = builtin) builtinSubcommands"

definition subcommandList :: "customCommand list \<Rightarrow> string" where
  "subcommandList commands = join '', '' (builtinSubcommands @ map cc_name commands)"

definition TrimLeft :: "char \<Rightarrow> string \<Rightarrow> string" where
  "TrimLeft c s = dropWhile (\<lambda>x. x = c) s"

definition consumesNextArgument :: "string \<Rightarrow> bool" where
  "consumesNextArgument arg =
     (let name = TrimLeft (CHR ''-'') arg in
      if CHR ''='' \<in> set name then False else name = ''config'' \<or> name = ''profile'')"

text \<open>The position of the first argument that can only be the subcommand.\<close>

fun subcommandToken :: "string list \<Rightarrow> nat option" where
  "subcommandToken [] = None"
| "subcommandToken (arg # args) =
     (if arg = [] \<or> arg = ''--'' then map_option Suc (subcommandToken args)
      else if hd arg \<noteq> CHR ''-'' then Some 0
      else if consumesNextArgument arg then
        (case args of [] \<Rightarrow> None | _ # args' \<Rightarrow> map_option (\<lambda>n. n + 2) (subcommandToken args'))
      else map_option Suc (subcommandToken args))"

definition withoutArgument :: "string list \<Rightarrow> nat \<Rightarrow> string list" where
  "withoutArgument args index = take index args @ drop (index + 1) args"

datatype usage_error =
  FlagError flag_error | MigrateWithCommand string | UnknownSubcommand string string | UnknownArgument "string list"

text \<open>What follows the switch of \<^verbatim>\<open>parseArgs\<close>: no positional argument may be left; the profile falls back to the environment.\<close>

definition finish_parse :: "(string \<Rightarrow> string) \<Rightarrow> string \<Rightarrow> command \<times> string list \<Rightarrow> (usage_error, command) result" where
  "finish_parse getenv envPrefix parsed =
     (case parsed of (cmd, rest) \<Rightarrow>
       if rest \<noteq> [] then Inl (UnknownArgument rest)
       else Inr (if cmd_profile cmd = [] then cmd\<lparr>cmd_profile := getenv (envPrefix @ ''PROFILE'')\<rparr> else cmd))"

definition parse_with ::
  "(string \<Rightarrow> string) \<Rightarrow> string \<Rightarrow> string list \<Rightarrow> command \<Rightarrow> (usage_error, command) result" where
  "parse_with getenv envPrefix args cmd =
     (case flag_parse args cmd of Inl e \<Rightarrow> Inl (FlagError e) | Inr parsed \<Rightarrow> finish_parse getenv envPrefix parsed)"

definition parseArgs :: "(string \<Rightarrow> string) \<Rightarrow> string list \<Rightarrow> string \<Rightarrow> customCommand list \<Rightarrow> (usage_error, command) result" where
  "parseArgs getenv args envPrefix commands =
     (case subcommandToken args of
        None \<Rightarrow> parse_with getenv envPrefix args zero_command
      | Some token \<Rightarrow>
          if isBuiltinSubcommand (args ! token) then
            parse_with getenv envPrefix (withoutArgument args token) (zero_command\<lparr>cmd_subcommand := args ! token\<rparr>)
          else
            (case lookupCommand commands (args ! token) of
               Some registered \<Rightarrow>
                 (case flag_parse (take token args) zero_command of
                    Inl e \<Rightarrow> Inl (FlagError e)
                  | Inr (cmd, rest) \<Rightarrow>
                      if cmd_migrate cmd then Inl (MigrateWithCommand (cc_name registered))
                      else finish_parse getenv envPrefix
                        (cmd\<lparr>cmd_subcommand := cc_name registered, cmd_args := drop (token + 1) args\<rparr>, rest))
             | None \<Rightarrow>
                 if token = 0 then Inl (UnknownSubcommand (hd args) (subcommandList commands))
                 else parse_with getenv envPrefix args zero_command))"

definition wantsMigration :: "command \<Rightarrow> bool \<Rightarrow> bool" where
  "wantsMigration c autoMigrate \<longleftrightarrow> cmd_migrate c \<or> cmd_subcommand c = migrateSubcommand \<or> autoMigrate"

section \<open>What is written is what is read\<close>

text \<open>A flag as it is written: with its value joined by \<^verbatim>\<open>=\<close> or as the next argument.\<close>

definition flag_args :: "bool \<Rightarrow> string \<Rightarrow> string \<Rightarrow> string list" where
  "flag_args joined name v = (if joined then [''--'' @ name @ ''='' @ v] else [''--'' @ name, v])"

definition shared_args :: "bool \<Rightarrow> bool \<Rightarrow> command \<Rightarrow> string list" where
  "shared_args j k c =
     (if cmd_config c = [] then [] else flag_args j ''config'' (cmd_config c)) @
     (if cmd_profile c = [] then [] else flag_args k ''profile'' (cmd_profile c)) @
     (if cmd_migrate c then [''--migrate''] else [])"

lemma flag_parse_flag:
  assumes "name = ''config'' \<or> name = ''profile''"
  shows "flag_parse (flag_args j name v @ rest) cmd = flag_parse rest (set_flag name v cmd)"
  using assms by (cases j) (auto simp: flag_args_def split_flag_def)

lemma flag_parse_migrate: "flag_parse (''--migrate'' # rest) cmd = flag_parse rest (cmd\<lparr>cmd_migrate := True\<rparr>)"
  by (simp add: split_flag_def)

lemma token_flag:
  assumes "name = ''config'' \<or> name = ''profile''"
  shows "subcommandToken (flag_args j name v @ rest) = map_option (\<lambda>n. n + length (flag_args j name v)) (subcommandToken rest)"
  using assms by (cases j) (auto simp: flag_args_def consumesNextArgument_def TrimLeft_def Let_def)

lemma token_migrate: "subcommandToken (''--migrate'' # rest) = map_option Suc (subcommandToken rest)"
  by (simp add: consumesNextArgument_def TrimLeft_def Let_def)

lemma flag_parse_shared:
  assumes "cmd_config cmd = []" "cmd_profile cmd = []" "\<not> cmd_migrate cmd"
  shows "flag_parse (shared_args j k c @ rest) cmd =
    flag_parse rest (cmd\<lparr>cmd_config := cmd_config c, cmd_profile := cmd_profile c, cmd_migrate := cmd_migrate c\<rparr>)"
  using assms by (cases cmd) (simp add: shared_args_def flag_parse_flag flag_parse_migrate set_flag_def del: flag_parse.simps)

lemma token_shared: "subcommandToken (shared_args j k c @ rest) = map_option (\<lambda>n. n + length (shared_args j k c)) (subcommandToken rest)"
  by (cases "subcommandToken rest") (simp_all add: shared_args_def token_flag token_migrate del: subcommandToken.simps)

lemma shared_finish: "cmd_config cmd = [] \<Longrightarrow> cmd_profile cmd = [] \<Longrightarrow> \<not> cmd_migrate cmd \<Longrightarrow>
  flag_parse (shared_args j k c) cmd =
    Inr (cmd\<lparr>cmd_config := cmd_config c, cmd_profile := cmd_profile c, cmd_migrate := cmd_migrate c\<rparr>, [])"
  using flag_parse_shared [of cmd j k c "[]"] by simp

lemma validate_commands_names:
  "validate_commands registered cs = None \<Longrightarrow> c \<in> set cs \<Longrightarrow> cc_name c \<noteq> [] \<and> hd (cc_name c) \<noteq> CHR ''-'' \<and> \<not> isBuiltinSubcommand (cc_name c)"
proof (induction registered cs rule: validate_commands.induct)
  case (2 registered d cs)
  then show ?case by (auto simp: validateCommand_def isBuiltinSubcommand_def split: option.splits if_splits)
qed simp

lemma lookupCommand_named: "r \<in> set cs \<Longrightarrow> cc_name r = name \<Longrightarrow> \<exists>r'. lookupCommand cs name = Some r' \<and> cc_name r' = name"
  unfolding lookupCommand_def by (cases "find (\<lambda>c. cc_name c = name) cs") (auto simp: find_None_iff find_Some_iff)

lemma finish_parse_profile:
  assumes "cmd_profile c \<noteq> [] \<or> getenv (envPrefix @ ''PROFILE'') = []"
  shows "finish_parse getenv envPrefix (c, []) = Inr c"
  using assms by (cases c) (auto simp: finish_parse_def)

text \<open>
  C4. What a command line says is what the runtime reads. For commands that \<^verbatim>\<open>New\<close> accepted: the shared
  flags, each with its value joined or as the next argument, followed by nothing, by a subcommand of
  the runtime, or by a registered subcommand with arguments of its own, parse to exactly that command; no value
  of a flag is taken for a subcommand, and no argument of a registered subcommand for a flag, whatever it looks
  like. A subcommand of the runtime may also come before the flags. A migration together with a
  registered subcommand is refused.
\<close>

theorem parseArgs_roundtrip:
  assumes "validate_commands [] commands = None" and "cmd_profile c \<noteq> [] \<or> getenv (envPrefix @ ''PROFILE'') = []"
  shows "(cmd_subcommand c = [] \<and> cmd_args c = [] \<longrightarrow> parseArgs getenv (shared_args j k c) envPrefix commands = Inr c) \<and>
    (isBuiltinSubcommand (cmd_subcommand c) \<and> cmd_args c = [] \<longrightarrow>
      parseArgs getenv (shared_args j k c @ [cmd_subcommand c]) envPrefix commands = Inr c \<and>
      parseArgs getenv (cmd_subcommand c # shared_args j k c) envPrefix commands = Inr c) \<and>
    (cmd_subcommand c \<in> cc_name ` set commands \<longrightarrow>
      parseArgs getenv (shared_args j k c @ cmd_subcommand c # cmd_args c) envPrefix commands =
        (if cmd_migrate c then Inl (MigrateWithCommand (cmd_subcommand c)) else Inr c))"
proof (intro conjI impI)
  note fin = finish_parse_profile [of c getenv envPrefix, OF assms(2)]
  have eq: "finish_parse getenv envPrefix (zero_command\<lparr>cmd_config := cmd_config c, cmd_profile := cmd_profile c,
      cmd_migrate := False, cmd_subcommand := cmd_subcommand c, cmd_args := cmd_args c\<rparr>, []) = Inr c" if "\<not> cmd_migrate c"
    using fin that by (cases c) (simp add: zero_command_def)
  have zero: "cmd_config zero_command = []" "cmd_profile zero_command = []" "\<not> cmd_migrate zero_command"
    "cmd_subcommand zero_command = []" "cmd_args zero_command = []" by (simp_all add: zero_command_def)
  {
    assume "cmd_subcommand c = [] \<and> cmd_args c = []"
    then have "zero_command\<lparr>cmd_config := cmd_config c, cmd_profile := cmd_profile c, cmd_migrate := cmd_migrate c\<rparr> = c"
      by (cases c) (simp add: zero_command_def)
    then show "parseArgs getenv (shared_args j k c) envPrefix commands = Inr c"
      using token_shared [of j k c "[]"] shared_finish [of zero_command j k c] fin zero by (simp add: parseArgs_def parse_with_def)
  }
  {
    assume b: "isBuiltinSubcommand (cmd_subcommand c) \<and> cmd_args c = []"
    then have tok: "subcommandToken (cmd_subcommand c # rest) = Some 0" for rest
      by (auto simp: isBuiltinSubcommand_def builtinSubcommands_def migrateSubcommand_def doctorSubcommand_def validateSubcommand_def)
    have c: "zero_command\<lparr>cmd_subcommand := cmd_subcommand c, cmd_config := cmd_config c, cmd_profile := cmd_profile c,
        cmd_migrate := cmd_migrate c\<rparr> = c"
      using b by (cases c) (simp add: zero_command_def)
    show "parseArgs getenv (shared_args j k c @ [cmd_subcommand c]) envPrefix commands = Inr c"
      using b tok [of "[]"] token_shared [of j k c "[cmd_subcommand c]"] shared_finish [of "zero_command\<lparr>cmd_subcommand := cmd_subcommand c\<rparr>" j k c]
        fin zero c by (simp add: parseArgs_def parse_with_def withoutArgument_def nth_append del: subcommandToken.simps)
    show "parseArgs getenv (cmd_subcommand c # shared_args j k c) envPrefix commands = Inr c"
      using b tok shared_finish [of "zero_command\<lparr>cmd_subcommand := cmd_subcommand c\<rparr>" j k c] fin zero c
      by (simp add: parseArgs_def parse_with_def withoutArgument_def del: subcommandToken.simps)
  }
  {
    assume "cmd_subcommand c \<in> cc_name ` set commands"
    then obtain r where r: "r \<in> set commands" "cc_name r = cmd_subcommand c" by auto
    note names = validate_commands_names [OF assms(1) r(1), unfolded r(2)]
    obtain r' where r': "lookupCommand commands (cmd_subcommand c) = Some r'" "cc_name r' = cmd_subcommand c"
      using lookupCommand_named [OF r] by blast
    have tok: "subcommandToken (cmd_subcommand c # cmd_args c) = Some 0" using names by auto
    show "parseArgs getenv (shared_args j k c @ cmd_subcommand c # cmd_args c) envPrefix commands =
        (if cmd_migrate c then Inl (MigrateWithCommand (cmd_subcommand c)) else Inr c)"
      using names r' tok token_shared [of j k c "cmd_subcommand c # cmd_args c"] shared_finish [of zero_command j k c] zero eq
      by (cases "cmd_migrate c") (simp_all add: parseArgs_def nth_append del: subcommandToken.simps)
  }
qed

definition sample_commands :: "customCommand list" where
  "sample_commands = [\<lparr>cc_name = ''cleanup'', cc_usage = [], cc_run = True\<rparr>]"

text \<open>A configuration file whose name is that of a subcommand, and an argument that looks like a shared flag.\<close>

definition sample_command :: command where
  "sample_command = \<lparr>cmd_subcommand = ''cleanup'', cmd_config = ''doctor'', cmd_profile = ''dev'', cmd_migrate = False, cmd_args = [''--migrate'', ''x'']\<rparr>"

theorem parseArgs_roundtrip_witness:
  "parseArgs (\<lambda>_. []) [''--config'', ''doctor'', ''--profile=dev'', ''cleanup'', ''--migrate'', ''x''] ''XBC_'' sample_commands = Inr sample_command"
proof -
  have "validate_commands [] sample_commands = None" by code_simp
  moreover have "cmd_profile sample_command \<noteq> [] \<or> (\<lambda>_. []) (''XBC_'' @ ''PROFILE'') = []" by simp
  ultimately have "parseArgs (\<lambda>_. []) (shared_args False True sample_command @ cmd_subcommand sample_command # cmd_args sample_command) ''XBC_''
      sample_commands = (if cmd_migrate sample_command then Inl (MigrateWithCommand (cmd_subcommand sample_command)) else Inr sample_command)"
    using parseArgs_roundtrip [of sample_commands sample_command "\<lambda>_. []" "''XBC_''" False True]
    by (simp add: sample_command_def sample_commands_def)
  then show ?thesis by (simp add: sample_command_def shared_args_def flag_args_def)
qed

end
