(* ===== verification/Model.thy ===== *)
theory Model
  imports Prelude
begin

text \<open>
  The type-erased declarations of \<^verbatim>\<open>plugin/model/model.go\<close> and the workload constructors of
  \<^verbatim>\<open>plugin/workload.go\<close>: identifiers and identities, Definitions behind pointer handles,
  Bundles and their workload membership, and the BuildContext a factory reads its inputs from.
  \<^item> A \<^verbatim>\<open>Definition\<close> is a pointer: \<open>None\<close> is the zero handle, \<open>Some p\<close> the data at \<open>p\<close> of the
    heap of descriptors; equality of Definitions is equality of handles.
  \<^item> A \<^verbatim>\<open>reflect.Type\<close> is an \<open>rtype\<close>, which keeps what the code asks of a type: its kind and
    its method sets.
  \<^item> A call into application code that may panic returns a \<open>call\<close>.
  \<^item> The states behind BuildContexts live in an explicit store, since every copy of a
    BuildContext shares one state.
\<close>

section \<open>Identifiers\<close>

type_synonym Key = string
type_synonym WorkloadKey = string

datatype identifier_error = EmptyIdentifier string | InvalidCharacter string string char

definition identifier_char :: "char \<Rightarrow> bool" where
  "identifier_char r \<longleftrightarrow>
     (CHR ''a'' \<le> r \<and> r \<le> CHR ''z'') \<or> (CHR ''0'' \<le> r \<and> r \<le> CHR ''9'') \<or> r = CHR ''_'' \<or> r = CHR ''-''"

fun check_identifier :: "string \<Rightarrow> string \<Rightarrow> string \<Rightarrow> identifier_error option" where
  "check_identifier kind value [] = None"
| "check_identifier kind value (r # rs) =
     (if identifier_char r then check_identifier kind value rs
      else Some (InvalidCharacter kind value r))"

definition ValidateIdentifier :: "string \<Rightarrow> string \<Rightarrow> identifier_error option" where
  "ValidateIdentifier kind value =
     (if value = [] then Some (EmptyIdentifier kind) else check_identifier kind value value)"

definition Key_Validate :: "Key \<Rightarrow> identifier_error option" where
  "Key_Validate k = ValidateIdentifier ''plugin key'' k"

definition WorkloadKey_Validate :: "WorkloadKey \<Rightarrow> identifier_error option" where
  "WorkloadKey_Validate k = ValidateIdentifier ''workload key'' k"

definition DefaultInstance :: string where
  "DefaultInstance = ''default''"

definition NormalizeInstance :: "string \<Rightarrow> string" where
  "NormalizeInstance i = (if i = [] then DefaultInstance else i)"

definition ValidateInstanceName :: "string \<Rightarrow> identifier_error option" where
  "ValidateInstanceName n = ValidateIdentifier ''instance name'' n"

lemma check_identifier_None: "check_identifier kind value rs = None \<longleftrightarrow> list_all identifier_char rs"
  by (induction rs) auto

lemma ValidateIdentifier_None:
  "ValidateIdentifier kind value = None \<longleftrightarrow> value \<noteq> [] \<and> list_all identifier_char value"
  by (simp add: ValidateIdentifier_def check_identifier_None)

lemma NormalizeInstance_nonempty [simp]: "NormalizeInstance i \<noteq> []"
  by (simp add: NormalizeInstance_def DefaultInstance_def)

lemma NormalizeInstance_idem [simp]: "NormalizeInstance (NormalizeInstance i) = NormalizeInstance i"
  by (simp add: NormalizeInstance_def)

section \<open>Identities\<close>

datatype identity = Identity (Plugin: Key) (Instance: string)

definition Normalized :: "identity \<Rightarrow> identity" where
  "Normalized i = Identity (Plugin i) (NormalizeInstance (Instance i))"

definition identity_string :: "identity \<Rightarrow> string" where
  "identity_string i =
     (let i = Normalized i
      in if Instance i = DefaultInstance then Plugin i else Plugin i @ ''['' @ Instance i @ '']'')"

definition CompareIdentity :: "identity \<Rightarrow> identity \<Rightarrow> int" where
  "CompareIdentity left right =
     (let l = Normalized left; r = Normalized right
      in if Plugin l < Plugin r then -1
         else if Plugin r < Plugin l then 1
         else if Instance l < Instance r then -1
         else if Instance r < Instance l then 1
         else 0)"

text \<open>The canonical order: key first, then instance name.\<close>

instantiation identity :: linorder
begin

definition less_eq_identity :: "identity \<Rightarrow> identity \<Rightarrow> bool" where
  "less_eq_identity a b \<longleftrightarrow> Plugin a < Plugin b \<or> (Plugin a = Plugin b \<and> Instance a \<le> Instance b)"

definition less_identity :: "identity \<Rightarrow> identity \<Rightarrow> bool" where
  "less_identity a b \<longleftrightarrow> Plugin a < Plugin b \<or> (Plugin a = Plugin b \<and> Instance a < Instance b)"

instance
proof
  fix a b c :: identity
  show "(a < b) = (a \<le> b \<and> \<not> b \<le> a)"
    by (auto simp: less_eq_identity_def less_identity_def)
  show "a \<le> a" by (simp add: less_eq_identity_def)
  show "a \<le> b \<Longrightarrow> b \<le> c \<Longrightarrow> a \<le> c" by (auto simp: less_eq_identity_def)
  show "a \<le> b \<Longrightarrow> b \<le> a \<Longrightarrow> a = b" by (auto simp: less_eq_identity_def intro: identity.expand)
  show "a \<le> b \<or> b \<le> a" by (auto simp: less_eq_identity_def)
qed

end

text \<open>
  \<^verbatim>\<open>sort.Slice\<close> with \<open>CompareIdentity left right < 0\<close>. The comparison looks at normalised
  identities, so the key of the sort is the normalised identity.
\<close>

definition SortIdentities :: "identity list \<Rightarrow> identity list" where
  "SortIdentities is = sort_key Normalized is"

definition normal_identity :: "identity \<Rightarrow> bool" where
  "normal_identity i \<longleftrightarrow> Instance i \<noteq> []"

lemma CompareIdentity_less: "CompareIdentity l r < 0 \<longleftrightarrow> Normalized l < Normalized r"
  by (auto simp: CompareIdentity_def Let_def less_identity_def)

lemma CompareIdentity_eq: "CompareIdentity l r = 0 \<longleftrightarrow> Normalized l = Normalized r"
  by (auto simp: CompareIdentity_def Let_def Normalized_def)

lemma Normalized_normal [simp]: "normal_identity i \<Longrightarrow> Normalized i = i"
  by (cases i) (simp add: normal_identity_def Normalized_def NormalizeInstance_def)

lemma normal_Normalized [simp]: "normal_identity (Normalized i)"
  by (simp add: normal_identity_def Normalized_def)

lemma set_SortIdentities [simp]: "set (SortIdentities is) = set is"
  by (simp add: SortIdentities_def)

lemma mset_SortIdentities [simp]: "mset (SortIdentities is) = mset is"
  by (simp add: SortIdentities_def)

lemma distinct_SortIdentities [simp]: "distinct (SortIdentities is) = distinct is"
  by (simp add: SortIdentities_def)

lemma SortIdentities_normal:
  "\<forall>i \<in> set xs. normal_identity i \<Longrightarrow> SortIdentities xs = sort xs"
proof (induction xs)
  case (Cons x xs)
  have "insort_key Normalized x ys = insort x ys" if "\<forall>i \<in> set ys. normal_identity i" for ys
    using that Cons.prems by (induction ys) auto
  with Cons show ?case by (simp add: SortIdentities_def)
qed (simp add: SortIdentities_def)

section \<open>Types and values\<close>

text \<open>
  \<open>rtype\<close> is a \<^verbatim>\<open>reflect.Type\<close>: an interface with its methods, a defined type with the
  methods of its values and those only its pointers have, or a pointer. A method is named
  together with its signature.
\<close>

datatype rtype =
    RInterface string "string list"
  | RDefined string "string list" "string list"
  | RPointer rtype

fun method_set :: "rtype \<Rightarrow> string list" where
  "method_set (RInterface _ ms) = ms"
| "method_set (RDefined _ vs _) = vs"
| "method_set (RPointer (RDefined _ vs ps)) = vs @ ps"
| "method_set (RPointer _) = []"

fun is_interface :: "rtype \<Rightarrow> bool" where
  "is_interface (RInterface _ _) = True"
| "is_interface _ = False"

text \<open>\<^verbatim>\<open>typ.Implements(iface)\<close>.\<close>

definition implements :: "rtype \<Rightarrow> rtype \<Rightarrow> bool" where
  "implements t iface \<longleftrightarrow> is_interface iface \<and> set (method_set iface) \<subseteq> set (method_set t)"

text \<open>\<^verbatim>\<open>typ.AssignableTo(target)\<close>: the same type, or an interface the type implements.\<close>

definition assignable :: "rtype \<Rightarrow> rtype \<Rightarrow> bool" where
  "assignable t target \<longleftrightarrow> t = target \<or> implements t target"

text \<open>Plain data, as configuration trees and object contents hold it.\<close>

datatype cval = CNil | CBool bool | CInt int | CString string | CList "cval list"
  | CMap "(string \<times> cval) list"

text \<open>
  A value of type \<^verbatim>\<open>any\<close>: the nil interface, a nil pointer of a type, or a value with its
  dynamic type.
\<close>

datatype anyval = ANil | ANilOf rtype | AVal rtype cval

fun TypeOf :: "anyval \<Rightarrow> rtype option" where
  "TypeOf ANil = None"
| "TypeOf (ANilOf t) = Some t"
| "TypeOf (AVal t _) = Some t"

section \<open>Declarations\<close>

datatype Cardinality = SingleInstance | MultipleInstances | CardinalityOther nat

fun Cardinality_string :: "Cardinality \<Rightarrow> string" where
  "Cardinality_string SingleInstance = ''single''"
| "Cardinality_string MultipleInstances = ''multiple''"
| "Cardinality_string (CardinalityOther n) = ''cardinality('' @ nat_digits n @ '')''"

datatype ActivationKind = ActivationAlways | ActivationConfigured | ActivationOther nat

record Activation =
  act_Kind :: ActivationKind
  act_Path :: string

datatype QueryKind = QueryRef | QueryOne | QueryOptional | QueryMany | QueryOther nat

record InputToken =
  tok_ID :: nat
  tok_Kind :: QueryKind
  tok_Type :: "rtype option"
  tok_Key :: Key
  tok_Instance :: string
  tok_Origin :: string

text \<open>The process-wide counter \<^verbatim>\<open>nextTokenID\<close> is passed explicitly; it is an unsigned 64-bit word.\<close>

definition NewInputToken ::
  "nat \<Rightarrow> QueryKind \<Rightarrow> rtype option \<Rightarrow> Key \<Rightarrow> string \<Rightarrow> string \<Rightarrow> nat \<times> InputToken" where
  "NewInputToken nextTokenID kind typ key inst origin =
     (let n = (nextTokenID + 1) mod 2 ^ 64
      in (n, \<lparr>tok_ID = n, tok_Kind = kind, tok_Type = typ, tok_Key = key,
              tok_Instance = NormalizeInstance inst, tok_Origin = origin\<rparr>))"

record Contract =
  con_Type :: "rtype option"
  con_Origin :: string

text \<open>\<open>None\<close> is the nil function.\<close>

record ConfigDescriptor =
  cfg_Type :: "rtype option"
  cfg_Defaults :: "(unit \<Rightarrow> anyval call) option"
  cfg_Prepare :: "(anyval \<Rightarrow> (string, anyval) result call) option"

text \<open>A lifecycle adapter is an opaque function value, \<open>None\<close> when it is nil.\<close>

record LifecycleAdapters =
  lc_Init :: "nat option"
  lc_Migrate :: "nat option"
  lc_Start :: "nat option"
  lc_OpenTraffic :: "nat option"
  lc_Stop :: "nat option"
  lc_PreStop :: "nat option"
  lc_Drain :: "nat option"
  lc_Preflight :: "nat option"

definition no_adapters :: LifecycleAdapters where
  "no_adapters = \<lparr>lc_Init = None, lc_Migrate = None, lc_Start = None, lc_OpenTraffic = None,
     lc_Stop = None, lc_PreStop = None, lc_Drain = None, lc_Preflight = None\<rparr>"

section \<open>The BuildContext\<close>

record ServiceIdentity =
  svc_Name :: string
  svc_Version :: string
  svc_Instance :: string

record ResolvedEntry =
  re_Identity :: identity
  re_Value :: anyval
  re_Workload :: WorkloadKey

text \<open>
  A logger is an opaque sink with the fields \<^verbatim>\<open>With\<close> has attached to it; a \<open>Logger option\<close> is
  \<open>None\<close> when the interface value is nil.
\<close>

datatype Logger = Logger nat "(string \<times> string) list"

fun log_With :: "string \<Rightarrow> string \<Rightarrow> Logger \<Rightarrow> Logger" where
  "log_With k v (Logger sink fs) = Logger sink (fs @ [(k, v)])"

record buildState =
  bs_active :: bool
  bs_consumer :: identity
  bs_logger :: "Logger option"
  bs_service :: ServiceIdentity
  bs_slots :: "(nat, ResolvedEntry list) gomap"

text \<open>
  A BuildContext is a pointer into the store of build states: \<open>None\<close> is the zero BuildContext.
  The store is the list of the states allocated so far.
\<close>

type_synonym BuildContext = "nat option"
type_synonym build_store = "buildState list"

definition NewBuildContext ::
  "identity \<Rightarrow> Logger option \<Rightarrow> ServiceIdentity \<Rightarrow> (nat, ResolvedEntry list) gomap \<Rightarrow> build_store
     \<Rightarrow> BuildContext \<times> build_store" where
  "NewBuildContext consumer logger service slots st =
     (Some (length st),
      st @ [\<lparr>bs_active = True, bs_consumer = Normalized consumer, bs_logger = logger,
             bs_service = service, bs_slots = slots\<rparr>])"

definition requireActive :: "build_store \<Rightarrow> BuildContext \<Rightarrow> string \<Rightarrow> buildState call" where
  "requireActive st c operation =
     (case c of None \<Rightarrow> Panics (''xbc: zero BuildContext cannot '' @ operation)
      | Some p \<Rightarrow>
          if bs_active (st ! p) then Returns (st ! p)
          else Panics (''xbc: plugin '' @ identity_string (bs_consumer (st ! p)) @
                 '' used BuildContext after its factory returned''))"

definition BuildContext_Identity :: "build_store \<Rightarrow> BuildContext \<Rightarrow> identity call" where
  "BuildContext_Identity st c =
     (case requireActive st c ''read identity'' of
        Panics m \<Rightarrow> Panics m | Returns s \<Rightarrow> Returns (bs_consumer s))"

definition BuildContext_Service :: "build_store \<Rightarrow> BuildContext \<Rightarrow> ServiceIdentity call" where
  "BuildContext_Service st c =
     (case requireActive st c ''read service identity'' of
        Panics m \<Rightarrow> Panics m | Returns s \<Rightarrow> Returns (bs_service s))"

text \<open>\<open>default_logger\<close> is what \<^verbatim>\<open>log.L()\<close> returns.\<close>

definition BuildContext_Log :: "Logger \<Rightarrow> build_store \<Rightarrow> BuildContext \<Rightarrow> Logger call" where
  "BuildContext_Log default_logger st c =
     (case requireActive st c ''read logger'' of
        Panics m \<Rightarrow> Panics m
      | Returns s \<Rightarrow> Returns (case bs_logger s of None \<Rightarrow> default_logger | Some l \<Rightarrow> l))"

text \<open>The panic message prints the token's type by its name, which \<open>type_name\<close> gives.\<close>

fun type_name :: "rtype \<Rightarrow> string" where
  "type_name (RInterface n _) = n"
| "type_name (RDefined n _ _) = n"
| "type_name (RPointer t) = ''*'' @ type_name t"

definition type_label :: "rtype option \<Rightarrow> string" where
  "type_label t = (case t of None \<Rightarrow> ''%!s(<nil>)'' | Some t \<Rightarrow> type_name t)"

definition ReadBuildSlot :: "build_store \<Rightarrow> BuildContext \<Rightarrow> InputToken \<Rightarrow> ResolvedEntry list call" where
  "ReadBuildSlot st c token =
     (case requireActive st c ''read input'' of
        Panics m \<Rightarrow> Panics m
      | Returns s \<Rightarrow>
          (case gm_get (bs_slots s) (tok_ID token) of
             None \<Rightarrow> Panics (''xbc: plugin '' @ identity_string (bs_consumer s) @
                '' used undeclared input token '' @ nat_digits (tok_ID token) @
                '' ('' @ type_label (tok_Type token) @ '')'')
           | Some entries \<Rightarrow> Returns entries))"

definition InvalidateBuildContext :: "BuildContext \<Rightarrow> build_store \<Rightarrow> build_store" where
  "InvalidateBuildContext c st =
     (case c of None \<Rightarrow> st
      | Some p \<Rightarrow> st[p := (st ! p)\<lparr>bs_active := False, bs_slots := []\<rparr>])"

text \<open>What the assembly does to the store between the creation of a BuildContext and a read.\<close>

datatype build_op =
    Allocate identity "Logger option" ServiceIdentity "(nat, ResolvedEntry list) gomap"
  | Invalidate BuildContext

fun run_build_op :: "build_op \<Rightarrow> build_store \<Rightarrow> build_store" where
  "run_build_op (Allocate i l s slots) st = snd (NewBuildContext i l s slots st)"
| "run_build_op (Invalidate c) st = InvalidateBuildContext c st"

lemma run_build_ops_nth:
  "p < length st \<Longrightarrow>
    length st \<le> length (fold run_build_op ops st) \<and>
    fold run_build_op ops st ! p =
      (if Invalidate (Some p) \<in> set ops then (st ! p)\<lparr>bs_active := False, bs_slots := []\<rparr> else st ! p)"
proof (induction ops arbitrary: st)
  case (Cons x ops)
  show ?case
  proof (cases x)
    case (Allocate i l s slots)
    with Cons.prems Cons.IH [of "run_build_op x st"] show ?thesis
      by (auto simp: NewBuildContext_def nth_append)
  next
    case (Invalidate c)
    with Cons.prems Cons.IH [of "run_build_op x st"] show ?thesis
      by (cases c; cases "c = Some p") (auto simp: InvalidateBuildContext_def nth_list_update)
  qed
qed simp

text \<open>
  C7. Whatever other BuildContexts are created and invalidated after it, a BuildContext reads the
  entries it was created with for a declared token, panics on a token it was not given, and
  panics on every access as soon as it has been invalidated once.
\<close>

theorem BuildContext_lifetime:
  "let (c, st1) = NewBuildContext consumer logger service slots st;
       st2 = fold run_build_op ops st1;
       after = ''xbc: plugin '' @ identity_string consumer @ '' used BuildContext after its factory returned''
   in ReadBuildSlot st2 c token =
        (if Invalidate c \<in> set ops then Panics after
         else case gm_get slots (tok_ID token) of
           None \<Rightarrow> Panics (''xbc: plugin '' @ identity_string consumer @ '' used undeclared input token '' @
             nat_digits (tok_ID token) @ '' ('' @ type_label (tok_Type token) @ '')'')
         | Some entries \<Rightarrow> Returns entries) \<and>
      BuildContext_Identity st2 c = (if Invalidate c \<in> set ops then Panics after else Returns (Normalized consumer)) \<and>
      BuildContext_Service st2 c = (if Invalidate c \<in> set ops then Panics after else Returns service)"
proof -
  have "identity_string (Normalized i) = identity_string i" for i
    by (simp add: identity_string_def)
  then show ?thesis
    using run_build_ops_nth [of "length st" "snd (NewBuildContext consumer logger service slots st)" ops]
    by (auto simp: NewBuildContext_def ReadBuildSlot_def requireActive_def BuildContext_Identity_def
        BuildContext_Service_def Let_def split: option.splits)
qed

section \<open>Definitions\<close>

text \<open>
  A factory reads its inputs through the BuildContext it is given and may return a value, an
  error, or panic.
\<close>

type_synonym factory = "build_store \<Rightarrow> BuildContext \<Rightarrow> (string, anyval) result call"

record InstancePlan =
  ip_Inputs :: "InputToken list"
  ip_Factory :: "factory option"

record DefinitionDescriptor =
  dd_Key :: Key
  dd_Origin :: string
  dd_Primary :: "rtype option"
  dd_Cardinality :: Cardinality
  dd_Activation :: Activation
  dd_ConfigPath :: string
  dd_Workload :: WorkloadKey
  dd_Contracts :: "Contract list"
  dd_Config :: "ConfigDescriptor option"
  dd_Plan :: "(anyval \<Rightarrow> (string, InstancePlan) result call) option"
  dd_Lifecycle :: LifecycleAdapters

text \<open>A \<^verbatim>\<open>Definition\<close> is a pointer into the heap of descriptors.\<close>

type_synonym Definition = "nat option"
type_synonym def_heap = "DefinitionDescriptor list"

definition zero_descriptor :: DefinitionDescriptor where
  "zero_descriptor = \<lparr>dd_Key = [], dd_Origin = [], dd_Primary = None, dd_Cardinality = SingleInstance,
     dd_Activation = \<lparr>act_Kind = ActivationAlways, act_Path = []\<rparr>, dd_ConfigPath = [], dd_Workload = [],
     dd_Contracts = [], dd_Config = None, dd_Plan = None, dd_Lifecycle = no_adapters\<rparr>"

definition NewDefinition :: "DefinitionDescriptor \<Rightarrow> def_heap \<Rightarrow> Definition \<times> def_heap" where
  "NewDefinition d h = (Some (length h), h @ [d])"

definition DescribeDefinition :: "def_heap \<Rightarrow> Definition \<Rightarrow> DefinitionDescriptor \<times> bool" where
  "DescribeDefinition h d =
     (case d of None \<Rightarrow> (zero_descriptor, False) | Some p \<Rightarrow> (h ! p, True))"

definition SameDefinition :: "Definition \<Rightarrow> Definition \<Rightarrow> bool" where
  "SameDefinition left right \<longleftrightarrow> left \<noteq> None \<and> left = right"

end
