(* ===== verification/Bundles.thy ===== *)
theory Bundles
  imports Model
begin

text \<open>
  Bundles and workload membership: the Bundle operations of \<^verbatim>\<open>plugin/model/model.go\<close>,
  \<^verbatim>\<open>plugin/bundle.go\<close> and \<^verbatim>\<open>plugin/workload.go\<close>. \<open>ValidateWorkloads\<close> is the check every consumer
  of a composition relies on; it is characterised by the four conditions its comment lists.
\<close>

section \<open>Data\<close>

record Workload =
  wl_Key :: WorkloadKey
  wl_Exclusive :: bool
  wl_Replicas :: int

record BundleEntry =
  be_Definition :: Definition
  be_Origin :: string
  be_Workload :: WorkloadKey

record Bundle =
  b_entries :: "BundleEntry list"
  b_workloads :: "Workload list"

definition NewBundle :: "string \<Rightarrow> Definition list \<Rightarrow> Bundle" where
  "NewBundle origin definitions =
     \<lparr>b_entries = map (\<lambda>d. \<lparr>be_Definition = d, be_Origin = origin, be_Workload = []\<rparr>) definitions,
      b_workloads = []\<rparr>"

text \<open>\<open>origin\<close> is the caller's file and line.\<close>

definition BundleOf :: "string \<Rightarrow> Definition list \<Rightarrow> Bundle" where
  "BundleOf origin definitions = NewBundle origin definitions"

definition CombineBundles :: "Bundle list \<Rightarrow> Bundle" where
  "CombineBundles bundles =
     \<lparr>b_entries = concat (map b_entries bundles), b_workloads = concat (map b_workloads bundles)\<rparr>"

definition BundleEntries :: "Bundle \<Rightarrow> BundleEntry list" where
  "BundleEntries bundle = b_entries bundle"

definition AssignWorkload :: "Bundle \<Rightarrow> Workload \<Rightarrow> Bundle" where
  "AssignWorkload bundle workload =
     \<lparr>b_entries = map (\<lambda>e. e\<lparr>be_Workload := wl_Key workload\<rparr>) (b_entries bundle),
      b_workloads = b_workloads bundle @ [workload]\<rparr>"

definition BundleWorkloads :: "Bundle \<Rightarrow> Workload list" where
  "BundleWorkloads bundle =
     (if b_workloads bundle = [] then []
      else sort_key wl_Key (dedupe_on wl_Key [] (b_workloads bundle)))"

section \<open>Declaring a workload\<close>

datatype WorkloadOption = ExclusiveOption | ReplicasOption int

definition WithExclusiveProcess :: WorkloadOption where
  "WithExclusiveProcess = ExclusiveOption"

definition WithReplicas :: "int \<Rightarrow> WorkloadOption call" where
  "WithReplicas n =
     (if n \<le> 0 then
        Panics ''xbc: plugin.WithReplicas requires a positive replica count''
      else Returns (ReplicasOption n))"

fun applyWorkload :: "WorkloadOption \<Rightarrow> Workload \<Rightarrow> Workload" where
  "applyWorkload ExclusiveOption w = w\<lparr>wl_Exclusive := True\<rparr>"
| "applyWorkload (ReplicasOption n) w = w\<lparr>wl_Replicas := n\<rparr>"

text \<open>The options in order; \<open>None\<close> is a nil option.\<close>

fun apply_options :: "WorkloadOption option list \<Rightarrow> Workload \<Rightarrow> Workload call" where
  "apply_options [] w = Returns w"
| "apply_options (None # os) w = Panics ''xbc: plugin.WorkloadOf item is nil''"
| "apply_options (Some opt # os) w = apply_options os (applyWorkload opt w)"

definition WorkloadOf :: "WorkloadKey \<Rightarrow> Bundle \<Rightarrow> WorkloadOption option list \<Rightarrow> Bundle call" where
  "WorkloadOf key plugins options =
     (if WorkloadKey_Validate key \<noteq> None then Panics ''xbc: plugin.WorkloadOf workload key is invalid''
      else case find (\<lambda>e. be_Workload e \<noteq> []) (BundleEntries plugins) of
        Some e \<Rightarrow> Panics (''xbc: plugin.WorkloadOf for workload '' @ key @
          '' was given a Bundle whose occurrences already belong to workload '' @ be_Workload e)
      | None \<Rightarrow>
          (case BundleWorkloads plugins of
             nested # _ \<Rightarrow> Panics (''xbc: plugin.WorkloadOf for workload '' @ key @
               '' was given a Bundle that declares workload '' @ wl_Key nested)
           | [] \<Rightarrow>
               (case apply_options options \<lparr>wl_Key = key, wl_Exclusive = False, wl_Replicas = 1\<rparr> of
                  Panics m \<Rightarrow> Panics m
                | Returns workload \<Rightarrow> Returns (AssignWorkload plugins workload))))"

section \<open>Validation of a composition\<close>

datatype workload_error =
    DeclaredTwice Workload Workload
  | SelfDisagrees Definition WorkloadKey WorkloadKey
  | BelongsToTwo Definition WorkloadKey WorkloadKey
  | UndeclaredWorkload Definition WorkloadKey

definition definitionLabel :: "def_heap \<Rightarrow> Definition \<Rightarrow> string" where
  "definitionLabel h d =
     (case DescribeDefinition h d of (descriptor, ok) \<Rightarrow>
        if \<not> ok then ''a zero Definition'' else ''plugin '' @ dd_Key descriptor)"

definition declare_workload ::
  "Workload \<Rightarrow> (WorkloadKey, Workload) gomap \<Rightarrow> (workload_error, (WorkloadKey, Workload) gomap) result" where
  "declare_workload w declared =
     (case gm_get declared (wl_Key w) of
        None \<Rightarrow> Inr (gm_put (wl_Key w) w declared)
      | Some previous \<Rightarrow> if previous \<noteq> w then Inl (DeclaredTwice previous w) else Inr declared)"

definition own_entry ::
  "(WorkloadKey, Workload) gomap \<Rightarrow> (Definition, WorkloadKey) gomap \<Rightarrow> BundleEntry
     \<Rightarrow> (Definition, WorkloadKey) gomap \<Rightarrow> (workload_error, (Definition, WorkloadKey) gomap) result" where
  "own_entry declared definitionWorkload e owned =
     (let own = gm_list definitionWorkload (be_Definition e) in
      if own \<noteq> [] \<and> be_Workload e \<noteq> [] \<and> be_Workload e \<noteq> own then
        Inl (SelfDisagrees (be_Definition e) own (be_Workload e))
      else
        let member = (if own \<noteq> [] then own else be_Workload e) in
        if member = [] then Inr owned
        else case gm_get owned (be_Definition e) of
          Some previous \<Rightarrow>
            if previous \<noteq> member then Inl (BelongsToTwo (be_Definition e) previous member)
            else if gm_get declared member = None then Inl (UndeclaredWorkload (be_Definition e) member)
            else Inr (gm_put (be_Definition e) member owned)
        | None \<Rightarrow>
            if gm_get declared member = None then Inl (UndeclaredWorkload (be_Definition e) member)
            else Inr (gm_put (be_Definition e) member owned))"

definition ValidateWorkloads ::
  "Bundle list \<Rightarrow> (Definition, WorkloadKey) gomap \<Rightarrow> workload_error option" where
  "ValidateWorkloads bundles definitionWorkload =
     (case fold_res (\<lambda>b. fold_res declare_workload (b_workloads b)) bundles [] of
        Inl e \<Rightarrow> Some e
      | Inr declared \<Rightarrow>
          (case fold_res (\<lambda>b. fold_res (own_entry declared definitionWorkload) (b_entries b)) bundles [] of
             Inl e \<Rightarrow> Some e
           | Inr _ \<Rightarrow> None))"

section \<open>The declarations loop\<close>

lemma declare_workloads_ok:
  "(\<exists>m'. fold_res declare_workload ws m = Inr m') \<longleftrightarrow> consistent wl_Key (\<lambda>w. w) ws (map_of m)"
proof (induction ws arbitrary: m)
  case (Cons x ws)
  show ?case
  proof (cases "gm_get m (wl_Key x)")
    case None
    with Cons show ?thesis by (simp add: declare_workload_def [of x m] consistent_Cons fun_upd_def)
  next
    case (Some p)
    then have "p = x \<Longrightarrow> (map_of m)(wl_Key x \<mapsto> x) = map_of m" by auto
    with Some Cons show ?thesis by (auto simp: declare_workload_def [of x m] consistent_Cons)
  qed
qed simp

lemma declare_workloads_dom:
  "fold_res declare_workload ws m = Inr m' \<Longrightarrow>
    gm_get m' k \<noteq> None \<longleftrightarrow> gm_get m k \<noteq> None \<or> k \<in> wl_Key ` set ws"
proof (induction ws arbitrary: m)
  case (Cons x ws)
  then show ?case
    by (auto simp: declare_workload_def split: option.splits if_splits sum.splits)
qed simp

section \<open>The ownership loop\<close>

text \<open>The workload an occurrence puts its Definition in, \<open>[]\<close> for none.\<close>

definition entry_member :: "(Definition, WorkloadKey) gomap \<Rightarrow> BundleEntry \<Rightarrow> WorkloadKey" where
  "entry_member dw e =
     (let own = gm_list dw (be_Definition e) in if own \<noteq> [] then own else be_Workload e)"

definition self_consistent :: "(Definition, WorkloadKey) gomap \<Rightarrow> BundleEntry \<Rightarrow> bool" where
  "self_consistent dw e \<longleftrightarrow>
     (let own = gm_list dw (be_Definition e)
      in own = [] \<or> be_Workload e = [] \<or> be_Workload e = own)"

lemma own_entry_eq:
  "own_entry declared dw e owned =
     (let member = entry_member dw e in
      if \<not> self_consistent dw e then
        Inl (SelfDisagrees (be_Definition e) (gm_list dw (be_Definition e)) (be_Workload e))
      else if member = [] then Inr owned
      else if \<exists>k. gm_get owned (be_Definition e) = Some k \<and> k \<noteq> member then
        Inl (BelongsToTwo (be_Definition e) (the (gm_get owned (be_Definition e))) member)
      else if gm_get declared member = None then Inl (UndeclaredWorkload (be_Definition e) member)
      else Inr (gm_put (be_Definition e) member owned))"
  by (auto simp: own_entry_def entry_member_def self_consistent_def Let_def split: option.splits)

text \<open>The occurrences that put their Definition in a workload.\<close>

definition members :: "(Definition, WorkloadKey) gomap \<Rightarrow> BundleEntry list \<Rightarrow> BundleEntry list" where
  "members dw es = filter (\<lambda>e. entry_member dw e \<noteq> []) es"

lemma own_entries_ok:
  "(\<exists>m. fold_res (own_entry declared dw) es owned = Inr m) \<longleftrightarrow>
     list_all (self_consistent dw) es \<and>
     list_all (\<lambda>e. gm_get declared (entry_member dw e) \<noteq> None) (members dw es) \<and>
     consistent be_Definition (entry_member dw) (members dw es) (map_of owned)"
proof (induction es arbitrary: owned)
  case (Cons e es)
  show ?case
    by (cases "gm_get owned (be_Definition e)")
      (auto simp: own_entry_eq [of declared dw e owned] Let_def Cons consistent_Cons members_def fun_upd_def)
qed (simp add: members_def)

text \<open>
  C5. \<open>ValidateWorkloads\<close> accepts a composition exactly when no workload key is declared with
  two different placements, no Definition's own workload disagrees with the workload of one of
  its occurrences, no Definition belongs to two workloads however each membership was declared,
  and every membership names a declared workload.
\<close>

theorem ValidateWorkloads_iff:
  "ValidateWorkloads bundles dw = None \<longleftrightarrow>
     (let ws = concat (map b_workloads bundles); es = concat (map b_entries bundles) in
      (\<forall>v \<in> set ws. \<forall>w \<in> set ws. wl_Key v = wl_Key w \<longrightarrow> v = w) \<and>
      (\<forall>e \<in> set es. gm_list dw (be_Definition e) = [] \<or> be_Workload e = [] \<or>
         be_Workload e = gm_list dw (be_Definition e)) \<and>
      (\<forall>d \<in> set es. \<forall>e \<in> set es. be_Definition d = be_Definition e \<and>
         entry_member dw d \<noteq> [] \<and> entry_member dw e \<noteq> [] \<longrightarrow> entry_member dw d = entry_member dw e) \<and>
      (\<forall>e \<in> set es. entry_member dw e \<noteq> [] \<longrightarrow> entry_member dw e \<in> wl_Key ` set ws))"
proof (cases "fold_res declare_workload (concat (map b_workloads bundles)) []")
  case (Inl err)
  then have "\<not> consistent wl_Key (\<lambda>w. w) (concat (map b_workloads bundles)) (map_of [])"
    using declare_workloads_ok [of "concat (map b_workloads bundles)" "[]"] by simp
  then have "\<not> (\<forall>v \<in> set (concat (map b_workloads bundles)). \<forall>w \<in> set (concat (map b_workloads bundles)).
      wl_Key v = wl_Key w \<longrightarrow> v = w)"
    by (simp add: consistent_def)
  with Inl show ?thesis
    unfolding ValidateWorkloads_def fold_res_concat Let_def by simp
next
  case (Inr declared)
  then have ok: "consistent wl_Key (\<lambda>w. w) (concat (map b_workloads bundles)) (map_of [])"
    using declare_workloads_ok [of "concat (map b_workloads bundles)" "[]"] by blast
  have dom: "gm_get declared k \<noteq> None \<longleftrightarrow> k \<in> wl_Key ` set (concat (map b_workloads bundles))" for k
    using declare_workloads_dom [OF Inr, of k] by simp
  have "ValidateWorkloads bundles dw = None \<longleftrightarrow>
      (\<exists>m. fold_res (own_entry declared dw) (concat (map b_entries bundles)) [] = Inr m)"
    using Inr by (auto simp: ValidateWorkloads_def fold_res_concat split: sum.splits)
  also note own_entries_ok
  also have "consistent be_Definition (entry_member dw) (members dw (concat (map b_entries bundles))) (map_of [])
    \<longleftrightarrow> (\<forall>d \<in> set (concat (map b_entries bundles)). \<forall>e \<in> set (concat (map b_entries bundles)).
      be_Definition d = be_Definition e \<and> entry_member dw d \<noteq> [] \<and> entry_member dw e \<noteq> [] \<longrightarrow>
      entry_member dw d = entry_member dw e)"
    unfolding consistent_def members_def set_filter by (auto simp del: set_concat)
  also have "list_all (\<lambda>e. gm_get declared (entry_member dw e) \<noteq> None) (members dw (concat (map b_entries bundles)))
    \<longleftrightarrow> (\<forall>e \<in> set (concat (map b_entries bundles)). entry_member dw e \<noteq> [] \<longrightarrow>
      entry_member dw e \<in> wl_Key ` set (concat (map b_workloads bundles)))"
    unfolding dom list_all_iff members_def by auto
  finally show ?thesis
    using ok unfolding list_all_iff consistent_def self_consistent_def Let_def
    by (simp only: map_of.simps conj_assoc conj_commute conj_left_commute simp_thms ball_simps) blast
qed

text \<open>The first condition alone, for the consumers that read the declarations.\<close>

lemma ValidateWorkloads_declared:
  assumes "ValidateWorkloads bundles dw = None"
  shows "\<forall>v \<in> set (concat (map b_workloads bundles)). \<forall>w \<in> set (concat (map b_workloads bundles)).
    wl_Key v = wl_Key w \<longrightarrow> v = w"
proof -
  from assms obtain m where "fold_res declare_workload (concat (map b_workloads bundles)) [] = Inr m"
    by (auto simp: ValidateWorkloads_def fold_res_concat split: sum.splits)
  then have "consistent wl_Key (\<lambda>w. w) (concat (map b_workloads bundles)) (map_of [])"
    using declare_workloads_ok [of "concat (map b_workloads bundles)" "[]"] by blast
  then show ?thesis unfolding consistent_def by blast
qed

text \<open>
  The Bundle that \<open>WorkloadOf\<close> returns gives every occurrence the workload's key, declares
  exactly that one workload with its placement taken from the options in order, and keeps the
  Definitions and origins of the given Bundle; it panics on a Bundle that already has a
  membership or a workload declaration.
\<close>

lemma WorkloadOf_result:
  assumes "WorkloadOf key plugins options = Returns b"
  shows "map be_Definition (b_entries b) = map be_Definition (b_entries plugins) \<and>
    map be_Origin (b_entries b) = map be_Origin (b_entries plugins) \<and>
    (\<forall>e \<in> set (b_entries b). be_Workload e = key) \<and>
    (\<exists>w. b_workloads b = [w] \<and> wl_Key w = key \<and>
       (wl_Exclusive w \<longleftrightarrow> Some ExclusiveOption \<in> set options) \<and>
       wl_Replicas w = last (1 # [n. Some (ReplicasOption n) \<leftarrow> options])) \<and>
    b_workloads plugins = [] \<and> (\<forall>e \<in> set (b_entries plugins). be_Workload e = []) \<and>
    WorkloadKey_Validate key = None"
proof -
  have opts: "apply_options os w = Returns w' \<Longrightarrow>
      wl_Key w' = wl_Key w \<and> (wl_Exclusive w' \<longleftrightarrow> wl_Exclusive w \<or> Some ExclusiveOption \<in> set os) \<and>
      wl_Replicas w' = last (wl_Replicas w # [n. Some (ReplicasOption n) \<leftarrow> os])"
    for os w w'
  proof (induction os w rule: apply_options.induct)
    case (3 opt os w)
    then show ?case by (cases opt) auto
  qed auto
  have none: "BundleWorkloads plugins = [] \<Longrightarrow> b_workloads plugins = []"
    using dedupe_on_keys [of wl_Key "[]" "b_workloads plugins"]
    by (auto simp: BundleWorkloads_def split: if_splits) (metis image_is_empty length_0_conv length_sort set_empty)
  from assms obtain w where
    "BundleWorkloads plugins = []" "b = AssignWorkload plugins w"
    "apply_options options \<lparr>wl_Key = key, wl_Exclusive = False, wl_Replicas = 1\<rparr> = Returns w"
    "find (\<lambda>e. be_Workload e \<noteq> []) (b_entries plugins) = None" "WorkloadKey_Validate key = None"
    by (auto simp: WorkloadOf_def BundleEntries_def split: if_splits option.splits list.splits call.splits)
  with opts [OF this(3)] none show ?thesis
    unfolding \<open>b = AssignWorkload plugins w\<close>
    by (simp del: last.simps add: AssignWorkload_def find_None_iff o_def)
qed

definition sample_bundle :: Bundle where
  "sample_bundle = BundleOf ''main.go:1'' [Some 0, Some 1]"

definition sample_workload_bundle :: Bundle where
  "sample_workload_bundle =
     \<lparr>b_entries =
        [\<lparr>be_Definition = Some 0, be_Origin = ''main.go:1'', be_Workload = ''sast''\<rparr>,
         \<lparr>be_Definition = Some 1, be_Origin = ''main.go:1'', be_Workload = ''sast''\<rparr>],
      b_workloads = [\<lparr>wl_Key = ''sast'', wl_Exclusive = True, wl_Replicas = 3\<rparr>]\<rparr>"

theorem ValidateWorkloads_iff_witness:
  "ValidateWorkloads [sample_workload_bundle, sample_bundle] [(Some 1, ''sast'')] = None"
  unfolding ValidateWorkloads_iff by code_simp

end
