(* ===== verification/Lifecycle.thy ===== *)
theory Lifecycle
  imports Bundles
begin

text \<open>
  Compilation of lifecycle hooks, \<^verbatim>\<open>plugin/assembly/lifecycle_descriptor.go\<close>: which of the eight
  stages of a Definition have a hook, and whether the hook is a method of the primary type or a
  declared adapter. A compiled hook is a \<open>hook\<close>: the closure over the method of the stage, or
  the adapter itself.
\<close>

section \<open>Stages\<close>

datatype hook = MethodHook string | AdapterHook nat

record lifecycleDescriptor =
  ld_init :: "hook option"
  ld_migrate :: "hook option"
  ld_start :: "hook option"
  ld_openTraffic :: "hook option"
  ld_stop :: "hook option"
  ld_preStop :: "hook option"
  ld_drain :: "hook option"
  ld_preflight :: "hook option"

definition initializerType :: rtype where
  "initializerType = RInterface ''plugin.Initializer'' [''Init(*plugin.Context) error'']"

definition migratorType :: rtype where
  "migratorType = RInterface ''plugin.Migrator'' [''Migrate(*plugin.Context) error'']"

definition runnerType :: rtype where
  "runnerType = RInterface ''plugin.Runner'' [''Start(*plugin.Context) error'']"

definition trafficOpenerType :: rtype where
  "trafficOpenerType = RInterface ''plugin.TrafficOpener'' [''OpenTraffic(*plugin.Context) error'']"

definition closerType :: rtype where
  "closerType = RInterface ''plugin.Closer'' [''Stop(context.Context) error'']"

definition preStopperType :: rtype where
  "preStopperType = RInterface ''plugin.PreStopper'' [''PreStop(context.Context) error'']"

definition drainerType :: rtype where
  "drainerType = RInterface ''plugin.Drainer'' [''Drain(context.Context) error'']"

definition preflighterType :: rtype where
  "preflighterType = RInterface ''plugin.Preflighter'' [''Preflight(*plugin.Context) error'']"

text \<open>The stage table: name, interface, and the adapter that covers the stage.\<close>

definition lifecycleStages :: "(string \<times> rtype \<times> (LifecycleAdapters \<Rightarrow> nat option)) list" where
  "lifecycleStages =
     [(''Init'', initializerType, lc_Init),
      (''Migrate'', migratorType, lc_Migrate),
      (''Start'', runnerType, lc_Start),
      (''OpenTraffic'', trafficOpenerType, lc_OpenTraffic),
      (''Stop'', closerType, lc_Stop),
      (''PreStop'', preStopperType, lc_PreStop),
      (''Drain'', drainerType, lc_Drain),
      (''Preflight'', preflighterType, lc_Preflight)]"

datatype lifecycle_error =
    PointerOnlyLifecycle Key string
  | DuplicateLifecycle Key string

definition duplicateLifecycle :: "DefinitionDescriptor \<Rightarrow> string \<Rightarrow> lifecycle_error" where
  "duplicateLifecycle d stage = DuplicateLifecycle (dd_Key d) stage"

text \<open>The primary type of a Definition; every caller has rejected a nil one first.\<close>

definition primary_type :: "DefinitionDescriptor \<Rightarrow> rtype" where
  "primary_type d = (case dd_Primary d of Some t \<Rightarrow> t | None \<Rightarrow> RInterface [] [])"

fun reject_pointer_only ::
  "DefinitionDescriptor \<Rightarrow> (string \<times> rtype \<times> (LifecycleAdapters \<Rightarrow> nat option)) list \<Rightarrow> lifecycle_error option" where
  "reject_pointer_only d [] = None"
| "reject_pointer_only d ((name, iface, covered) # stages) =
     (if implements (primary_type d) iface \<or> \<not> implements (RPointer (primary_type d)) iface then
        reject_pointer_only d stages
      else if covered (dd_Lifecycle d) \<noteq> None then reject_pointer_only d stages
      else Some (PointerOnlyLifecycle (dd_Key d) name))"

definition rejectPointerOnlyLifecycle :: "DefinitionDescriptor \<Rightarrow> lifecycle_error option" where
  "rejectPointerOnlyLifecycle d = reject_pointer_only d lifecycleStages"

text \<open>One of the eight branches of \<open>compileLifecycle\<close>.\<close>

definition compile_stage ::
  "DefinitionDescriptor \<Rightarrow> string \<Rightarrow> rtype \<Rightarrow> nat option \<Rightarrow> (lifecycle_error, hook option) result" where
  "compile_stage d name iface adapter =
     (if implements (primary_type d) iface then
        (if adapter \<noteq> None then Inl (duplicateLifecycle d name) else Inr (Some (MethodHook name)))
      else Inr (map_option AdapterHook adapter))"

definition compileLifecycle :: "DefinitionDescriptor \<Rightarrow> (lifecycle_error, lifecycleDescriptor) result" where
  "compileLifecycle d =
     (case rejectPointerOnlyLifecycle d of
        Some e \<Rightarrow> Inl e
      | None \<Rightarrow>
          (case map_res (\<lambda>(name, iface, adapter). compile_stage d name iface (adapter (dd_Lifecycle d)))
                  lifecycleStages of
             Inl e \<Rightarrow> Inl e
           | Inr hooks \<Rightarrow>
               Inr \<lparr>ld_init = hooks ! 0, ld_migrate = hooks ! 1, ld_start = hooks ! 2,
                    ld_openTraffic = hooks ! 3, ld_stop = hooks ! 4, ld_preStop = hooks ! 5,
                    ld_drain = hooks ! 6, ld_preflight = hooks ! 7\<rparr>))"

section \<open>What a compiled descriptor holds\<close>

text \<open>The hook of a stage of the table, by name.\<close>

definition stage_hook :: "lifecycleDescriptor \<Rightarrow> string \<Rightarrow> hook option" where
  "stage_hook ld name =
     (case index_of name (map fst lifecycleStages) of
        None \<Rightarrow> None
      | Some i \<Rightarrow> [ld_init ld, ld_migrate ld, ld_start ld, ld_openTraffic ld, ld_stop ld,
                  ld_preStop ld, ld_drain ld, ld_preflight ld] ! i)"

lemma reject_pointer_only_None:
  "reject_pointer_only d stages = None \<longleftrightarrow>
     (\<forall>(name, iface, covered) \<in> set stages.
        implements (RPointer (primary_type d)) iface \<and> \<not> implements (primary_type d) iface \<longrightarrow>
        covered (dd_Lifecycle d) \<noteq> None)"
  by (induction d stages rule: reject_pointer_only.induct) auto

lemma lifecycleStages_distinct: "distinct (map fst lifecycleStages)"
  by (simp add: lifecycleStages_def)

lemma stage_hook_nth:
  assumes "i < 8"
  shows "stage_hook ld (fst (lifecycleStages ! i)) =
    [ld_init ld, ld_migrate ld, ld_start ld, ld_openTraffic ld, ld_stop ld, ld_preStop ld,
     ld_drain ld, ld_preflight ld] ! i"
proof -
  have "i \<in> {0, 1, 2, 3, 4, 5, 6, 7}" using assms by auto
  then show ?thesis by (auto simp: stage_hook_def lifecycleStages_def)
qed

text \<open>
  Compilation succeeds exactly when no stage has both a method and an adapter and no stage is
  reachable only through the pointer without an adapter; then every stage has exactly the hook
  its declaration gives: the method, the adapter, or none. No declared hook is dropped.
\<close>

lemma compileLifecycle_spec:
  "case compileLifecycle d of
     Inl _ \<Rightarrow>
       (\<exists>(name, iface, adapter) \<in> set lifecycleStages.
          (implements (primary_type d) iface \<and> adapter (dd_Lifecycle d) \<noteq> None) \<or>
          (\<not> implements (primary_type d) iface \<and> implements (RPointer (primary_type d)) iface \<and>
           adapter (dd_Lifecycle d) = None))
   | Inr ld \<Rightarrow>
       (\<forall>(name, iface, adapter) \<in> set lifecycleStages.
          \<not> (implements (primary_type d) iface \<and> adapter (dd_Lifecycle d) \<noteq> None) \<and>
          (implements (RPointer (primary_type d)) iface \<longrightarrow> stage_hook ld name \<noteq> None) \<and>
          stage_hook ld name =
            (if implements (primary_type d) iface then Some (MethodHook name)
             else map_option AdapterHook (adapter (dd_Lifecycle d))))"
proof (cases "rejectPointerOnlyLifecycle d")
  case (Some e)
  then have "\<not> (\<forall>(name, iface, covered) \<in> set lifecycleStages.
      implements (RPointer (primary_type d)) iface \<and> \<not> implements (primary_type d) iface \<longrightarrow>
      covered (dd_Lifecycle d) \<noteq> None)"
    using reject_pointer_only_None [of d lifecycleStages] by (simp add: rejectPointerOnlyLifecycle_def)
  with Some show ?thesis by (fastforce simp: compileLifecycle_def)
next
  case None
  then have ptr: "implements (RPointer (primary_type d)) iface \<Longrightarrow>
      implements (primary_type d) iface \<or> adapter (dd_Lifecycle d) \<noteq> None"
    if "(name, iface, adapter) \<in> set lifecycleStages" for name iface adapter
    using that reject_pointer_only_None [of d lifecycleStages]
    by (fastforce simp: rejectPointerOnlyLifecycle_def)
  let ?c = "\<lambda>(name, iface, adapter). compile_stage d name iface (adapter (dd_Lifecycle d))"
  show ?thesis
  proof (cases "map_res ?c lifecycleStages")
    case (Inl e)
    then obtain name iface adapter where st: "(name, iface, adapter) \<in> set lifecycleStages"
      and "compile_stage d name iface (adapter (dd_Lifecycle d)) = Inl e"
      using map_res_Inl [OF Inl] by auto
    then have "implements (primary_type d) iface" "adapter (dd_Lifecycle d) \<noteq> None"
      by (auto simp: compile_stage_def split: if_splits)
    with Inl None show ?thesis
      unfolding compileLifecycle_def by simp (rule bexI [OF _ st], simp)
  next
    case (Inr hooks)
    then have hooks: "list_all2 (\<lambda>st h. ?c st = Inr h) lifecycleStages hooks"
      by (simp add: map_res_Inr_iff)
    have len: "length hooks = 8" "length lifecycleStages = 8"
      using map_res_length [OF Inr] by (simp_all add: lifecycleStages_def)
    from Inr None obtain ld where ld: "compileLifecycle d = Inr ld"
      and fields: "[ld_init ld, ld_migrate ld, ld_start ld, ld_openTraffic ld, ld_stop ld, ld_preStop ld,
          ld_drain ld, ld_preflight ld] = hooks"
      using len by (auto simp: compileLifecycle_def length_Suc_conv eval_nat_numeral)
    have "?c st = Inr (stage_hook ld (fst st))" if "st \<in> set lifecycleStages" for st
    proof -
      from that obtain i where i: "i < 8" "st = lifecycleStages ! i"
        by (metis in_set_conv_nth len(2))
      with list_all2_nthD [OF hooks, of i] show ?thesis
        by (simp add: stage_hook_nth fields len)
    qed
    then have c: "compile_stage d name iface (adapter (dd_Lifecycle d)) = Inr (stage_hook ld name)"
      if "(name, iface, adapter) \<in> set lifecycleStages" for name iface adapter
      using that by fastforce
    have "\<not> (implements (primary_type d) iface \<and> adapter (dd_Lifecycle d) \<noteq> None) \<and>
        (implements (RPointer (primary_type d)) iface \<longrightarrow> stage_hook ld name \<noteq> None) \<and>
        stage_hook ld name = (if implements (primary_type d) iface then Some (MethodHook name)
          else map_option AdapterHook (adapter (dd_Lifecycle d)))"
      if st: "(name, iface, adapter) \<in> set lifecycleStages" for name iface adapter
      using c [OF st, symmetric] ptr [OF st] by (auto simp: compile_stage_def split: if_splits)
    then show ?thesis
      unfolding ld sum.case ball_triple by blast
  qed
qed

definition sample_service :: DefinitionDescriptor where
  "sample_service = zero_descriptor\<lparr>dd_Key := ''svc'',
     dd_Primary := Some (RPointer (RDefined ''svc.Server'' [] [''Start(*plugin.Context) error''])),
     dd_Lifecycle := no_adapters\<lparr>lc_Stop := Some 7\<rparr>\<rparr>"

lemma compileLifecycle_spec_example:
  "\<exists>ld. compileLifecycle sample_service = Inr ld \<and> stage_hook ld ''Start'' = Some (MethodHook ''Start'') \<and>
     stage_hook ld ''Stop'' = Some (AdapterHook 7)"
proof -
  obtain ld where ld: "compileLifecycle sample_service = Inr ld"
    by (cases "compileLifecycle sample_service") (code_simp, blast)
  have t: "implements (primary_type sample_service) runnerType" by code_simp
  have s: "\<not> implements (primary_type sample_service) closerType"
    "lc_Stop (dd_Lifecycle sample_service) = Some 7" by code_simp+
  note spec = compileLifecycle_spec [of sample_service, unfolded ld sum.case]
  have "(''Start'', runnerType, lc_Start) \<in> set lifecycleStages" "(''Stop'', closerType, lc_Stop) \<in> set lifecycleStages"
    by (simp_all add: lifecycleStages_def)
  from bspec [OF spec this(1)] bspec [OF spec this(2)] t s ld show ?thesis by simp
qed

end
