(* ===== verification/Freeze.thy ===== *)
theory Freeze
  imports Lifecycle
begin

text \<open>
  Freezing a composition: \<^verbatim>\<open>freezeBundles\<close> and \<^verbatim>\<open>validateDefinition\<close> of
  \<^verbatim>\<open>plugin/assembly/plan.go\<close>, and the workload declarations and configuration sections of
  \<^verbatim>\<open>plugin/assembly/sections.go\<close>. The heap of descriptors is an argument of every operation that
  describes a Definition.
\<close>

section \<open>Paths\<close>

definition pluginsRoot :: string where
  "pluginsRoot = ''plugins''"

definition workloadsRoot :: string where
  "workloadsRoot = ''workloads''"

definition conventionalDefinitionPath :: "DefinitionDescriptor \<Rightarrow> string" where
  "conventionalDefinitionPath d = pluginsRoot @ ''.'' @ dd_Key d"

definition definitionPath :: "DefinitionDescriptor \<Rightarrow> string" where
  "definitionPath d = (if dd_ConfigPath d \<noteq> [] then dd_ConfigPath d else conventionalDefinitionPath d)"

definition instanceConfigPath :: "DefinitionDescriptor \<Rightarrow> identity \<Rightarrow> string" where
  "instanceConfigPath d i =
     (if dd_Cardinality d = MultipleInstances then definitionPath d @ ''.'' @ Instance i
      else definitionPath d)"

fun check_segments :: "string list \<Rightarrow> identifier_error option" where
  "check_segments [] = None"
| "check_segments (s # ss) =
     (case ValidateIdentifier ''configuration path segment'' s of
        Some e \<Rightarrow> Some e | None \<Rightarrow> check_segments ss)"

definition validateConfigPath :: "string \<Rightarrow> identifier_error option" where
  "validateConfigPath path =
     (if path = [] then None else check_segments (split_on (CHR ''.'') path))"

section \<open>Validation of one Definition\<close>

datatype definition_error =
    InvalidKey string identifier_error
  | InvalidCardinality Key Cardinality
  | InvalidConfigPath Key string identifier_error
  | InvalidWorkload Key WorkloadKey identifier_error
  | InvalidActivationPath Key string identifier_error
  | InvalidActivationKind Key ActivationKind
  | PrimaryNotConcrete Key "rtype option"
  | NoPlanner Key
  | ContractNotInterface Key "rtype option" string
  | ContractNotAssignable Key "rtype option" "rtype option" string
  | ContractTwice Key "rtype option" string string
  | NilConfigType Key
  | NilConfigDefaults Key
  | BadLifecycle lifecycle_error

fun check_contracts ::
  "DefinitionDescriptor \<Rightarrow> Contract list \<Rightarrow> (rtype option, string) gomap \<Rightarrow> definition_error option" where
  "check_contracts d [] seen = None"
| "check_contracts d (c # cs) seen =
     (case con_Type c of
        None \<Rightarrow> Some (ContractNotInterface (dd_Key d) None (con_Origin c))
      | Some t \<Rightarrow>
          if \<not> is_interface t then Some (ContractNotInterface (dd_Key d) (Some t) (con_Origin c))
          else if \<not> assignable (primary_type d) t then
            Some (ContractNotAssignable (dd_Key d) (dd_Primary d) (Some t) (con_Origin c))
          else (case gm_get seen (Some t) of
            Some previous \<Rightarrow> Some (ContractTwice (dd_Key d) (Some t) previous (con_Origin c))
          | None \<Rightarrow> check_contracts d cs (gm_put (Some t) (con_Origin c) seen)))"

definition validate_config :: "DefinitionDescriptor \<Rightarrow> definition_error option" where
  "validate_config d =
     (case dd_Config d of
        None \<Rightarrow> None
      | Some c \<Rightarrow>
          if cfg_Type c = None then Some (NilConfigType (dd_Key d))
          else if cfg_Defaults c = None then Some (NilConfigDefaults (dd_Key d))
          else None)"

definition validate_activation :: "DefinitionDescriptor \<Rightarrow> definition_error option" where
  "validate_activation d =
     (case act_Kind (dd_Activation d) of
        ActivationConfigured \<Rightarrow>
          map_option (InvalidActivationPath (dd_Key d) (act_Path (dd_Activation d)))
            (validateConfigPath (act_Path (dd_Activation d)))
      | ActivationAlways \<Rightarrow> None
      | k \<Rightarrow> Some (InvalidActivationKind (dd_Key d) k))"

text \<open>The checks in the order of the source; the first one that fails is returned.\<close>

definition first_error :: "'e option list \<Rightarrow> 'e option" where
  "first_error es = (case find (\<lambda>e. e \<noteq> None) es of None \<Rightarrow> None | Some e \<Rightarrow> e)"

definition validateDefinition :: "DefinitionDescriptor \<Rightarrow> definition_error option" where
  "validateDefinition d =
     first_error
       [map_option (InvalidKey (dd_Origin d)) (Key_Validate (dd_Key d)),
        if dd_Cardinality d \<noteq> SingleInstance \<and> dd_Cardinality d \<noteq> MultipleInstances
          then Some (InvalidCardinality (dd_Key d) (dd_Cardinality d)) else None,
        map_option (InvalidConfigPath (dd_Key d) (dd_ConfigPath d)) (validateConfigPath (dd_ConfigPath d)),
        if dd_Workload d \<noteq> []
          then map_option (InvalidWorkload (dd_Key d) (dd_Workload d)) (WorkloadKey_Validate (dd_Workload d))
          else None,
        validate_activation d,
        if dd_Primary d = None \<or> is_interface (primary_type d)
          then Some (PrimaryNotConcrete (dd_Key d) (dd_Primary d)) else None,
        if dd_Plan d = None then Some (NoPlanner (dd_Key d)) else None,
        check_contracts d (dd_Contracts d) [(dd_Primary d, ''automatic primary contract'')],
        validate_config d,
        (case compileLifecycle d of Inl e \<Rightarrow> Some (BadLifecycle e) | Inr _ \<Rightarrow> None)]"

section \<open>Freezing\<close>

record selectedDefinition =
  sd_descriptor :: DefinitionDescriptor
  sd_selectedAt :: string
  sd_workload :: WorkloadKey

datatype freeze_error =
    ZeroDefinition string
  | ConflictingOwnership Key string WorkloadKey string WorkloadKey
  | KeyClaimedTwice Key string string string string
  | SectionClaimedTwice string Key Key string string
  | InvalidDefinition definition_error

definition definitionWorkloadKey :: "DefinitionDescriptor \<Rightarrow> BundleEntry \<Rightarrow> WorkloadKey" where
  "definitionWorkloadKey d e = (if dd_Workload d \<noteq> [] then dd_Workload d else be_Workload e)"

definition requireSameWorkload :: "def_heap \<Rightarrow> BundleEntry \<Rightarrow> BundleEntry \<Rightarrow> freeze_error option" where
  "requireSameWorkload h previous current =
     (let d = fst (DescribeDefinition h (be_Definition current));
          pw = definitionWorkloadKey d previous; w = definitionWorkloadKey d current
      in if pw = w then None
         else Some (ConflictingOwnership (dd_Key d) (be_Origin previous) pw (be_Origin current) w))"

definition workloadLabel :: "WorkloadKey \<Rightarrow> string" where
  "workloadLabel w = (if w = [] then ''no workload'' else ''workload '' @ w)"

record freeze_state =
  fs_byHandle :: "(Definition, BundleEntry) gomap"
  fs_byKey :: "(Key, BundleEntry) gomap"
  fs_bySection :: "(string, DefinitionDescriptor) gomap"

definition freeze_entry ::
  "def_heap \<Rightarrow> BundleEntry \<Rightarrow> freeze_state \<Rightarrow> (freeze_error, freeze_state) result" where
  "freeze_entry h e st =
     (case gm_get (fs_byHandle st) (be_Definition e) of
        Some previous \<Rightarrow>
          (case requireSameWorkload h previous e of Some err \<Rightarrow> Inl err | None \<Rightarrow> Inr st)
      | None \<Rightarrow>
          (case DescribeDefinition h (be_Definition e) of (d, ok) \<Rightarrow>
            if \<not> ok then Inl (ZeroDefinition (be_Origin e))
            else case gm_get (fs_byKey st) (dd_Key d) of
              Some previous \<Rightarrow>
                Inl (KeyClaimedTwice (dd_Key d)
                  (dd_Origin (fst (DescribeDefinition h (be_Definition previous)))) (be_Origin previous)
                  (dd_Origin d) (be_Origin e))
            | None \<Rightarrow>
                (case gm_get (fs_bySection st) (definitionPath d) of
                   Some previous \<Rightarrow>
                     Inl (SectionClaimedTwice (definitionPath d) (dd_Key previous) (dd_Key d)
                       (dd_Origin previous) (dd_Origin d))
                 | None \<Rightarrow>
                     (case validateDefinition d of
                        Some err \<Rightarrow> Inl (InvalidDefinition err)
                      | None \<Rightarrow>
                          Inr \<lparr>fs_byHandle = gm_put (be_Definition e) e (fs_byHandle st),
                               fs_byKey = gm_put (dd_Key d) e (fs_byKey st),
                               fs_bySection = gm_put (definitionPath d) d (fs_bySection st)\<rparr>))))"

definition freeze_start :: freeze_state where
  "freeze_start = \<lparr>fs_byHandle = [], fs_byKey = [], fs_bySection = []\<rparr>"

definition select_entry :: "def_heap \<Rightarrow> BundleEntry \<Rightarrow> selectedDefinition" where
  "select_entry h e =
     (let d = fst (DescribeDefinition h (be_Definition e))
      in \<lparr>sd_descriptor = d, sd_selectedAt = be_Origin e, sd_workload = definitionWorkloadKey d e\<rparr>)"

definition freezeBundles :: "def_heap \<Rightarrow> Bundle list \<Rightarrow> (freeze_error, selectedDefinition list) result" where
  "freezeBundles h bundles =
     (case fold_res (\<lambda>b. fold_res (freeze_entry h) (BundleEntries b)) bundles freeze_start of
        Inl err \<Rightarrow> Inl err
      | Inr st \<Rightarrow>
          Inr (sort_key (\<lambda>s. dd_Key (sd_descriptor s)) (map (\<lambda>(k, e). select_entry h e) (fs_byKey st))))"

section \<open>Correctness of freezing\<close>

abbreviation entry_desc :: "def_heap \<Rightarrow> BundleEntry \<Rightarrow> DefinitionDescriptor" where
  "entry_desc h e \<equiv> fst (DescribeDefinition h (be_Definition e))"

text \<open>What a composition has to satisfy, as conditions on the set of its occurrences.\<close>

definition freezable :: "def_heap \<Rightarrow> BundleEntry list \<Rightarrow> bool" where
  "freezable h es \<longleftrightarrow>
     (\<forall>e \<in> set es. be_Definition e \<noteq> None \<and> validateDefinition (entry_desc h e) = None) \<and>
     (\<forall>e \<in> set es. \<forall>e' \<in> set es. be_Definition e = be_Definition e' \<longrightarrow>
        definitionWorkloadKey (entry_desc h e') e = definitionWorkloadKey (entry_desc h e') e') \<and>
     (\<forall>e \<in> set es. \<forall>e' \<in> set es. dd_Key (entry_desc h e) = dd_Key (entry_desc h e') \<longrightarrow>
        be_Definition e = be_Definition e') \<and>
     (\<forall>e \<in> set es. \<forall>e' \<in> set es. definitionPath (entry_desc h e) = definitionPath (entry_desc h e') \<longrightarrow>
        be_Definition e = be_Definition e')"

text \<open>The three indexes hold the first occurrence of every handle, key and section.\<close>

definition freeze_inv :: "def_heap \<Rightarrow> BundleEntry list \<Rightarrow> freeze_state \<Rightarrow> bool" where
  "freeze_inv h es st \<longleftrightarrow>
     (\<forall>d. gm_get (fs_byHandle st) d = find (\<lambda>e. be_Definition e = d) es) \<and>
     (\<forall>k. gm_get (fs_byKey st) k = find (\<lambda>e. dd_Key (entry_desc h e) = k) es) \<and>
     (\<forall>p. gm_get (fs_bySection st) p =
        map_option (entry_desc h) (find (\<lambda>e. definitionPath (entry_desc h e) = p) es)) \<and>
     gm_wf (fs_byKey st)"

definition joins :: "def_heap \<Rightarrow> BundleEntry \<Rightarrow> BundleEntry \<Rightarrow> bool" where
  "joins h x e \<longleftrightarrow>
     (be_Definition x = be_Definition e \<longrightarrow>
        definitionWorkloadKey (entry_desc h e) x = definitionWorkloadKey (entry_desc h e) e) \<and>
     (dd_Key (entry_desc h x) = dd_Key (entry_desc h e) \<longrightarrow> be_Definition x = be_Definition e) \<and>
     (definitionPath (entry_desc h x) = definitionPath (entry_desc h e) \<longrightarrow> be_Definition x = be_Definition e)"

lemma joins_sym: "joins h x e \<longleftrightarrow> joins h e x"
  unfolding joins_def by metis

lemma joins_refl: "joins h e e"
  by (simp add: joins_def)

lemma freezable_joins:
  "freezable h es \<longleftrightarrow>
     (\<forall>e \<in> set es. be_Definition e \<noteq> None \<and> validateDefinition (entry_desc h e) = None) \<and>
     (\<forall>x \<in> set es. \<forall>e \<in> set es. joins h x e)"
  unfolding freezable_def joins_def by blast

lemma freezable_snoc:
  "freezable h (es @ [e]) \<longleftrightarrow> freezable h es \<and> be_Definition e \<noteq> None \<and>
     validateDefinition (entry_desc h e) = None \<and> (\<forall>x \<in> set es. joins h x e)"
proof -
  have "(\<forall>x \<in> set (es @ [e]). \<forall>y \<in> set (es @ [e]). joins h x y) \<longleftrightarrow>
      (\<forall>x \<in> set es. \<forall>y \<in> set es. joins h x y) \<and> (\<forall>x \<in> set es. joins h x e)"
    using joins_sym [of h] joins_refl [of h] by auto
  then show ?thesis unfolding freezable_joins by auto
qed

lemma find_repeated:
  assumes "find P xs = Some p" "Q e \<longrightarrow> Q p"
  shows "find Q (xs @ [e]) = find Q xs"
proof (cases "find Q xs")
  case None
  with assms(2) find_SomeD [OF assms(1)] have "\<not> Q e" by (auto simp: find_None_iff)
  with None show ?thesis by (simp add: find_append)
qed (simp add: find_append)

lemma freeze_entry_repeated:
  assumes inv: "freeze_inv h es st" and ok: "freezable h es"
    and p: "find (\<lambda>x. be_Definition x = be_Definition e) es = Some p"
  shows "case freeze_entry h e st of
      Inl _ \<Rightarrow> \<not> freezable h (es @ [e])
    | Inr st' \<Rightarrow> freezable h (es @ [e]) \<and> freeze_inv h (es @ [e]) st'"
proof -
  note pD = find_SomeD [OF p]
  have run: "freeze_entry h e st = (case requireSameWorkload h p e of Some err \<Rightarrow> Inl err | None \<Rightarrow> Inr st)"
    using inv p by (simp add: freeze_entry_def freeze_inv_def)
  have jp: "joins h p e \<longleftrightarrow> definitionWorkloadKey (entry_desc h e) p = definitionWorkloadKey (entry_desc h e) e"
    using pD by (simp add: joins_def)
  have "joins h x e" if "x \<in> set es" "joins h p e" for x
    using ok pD that unfolding freezable_joins joins_def by metis
  moreover have "be_Definition e \<noteq> None" "validateDefinition (entry_desc h e) = None"
    using ok pD unfolding freezable_def by metis+
  ultimately have "freezable h (es @ [e]) \<longleftrightarrow> joins h p e"
    using ok pD unfolding freezable_snoc by blast
  moreover have "freeze_inv h (es @ [e]) st"
    using inv pD find_repeated [OF p] unfolding freeze_inv_def by simp
  ultimately show ?thesis
    unfolding run by (simp add: requireSameWorkload_def Let_def jp)
qed

lemma freeze_entry_new:
  assumes inv: "freeze_inv h es st" and ok: "freezable h es"
    and p: "find (\<lambda>x. be_Definition x = be_Definition e) es = None"
  shows "case freeze_entry h e st of
      Inl _ \<Rightarrow> \<not> freezable h (es @ [e])
    | Inr st' \<Rightarrow> freezable h (es @ [e]) \<and> freeze_inv h (es @ [e]) st'"
proof -
  let ?d = "entry_desc h e"
  let ?byKey = "find (\<lambda>x. dd_Key (entry_desc h x) = dd_Key ?d) es"
  let ?bySection = "find (\<lambda>x. definitionPath (entry_desc h x) = definitionPath ?d) es"
  have new: "\<forall>x \<in> set es. be_Definition x \<noteq> be_Definition e" using p by (auto simp: find_None_iff)
  have joins: "(\<forall>x \<in> set es. joins h x e) \<longleftrightarrow> ?byKey = None \<and> ?bySection = None"
    using new by (auto simp: joins_def find_None_iff)
  have ok': "freezable h (es @ [e]) \<longleftrightarrow> be_Definition e \<noteq> None \<and> validateDefinition ?d = None \<and>
      ?byKey = None \<and> ?bySection = None"
    unfolding freezable_snoc joins using ok by blast
  have run: "freeze_entry h e st =
    (if be_Definition e = None then Inl (ZeroDefinition (be_Origin e))
     else case ?byKey of
       Some previous \<Rightarrow> Inl (KeyClaimedTwice (dd_Key ?d) (dd_Origin (entry_desc h previous))
          (be_Origin previous) (dd_Origin ?d) (be_Origin e))
     | None \<Rightarrow> (case map_option (entry_desc h) ?bySection of
         Some previous \<Rightarrow> Inl (SectionClaimedTwice (definitionPath ?d) (dd_Key previous) (dd_Key ?d)
           (dd_Origin previous) (dd_Origin ?d))
       | None \<Rightarrow> (case validateDefinition ?d of
           Some err \<Rightarrow> Inl (InvalidDefinition err)
         | None \<Rightarrow> Inr \<lparr>fs_byHandle = gm_put (be_Definition e) e (fs_byHandle st),
                       fs_byKey = gm_put (dd_Key ?d) e (fs_byKey st),
                       fs_bySection = gm_put (definitionPath ?d) ?d (fs_bySection st)\<rparr>)))"
    using inv p by (cases "be_Definition e")
      (auto simp: freeze_entry_def freeze_inv_def DescribeDefinition_def split: option.splits)
  have "freeze_inv h (es @ [e])
     \<lparr>fs_byHandle = gm_put (be_Definition e) e (fs_byHandle st),
      fs_byKey = gm_put (dd_Key ?d) e (fs_byKey st),
      fs_bySection = gm_put (definitionPath ?d) ?d (fs_bySection st)\<rparr>"
    if "?byKey = None" "?bySection = None"
    using inv p that unfolding freeze_inv_def by (auto simp: find_append split: option.splits)
  with ok' show ?thesis
    unfolding run by (auto split: option.splits)
qed

lemma freeze_loop:
  "case fold_res (freeze_entry h) es freeze_start of
     Inl _ \<Rightarrow> \<not> freezable h es
   | Inr st \<Rightarrow> freezable h es \<and> freeze_inv h es st"
proof (induction es rule: rev_induct)
  case Nil
  then show ?case by (simp add: freezable_def freeze_inv_def freeze_start_def)
next
  case (snoc e es)
  show ?case
  proof (cases "fold_res (freeze_entry h) es freeze_start")
    case (Inl err)
    with snoc show ?thesis by (simp add: fold_res_append freezable_snoc)
  next
    case (Inr st)
    with snoc have "freezable h es" "freeze_inv h es st" by simp_all
    then have "case freeze_entry h e st of
        Inl _ \<Rightarrow> \<not> freezable h (es @ [e])
      | Inr st' \<Rightarrow> freezable h (es @ [e]) \<and> freeze_inv h (es @ [e]) st'"
      by (cases "find (\<lambda>x. be_Definition x = be_Definition e) es")
        (blast intro: freeze_entry_new freeze_entry_repeated)+
    with Inr show ?thesis by (simp add: fold_res_append split: sum.splits)
  qed
qed

abbreviation occurrences :: "Bundle list \<Rightarrow> BundleEntry list" where
  "occurrences bundles \<equiv> concat (map b_entries bundles)"

lemma freezeBundles_loop:
  "freezeBundles h bundles =
     (case fold_res (freeze_entry h) (occurrences bundles) freeze_start of
        Inl err \<Rightarrow> Inl err
      | Inr st \<Rightarrow>
          Inr (sort_key (\<lambda>s. dd_Key (sd_descriptor s)) (map (\<lambda>(k, e). select_entry h e) (fs_byKey st))))"
  by (simp add: freezeBundles_def BundleEntries_def fold_res_concat)

text \<open>The selections are the first occurrences of the keys.\<close>

lemma freezeBundles_selections:
  assumes "freezeBundles h bundles = Inr sels"
  shows "freezable h (occurrences bundles)"
    and "sorted (map (dd_Key \<circ> sd_descriptor) sels)"
    and "distinct (map (dd_Key \<circ> sd_descriptor) sels)"
    and "set sels = {select_entry h e | e k. find (\<lambda>e. dd_Key (entry_desc h e) = k) (occurrences bundles) = Some e}"
proof -
  from assms obtain st where st: "fold_res (freeze_entry h) (occurrences bundles) freeze_start = Inr st"
    and sels: "sels = sort_key (\<lambda>s. dd_Key (sd_descriptor s)) (map (\<lambda>(k, e). select_entry h e) (fs_byKey st))"
    by (auto simp: freezeBundles_loop split: sum.splits)
  have loop: "freezable h (occurrences bundles)" "freeze_inv h (occurrences bundles) st"
    using freeze_loop [of h "occurrences bundles"] st by simp_all
  from loop(2) have wf: "gm_wf (fs_byKey st)"
    and byKey: "\<And>k. gm_get (fs_byKey st) k = find (\<lambda>e. dd_Key (entry_desc h e) = k) (occurrences bundles)"
    by (simp_all add: freeze_inv_def)
  have mem: "(k, e) \<in> set (fs_byKey st) \<longleftrightarrow>
      find (\<lambda>e. dd_Key (entry_desc h e) = k) (occurrences bundles) = Some e" for k e
    using gm_get_in_set [OF wf] byKey by metis
  have keys: "map (\<lambda>s. dd_Key (sd_descriptor s)) (map (\<lambda>(k, e). select_entry h e) (fs_byKey st)) = map fst (fs_byKey st)"
    unfolding map_map
  proof (rule map_cong [OF refl])
    fix x assume x: "x \<in> set (fs_byKey st)"
    obtain k e where "x = (k, e)" by (cases x)
    with x show "((\<lambda>s. dd_Key (sd_descriptor s)) \<circ> (\<lambda>(k, e). select_entry h e)) x = fst x"
      by (auto simp: mem select_entry_def Let_def dest: find_SomeD)
  qed
  show "freezable h (occurrences bundles)" by (rule loop(1))
  show "sorted (map (dd_Key \<circ> sd_descriptor) sels)"
    unfolding sels by (simp add: o_def)
  show "distinct (map (dd_Key \<circ> sd_descriptor) sels)"
    using distinct_sort_key_map [of "\<lambda>s. dd_Key (sd_descriptor s)"] keys wf
    unfolding sels o_def gm_wf_def by metis
  show "set sels = {select_entry h e | e k. find (\<lambda>e. dd_Key (entry_desc h e) = k) (occurrences bundles) = Some e}"
    unfolding sels by (force simp: mem)
qed

lemma freezable_selected:
  assumes "freezable h es" "e \<in> set es"
  obtains e' where "find (\<lambda>x. dd_Key (entry_desc h x) = dd_Key (entry_desc h e)) es = Some e'"
    "e' \<in> set es" "be_Definition e' = be_Definition e"
    "sd_workload (select_entry h e') = definitionWorkloadKey (entry_desc h e) e"
proof -
  obtain e' where e': "find (\<lambda>x. dd_Key (entry_desc h x) = dd_Key (entry_desc h e)) es = Some e'"
    using assms(2) by (cases "find (\<lambda>x. dd_Key (entry_desc h x) = dd_Key (entry_desc h e)) es")
      (auto simp: find_None_iff)
  note D = find_SomeD [OF e']
  have j: "joins h e' e" using assms D unfolding freezable_joins by blast
  with D have "be_Definition e' = be_Definition e" by (simp add: joins_def)
  with j have "sd_workload (select_entry h e') = definitionWorkloadKey (entry_desc h e) e"
    by (simp add: joins_def select_entry_def Let_def)
  with e' D \<open>be_Definition e' = be_Definition e\<close> that show ?thesis by blast
qed

lemma freezeBundles_image:
  assumes "freezeBundles h bs = Inr ss"
  shows "(\<lambda>s. (sd_descriptor s, sd_workload s)) ` set ss =
    (\<lambda>e. (entry_desc h e, definitionWorkloadKey (entry_desc h e) e)) ` set (occurrences bs)"
proof (intro equalityI subsetI)
  note sel = freezeBundles_selections [OF assms]
  {
    fix x assume "x \<in> (\<lambda>s. (sd_descriptor s, sd_workload s)) ` set ss"
    then show "x \<in> (\<lambda>e. (entry_desc h e, definitionWorkloadKey (entry_desc h e) e)) ` set (occurrences bs)"
      using find_SomeD unfolding sel(4) by (force simp: select_entry_def Let_def)
  next
    fix x assume "x \<in> (\<lambda>e. (entry_desc h e, definitionWorkloadKey (entry_desc h e) e)) ` set (occurrences bs)"
    then obtain e where e: "e \<in> set (occurrences bs)" "x = (entry_desc h e, definitionWorkloadKey (entry_desc h e) e)"
      by blast
    obtain e' where e': "find (\<lambda>x. dd_Key (entry_desc h x) = dd_Key (entry_desc h e)) (occurrences bs) = Some e'"
      "be_Definition e' = be_Definition e" "sd_workload (select_entry h e') = definitionWorkloadKey (entry_desc h e) e"
      using freezable_selected [OF sel(1) e(1)] by metis
    then have "select_entry h e' \<in> set ss" unfolding sel(4) by blast
    moreover have "x = (sd_descriptor (select_entry h e'), sd_workload (select_entry h e'))"
      using e(2) e'(2,3) by (simp add: select_entry_def Let_def)
    ultimately show "x \<in> (\<lambda>s. (sd_descriptor s, sd_workload s)) ` set ss" by blast
  }
qed

lemma freezeBundles_paths:
  assumes "freezeBundles h bundles = Inr sels"
  shows "inj_on (definitionPath \<circ> sd_descriptor) (set sels)"
proof (rule inj_onI)
  note sel = freezeBundles_selections [OF assms]
  fix s t assume st: "s \<in> set sels" "t \<in> set sels"
    "(definitionPath \<circ> sd_descriptor) s = (definitionPath \<circ> sd_descriptor) t"
  from st(1) obtain e k where e: "s = select_entry h e"
    "find (\<lambda>x. dd_Key (entry_desc h x) = k) (occurrences bundles) = Some e"
    unfolding sel(4) by blast
  from st(2) obtain e' k' where e': "t = select_entry h e'"
    "find (\<lambda>x. dd_Key (entry_desc h x) = k') (occurrences bundles) = Some e'"
    unfolding sel(4) by blast
  note D = find_SomeD [OF e(2)] and D' = find_SomeD [OF e'(2)]
  have "definitionPath (entry_desc h e) = definitionPath (entry_desc h e')"
    using st(3) e(1) e'(1) by (simp add: select_entry_def Let_def)
  with D D' sel(1) have "be_Definition e = be_Definition e'" unfolding freezable_def by blast
  with D D' have "k = k'" by simp
  with e e' show "s = t" by simp
qed

text \<open>
  C24. Freezing accepts a composition exactly when its occurrences, as a set, name only non-zero
  valid Definitions, agree on the workload of every Definition, and no two different Definitions
  share a key or a configuration section. The order of the Bundles plays no part in the verdict.
\<close>

theorem freezeBundles_accepts:
  "(\<exists>sels. freezeBundles h bundles = Inr sels) \<longleftrightarrow>
     (\<forall>e \<in> set (occurrences bundles). be_Definition e \<noteq> None \<and> validateDefinition (entry_desc h e) = None) \<and>
     (\<forall>e \<in> set (occurrences bundles). \<forall>e' \<in> set (occurrences bundles).
        (be_Definition e = be_Definition e' \<longrightarrow>
           definitionWorkloadKey (entry_desc h e') e = definitionWorkloadKey (entry_desc h e') e') \<and>
        (dd_Key (entry_desc h e) = dd_Key (entry_desc h e') \<longrightarrow> be_Definition e = be_Definition e') \<and>
        (definitionPath (entry_desc h e) = definitionPath (entry_desc h e') \<longrightarrow> be_Definition e = be_Definition e'))"
proof -
  have "(\<exists>sels. freezeBundles h bundles = Inr sels) \<longleftrightarrow> freezable h (occurrences bundles)"
    using freeze_loop [of h "occurrences bundles"] by (auto simp: freezeBundles_loop split: sum.splits)
  then show ?thesis unfolding freezable_def by blast
qed

text \<open>
  What freezing returns: one selection per Definition that occurs, in strictly increasing key
  order and with pairwise different configuration sections, each carrying the workload that every
  occurrence of the Definition agrees on; and two compositions with the same set of occurrences
  freeze to the same Definitions and workloads, whatever the order of their Bundles.
\<close>

lemma freezeBundles_result:
  assumes "freezeBundles h bundles = Inr sels"
  shows "sorted (map (dd_Key \<circ> sd_descriptor) sels) \<and> distinct (map (dd_Key \<circ> sd_descriptor) sels) \<and>
    inj_on (definitionPath \<circ> sd_descriptor) (set sels) \<and>
    (\<lambda>s. (sd_descriptor s, sd_workload s)) ` set sels =
      (\<lambda>e. (entry_desc h e, definitionWorkloadKey (entry_desc h e) e)) ` set (occurrences bundles) \<and>
    (\<forall>bundles' sels'. set (occurrences bundles') = set (occurrences bundles) \<longrightarrow>
       freezeBundles h bundles' = Inr sels' \<longrightarrow>
       map (\<lambda>s. (sd_descriptor s, sd_workload s)) sels' = map (\<lambda>s. (sd_descriptor s, sd_workload s)) sels)"
proof -
  note sel = freezeBundles_selections [OF assms]
  have unique: "map (\<lambda>s. (sd_descriptor s, sd_workload s)) ss = map (\<lambda>s. (sd_descriptor s, sd_workload s)) sels"
    if same: "set (occurrences bs) = set (occurrences bundles)" and run: "freezeBundles h bs = Inr ss" for bs ss
  proof (rule sorted_key_unique [where f = "dd_Key \<circ> fst"])
    show "set (map (\<lambda>s. (sd_descriptor s, sd_workload s)) ss) = set (map (\<lambda>s. (sd_descriptor s, sd_workload s)) sels)"
      using freezeBundles_image [OF run] freezeBundles_image [OF assms] same by simp
  qed (use freezeBundles_selections [OF run] sel in \<open>simp_all add: o_def\<close>)
  show ?thesis
    by (intro conjI allI impI sel(2,3) freezeBundles_paths [OF assms] freezeBundles_image [OF assms])
      (rule unique)
qed

text \<open>A composition of two Definitions, one of them reached twice.\<close>

definition sample_planner :: "anyval \<Rightarrow> (string, InstancePlan) result call" where
  "sample_planner prepared =
     Returns (Inr \<lparr>ip_Inputs = [], ip_Factory = Some (\<lambda>st c. Returns (Inr (AVal (RPointer (RDefined ''T'' [] [])) CNil)))\<rparr>)"

definition sample_definition :: "string \<Rightarrow> DefinitionDescriptor" where
  "sample_definition key = zero_descriptor\<lparr>dd_Key := key, dd_Origin := key @ ''.go:1'',
     dd_Primary := Some (RPointer (RDefined key [] [])), dd_Plan := Some sample_planner\<rparr>"

definition sample_heap :: def_heap where
  "sample_heap = [sample_definition ''web'', sample_definition ''gorm'']"

definition sample_bundles :: "Bundle list" where
  "sample_bundles = [BundleOf ''main.go:3'' [Some 0], BundleOf ''main.go:4'' [Some 1, Some 0]]"

theorem freezeBundles_accepts_witness: "\<exists>sels. freezeBundles sample_heap sample_bundles = Inr sels"
  unfolding freezeBundles_accepts by code_simp

lemma freezeBundles_example:
  "\<exists>sels. freezeBundles sample_heap sample_bundles = Inr sels \<and> map sd_selectedAt sels = [''main.go:4'', ''main.go:3''] \<and>
     sorted (map (dd_Key \<circ> sd_descriptor) sels)"
proof -
  have run: "map_sum (\<lambda>_. ()) (map sd_selectedAt) (freezeBundles sample_heap sample_bundles)
      = Inr [''main.go:4'', ''main.go:3'']"
    by code_simp
  then obtain sels where sels: "freezeBundles sample_heap sample_bundles = Inr sels"
    by (cases "freezeBundles sample_heap sample_bundles") auto
  with run freezeBundles_result [OF sels] show ?thesis by simp
qed

end
