(* ===== verification/Expand.thy ===== *)
theory Expand
  imports Freeze
begin

text \<open>
  From frozen Definitions to planned instances: \<^verbatim>\<open>expandDefinitions\<close> and the operations it calls
  in \<^verbatim>\<open>plugin/assembly/plan.go\<close>, over the reading half of \<^verbatim>\<open>config/environment.go\<close>. The
  configuration tree (a koanf instance) is given by what \<^verbatim>\<open>Get\<close> and \<^verbatim>\<open>Exists\<close> answer, and the
  reflective binder and validator of the config package are the arguments \<open>cfg_bind\<close> and
  \<open>cfg_validate\<close>; binding may change the tree, so it returns the tree that later readers see.
\<close>

section \<open>The environment\<close>

record environment =
  k_get :: "string \<Rightarrow> cval"
  k_exists :: "string \<Rightarrow> bool"

text \<open>\<open>None\<close> is the nil \<^verbatim>\<open>*Environment\<close>.\<close>

definition Get :: "environment option \<Rightarrow> string \<Rightarrow> cval" where
  "Get e path = (case e of None \<Rightarrow> CNil | Some k \<Rightarrow> k_get k path)"

definition Exists :: "environment option \<Rightarrow> string \<Rightarrow> bool" where
  "Exists e path = (case e of None \<Rightarrow> False | Some k \<Rightarrow> k_exists k path)"

definition Sub :: "environment option \<Rightarrow> string \<Rightarrow> (string, cval) gomap option" where
  "Sub e path = (case Get e path of CMap m \<Rightarrow> Some m | _ \<Rightarrow> None)"

text \<open>\<^verbatim>\<open>NewEnvironment(nil, "")\<close>: a tree with nothing loaded.\<close>

definition empty_environment :: environment where
  "empty_environment = \<lparr>k_get = (\<lambda>_. CNil), k_exists = (\<lambda>_. False)\<rparr>"

record config_ops =
  cfg_bind :: "environment \<Rightarrow> string \<Rightarrow> anyval \<Rightarrow> (string, anyval \<times> environment) result"
  cfg_validate :: "anyval \<Rightarrow> string \<Rightarrow> string option"

datatype expand_error =
    SectionNotMapping string
  | EnabledNotBoolean string
  | InvalidInstance Key string identifier_error
  | NotInstanceMap Key string
  | DefaultsPanic identity string
  | DefaultsNil identity
  | DefaultsWrongType identity "rtype option" "rtype option"
  | BindFailed identity string string
  | ValidationFailed identity string
  | PreparePanic identity string
  | PrepareFailed identity string
  | PrepareWrongType identity "rtype option" "rtype option"
  | KeysWithoutSchema identity string "string list"
  | PlannerPanic identity string
  | PlanningFailed identity string
  | NilFactory identity
  | InvalidInputToken identity
  | InputTokenTwice identity nat string string

section \<open>Sections and instances\<close>

definition requireSectionMapping :: "environment option \<Rightarrow> string \<Rightarrow> expand_error option" where
  "requireSectionMapping env path =
     (case Get env path of
        CNil \<Rightarrow> None
      | CMap _ \<Rightarrow> None
      | _ \<Rightarrow> Some (SectionNotMapping path))"

definition sectionEnabled :: "environment option \<Rightarrow> string \<Rightarrow> (expand_error, bool) result" where
  "sectionEnabled env path =
     (case requireSectionMapping env path of
        Some e \<Rightarrow> Inl e
      | None \<Rightarrow>
          if \<not> Exists env path then Inr True
          else (case Get env (path @ ''.enabled'') of
            CNil \<Rightarrow> Inr True
          | CBool b \<Rightarrow> Inr b
          | _ \<Rightarrow> Inl (EnabledNotBoolean (path @ ''.enabled''))))"

text \<open>The loop over the keys of a multi-instance section.\<close>

definition section_key ::
  "Key \<Rightarrow> string \<Rightarrow> string \<times> cval \<Rightarrow> bool \<times> string list \<Rightarrow> (expand_error, bool \<times> string list) result" where
  "section_key key path kv st =
     (case kv of (name, raw) \<Rightarrow>
      case st of (pluginEnabled, names) \<Rightarrow>
        (case raw of
           CMap _ \<Rightarrow>
             (case ValidateInstanceName name of
                Some e \<Rightarrow> Inl (InvalidInstance key name e)
              | None \<Rightarrow> Inr (pluginEnabled, names @ [name]))
         | _ \<Rightarrow>
             if name \<noteq> ''enabled'' then Inl (NotInstanceMap key name)
             else (case raw of
               CBool b \<Rightarrow> Inr (b, names)
             | _ \<Rightarrow> Inl (EnabledNotBoolean (path @ ''.enabled'')))))"

text \<open>The loop over the sorted instance names.\<close>

definition instance_flag ::
  "Key \<Rightarrow> string \<Rightarrow> (string, cval) gomap \<Rightarrow> string \<Rightarrow> identity list \<Rightarrow> (expand_error, identity list) result" where
  "instance_flag key path section name identities =
     (let sub = (case gm_get section name of Some (CMap m) \<Rightarrow> m | _ \<Rightarrow> [])
      in case gm_get sub ''enabled'' of
           None \<Rightarrow> Inr (identities @ [Normalized (Identity key name)])
         | Some (CBool enabled) \<Rightarrow>
             if \<not> enabled then Inr identities else Inr (identities @ [Normalized (Identity key name)])
         | Some _ \<Rightarrow> Inl (EnabledNotBoolean (path @ ''.'' @ name @ ''.enabled'')))"

definition expandIdentities ::
  "DefinitionDescriptor \<Rightarrow> environment option \<Rightarrow> (expand_error, identity list \<times> string) result" where
  "expandIdentities d env =
     (let path = definitionPath d; key = dd_Key d in
      if dd_Cardinality d = SingleInstance then
        (case sectionEnabled env path of
           Inl e \<Rightarrow> Inl e
         | Inr enabled \<Rightarrow>
             if \<not> enabled then Inr ([], path @ ''.enabled is false'')
             else Inr ([Identity key DefaultInstance], []))
      else case requireSectionMapping env path of
        Some e \<Rightarrow> Inl e
      | None \<Rightarrow>
          (case Sub env path of
             None \<Rightarrow> Inr ([Identity key DefaultInstance], [])
           | Some section \<Rightarrow>
               (case fold_res (section_key key path) section (True, []) of
                  Inl e \<Rightarrow> Inl e
                | Inr (pluginEnabled, names) \<Rightarrow>
                    if \<not> pluginEnabled then Inr ([], path @ ''.enabled is false'')
                    else
                      let names = (if names = [] then [DefaultInstance] else names) in
                      (case fold_res (instance_flag key path section) (sort names) [] of
                         Inl e \<Rightarrow> Inl e
                       | Inr identities \<Rightarrow>
                           if identities = [] then
                             Inr ([], ''every instance configured under '' @ path @ '' is disabled'')
                           else Inr (identities, [])))))"

section \<open>Configuration of one instance\<close>

definition rejectKeysWithoutSchema ::
  "DefinitionDescriptor \<Rightarrow> identity \<Rightarrow> environment option \<Rightarrow> expand_error option" where
  "rejectKeysWithoutSchema d i env =
     (let path = instanceConfigPath d i;
          section = (case Sub env path of None \<Rightarrow> [] | Some m \<Rightarrow> m);
          unknown = map (\<lambda>(name, _). path @ ''.'' @ name) (filter (\<lambda>(name, _). name \<noteq> ''enabled'') section)
      in if unknown = [] then None else Some (KeysWithoutSchema i path (sort unknown)))"

definition call_defaults :: "ConfigDescriptor \<Rightarrow> anyval call" where
  "call_defaults c = (case cfg_Defaults c of None \<Rightarrow> Panics ''nil function'' | Some f \<Rightarrow> f ())"

definition prepareConfig ::
  "config_ops \<Rightarrow> DefinitionDescriptor \<Rightarrow> identity \<Rightarrow> environment \<Rightarrow> (expand_error, anyval \<times> environment) result" where
  "prepareConfig ops d i env =
     (case dd_Config d of
        None \<Rightarrow>
          (case rejectKeysWithoutSchema d i (Some env) of
             Some e \<Rightarrow> Inl e | None \<Rightarrow> Inr (ANil, env))
      | Some c \<Rightarrow>
          (case call_defaults c of
             Panics m \<Rightarrow> Inl (DefaultsPanic i m)
           | Returns raw \<Rightarrow>
               if raw = ANil then Inl (DefaultsNil i)
               else if TypeOf raw \<noteq> cfg_Type c then Inl (DefaultsWrongType i (TypeOf raw) (cfg_Type c))
               else
                 let path = instanceConfigPath d i in
                 (case cfg_bind ops env path raw of
                    Inl m \<Rightarrow> Inl (BindFailed i path m)
                  | Inr (prepared, env') \<Rightarrow>
                      (case cfg_validate ops prepared path of
                         Some m \<Rightarrow> Inl (ValidationFailed i m)
                       | None \<Rightarrow>
                           (case cfg_Prepare c of
                              None \<Rightarrow> Inr (prepared, env')
                            | Some prepare \<Rightarrow>
                                (case prepare prepared of
                                   Panics m \<Rightarrow> Inl (PreparePanic i m)
                                 | Returns (Inl m) \<Rightarrow> Inl (PrepareFailed i m)
                                 | Returns (Inr v) \<Rightarrow>
                                     if TypeOf v \<noteq> cfg_Type c
                                     then Inl (PrepareWrongType i (TypeOf v) (cfg_Type c))
                                     else Inr (v, env')))))))"

definition check_token ::
  "identity \<Rightarrow> InputToken \<Rightarrow> (nat, InputToken) gomap \<Rightarrow> (expand_error, (nat, InputToken) gomap) result" where
  "check_token i token seen =
     (if tok_ID token = 0 \<or> tok_Type token = None then Inl (InvalidInputToken i)
      else case gm_get seen (tok_ID token) of
        Some previous \<Rightarrow> Inl (InputTokenTwice i (tok_ID token) (tok_Origin previous) (tok_Origin token))
      | None \<Rightarrow> Inr (gm_put (tok_ID token) token seen))"

definition invokePlanner ::
  "DefinitionDescriptor \<Rightarrow> identity \<Rightarrow> anyval \<Rightarrow> (expand_error, InstancePlan) result" where
  "invokePlanner d i prepared =
     (case (case dd_Plan d of None \<Rightarrow> Panics ''nil function'' | Some f \<Rightarrow> f prepared) of
        Panics m \<Rightarrow> Inl (PlannerPanic i m)
      | Returns (Inl m) \<Rightarrow> Inl (PlanningFailed i m)
      | Returns (Inr plan) \<Rightarrow>
          if ip_Factory plan = None then Inl (NilFactory i)
          else (case fold_res (check_token i) (ip_Inputs plan) [] of
            Inl e \<Rightarrow> Inl e | Inr _ \<Rightarrow> Inr plan))"

section \<open>Expansion of the whole selection\<close>

record plannedInstance =
  pi_identity :: identity
  pi_definition :: DefinitionDescriptor
  pi_selectedAt :: string
  pi_configPath :: string
  pi_workload :: WorkloadKey
  pi_plan :: InstancePlan
  pi_bindings :: "(nat, identity list) gomap"
  pi_logger :: Logger
  pi_lifecycle :: lifecycleDescriptor

record DisabledDefinition =
  dis_Key :: Key
  dis_Path :: string
  dis_Reason :: string

type_synonym instances = "(identity, plannedInstance) gomap"

definition empty_lifecycle :: lifecycleDescriptor where
  "empty_lifecycle = \<lparr>ld_init = None, ld_migrate = None, ld_start = None, ld_openTraffic = None,
     ld_stop = None, ld_preStop = None, ld_drain = None, ld_preflight = None\<rparr>"

definition instance_logger :: "Logger \<Rightarrow> Logger option \<Rightarrow> DefinitionDescriptor \<Rightarrow> identity \<Rightarrow> Logger" where
  "instance_logger default_logger logger d i =
     (let l = log_With ''plugin'' (Plugin i) (case logger of None \<Rightarrow> default_logger | Some l \<Rightarrow> l)
      in if dd_Cardinality d = MultipleInstances then log_With ''instance'' (Instance i) l else l)"

definition plan_identity ::
  "config_ops \<Rightarrow> Logger \<Rightarrow> Logger option \<Rightarrow> selectedDefinition \<Rightarrow> lifecycleDescriptor \<Rightarrow> identity
     \<Rightarrow> environment \<times> instances \<Rightarrow> (expand_error, environment \<times> instances) result" where
  "plan_identity ops default_logger logger sel lifecycle i st =
     (case st of (env, instances) \<Rightarrow>
        let d = sd_descriptor sel in
        (case prepareConfig ops d i env of
           Inl e \<Rightarrow> Inl e
         | Inr (prepared, env') \<Rightarrow>
             (case invokePlanner d i prepared of
                Inl e \<Rightarrow> Inl e
              | Inr plan \<Rightarrow>
                  Inr (env', gm_put i
                    \<lparr>pi_identity = i, pi_definition = d, pi_selectedAt = sd_selectedAt sel,
                     pi_configPath = instanceConfigPath d i, pi_workload = sd_workload sel, pi_plan = plan,
                     pi_bindings = [], pi_logger = instance_logger default_logger logger d i,
                     pi_lifecycle = lifecycle\<rparr> instances))))"

definition activated :: "environment option \<Rightarrow> DefinitionDescriptor \<Rightarrow> bool" where
  "activated env d \<longleftrightarrow>
     act_Kind (dd_Activation d) \<noteq> ActivationConfigured \<or> Exists env (act_Path (dd_Activation d))"

definition expand_selection ::
  "config_ops \<Rightarrow> Logger \<Rightarrow> Logger option \<Rightarrow> selectedDefinition \<times> bool
     \<Rightarrow> environment \<times> instances \<times> DisabledDefinition list
     \<Rightarrow> (expand_error, environment \<times> instances \<times> DisabledDefinition list) result" where
  "expand_selection ops default_logger logger sa st =
     (case sa of (sel, is_active) \<Rightarrow> case st of (env, instances, disabled) \<Rightarrow>
        let d = sd_descriptor sel; path = definitionPath d in
        if \<not> is_active then
          Inr (env, instances, disabled @ [\<lparr>dis_Key = dd_Key d, dis_Path = path,
            dis_Reason = ''activation path '' @ act_Path (dd_Activation d) @ '' is not configured''\<rparr>])
        else case expandIdentities d (Some env) of
          Inl e \<Rightarrow> Inl e
        | Inr (identities, reason) \<Rightarrow>
            if identities = [] then
              Inr (env, instances, disabled @ [\<lparr>dis_Key = dd_Key d, dis_Path = path, dis_Reason = reason\<rparr>])
            else
              let lifecycle = (case compileLifecycle d of Inl _ \<Rightarrow> empty_lifecycle | Inr l \<Rightarrow> l) in
              (case fold_res (plan_identity ops default_logger logger sel lifecycle) identities (env, instances) of
                 Inl e \<Rightarrow> Inl e
               | Inr (env', instances') \<Rightarrow> Inr (env', instances', disabled)))"

definition expandDefinitions ::
  "config_ops \<Rightarrow> Logger \<Rightarrow> selectedDefinition list \<Rightarrow> environment \<Rightarrow> Logger option
     \<Rightarrow> (expand_error, environment \<times> instances \<times> DisabledDefinition list) result" where
  "expandDefinitions ops default_logger selections env logger =
     (let active = map (\<lambda>s. activated (Some env) (sd_descriptor s)) selections in
      case fold_res (expand_selection ops default_logger logger) (zip selections active) (env, [], []) of
        Inl e \<Rightarrow> Inl e
      | Inr (env', instances, disabled) \<Rightarrow> Inr (env', instances, sort_key dis_Key disabled))"

section \<open>Instances of a Definition\<close>

text \<open>What the keys of a multi-instance sec mean.\<close>

definition is_cmap :: "cval \<Rightarrow> bool" where
  "is_cmap v = (case v of CMap _ \<Rightarrow> True | _ \<Rightarrow> False)"

definition section_names :: "(string, cval) gomap \<Rightarrow> string list" where
  "section_names sec =
     (let names = map fst (filter (is_cmap \<circ> snd) sec) in if names = [] then [DefaultInstance] else names)"

definition instance_enabled :: "(string, cval) gomap \<Rightarrow> string \<Rightarrow> bool" where
  "instance_enabled sec name \<longleftrightarrow>
     \<not> (\<exists>m. gm_get sec name = Some (CMap m) \<and> gm_get m ''enabled'' = Some (CBool False))"

lemma section_keys_result:
  assumes "fold_res (section_key key path) sec (pe, ns) = Inr (pe', ns')"
  shows "ns' = ns @ map fst (filter (is_cmap \<circ> snd) sec) \<and>
    (\<forall>n \<in> fst ` set (filter (is_cmap \<circ> snd) sec). n \<noteq> []) \<and>
    (gm_wf sec \<longrightarrow> pe' = (if gm_get sec ''enabled'' = Some (CBool False) then False
       else if gm_get sec ''enabled'' = Some (CBool True) then True else pe))"
  using assms
proof (induction sec arbitrary: pe ns)
  case (Cons kv sec)
  obtain name raw where kv: "kv = (name, raw)" by (cases kv)
  from Cons.prems obtain pe1 ns1 where step: "section_key key path kv (pe, ns) = Inr (pe1, ns1)"
    and rest: "fold_res (section_key key path) sec (pe1, ns1) = Inr (pe', ns')"
    by (auto split: sum.splits)
  have wf: "gm_wf (kv # sec) \<Longrightarrow> gm_wf sec \<and> gm_get sec name = None"
    by (simp add: gm_wf_def kv gm_get_None)
  show ?case
    using step Cons.IH [OF rest] wf
    by (cases raw) (auto simp: kv section_key_def is_cmap_def ValidateInstanceName_def ValidateIdentifier_None
        split: option.splits if_splits)
qed (auto split: if_splits)

lemma instance_flag_result:
  "instance_flag key path sec n acc = Inr acc' \<Longrightarrow>
     acc' = acc @ (if instance_enabled sec n then [Normalized (Identity key n)] else [])"
  by (auto simp: instance_flag_def instance_enabled_def Let_def split: option.splits cval.splits if_splits)

lemma instance_flags_result:
  "fold_res (instance_flag key path sec) names acc = Inr ids \<Longrightarrow>
     ids = acc @ map (\<lambda>n. Normalized (Identity key n)) (filter (instance_enabled sec) names)"
proof (induction names arbitrary: acc)
  case (Cons n names)
  from Cons.prems obtain acc' where step: "instance_flag key path sec n acc = Inr acc'"
    and rest: "fold_res (instance_flag key path sec) names acc' = Inr ids"
    by (auto split: sum.splits)
  have "acc' = acc @ (if instance_enabled sec n then [Normalized (Identity key n)] else [])"
    using step by (rule instance_flag_result)
  with Cons.IH [OF rest] show ?case by simp
qed simp

lemma section_names_nonempty:
  assumes "fold_res (section_key key path) sec (True, []) = Inr (pe, names)" "n \<in> set (section_names sec)"
  shows "n \<noteq> []"
proof -
  have "\<forall>n \<in> fst ` set (filter (is_cmap \<circ> snd) sec). n \<noteq> []"
    using section_keys_result [OF assms(1)] by blast
  with assms(2) show ?thesis
    by (fastforce simp: section_names_def DefaultInstance_def Let_def split: if_splits)
qed

lemma expandIdentities_names:
  assumes "expandIdentities d env = Inr (ids, reason)" "i \<in> set ids"
  shows "Plugin i = dd_Key d" "normal_identity i" "dd_Cardinality d = SingleInstance \<Longrightarrow> Instance i = DefaultInstance"
proof -
  have "Plugin i = dd_Key d \<and> normal_identity i \<and> (dd_Cardinality d = SingleInstance \<longrightarrow> Instance i = DefaultInstance)"
    using assms
    by (auto simp: expandIdentities_def Let_def normal_identity_def DefaultInstance_def Normalized_def
        split: if_splits sum.splits option.splits prod.splits dest!: instance_flags_result instance_flag_result)
  then show "Plugin i = dd_Key d" "normal_identity i"
    "dd_Cardinality d = SingleInstance \<Longrightarrow> Instance i = DefaultInstance" by blast+
qed

text \<open>
  The instances of a multi-instance Definition with a configuration section, on success: none
  when the section says \<^verbatim>\<open>enabled: false\<close>; otherwise the names that hold a mapping, or the
  default name when there is none, in increasing order and without those that say
  \<^verbatim>\<open>enabled: false\<close>. The iteration order of the section does not matter.
\<close>

lemma expandIdentities_multi:
  assumes "dd_Cardinality d \<noteq> SingleInstance" "Sub env (definitionPath d) = Some sec" "gm_wf sec"
    and "expandIdentities d env = Inr (ids, reason)"
  shows "ids = (if gm_get sec ''enabled'' = Some (CBool False) then []
      else map (Identity (dd_Key d)) (filter (instance_enabled sec) (sort (section_names sec)))) \<and>
    sorted ids \<and> distinct ids"
proof -
  let ?names = "\<lambda>names. if names = [] then [DefaultInstance] else (names :: string list)"
  from assms obtain pe names where
    keys: "fold_res (section_key (dd_Key d) (definitionPath d)) sec (True, []) = Inr (pe, names)"
    and off: "\<not> pe \<Longrightarrow> ids = []"
    and on: "pe \<Longrightarrow> fold_res (instance_flag (dd_Key d) (definitionPath d) sec)
      (sort (?names names)) [] = Inr ids"
    by (auto simp: expandIdentities_def Let_def split: sum.splits option.splits if_splits prod.splits)
  note kr = section_keys_result [OF keys]
  have names: "?names names = section_names sec" using kr by (simp add: section_names_def Let_def)
  have pe: "pe = (gm_get sec ''enabled'' \<noteq> Some (CBool False))" using kr assms(3) by auto
  have ne: "\<forall>n \<in> set (section_names sec). n \<noteq> []" using section_names_nonempty [OF keys] by blast
  have dist: "distinct (section_names sec)"
    using assms(3) by (auto simp: section_names_def Let_def gm_wf_def distinct_map inj_on_def
        intro: distinct_filter)
  have ids: "ids = (if gm_get sec ''enabled'' = Some (CBool False) then []
      else map (Identity (dd_Key d)) (filter (instance_enabled sec) (sort (section_names sec))))"
  proof (cases pe)
    case True
    have "map (\<lambda>n. Normalized (Identity (dd_Key d) n)) (filter (instance_enabled sec) (sort (section_names sec)))
        = map (Identity (dd_Key d)) (filter (instance_enabled sec) (sort (section_names sec)))"
      using ne by (intro map_cong refl) (simp add: normal_identity_def)
    with instance_flags_result [OF on [OF True, unfolded names]] True pe show ?thesis by simp
  qed (use off pe in simp)
  have "sorted (map (Identity k) xs)" if "sorted xs" for k and xs :: "string list"
    using that by (induction xs) (auto simp: less_eq_identity_def)
  with ids dist show ?thesis by (simp add: sorted_filter [where f = "\<lambda>x. x", simplified] distinct_map inj_on_def)
qed

section \<open>Planned instances\<close>

text \<open>What the planner has been checked for.\<close>

definition plan_ok :: "InstancePlan \<Rightarrow> bool" where
  "plan_ok plan \<longleftrightarrow> ip_Factory plan \<noteq> None \<and> distinct (map tok_ID (ip_Inputs plan)) \<and>
     (\<forall>t \<in> set (ip_Inputs plan). tok_ID t \<noteq> 0 \<and> tok_Type t \<noteq> None)"

definition well_planned :: "selectedDefinition \<Rightarrow> identity \<Rightarrow> plannedInstance \<Rightarrow> bool" where
  "well_planned s i inst \<longleftrightarrow>
     pi_identity inst = i \<and> pi_definition inst = sd_descriptor s \<and> pi_selectedAt inst = sd_selectedAt s \<and>
     pi_workload inst = sd_workload s \<and> pi_configPath inst = instanceConfigPath (sd_descriptor s) i \<and>
     pi_bindings inst = [] \<and> plan_ok (pi_plan inst) \<and>
     Plugin i = dd_Key (sd_descriptor s) \<and> normal_identity i \<and>
     (dd_Cardinality (sd_descriptor s) = SingleInstance \<longrightarrow> Instance i = DefaultInstance)"

abbreviation sel_key :: "selectedDefinition \<Rightarrow> Key" where
  "sel_key s \<equiv> dd_Key (sd_descriptor s)"

lemma check_tokens_ok:
  "fold_res (check_token i) ts seen = Inr m \<Longrightarrow>
     distinct (map tok_ID ts) \<and>
     (\<forall>t \<in> set ts. tok_ID t \<noteq> 0 \<and> tok_Type t \<noteq> None \<and> gm_get seen (tok_ID t) = None)"
proof (induction ts arbitrary: seen)
  case (Cons t ts)
  from Cons.prems obtain seen' where step: "check_token i t seen = Inr seen'"
    and rest: "fold_res (check_token i) ts seen' = Inr m"
    by (auto split: sum.splits)
  from step have s: "tok_ID t \<noteq> 0" "tok_Type t \<noteq> None" "gm_get seen (tok_ID t) = None"
    "seen' = gm_put (tok_ID t) t seen"
    by (auto simp: check_token_def split: if_splits option.splits)
  from Cons.IH [OF rest] s show ?case by (auto split: if_splits)
qed simp

lemma invokePlanner_ok: "invokePlanner d i prepared = Inr plan \<Longrightarrow> plan_ok plan"
  by (auto simp: invokePlanner_def plan_ok_def split: call.splits sum.splits if_splits option.splits
      dest!: check_tokens_ok)

definition belongs :: "selectedDefinition \<Rightarrow> identity \<Rightarrow> bool" where
  "belongs s i \<longleftrightarrow> Plugin i = sel_key s \<and> normal_identity i \<and>
     (dd_Cardinality (sd_descriptor s) = SingleInstance \<longrightarrow> Instance i = DefaultInstance)"

lemma plan_identity_result:
  assumes "plan_identity ops dl logger s lc i (env, insts) = Inr (env', insts')" "belongs s i"
  shows "\<exists>inst. insts' = gm_put i inst insts \<and> well_planned s i inst"
proof -
  from assms(1) obtain prepared plan where "invokePlanner (sd_descriptor s) i prepared = Inr plan"
    and "insts' = gm_put i
      \<lparr>pi_identity = i, pi_definition = sd_descriptor s, pi_selectedAt = sd_selectedAt s,
       pi_configPath = instanceConfigPath (sd_descriptor s) i, pi_workload = sd_workload s, pi_plan = plan,
       pi_bindings = [], pi_logger = instance_logger dl logger (sd_descriptor s) i,
       pi_lifecycle = lc\<rparr> insts"
    by (auto simp: plan_identity_def Let_def split: sum.splits)
  note r = this
  show ?thesis
    by (intro exI conjI, rule r(2)) (use assms(2) r(1) in \<open>simp add: well_planned_def belongs_def invokePlanner_ok\<close>)
qed

text \<open>The inner loop adds exactly the identities of the Definition.\<close>

lemma plan_identities_result:
  assumes "fold_res (plan_identity ops dl logger s lc) ids (env, insts) = Inr (env', insts')"
    and "list_all (belongs s) ids"
  shows "(\<forall>i \<in> set ids. \<exists>inst. gm_get insts' i = Some inst \<and> well_planned s i inst) \<and>
    (\<forall>i. i \<notin> set ids \<longrightarrow> gm_get insts' i = gm_get insts i) \<and> (gm_wf insts \<longrightarrow> gm_wf insts')"
  using assms
proof (induction ids arbitrary: env insts)
  case (Cons x ids)
  from Cons.prems(1) obtain env1 insts1 where step: "plan_identity ops dl logger s lc x (env, insts) = Inr (env1, insts1)"
    and rest: "fold_res (plan_identity ops dl logger s lc) ids (env1, insts1) = Inr (env', insts')"
    by (auto split: sum.splits)
  from plan_identity_result [OF step] Cons.prems(2) obtain inst where
    x: "insts1 = gm_put x inst insts" "well_planned s x inst" by auto
  from Cons.prems(2) have "list_all (belongs s) ids" by simp
  note IH = Cons.IH [OF rest this]
  from IH x show ?case by (cases "x \<in> set ids") auto
qed simp

text \<open>A Definition is either disabled without instances or active with an instance.\<close>

definition settled :: "DisabledDefinition list \<Rightarrow> instances \<Rightarrow> Key \<Rightarrow> bool \<Rightarrow> bool" where
  "settled disabled insts k a \<longleftrightarrow>
     (if k \<in> dis_Key ` set disabled then \<forall>i. Plugin i = k \<longrightarrow> gm_get insts i = None
      else a \<and> (\<exists>i. Plugin i = k \<and> gm_get insts i \<noteq> None))"

lemma settled_cong:
  assumes "k \<in> dis_Key ` set disabled' \<longleftrightarrow> k \<in> dis_Key ` set disabled"
    and "\<And>i. Plugin i = k \<Longrightarrow> gm_get insts' i = gm_get insts i"
  shows "settled disabled' insts' k a \<longleftrightarrow> settled disabled insts k a"
  using assms unfolding settled_def by metis

text \<open>What the loop over the selections has established after the selections \<open>ds\<close>.\<close>

definition expand_inv ::
  "(selectedDefinition \<times> bool) list \<Rightarrow> environment \<times> instances \<times> DisabledDefinition list \<Rightarrow> bool" where
  "expand_inv ds st \<longleftrightarrow>
     (case st of (env, insts, disabled) \<Rightarrow>
        gm_wf insts \<and>
        (\<forall>i inst. gm_get insts i = Some inst \<longrightarrow> (\<exists>s. (s, True) \<in> set ds \<and> well_planned s i inst)) \<and>
        dis_Key ` set disabled \<subseteq> (sel_key \<circ> fst) ` set ds \<and>
        (\<forall>s a. (s, a) \<in> set ds \<longrightarrow> settled disabled insts (sel_key s) a))"

lemma expand_invI:
  assumes "gm_wf insts"
    and "\<And>i inst. gm_get insts i = Some inst \<Longrightarrow> \<exists>s. (s, True) \<in> set ds \<and> well_planned s i inst"
    and "dis_Key ` set disabled \<subseteq> (sel_key \<circ> fst) ` set ds"
    and "\<And>s a. (s, a) \<in> set ds \<Longrightarrow> settled disabled insts (sel_key s) a"
  shows "expand_inv ds (env, insts, disabled)"
  using assms unfolding expand_inv_def by simp

lemma expand_invD:
  assumes "expand_inv ds (env, insts, disabled)"
  shows "gm_wf insts" "dis_Key ` set disabled \<subseteq> (sel_key \<circ> fst) ` set ds"
    "(s, a) \<in> set ds \<Longrightarrow> settled disabled insts (sel_key s) a"
  using assms unfolding expand_inv_def by simp_all

lemma expand_inv_planned:
  assumes "expand_inv ds (env, insts, disabled)" "gm_get insts i = Some inst"
  shows "\<exists>s. (s, True) \<in> set ds \<and> well_planned s i inst"
  using assms unfolding expand_inv_def split_conv by blast

lemma expand_inv_fresh:
  assumes "expand_inv ds (env, insts, disabled)" "k \<notin> (sel_key \<circ> fst) ` set ds"
  shows "Plugin i = k \<Longrightarrow> gm_get insts i = None" "k \<notin> dis_Key ` set disabled"
proof -
  show "gm_get insts i = None" if "Plugin i = k"
  proof (rule ccontr)
    assume "gm_get insts i \<noteq> None"
    then obtain inst where "gm_get insts i = Some inst" by blast
    with expand_inv_planned [OF assms(1)] obtain s' where "(s', True) \<in> set ds" "well_planned s' i inst"
      by blast
    with that assms(2) show False by (force simp: well_planned_def)
  qed
  show "k \<notin> dis_Key ` set disabled"
    using assms unfolding expand_inv_def split_conv by blast
qed

lemma expand_inv_disable:
  assumes inv: "expand_inv ds (env, insts, disabled)" and new: "sel_key s \<notin> (sel_key \<circ> fst) ` set ds"
    and e: "dis_Key e = sel_key s"
  shows "expand_inv (ds @ [(s, a)]) (env, insts, disabled @ [e])"
proof -
  have "settled (disabled @ [e]) insts (sel_key s') b" if "(s', b) \<in> set (ds @ [(s, a)])" for s' b
  proof (cases "(s', b) \<in> set ds")
    case True
    with new e have "sel_key s' \<noteq> dis_Key e" by force
    then have "settled (disabled @ [e]) insts (sel_key s') b \<longleftrightarrow> settled disabled insts (sel_key s') b"
      by (intro settled_cong) auto
    with expand_invD(3) [OF inv True] show ?thesis by simp
  next
    case False
    with that e expand_inv_fresh [OF inv new] show ?thesis by (simp add: settled_def)
  qed
  moreover have "\<exists>s'. (s', True) \<in> set (ds @ [(s, a)]) \<and> well_planned s' i inst"
    if "gm_get insts i = Some inst" for i inst
    using expand_inv_planned [OF inv that] by auto
  moreover have "dis_Key ` set (disabled @ [e]) \<subseteq> (sel_key \<circ> fst) ` set (ds @ [(s, a)])"
    using expand_invD(2) [OF inv] e by auto
  ultimately show ?thesis by (intro expand_invI expand_invD(1) [OF inv])
qed

lemma expand_inv_plan:
  assumes inv: "expand_inv ds (env, insts, disabled)" and new: "sel_key s \<notin> (sel_key \<circ> fst) ` set ds"
    and run: "fold_res (plan_identity ops dl logger s lc) ids (env, insts) = Inr (env', insts')"
    and ids: "list_all (belongs s) ids" "ids \<noteq> []"
  shows "expand_inv (ds @ [(s, True)]) (env', insts', disabled)"
proof -
  note r = plan_identities_result [OF run ids(1)]
  have in_ids: "Plugin i = sel_key s" if "i \<in> set ids" for i
    using ids(1) that by (auto simp: list_all_iff belongs_def)
  have "settled disabled insts' (sel_key s') b" if "(s', b) \<in> set (ds @ [(s, True)])" for s' b
  proof (cases "(s', b) \<in> set ds")
    case True
    with new have "sel_key s' \<noteq> sel_key s" by force
    moreover have "gm_get insts' i = gm_get insts i" if "Plugin i \<noteq> sel_key s" for i
      using r in_ids that by blast
    ultimately have "settled disabled insts' (sel_key s') b \<longleftrightarrow> settled disabled insts (sel_key s') b"
      by (intro settled_cong) simp_all
    with expand_invD(3) [OF inv True] show ?thesis by simp
  next
    case False
    from ids(2) have "hd ids \<in> set ids" by simp
    with r in_ids have "\<exists>i. Plugin i = sel_key s \<and> gm_get insts' i \<noteq> None" by (metis option.distinct(1))
    with False that expand_inv_fresh [OF inv new] show ?thesis by (simp add: settled_def)
  qed
  moreover have "\<exists>s'. (s', True) \<in> set (ds @ [(s, True)]) \<and> well_planned s' i inst"
    if "gm_get insts' i = Some inst" for i inst
  proof (cases "i \<in> set ids")
    case True
    with r that show ?thesis by fastforce
  next
    case False
    with r that have "gm_get insts i = Some inst" by simp
    with expand_inv_planned [OF inv] show ?thesis by auto
  qed
  moreover have "dis_Key ` set disabled \<subseteq> (sel_key \<circ> fst) ` set (ds @ [(s, True)])"
    using expand_invD(2) [OF inv] by auto
  moreover have "gm_wf insts'" using r expand_invD(1) [OF inv] by simp
  ultimately show ?thesis by (intro expand_invI)
qed

lemma expand_selection_inv:
  assumes inv: "expand_inv ds st" and new: "sel_key s \<notin> (sel_key \<circ> fst) ` set ds"
    and run: "expand_selection ops dl logger (s, a) st = Inr st'"
  shows "expand_inv (ds @ [(s, a)]) st'"
proof -
  obtain env insts disabled where st: "st = (env, insts, disabled)" by (cases st)
  show ?thesis
  proof (cases "\<exists>e. st' = (env, insts, disabled @ [e]) \<and> dis_Key e = sel_key s")
    case True
    with expand_inv_disable [OF inv [unfolded st] new] show ?thesis by blast
  next
    case False
    with run obtain ids reason env' insts' lc where a
      and ids: "expandIdentities (sd_descriptor s) (Some env) = Inr (ids, reason)" "ids \<noteq> []"
      and plan: "fold_res (plan_identity ops dl logger s lc) ids (env, insts) = Inr (env', insts')"
      and st': "st' = (env', insts', disabled)"
      by (auto simp: st expand_selection_def Let_def split: if_splits sum.splits)
    have "list_all (belongs s) ids"
      using expandIdentities_names [OF ids(1)] by (auto simp: list_all_iff belongs_def)
    from expand_inv_plan [OF inv [unfolded st] new plan this ids(2)] \<open>a\<close> show ?thesis
      by (simp add: st')
  qed
qed

lemma expandDefinitions_inv:
  assumes "expandDefinitions ops dl sels env logger = Inr (env', insts, disabled)" "distinct (map sel_key sels)"
  shows "expand_inv (zip sels (map (activated (Some env) \<circ> sd_descriptor) sels)) (env', insts, disabled)"
proof -
  let ?sa = "zip sels (map (activated (Some env) \<circ> sd_descriptor) sels)"
  from assms(1) obtain dis where run: "fold_res (expand_selection ops dl logger) ?sa (env, [], []) = Inr (env', insts, dis)"
    and dis: "disabled = sort_key dis_Key dis"
    by (auto simp: expandDefinitions_def o_def split: sum.splits)
  have keys: "map (sel_key \<circ> fst) ?sa = map sel_key sels"
    unfolding map_map [symmetric] by simp
  have "expand_inv ?sa (env', insts, dis)"
  proof (rule fold_res_invariant_prefix [OF run])
    show "expand_inv [] (env, [], [])" by (simp add: expand_inv_def)
    fix ds x rest st st'
    assume pre: "?sa = ds @ x # rest" and st: "expand_inv ds st" "expand_selection ops dl logger x st = Inr st'"
    have "distinct (map (sel_key \<circ> fst) (ds @ x # rest))" using assms(2) keys pre by simp
    then have "sel_key (fst x) \<notin> (sel_key \<circ> fst) ` set ds" by simp
    with st show "expand_inv (ds @ [x]) st'"
      using expand_selection_inv by (metis prod.collapse)
  qed
  moreover have "settled (sort_key dis_Key dis) insts k a = settled dis insts k a" for k a
    by (rule settled_cong) simp_all
  ultimately show ?thesis unfolding dis expand_inv_def by simp
qed

lemma expandDefinitions_instances:
  assumes "expandDefinitions ops dl sels env logger = Inr (env', insts, disabled)" "distinct (map sel_key sels)"
  shows "gm_wf insts" "gm_get insts i = Some inst \<Longrightarrow> \<exists>s \<in> set sels. well_planned s i inst"
proof -
  note inv = expandDefinitions_inv [OF assms]
  show "gm_wf insts" by (rule expand_invD(1) [OF inv])
  show "\<exists>s \<in> set sels. well_planned s i inst" if "gm_get insts i = Some inst"
    using expand_inv_planned [OF inv that] by (auto dest: set_zip_leftD)
qed

text \<open>
  C12. Activation is decided by the environment as it was before any Definition bound its
  configuration: whatever the binder writes into the tree, a Definition whose activation path did
  not exist at the start is reported as disabled. And every selected Definition is either reported
  as disabled and has no instance, or is not reported and has one.
\<close>

theorem expandDefinitions_activation:
  assumes "expandDefinitions ops dl sels env logger = Inr (env', insts, disabled)"
    and "distinct (map sel_key sels)" and "s \<in> set sels"
  shows "(\<not> activated (Some env) (sd_descriptor s) \<longrightarrow> sel_key s \<in> dis_Key ` set disabled) \<and>
    (sel_key s \<in> dis_Key ` set disabled \<longleftrightarrow> (\<forall>i. Plugin i = sel_key s \<longrightarrow> gm_get insts i = None))"
proof -
  have "(s, activated (Some env) (sd_descriptor s)) \<in> set (zip sels (map (activated (Some env) \<circ> sd_descriptor) sels))"
    using assms(3) by (auto simp: in_set_conv_nth set_zip)
  from expand_invD(3) [OF expandDefinitions_inv [OF assms(1,2)] this] show ?thesis
    by (auto simp: settled_def split: if_splits)
qed

text \<open>
  C13. Every planned instance comes from a selected and activated Definition: it is filed under its
  own normalised identity, carries that Definition with its selection site, workload and
  configuration path, has a factory and input tokens with pairwise different non-zero ids and
  non-nil types, and a single-instance Definition only has its default instance.
\<close>

theorem expandDefinitions_planned:
  assumes "expandDefinitions ops dl sels env logger = Inr (env', insts, disabled)"
    and "distinct (map sel_key sels)" and "gm_get insts i = Some inst"
  shows "\<exists>s \<in> set sels. activated (Some env) (sd_descriptor s) \<and> well_planned s i inst"
proof -
  obtain s where "(s, True) \<in> set (zip sels (map (activated (Some env) \<circ> sd_descriptor) sels))" "well_planned s i inst"
    using expand_inv_planned [OF expandDefinitions_inv [OF assms(1,2)] assms(3)] by blast
  then show ?thesis by (auto simp: set_zip intro!: bexI [OF _ nth_mem])
qed

text \<open>A binder after which every path of the tree exists.\<close>

definition sample_ops :: config_ops where
  "sample_ops = \<lparr>cfg_bind = (\<lambda>env path v. Inr (v, env\<lparr>k_exists := (\<lambda>_. True)\<rparr>)), cfg_validate = (\<lambda>_ _. None)\<rparr>"

definition sample_selections :: "selectedDefinition list" where
  "sample_selections =
     [\<lparr>sd_descriptor = (sample_definition ''a'')\<lparr>dd_Config := Some \<lparr>cfg_Type = Some (RDefined ''C'' [] []),
         cfg_Defaults = Some (\<lambda>_. Returns (AVal (RDefined ''C'' [] []) CNil)), cfg_Prepare = None\<rparr>\<rparr>,
       sd_selectedAt = ''main.go:1'', sd_workload = []\<rparr>,
      \<lparr>sd_descriptor = (sample_definition ''b'')\<lparr>dd_Activation := \<lparr>act_Kind = ActivationConfigured,
         act_Path = ''plugins.a''\<rparr>\<rparr>,
       sd_selectedAt = ''main.go:2'', sd_workload = []\<rparr>]"

lemma sample_expand:
  "\<exists>env' insts disabled. expandDefinitions sample_ops (Logger 0 []) sample_selections empty_environment None
     = Inr (env', insts, disabled) \<and> map fst insts = [Identity ''a'' ''default''] \<and> map dis_Key disabled = [''b'']"
proof -
  have "map_sum (\<lambda>_. ()) (\<lambda>(_, insts, disabled). (map fst insts, map dis_Key disabled))
      (expandDefinitions sample_ops (Logger 0 []) sample_selections empty_environment None)
    = Inr ([Identity ''a'' ''default''], [''b''])"
    by code_simp
  then show ?thesis
    by (cases "expandDefinitions sample_ops (Logger 0 []) sample_selections empty_environment None") auto
qed

theorem expandDefinitions_activation_witness:
  "\<exists>env' insts disabled. expandDefinitions sample_ops (Logger 0 []) sample_selections empty_environment None
     = Inr (env', insts, disabled) \<and> ''b'' \<in> dis_Key ` set disabled"
proof -
  obtain env' insts disabled where
    run: "expandDefinitions sample_ops (Logger 0 []) sample_selections empty_environment None = Inr (env', insts, disabled)"
    using sample_expand by blast
  have d: "distinct (map sel_key sample_selections)" by code_simp
  have "\<not> activated (Some empty_environment) (sd_descriptor (sample_selections ! 1))" by code_simp
  moreover have "sel_key (sample_selections ! 1) = ''b''" by code_simp
  moreover have "sample_selections ! 1 \<in> set sample_selections" by (simp add: sample_selections_def)
  ultimately show ?thesis
    using run expandDefinitions_activation [OF run d, of "sample_selections ! 1"] by auto
qed

theorem expandDefinitions_planned_witness:
  "\<exists>env' insts disabled inst s. expandDefinitions sample_ops (Logger 0 []) sample_selections empty_environment None
     = Inr (env', insts, disabled) \<and> gm_get insts (Identity ''a'' ''default'') = Some inst \<and>
     well_planned s (Identity ''a'' ''default'') inst"
proof -
  obtain env' insts disabled where
    run: "expandDefinitions sample_ops (Logger 0 []) sample_selections empty_environment None = Inr (env', insts, disabled)"
    and keys: "map fst insts = [Identity ''a'' ''default'']"
    using sample_expand by metis
  have d: "distinct (map sel_key sample_selections)" by code_simp
  obtain inst where inst: "gm_get insts (Identity ''a'' ''default'') = Some inst"
    using keys by (cases insts) auto
  from expandDefinitions_planned [OF run d inst] run inst show ?thesis by blast
qed

definition sample_multi :: DefinitionDescriptor where
  "sample_multi = (sample_definition ''gorm'')\<lparr>dd_Cardinality := MultipleInstances\<rparr>"

definition sample_section :: "(string, cval) gomap" where
  "sample_section = [(''replica'', CMap []), (''old'', CMap [(''enabled'', CBool False)]), (''main'', CMap [(''enabled'', CBool True)])]"

definition sample_env :: environment where
  "sample_env = \<lparr>k_get = (\<lambda>p. if p = ''plugins.gorm'' then CMap sample_section else CNil),
     k_exists = (\<lambda>p. p = ''plugins.gorm'')\<rparr>"

lemma expandIdentities_example:
  "expandIdentities sample_multi (Some sample_env) = Inr ([Identity ''gorm'' ''main'', Identity ''gorm'' ''replica''], [])
   \<and> sorted [Identity ''gorm'' ''main'', Identity ''gorm'' ''replica'']"
proof -
  have run: "expandIdentities sample_multi (Some sample_env)
      = Inr ([Identity ''gorm'' ''main'', Identity ''gorm'' ''replica''], [])"
    by code_simp
  have h: "dd_Cardinality sample_multi \<noteq> SingleInstance" "gm_wf sample_section"
    "Sub (Some sample_env) (definitionPath sample_multi) = Some sample_section" by code_simp+
  show ?thesis
    by (intro conjI run) (rule expandIdentities_multi [OF h(1) h(3) h(2) run, THEN conjunct2, THEN conjunct1])
qed

end
