(* ===== verification/Settings.thy ===== *)
theory Settings
  imports Complex_Main Expand
begin

text \<open>
  The \<^verbatim>\<open>xbc\<close> section of the configuration (\<^verbatim>\<open>runtime/settings.go\<close>) and the process-level resource knobs derived from it
  (\<^verbatim>\<open>runtime/runtime_knobs.go\<close>): the budgets of a shutdown, the identity of the process, and the limits of the Go runtime.
  \<^item> Durations are integers; where the code adds or multiplies them the 64-bit result is written out.
  \<^item> The binder of the config package is an argument: it yields the bound section and the tree that later readers see, or its error.
  \<^item> What the process reads of its machine is a record, \<open>machine\<close>. A floating-point number is a rational, or one of
    the special values that \<^verbatim>\<open>strconv.ParseFloat\<close> accepts by name.
\<close>

section \<open>The machine\<close>

datatype float64 = NaN | PosInf | NegInf | Finite rat

definition float_less_eq :: "float64 \<Rightarrow> rat \<Rightarrow> bool" where
  "float_less_eq x q = (case x of NaN \<Rightarrow> False | PosInf \<Rightarrow> False | NegInf \<Rightarrow> True | Finite p \<Rightarrow> p \<le> q)"

definition float_greater :: "float64 \<Rightarrow> rat \<Rightarrow> bool" where
  "float_greater x q = (case x of NaN \<Rightarrow> False | PosInf \<Rightarrow> True | NegInf \<Rightarrow> False | Finite p \<Rightarrow> p > q)"

record build_info =
  bi_MainPath :: string
  bi_MainVersion :: string
  bi_Settings :: "(string \<times> string) list"

text \<open>\<open>mc_percentOf limit percent\<close> is \<^verbatim>\<open>int64(float64(limit) * percent / 100)\<close>.\<close>

record machine =
  mc_ReadFile :: "string \<Rightarrow> string option"
  mc_ParseFloat :: "string \<Rightarrow> float64 option"
  mc_percentOf :: "int \<Rightarrow> float64 \<Rightarrow> int"
  mc_Hostname :: "string option"
  mc_random :: "(string, string) result"
  mc_Unix :: nat
  mc_buildInfo :: "build_info option"
  mc_executableName :: string

section \<open>The section\<close>

record serviceSettings =
  sv_Name :: string
  sv_Version :: string

record runtimeSettings =
  rs_MaxProcs :: string
  rs_MemoryLimit :: string
  rs_GCPercent :: int

record settings =
  se_ShutdownTimeout :: int
  se_PreStopTimeout :: int
  se_DrainTimeout :: int
  se_StopReserve :: int
  se_AutoMigrate :: bool
  se_SlowStartupAfter :: int
  se_Runtime :: runtimeSettings
  se_InstanceID :: string
  se_Service :: serviceSettings
  se_instance :: string
  se_serviceName :: string
  se_serviceVersion :: string

definition zero_settings :: settings where
  "zero_settings = \<lparr>se_ShutdownTimeout = 0, se_PreStopTimeout = 0, se_DrainTimeout = 0, se_StopReserve = 0, se_AutoMigrate = False,
     se_SlowStartupAfter = 0, se_Runtime = \<lparr>rs_MaxProcs = [], rs_MemoryLimit = [], rs_GCPercent = 0\<rparr>, se_InstanceID = [],
     se_Service = \<lparr>sv_Name = [], sv_Version = []\<rparr>, se_instance = [], se_serviceName = [], se_serviceVersion = []\<rparr>"

definition settings_Instance :: "settings \<Rightarrow> string" where
  "settings_Instance s = se_instance s"

definition settings_ServiceIdentity :: "settings \<Rightarrow> ServiceIdentity" where
  "settings_ServiceIdentity s = \<lparr>svc_Name = se_serviceName s, svc_Version = se_serviceVersion s, svc_Instance = se_instance s\<rparr>"

definition IngressStopBudget :: "settings \<Rightarrow> int" where
  "IngressStopBudget s = (if se_ShutdownTimeout s \<le> 0 then 0 else duration_wrap (se_ShutdownTimeout s - se_StopReserve s))"

section \<open>The identity of the process\<close>

definition path_Base :: "string \<Rightarrow> string" where
  "path_Base p =
     (if p = [] then ''.''
      else let base = rev (takeWhile (\<lambda>c. c \<noteq> CHR ''/'') (dropWhile (\<lambda>c. c = CHR ''/'') (rev p)))
           in if base = [] then ''/'' else base)"

definition buildSetting :: "build_info \<Rightarrow> string \<Rightarrow> string" where
  "buildSetting info key = (case find (\<lambda>s. fst s = key) (bi_Settings info) of Some s \<Rightarrow> snd s | None \<Rightarrow> [])"

definition deriveServiceName :: "machine \<Rightarrow> string" where
  "deriveServiceName m =
     (let fallback = (if mc_executableName m \<noteq> [] \<and> mc_executableName m \<noteq> ''.'' then mc_executableName m else ''unknown'') in
      case mc_buildInfo m of
        None \<Rightarrow> fallback
      | Some info \<Rightarrow>
          if bi_MainPath info = [] then fallback
          else let base = path_Base (bi_MainPath info)
               in if base \<noteq> [] \<and> base \<noteq> ''.'' \<and> base \<noteq> ''/'' then base else fallback)"

definition deriveServiceVersion :: "machine \<Rightarrow> string" where
  "deriveServiceVersion m =
     (case mc_buildInfo m of
        None \<Rightarrow> ''unknown''
      | Some info \<Rightarrow>
          if bi_MainVersion info \<noteq> [] \<and> bi_MainVersion info \<noteq> ''(devel)'' then bi_MainVersion info
          else
            let revision = buildSetting info ''vcs.revision'' in
            if revision \<noteq> [] then
              let short = (if length revision > 12 then take 12 revision else revision)
              in if buildSetting info ''vcs.modified'' = ''true'' then short @ ''-dirty'' else short
            else ''unknown'')"

definition host_char :: "char \<Rightarrow> bool" where
  "host_char c \<longleftrightarrow> CHR ''a'' \<le> c \<and> c \<le> CHR ''z'' \<or> CHR ''0'' \<le> c \<and> c \<le> CHR ''9''"

text \<open>The loop over the runes of the host name; the bytes of a rune that is not ASCII are not host characters either.\<close>

fun sanitize_loop :: "bool \<Rightarrow> string \<Rightarrow> string \<Rightarrow> string" where
  "sanitize_loop lastHyphen b [] = b"
| "sanitize_loop lastHyphen b (c # host) =
     (if host_char c then sanitize_loop False (b @ [c]) host
      else if \<not> lastHyphen \<and> b \<noteq> [] then sanitize_loop True (b @ ''-'') host
      else sanitize_loop lastHyphen b host)"

definition Trim_hyphens :: "string \<Rightarrow> string" where
  "Trim_hyphens s = rev (dropWhile (\<lambda>c. c = CHR ''-'') (rev (dropWhile (\<lambda>c. c = CHR ''-'') s)))"

definition sanitizeHostname :: "string \<Rightarrow> string" where
  "sanitizeHostname host =
     (let name = Trim_hyphens (sanitize_loop False [] (ToLower (trim_space host)))
      in if name = [] then ''unknown-host'' else name)"

datatype settings_error =
    SettingsBindFailed string
  | ShutdownNotPositive int
  | PreStopNegative int
  | DrainNegative int
  | DrainExceedsShutdown int int
  | ReserveNegative int
  | ReserveExceedsShutdown int int int
  | MaxProcsEmpty
  | MaxProcsMalformed string
  | MaxProcsNegative string
  | MemoryLimitEmpty
  | MemoryLimitPercent string
  | MemoryLimitMalformed string
  | MemoryLimitNegative string
  | GCPercentNegative int
  | NoContainerLimit string
  | InstanceNotDerivable string
  | InstanceWhitespace string
  | ServiceNameWhitespace string
  | ServiceVersionWhitespace string

definition deriveInstanceID :: "machine \<Rightarrow> (settings_error, string) result" where
  "deriveInstanceID m =
     (let host = (case mc_Hostname m of None \<Rightarrow> ''unknown-host'' | Some host \<Rightarrow> host) in
      case mc_random m of
        Inl e \<Rightarrow> Inl (InstanceNotDerivable e)
      | Inr suffix \<Rightarrow> Inr (sanitizeHostname host @ ''-'' @ nat_digits (mc_Unix m) @ ''-'' @ hex_EncodeToString suffix))"

section \<open>The runtime subsection\<close>

text \<open>Decimal integers of 64 bits, with an optional sign (\<^verbatim>\<open>strconv.Atoi\<close>, \<^verbatim>\<open>strconv.ParseInt\<close>).\<close>

fun digits_value :: "int \<Rightarrow> string \<Rightarrow> int option" where
  "digits_value n [] = Some n"
| "digits_value n (c # s) = (if CHR ''0'' \<le> c \<and> c \<le> CHR ''9'' then digits_value (10 * n + (of_char c - 48)) s else None)"

definition ParseInt :: "string \<Rightarrow> int option" where
  "ParseInt s =
     (let (negative, digits) = (case s of
            c # rest \<Rightarrow> if c = CHR ''-'' then (True, rest) else if c = CHR ''+'' then (False, rest) else (False, s)
          | [] \<Rightarrow> (False, []))
      in if digits = [] then None
         else case digits_value 0 digits of
                None \<Rightarrow> None
              | Some n \<Rightarrow>
                  if negative then if n \<le> 2 ^ 63 then Some (- n) else None
                  else if n < 2 ^ 63 then Some n else None)"

record maxProcsSpec =
  mp_auto :: bool
  mp_count :: int

definition maxProcs_parse :: "string \<Rightarrow> (settings_error, maxProcsSpec) result" where
  "maxProcs_parse v =
     (let text = trim_space v in
      if text = [] then Inl MaxProcsEmpty
      else if ToLower text = ''auto'' then Inr \<lparr>mp_auto = True, mp_count = 0\<rparr>
      else
        (case ParseInt text of
           None \<Rightarrow> Inl (MaxProcsMalformed text)
         | Some n \<Rightarrow> if n < 0 then Inl (MaxProcsNegative text) else Inr \<lparr>mp_auto = False, mp_count = n\<rparr>))"

record memoryLimitSpec =
  ml_bytes :: int
  ml_percent :: float64

definition memoryLimit_parse :: "machine \<Rightarrow> string \<Rightarrow> (settings_error, memoryLimitSpec) result" where
  "memoryLimit_parse m v =
     (let text = trim_space v in
      if text = [] then Inl MemoryLimitEmpty
      else if last text = CHR ''%'' then
        (case mc_ParseFloat m (trim_space (butlast text)) of
           None \<Rightarrow> Inl (MemoryLimitPercent text)
         | Some percent \<Rightarrow>
             if float_less_eq percent 0 \<or> float_greater percent 100 then Inl (MemoryLimitPercent text)
             else Inr \<lparr>ml_bytes = 0, ml_percent = percent\<rparr>)
      else
        (case ParseInt text of
           None \<Rightarrow> Inl (MemoryLimitMalformed text)
         | Some bytes \<Rightarrow> if bytes < 0 then Inl (MemoryLimitNegative text) else Inr \<lparr>ml_bytes = bytes, ml_percent = Finite 0\<rparr>))"

definition parseRuntimeSection :: "machine \<Rightarrow> runtimeSettings \<Rightarrow> (settings_error, maxProcsSpec \<times> memoryLimitSpec) result" where
  "parseRuntimeSection m section =
     (case maxProcs_parse (rs_MaxProcs section) of
        Inl e \<Rightarrow> Inl e
      | Inr maxProcs \<Rightarrow>
          (case memoryLimit_parse m (rs_MemoryLimit section) of
             Inl e \<Rightarrow> Inl e
           | Inr memoryLimit \<Rightarrow>
               if rs_GCPercent section < 0 then Inl (GCPercentNegative (rs_GCPercent section))
               else Inr (maxProcs, memoryLimit)))"

section \<open>Loading\<close>

definition drainTimeoutPath :: string where "drainTimeoutPath = ''xbc.drain_timeout''"

definition stopReservePath :: string where "stopReservePath = ''xbc.stop_reserve''"

text \<open>Division truncates towards zero.\<close>

definition quot :: "int \<Rightarrow> int \<Rightarrow> int" where
  "quot x y = (if x \<ge> 0 then x div y else - ((- x) div y))"

definition deriveStopReserve :: "int \<Rightarrow> int \<Rightarrow> int" where
  "deriveStopReserve shutdown drain = min (quot shutdown 5) (quot (duration_wrap (shutdown - drain)) 2)"

definition deriveDrainTimeout :: "int \<Rightarrow> int" where
  "deriveDrainTimeout shutdown = quot (duration_wrap (shutdown * 3)) 5"

definition has_space :: "string \<Rightarrow> bool" where
  "has_space s \<longleftrightarrow> list_ex (\<lambda>c. c \<in> set [CHR '' '', CHR 9, CHR 13, CHR 10]) s"

text \<open>The budgets of a bound section, given whether the two derived ones were set.\<close>

definition settle_budgets :: "bool \<Rightarrow> bool \<Rightarrow> settings \<Rightarrow> (settings_error, settings) result" where
  "settle_budgets drainTimeoutSet stopReserveSet s =
     (if se_ShutdownTimeout s \<le> 0 then Inl (ShutdownNotPositive (se_ShutdownTimeout s))
      else if se_PreStopTimeout s < 0 then Inl (PreStopNegative (se_PreStopTimeout s))
      else if drainTimeoutSet \<and> se_DrainTimeout s < 0 then Inl (DrainNegative (se_DrainTimeout s))
      else if drainTimeoutSet \<and> se_DrainTimeout s > 0 \<and> se_DrainTimeout s \<ge> se_ShutdownTimeout s then
        Inl (DrainExceedsShutdown (se_DrainTimeout s) (se_ShutdownTimeout s))
      else
        let s = (if drainTimeoutSet then s else s\<lparr>se_DrainTimeout := deriveDrainTimeout (se_ShutdownTimeout s)\<rparr>) in
        if \<not> stopReserveSet then Inr (s\<lparr>se_StopReserve := deriveStopReserve (se_ShutdownTimeout s) (se_DrainTimeout s)\<rparr>)
        else if se_StopReserve s < 0 then Inl (ReserveNegative (se_StopReserve s))
        else if se_StopReserve s > 0 \<and> duration_wrap (se_DrainTimeout s + se_StopReserve s) \<ge> se_ShutdownTimeout s then
          Inl (ReserveExceedsShutdown (se_StopReserve s) (se_DrainTimeout s) (se_ShutdownTimeout s))
        else Inr s)"

definition settle_identity :: "machine \<Rightarrow> settings \<Rightarrow> (settings_error, settings) result" where
  "settle_identity m s =
     (case (let configured = trim_space (se_InstanceID s) in if configured = [] then deriveInstanceID m else Inr configured) of
        Inl e \<Rightarrow> Inl e
      | Inr inst \<Rightarrow>
          if has_space inst then Inl (InstanceWhitespace inst)
          else
            let name = trim_space (sv_Name (se_Service s));
                name = (if name = [] then deriveServiceName m else name)
            in if has_space name then Inl (ServiceNameWhitespace name)
               else
                 let version = trim_space (sv_Version (se_Service s));
                     version = (if version = [] then deriveServiceVersion m else version)
                 in if has_space version then Inl (ServiceVersionWhitespace version)
                    else Inr (s\<lparr>se_instance := inst, se_serviceName := name, se_serviceVersion := version\<rparr>))"

type_synonym settings_binder = "environment \<Rightarrow> (string, settings \<times> environment) result"

definition loadSettings :: "machine \<Rightarrow> settings_binder \<Rightarrow> environment \<Rightarrow> (settings_error, settings \<times> environment) result" where
  "loadSettings m bind_section env =
     (let drainTimeoutSet = k_exists env drainTimeoutPath; stopReserveSet = k_exists env stopReservePath in
      case bind_section env of
        Inl e \<Rightarrow> Inl (SettingsBindFailed e)
      | Inr (s, env) \<Rightarrow>
          (case settle_budgets drainTimeoutSet stopReserveSet s of
             Inl e \<Rightarrow> Inl e
           | Inr s \<Rightarrow>
               (case parseRuntimeSection m (se_Runtime s) of
                  Inl e \<Rightarrow> Inl e
                | Inr _ \<Rightarrow>
                    (case settle_identity m s of
                       Inl e \<Rightarrow> Inl e
                     | Inr s \<Rightarrow> Inr (s, env)))))"

section \<open>Resource knobs\<close>

definition defaultCgroupRoot :: string where "defaultCgroupRoot = ''/sys/fs/cgroup''"

definition unlimitedMemoryLimit :: int where "unlimitedMemoryLimit = 2 ^ 62"

text \<open>Where a value came from; one that is derived from the container names its percentage.\<close>

datatype knobSource = SourceCgroup float64 | SourceExplicit | SourceRuntime | SourceUnset

record runtimeKnobs =
  kn_maxProcs :: int
  kn_maxProcsSource :: knobSource
  kn_memoryLimit :: int
  kn_memoryLimitSource :: knobSource
  kn_gcPercent :: int
  kn_gcPercentSource :: knobSource

definition readCgroupValue :: "machine \<Rightarrow> string \<Rightarrow> string option" where
  "readCgroupValue m p =
     (case mc_ReadFile m p of
        None \<Rightarrow> None
      | Some raw \<Rightarrow> let v = trim_space raw in if v = [] then None else Some v)"

definition parseMemoryLimit :: "string \<Rightarrow> int option" where
  "parseMemoryLimit raw =
     (if raw = ''max'' then None
      else case ParseInt raw of
             None \<Rightarrow> None
           | Some limit \<Rightarrow> if limit \<le> 0 \<or> limit \<ge> unlimitedMemoryLimit then None else Some limit)"

definition containerMemoryLimit :: "machine \<Rightarrow> string \<Rightarrow> int option" where
  "containerMemoryLimit m cgroup =
     (case readCgroupValue m (cgroup @ ''/memory.max'') of
        Some raw \<Rightarrow> parseMemoryLimit raw
      | None \<Rightarrow>
          (case readCgroupValue m (cgroup @ ''/memory/memory.limit_in_bytes'') of
             None \<Rightarrow> None
           | Some raw \<Rightarrow> parseMemoryLimit raw))"

definition resolve_memory :: "machine \<Rightarrow> string \<Rightarrow> memoryLimitSpec \<Rightarrow> (settings_error, int \<times> knobSource) result" where
  "resolve_memory m cgroup spec =
     (if float_greater (ml_percent spec) 0 then
        (case containerMemoryLimit m cgroup of
           None \<Rightarrow> Inl (NoContainerLimit cgroup)
         | Some limit \<Rightarrow> Inr (max 1 (mc_percentOf m limit (ml_percent spec)), SourceCgroup (ml_percent spec)))
      else if ml_bytes spec > 0 then Inr (ml_bytes spec, SourceExplicit)
      else Inr (0, SourceUnset))"

definition resolveRuntimeKnobs :: "machine \<Rightarrow> runtimeSettings \<Rightarrow> string \<Rightarrow> (settings_error, runtimeKnobs) result" where
  "resolveRuntimeKnobs m section cgroup =
     (case parseRuntimeSection m section of
        Inl e \<Rightarrow> Inl e
      | Inr (maxProcs, memoryLimit) \<Rightarrow>
          let (procs, procsSource) = (if mp_auto maxProcs then (0, SourceRuntime)
                else if mp_count maxProcs > 0 then (mp_count maxProcs, SourceExplicit) else (0, SourceUnset));
              (gc, gcSource) = (if rs_GCPercent section > 0 then (rs_GCPercent section, SourceExplicit) else (0, SourceUnset))
          in map_sum id (\<lambda>(bytes, bytesSource).
                \<lparr>kn_maxProcs = procs, kn_maxProcsSource = procsSource, kn_memoryLimit = bytes, kn_memoryLimitSource = bytesSource,
                 kn_gcPercent = gc, kn_gcPercentSource = gcSource\<rparr>) (resolve_memory m cgroup memoryLimit))"

text \<open>The values in force in the process.\<close>

record process_values =
  pv_GOMAXPROCS :: int
  pv_MemoryLimit :: int
  pv_GCPercent :: int

definition applyRuntimeKnobs :: "runtimeKnobs \<Rightarrow> process_values \<Rightarrow> process_values" where
  "applyRuntimeKnobs knobs v =
     (let v = (if kn_maxProcs knobs > 0 then v\<lparr>pv_GOMAXPROCS := kn_maxProcs knobs\<rparr> else v);
          v = (if kn_memoryLimit knobs > 0 then v\<lparr>pv_MemoryLimit := kn_memoryLimit knobs\<rparr> else v)
      in if kn_gcPercent knobs > 0 then v\<lparr>pv_GCPercent := kn_gcPercent knobs\<rparr> else v)"

section \<open>Identities are single tokens\<close>

lemma host_char_plain: "host_char c \<Longrightarrow> c \<notin> set [CHR '' '', CHR 9, CHR 13, CHR 10] \<and> c \<noteq> CHR ''-''"
  by (auto simp: host_char_def less_eq_char_def)

lemma sanitize_loop_chars:
  "\<forall>c \<in> set b. host_char c \<or> c = CHR ''-'' \<Longrightarrow> \<forall>c \<in> set (sanitize_loop l b host). host_char c \<or> c = CHR ''-''"
  by (induction l b host rule: sanitize_loop.induct) (auto split: if_splits)

lemma Trim_hyphens_set: "set (Trim_hyphens s) \<subseteq> set s"
  by (auto simp: Trim_hyphens_def dest!: set_dropWhileD)

lemma sanitizeHostname_token:
  shows "sanitizeHostname host \<noteq> []" and "\<forall>c \<in> set (sanitizeHostname host). host_char c \<or> c = CHR ''-''"
proof -
  have unknown: "\<forall>c \<in> set ''unknown-host''. host_char c \<or> c = CHR ''-''" by code_simp
  show "sanitizeHostname host \<noteq> []" by (simp add: sanitizeHostname_def Let_def)
  show "\<forall>c \<in> set (sanitizeHostname host). host_char c \<or> c = CHR ''-''"
  proof (cases "Trim_hyphens (sanitize_loop False [] (ToLower (trim_space host))) = []")
    case True
    with unknown show ?thesis by (simp add: sanitizeHostname_def)
  next
    case False
    have "\<forall>c \<in> set (sanitize_loop False [] (ToLower (trim_space host))). host_char c \<or> c = CHR ''-''"
      by (rule sanitize_loop_chars) simp
    with False Trim_hyphens_set show ?thesis by (fastforce simp: sanitizeHostname_def Let_def)
  qed
qed

lemma nat_digits_chars: "\<forall>c \<in> set (nat_digits n). host_char c"
proof (induction n rule: nat_digits.induct)
  case (1 n)
  have d: "host_char (char_of (k + 48))" if "k < 10" for k :: nat
  proof -
    have "\<forall>k \<in> set [0..<10]. host_char (char_of (k + 48 :: nat))" by code_simp
    with that show ?thesis by simp
  qed
  show ?case using 1 d [of "n mod 10"] d [of n] by (subst nat_digits.simps) auto
qed

lemma hex_chars: "\<forall>c \<in> set (hex_EncodeToString bytes). host_char c"
proof -
  have d: "host_char (hex_digit k)" if "k < 16" for k
  proof -
    have "\<forall>k \<in> set [0..<16]. host_char (hex_digit k)" by code_simp
    with that show ?thesis by simp
  qed
  have "(of_char c :: nat) div 16 < 16" for c by (simp add: less_mult_imp_div_less)
  then show ?thesis using d by (auto simp: hex_EncodeToString_def)
qed

lemma deriveInstanceID_token:
  assumes "deriveInstanceID m = Inr inst"
  shows "inst \<noteq> []" and "\<not> has_space inst"
proof -
  obtain host suffix where i: "inst = sanitizeHostname host @ ''-'' @ nat_digits (mc_Unix m) @ ''-'' @ hex_EncodeToString suffix"
    using assms by (auto simp: deriveInstanceID_def Let_def split: sum.splits)
  show "inst \<noteq> []" by (simp add: i)
  have "\<forall>c \<in> set inst. host_char c \<or> c = CHR ''-''"
    using sanitizeHostname_token(2) [of host] nat_digits_chars hex_chars by (auto simp: i)
  then show "\<not> has_space inst" using host_char_plain by (fastforce simp: has_space_def list_ex_iff)
qed

lemma derived_names: "deriveServiceName m \<noteq> []" "deriveServiceVersion m \<noteq> []"
  by (auto simp: deriveServiceName_def deriveServiceVersion_def Let_def split: option.splits)

text \<open>A machine with randomness never has its own identity refused.\<close>

lemma derived_instance_accepted:
  assumes "mc_random m = Inr suffix" "trim_space (se_InstanceID s) = []"
  shows "settle_identity m s \<noteq> Inl (InstanceWhitespace i)"
  using assms deriveInstanceID_token(2) [of m]
  by (auto simp: settle_identity_def Let_def deriveInstanceID_def split: sum.splits if_splits)

lemma settle_identity_result:
  assumes "settle_identity m s = Inr s'"
  shows "\<exists>inst name version. s' = s\<lparr>se_instance := inst, se_serviceName := name, se_serviceVersion := version\<rparr> \<and>
    inst \<noteq> [] \<and> name \<noteq> [] \<and> version \<noteq> [] \<and> \<not> has_space inst \<and> \<not> has_space name \<and> \<not> has_space version"
  using assms deriveInstanceID_token(1) [of m] derived_names [of m]
  by (auto simp: settle_identity_def Let_def split: sum.splits if_splits)

section \<open>Budgets\<close>

lemma deriveDrainTimeout_bounds:
  assumes "0 < sh" "sh \<le> 2 ^ 61"
  shows "0 \<le> deriveDrainTimeout sh" and "deriveDrainTimeout sh < sh" and "5 * deriveDrainTimeout sh \<le> 3 * sh"
proof -
  have "duration_wrap (sh * 3) = sh * 3" using assms by (intro duration_wrap_id) simp_all
  then have "deriveDrainTimeout sh = (sh * 3) div 5" using assms by (simp add: deriveDrainTimeout_def quot_def)
  with assms show "0 \<le> deriveDrainTimeout sh" "deriveDrainTimeout sh < sh" "5 * deriveDrainTimeout sh \<le> 3 * sh" by simp_all
qed

lemma deriveStopReserve_bounds:
  assumes "0 \<le> dr" "dr < sh" "sh \<le> 2 ^ 61"
  shows "0 \<le> deriveStopReserve sh dr" and "dr + deriveStopReserve sh dr < sh" and "5 * deriveStopReserve sh dr \<le> sh"
proof -
  have "duration_wrap (sh - dr) = sh - dr" using assms by (intro duration_wrap_id) simp_all
  then have r: "deriveStopReserve sh dr = min (sh div 5) ((sh - dr) div 2)" using assms by (simp add: deriveStopReserve_def quot_def)
  have le: "deriveStopReserve sh dr \<le> sh div 5" "deriveStopReserve sh dr \<le> (sh - dr) div 2" by (simp_all add: r)
  have "0 \<le> sh div 5" "0 \<le> (sh - dr) div 2" using assms by (simp_all add: pos_imp_zdiv_nonneg_iff)
  then show "0 \<le> deriveStopReserve sh dr" by (simp add: r)
  show "5 * deriveStopReserve sh dr \<le> sh" using le(1) by linarith
  from le(2) assms(2) show "dr + deriveStopReserve sh dr < sh" by linarith
qed

lemma settle_budgets_result:
  assumes run: "settle_budgets dset rset s = Inr s'" and small: "se_ShutdownTimeout s' \<le> 2 ^ 61" "se_StopReserve s' \<le> 2 ^ 62"
  shows "0 < se_ShutdownTimeout s' \<and> 0 \<le> se_PreStopTimeout s' \<and> 0 \<le> se_DrainTimeout s' \<and> 0 \<le> se_StopReserve s' \<and>
    se_DrainTimeout s' + se_StopReserve s' < se_ShutdownTimeout s' \<and>
    (dset \<or> 5 * se_DrainTimeout s' \<le> 3 * se_ShutdownTimeout s') \<and> (rset \<or> 5 * se_StopReserve s' \<le> se_ShutdownTimeout s')"
proof -
  let ?sh = "se_ShutdownTimeout s"
  define dr where "dr = (if dset then se_DrainTimeout s else deriveDrainTimeout ?sh)"
  have base: "0 < ?sh" "0 \<le> se_PreStopTimeout s" "?sh \<le> 2 ^ 61"
    using run small(1) by (auto simp: settle_budgets_def Let_def split: if_splits)
  have drain: "0 \<le> dr" "dr < ?sh" "dset \<or> 5 * dr \<le> 3 * ?sh"
    using run base deriveDrainTimeout_bounds [of ?sh] by (auto simp: dr_def settle_budgets_def Let_def split: if_splits)
  have s': "se_ShutdownTimeout s' = ?sh" "se_PreStopTimeout s' = se_PreStopTimeout s" "se_DrainTimeout s' = dr"
    using run by (auto simp: dr_def settle_budgets_def Let_def split: if_splits)
  show ?thesis
  proof (cases rset)
    case False
    then have "se_StopReserve s' = deriveStopReserve ?sh dr"
      using run by (auto simp: dr_def settle_budgets_def Let_def split: if_splits)
    with deriveStopReserve_bounds [OF drain(1,2) base(3)] s' base drain show ?thesis by simp
  next
    case True
    then have r: "0 \<le> se_StopReserve s'" "se_StopReserve s' = 0 \<or> duration_wrap (dr + se_StopReserve s') < ?sh"
      using run by (auto simp: dr_def settle_budgets_def Let_def split: if_splits)
    have "duration_wrap (dr + se_StopReserve s') = dr + se_StopReserve s'"
      using r(1) drain base(3) small(2) by (intro duration_wrap_id) simp_all
    with r s' base drain True show ?thesis by auto
  qed
qed

lemma loadSettings_parts:
  assumes "loadSettings m bind_section env = Inr (s, env')"
  obtains s0 s1 where "bind_section env = Inr (s0, env')"
    "settle_budgets (k_exists env drainTimeoutPath) (k_exists env stopReservePath) s0 = Inr s1"
    "parseRuntimeSection m (se_Runtime s1) \<noteq> Inl e" "settle_identity m s1 = Inr s"
  using assms by (auto simp: loadSettings_def Let_def split: sum.splits)

text \<open>
  C8. The budgets of settings that were loaded. The shutdown budget is positive and the pre-stop budget is not negative; the
  drain budget and the reserve are not negative and together leave part of the shutdown budget to the
  ingress stop, whose own budget exceeds the drain budget; a drain budget that is derived is at most
  60 percent and a derived reserve at most 20 percent of the shutdown budget. The identity, the service name and the version
  are there, each without white space. This holds for shutdown budgets up to \<open>2 ^ 61\<close> and reserves up to
  \<open>2 ^ 62\<close> nanoseconds, above which sums and products of durations wrap.
\<close>

theorem loadSettings_settles:
  assumes "loadSettings m bind_section env = Inr (s, env')" and "se_ShutdownTimeout s \<le> 2 ^ 61" and "se_StopReserve s \<le> 2 ^ 62"
  shows "0 < se_ShutdownTimeout s \<and> 0 \<le> se_PreStopTimeout s \<and> 0 \<le> se_DrainTimeout s \<and> 0 \<le> se_StopReserve s \<and>
    se_DrainTimeout s + se_StopReserve s < se_ShutdownTimeout s \<and> se_DrainTimeout s < IngressStopBudget s \<and>
    (k_exists env drainTimeoutPath \<or> 5 * se_DrainTimeout s \<le> 3 * se_ShutdownTimeout s) \<and>
    (k_exists env stopReservePath \<or> 5 * se_StopReserve s \<le> se_ShutdownTimeout s) \<and>
    se_instance s \<noteq> [] \<and> se_serviceName s \<noteq> [] \<and> se_serviceVersion s \<noteq> [] \<and>
    \<not> has_space (se_instance s) \<and> \<not> has_space (se_serviceName s) \<and> \<not> has_space (se_serviceVersion s)"
proof -
  obtain s0 s1 where parts: "settle_budgets (k_exists env drainTimeoutPath) (k_exists env stopReservePath) s0 = Inr s1"
    "settle_identity m s1 = Inr s"
    using loadSettings_parts [OF assms(1)] by metis
  obtain inst name version where s: "s = s1\<lparr>se_instance := inst, se_serviceName := name, se_serviceVersion := version\<rparr>"
    and names: "inst \<noteq> []" "name \<noteq> []" "version \<noteq> []" "\<not> has_space inst" "\<not> has_space name" "\<not> has_space version"
    using settle_identity_result [OF parts(2)] by blast
  note b = settle_budgets_result [OF parts(1)]
  have "se_ShutdownTimeout s1 \<le> 2 ^ 61" "se_StopReserve s1 \<le> 2 ^ 62" using assms(2,3) s by simp_all
  note b = b [OF this]
  have "duration_wrap (se_ShutdownTimeout s - se_StopReserve s) = se_ShutdownTimeout s - se_StopReserve s"
    using b assms(2) s by (intro duration_wrap_id) auto
  then have "IngressStopBudget s = se_ShutdownTimeout s - se_StopReserve s" using b s by (simp add: IngressStopBudget_def)
  with b names show ?thesis unfolding s by simp
qed

section \<open>Sections that load\<close>

definition sample_machine :: machine where
  "sample_machine = \<lparr>mc_ReadFile = (\<lambda>p. if p = ''/sys/fs/cgroup/memory.max'' then Some ''1000'' else None),
     mc_ParseFloat = (\<lambda>s. if ToLower s = ''nan'' then Some NaN else if s = ''75'' then Some (Finite 75) else None),
     mc_percentOf = (\<lambda>limit _. limit * 3 div 4), mc_Hostname = Some ''Build Host.7'', mc_random = Inr ''0123'', mc_Unix = 17,
     mc_buildInfo = Some \<lparr>bi_MainPath = ''github.com/acme/shop'', bi_MainVersion = ''(devel)'', bi_Settings = [(''vcs.revision'', ''9f3c1a2b9f3c1a2b'')]\<rparr>,
     mc_executableName = ''shop''\<rparr>"

definition sample_section :: settings where
  "sample_section = zero_settings\<lparr>se_ShutdownTimeout := 25 * 1000000000, se_PreStopTimeout := 2 * 1000000000,
     se_Runtime := \<lparr>rs_MaxProcs = ''auto'', rs_MemoryLimit = ''75%'', rs_GCPercent = 0\<rparr>\<rparr>"

definition section_env :: "bool \<Rightarrow> environment" where
  "section_env given = empty_environment\<lparr>k_exists := (\<lambda>_. given)\<rparr>"

definition load_summary :: "settings \<Rightarrow> bool \<Rightarrow> (settings_error, int \<times> int \<times> int \<times> string \<times> string \<times> string) result" where
  "load_summary section given = map_sum id (\<lambda>(s, _). (se_ShutdownTimeout s, se_DrainTimeout s, se_StopReserve s, se_instance s, se_serviceName s, se_serviceVersion s))
     (loadSettings sample_machine (\<lambda>env. Inr (section, env)) (section_env given))"

lemma load_summaries:
  "load_summary sample_section False = Inr (25000000000, 15000000000, 5000000000, ''build-host-7-17-30313233'', ''shop'', ''9f3c1a2b9f3c'')"
  "load_summary (sample_section\<lparr>se_DrainTimeout := 30 * 1000000000\<rparr>) True = Inl (DrainExceedsShutdown 30000000000 25000000000)"
  by code_simp+

theorem loadSettings_settles_witness:
  "\<exists>s env'. loadSettings sample_machine (\<lambda>env. Inr (sample_section, env)) (section_env False) = Inr (s, env') \<and>
     se_DrainTimeout s + se_StopReserve s < se_ShutdownTimeout s \<and> \<not> has_space (se_instance s)"
proof -
  obtain s env' where run: "loadSettings sample_machine (\<lambda>env. Inr (sample_section, env)) (section_env False) = Inr (s, env')"
    and s: "se_ShutdownTimeout s = 25000000000" "se_StopReserve s = 5000000000"
    using load_summaries(1) by (auto simp: load_summary_def map_sum_eq_Inr)
  have "se_ShutdownTimeout s \<le> 2 ^ 61" "se_StopReserve s \<le> 2 ^ 62" by (simp_all add: s)
  from loadSettings_settles [OF run this] run show ?thesis by blast
qed

text \<open>
  The bounds of C8 are needed: with a reserve near the largest duration the sum that is compared with the shutdown budget wraps,
  and a section whose reserve exceeds the shutdown budget loads; a derived drain budget can be negative.
\<close>

lemma stop_reserve_wraps:
  "load_summary (sample_section\<lparr>se_DrainTimeout := 1, se_StopReserve := 2 ^ 63 - 1\<rparr>) True =
     Inr (25000000000, 1, 9223372036854775807, ''build-host-7-17-30313233'', ''shop'', ''9f3c1a2b9f3c'')"
  "deriveDrainTimeout (2 ^ 62) < 0"
  by code_simp+

text \<open>
  A percentage that is not a number passes the check of its range, since every comparison with it is false, and no limit is installed.
\<close>

lemma nan_percentage_unlimited:
  assumes "mc_ParseFloat m ''nan'' = Some NaN"
  shows "resolveRuntimeKnobs m \<lparr>rs_MaxProcs = ''auto'', rs_MemoryLimit = ''nan%'', rs_GCPercent = 0\<rparr> cgroup =
    Inr \<lparr>kn_maxProcs = 0, kn_maxProcsSource = SourceRuntime, kn_memoryLimit = 0, kn_memoryLimitSource = SourceUnset,
         kn_gcPercent = 0, kn_gcPercentSource = SourceUnset\<rparr>"
proof -
  have t: "trim_space ''nan%'' = ''nan%''" "trim_space (butlast ''nan%'') = ''nan''" "maxProcs_parse ''auto'' = Inr \<lparr>mp_auto = True, mp_count = 0\<rparr>"
    by code_simp+
  show ?thesis using assms t
    by (simp add: resolveRuntimeKnobs_def parseRuntimeSection_def memoryLimit_parse_def resolve_memory_def float_less_eq_def float_greater_def Let_def)
qed

end
