(* ===== verification/Universe.thy ===== *)
theory Universe
  imports Expand
begin

text \<open>
  Ownership of configuration (first part of \<^verbatim>\<open>config/universe.go\<close>): the sections a composition declares, how a path is
  spelled as a variable, and the check that every key of the merged tree belongs to a section.
  \<^item> A tree is a \<open>cval\<close>; of koanf the code uses the root and the subtree at a path, which are the record \<open>koanf\<close>.
  \<^item> The leaves of a schema (\<^verbatim>\<open>schemaForType\<close>, by reflection) are an argument.
  \<^item> Paths are ASCII, as identifiers and field tags are.
\<close>

section \<open>Sections\<close>

datatype SectionKind = SectionTyped | SectionInstanced | SectionFreeform | SectionNamespace

text \<open>Types of leaves, as far as the environment layer tells them apart. A type with a text unmarshaller says whether its kind is a string.\<close>

datatype conf_type =
    TyString | TyBool | TyInt | TyUint | TyFloat | TyDuration
  | TyText bool | TyPointer conf_type | TySlice conf_type | TyStruct string | TyOther string

record Section =
  sec_Path :: string
  sec_Owner :: string
  sec_Kind :: SectionKind
  sec_Schema :: "rtype option"
  sec_Toggle :: bool

record envLeaf =
  el_suffix :: string
  el_path :: string
  el_typ :: conf_type
  el_expressible :: bool

record resolvedSection =
  rs_Section :: Section
  rs_leaves :: "envLeaf list"

record Universe =
  un_sections :: "resolvedSection list"
  un_roots :: "string list"
  un_byPath :: "(string, Section) gomap"
  un_prefixes :: "string list"

record koanf =
  kf_Raw :: "(string, cval) gomap"
  kf_Cut :: "string \<Rightarrow> (string, cval) gomap"

definition enabledKey :: string where "enabledKey = ''enabled''"

definition reservedEnvSuffixes :: "string list" where "reservedEnvSuffixes = [''PROFILE'']"

datatype universe_error =
    BadSectionPath string
  | ClaimedTwice string string string
  | NestsInside string string string
  | NoDeclaredOwner string string
  | SchemaNotTyped string
  | SchemaFailed string string

section \<open>Spelling\<close>

definition ascii_upper :: "char \<Rightarrow> char" where
  "ascii_upper c = (if CHR ''a'' \<le> c \<and> c \<le> CHR ''z'' then char_of (of_char c - 32 :: nat) else c)"

definition env_char :: "char \<Rightarrow> char" where
  "env_char c = (if c = CHR ''.'' \<or> c = CHR ''-'' then CHR ''_'' else ascii_upper c)"

definition envSegment :: "string \<Rightarrow> string" where
  "envSegment path = map env_char path"

text \<open>\<^verbatim>\<open>strings.Cut\<close> at the first dot.\<close>

definition Cut :: "string \<Rightarrow> string \<times> string \<times> bool" where
  "Cut path = (let head = takeWhile (\<lambda>c. c \<noteq> CHR ''.'') path; rest = dropWhile (\<lambda>c. c \<noteq> CHR ''.'') path
     in (head, tl rest, rest \<noteq> []))"

definition TrimSuffix_underscore :: "string \<Rightarrow> string" where
  "TrimSuffix_underscore s = (if s \<noteq> [] \<and> last s = CHR ''_'' then butlast s else s)"

definition envSpelling :: "string \<Rightarrow> string \<Rightarrow> string" where
  "envSpelling processPrefix path =
     (case Cut path of (head, rest, nested) \<Rightarrow>
        if envSegment head \<noteq> TrimSuffix_underscore processPrefix then envSegment path
        else if \<not> nested then [] else envSegment rest)"

definition envName :: "string \<Rightarrow> string \<Rightarrow> string" where
  "envName processPrefix path = processPrefix @ envSpelling processPrefix path"

definition envSectionPrefix :: "string \<Rightarrow> string \<Rightarrow> string" where
  "envSectionPrefix processPrefix sectionPath =
     (let spelling = envSpelling processPrefix sectionPath in
      if spelling = [] then processPrefix else processPrefix @ spelling @ ''_'')"

fun envExpressible :: "conf_type \<Rightarrow> bool" where
  "envExpressible (TyPointer t) = envExpressible t"
| "envExpressible (TySlice t) = (t = TyString \<or> t = TyText True)"
| "envExpressible (TyStruct _) = False"
| "envExpressible (TyOther _) = False"
| "envExpressible _ = True"

section \<open>Freezing the sections\<close>

fun has_dots :: "string \<Rightarrow> bool" where
  "has_dots (a # b # s) = (a = CHR ''.'' \<and> b = CHR ''.'' \<or> has_dots (b # s))"
| "has_dots _ = False"

definition validateSectionPath :: "string \<Rightarrow> universe_error option" where
  "validateSectionPath path =
     (if path = [] \<or> hd path = CHR ''.'' \<or> last path = CHR ''.'' \<or> has_dots path then Some (BadSectionPath path) else None)"

text \<open>The part of a path before its last dot, if it has one (\<^verbatim>\<open>strings.LastIndexByte\<close>).\<close>

definition before_last_dot :: "string \<Rightarrow> string option" where
  "before_last_dot path =
     (if CHR ''.'' \<in> set path then Some (rev (tl (dropWhile (\<lambda>c. c \<noteq> CHR ''.'') (rev path)))) else None)"

lemma before_last_dot_length: "before_last_dot path = Some p \<Longrightarrow> length p < length path"
proof -
  assume a: "before_last_dot path = Some p"
  have "length (dropWhile (\<lambda>c. c \<noteq> CHR ''.'') (rev path)) \<le> length path" by (metis length_dropWhile_le length_rev)
  moreover have "0 < length path" "length p = length (dropWhile (\<lambda>c. c \<noteq> CHR ''.'') (rev path)) - 1"
    using a by (auto simp: before_last_dot_def split: if_splits)
  ultimately show ?thesis by linarith
qed

function parent_check :: "Section \<Rightarrow> (string, Section) gomap \<Rightarrow> string \<Rightarrow> universe_error option" where
  "parent_check s byPath parent =
     (case gm_get byPath parent of
        Some owner \<Rightarrow> if sec_Kind owner \<noteq> SectionNamespace then Some (NestsInside (sec_Path s) parent (sec_Owner owner)) else None
      | None \<Rightarrow>
          (case before_last_dot parent of
             None \<Rightarrow> Some (NoDeclaredOwner (sec_Path s) parent)
           | Some parent \<Rightarrow> parent_check s byPath parent))"
  by pat_completeness auto

termination by (relation "measure (\<lambda>(_, _, parent). length parent)") (auto dest: before_last_dot_length)

declare parent_check.simps [simp del]

definition checkSectionParent :: "Section \<Rightarrow> (string, Section) gomap \<Rightarrow> universe_error option" where
  "checkSectionParent s byPath = (case before_last_dot (sec_Path s) of None \<Rightarrow> None | Some parent \<Rightarrow> parent_check s byPath parent)"

type_synonym schemas = "rtype \<Rightarrow> (string, (string \<times> conf_type) list) result"

definition resolveSection :: "schemas \<Rightarrow> Section \<Rightarrow> (universe_error, resolvedSection) result" where
  "resolveSection schemaForType s =
     (case sec_Schema s of
        None \<Rightarrow> Inr \<lparr>rs_Section = s, rs_leaves = []\<rparr>
      | Some t \<Rightarrow>
          if sec_Kind s \<noteq> SectionTyped \<and> sec_Kind s \<noteq> SectionInstanced then Inl (SchemaNotTyped (sec_Path s))
          else
            (case schemaForType t of
               Inl e \<Rightarrow> Inl (SchemaFailed (sec_Path s) e)
             | Inr leaves \<Rightarrow>
                 Inr \<lparr>rs_Section = s, rs_leaves =
                   map (\<lambda>(path, typ). \<lparr>el_suffix = envSegment path, el_path = path, el_typ = typ, el_expressible = envExpressible typ\<rparr>) leaves\<rparr>))"

function ancestors :: "string \<Rightarrow> string list" where
  "ancestors path = (case before_last_dot path of None \<Rightarrow> [] | Some parent \<Rightarrow> parent # ancestors parent)"
  by pat_completeness auto

termination by (relation "measure length") (auto dest: before_last_dot_length)

declare ancestors.simps [simp del]

definition claim :: "Section \<Rightarrow> (string, Section) gomap \<Rightarrow> (universe_error, (string, Section) gomap) result" where
  "claim s byPath =
     (case validateSectionPath (sec_Path s) of
        Some e \<Rightarrow> Inl e
      | None \<Rightarrow>
          (case gm_get byPath (sec_Path s) of
             Some previous \<Rightarrow> Inl (ClaimedTwice (sec_Path s) (sec_Owner previous) (sec_Owner s))
           | None \<Rightarrow> Inr (gm_put (sec_Path s) s byPath)))"

definition place_section :: "schemas \<Rightarrow> (string, Section) gomap \<Rightarrow> Section \<Rightarrow> (universe_error, resolvedSection) result" where
  "place_section schemaForType byPath s =
     (case checkSectionParent s byPath of
        Some e \<Rightarrow> Inl e
      | None \<Rightarrow> resolveSection schemaForType s)"

definition NewUniverse :: "schemas \<Rightarrow> Section list \<Rightarrow> (universe_error, Universe) result" where
  "NewUniverse schemaForType sections =
     (case fold_res claim sections [] of
        Inl e \<Rightarrow> Inl e
      | Inr byPath \<Rightarrow>
          (case map_res (place_section schemaForType byPath) sections of
             Inl e \<Rightarrow> Inl e
           | Inr resolved \<Rightarrow>
               Inr \<lparr>un_sections = sort_key (\<lambda>r. sec_Path (rs_Section r)) resolved,
                    un_roots = sort (remdups (map sec_Path (filter (\<lambda>s. CHR ''.'' \<notin> set (sec_Path s)) sections))),
                    un_byPath = byPath, un_prefixes = concat (map (\<lambda>s. ancestors (sec_Path s)) sections)\<rparr>))"

definition Roots :: "Universe option \<Rightarrow> string list" where
  "Roots u = (case u of None \<Rightarrow> [] | Some u \<Rightarrow> un_roots u)"

section \<open>Ownership of the keys of a tree\<close>

definition child_path :: "string \<Rightarrow> string \<Rightarrow> string" where
  "child_path parent key = (if parent = [] then key else parent @ ''.'' @ key)"

function collectUnowned :: "Universe \<Rightarrow> string \<Rightarrow> (string, cval) gomap \<Rightarrow> string list" where
  "collectUnowned u parent [] = []"
| "collectUnowned u parent ((key, v) # node) =
     (let path = child_path parent key in
      (case gm_get (un_byPath u) path of
         Some s \<Rightarrow>
           if sec_Kind s \<noteq> SectionNamespace then []
           else (case v of CNil \<Rightarrow> [] | CMap child \<Rightarrow> collectUnowned u path child | _ \<Rightarrow> [path])
       | None \<Rightarrow>
           if path \<notin> set (un_prefixes u) then [path]
           else (case v of CNil \<Rightarrow> [] | CMap child \<Rightarrow> collectUnowned u path child | _ \<Rightarrow> [path])))
     @ collectUnowned u parent node"
  by pat_completeness auto

termination by (relation "measure (\<lambda>(_, _, node). size_list (size_prod (\<lambda>_. 0) size) node)") auto

definition parentPath :: "string \<Rightarrow> string" where
  "parentPath path = (case before_last_dot path of None \<Rightarrow> [] | Some parent \<Rightarrow> parent)"

definition describeDeclared :: "Universe \<Rightarrow> string \<Rightarrow> string list" where
  "describeDeclared u parent = filter (\<lambda>p. parentPath p = parent) (map (\<lambda>r. sec_Path (rs_Section r)) (un_sections u))"

text \<open>The error lists the unowned paths under each parent, with the sections declared beside them.\<close>

type_synonym unowned_error = "(string \<times> string list \<times> string list) list"

definition checkOwnership :: "Universe option \<Rightarrow> koanf option \<Rightarrow> unowned_error option" where
  "checkOwnership u k =
     (case (u, k) of
        (Some u, Some k) \<Rightarrow>
          let unowned = collectUnowned u [] (kf_Raw k) in
          if unowned = [] then None
          else let unowned = sort unowned
               in Some (map (\<lambda>parent. (parent, filter (\<lambda>p. parentPath p = parent) unowned, describeDeclared u parent))
                    (sort (remdups (map parentPath unowned))))
      | _ \<Rightarrow> None)"

section \<open>Paths\<close>

lemma before_last_dot_Some:
  assumes "before_last_dot path = Some p"
  shows "\<exists>key. path = p @ ''.'' @ key \<and> CHR ''.'' \<notin> set key"
proof -
  let ?P = "\<lambda>c. c \<noteq> CHR ''.''"
  have mem: "CHR ''.'' \<in> set path" and p: "p = rev (tl (dropWhile ?P (rev path)))"
    using assms by (auto simp: before_last_dot_def split: if_splits)
  have "dropWhile ?P (rev path) \<noteq> []" using mem by (auto simp: dropWhile_eq_Nil_conv)
  then obtain rest where d: "dropWhile ?P (rev path) = CHR ''.'' # rest"
    using hd_dropWhile [of ?P "rev path"] by (cases "dropWhile ?P (rev path)") auto
  have "rev path = takeWhile ?P (rev path) @ CHR ''.'' # rest" using d takeWhile_dropWhile_id [of ?P "rev path"] by simp
  then have "path = rev rest @ CHR ''.'' # rev (takeWhile ?P (rev path))" by (metis append.assoc append_Cons append_Nil rev.simps(2) rev_append rev_rev_ident)
  moreover have "CHR ''.'' \<notin> set (rev (takeWhile ?P (rev path)))" using set_takeWhileD by fastforce
  ultimately show ?thesis using p d by auto
qed

lemma before_last_dot_dot:
  assumes "path = p @ ''.'' @ key" "CHR ''.'' \<notin> set key"
  shows "before_last_dot path = Some p"
proof -
  have "dropWhile (\<lambda>c. c \<noteq> CHR ''.'') (rev path) = CHR ''.'' # rev p"
  proof -
    have "dropWhile (\<lambda>c. c \<noteq> CHR ''.'') (rev key @ CHR ''.'' # rev p) = CHR ''.'' # rev p"
      using assms(2) by (subst dropWhile_append2) auto
    with assms(1) show ?thesis by simp
  qed
  with assms(1) show ?thesis by (simp add: before_last_dot_def)
qed

text \<open>The dotted ancestors of a path.\<close>

definition under :: "string \<Rightarrow> string \<Rightarrow> bool" where
  "under ancestor path \<longleftrightarrow> (\<exists>rest. path = ancestor @ ''.'' @ rest)"

lemma under_step:
  assumes "before_last_dot path = Some p"
  shows "under q path \<longleftrightarrow> q = p \<or> under q p"
proof -
  obtain key where key: "path = p @ ''.'' @ key" "CHR ''.'' \<notin> set key" using before_last_dot_Some [OF assms] by blast
  show ?thesis
  proof
    assume "under q path"
    then obtain rest where eq: "q @ ''.'' @ rest = p @ ''.'' @ key" using key(1) by (auto simp: under_def)
    consider us where "q = p @ us" "us @ ''.'' @ rest = ''.'' @ key" | us where "q @ us = p" "''.'' @ rest = us @ ''.'' @ key"
      using append_eq_append_conv2 [THEN iffD1, OF eq] by blast
    then show "q = p \<or> under q p"
    proof cases
      case 1
      show ?thesis
      proof (cases us)
        case Nil
        with 1 show ?thesis by simp
      next
        case (Cons c us')
        with 1 have "key = us' @ ''.'' @ rest" by simp
        with key(2) show ?thesis by simp
      qed
    next
      case 2
      then show ?thesis by (cases us) (auto simp: under_def)
    qed
  next
    assume "q = p \<or> under q p"
    then show "under q path" using key(1) by (auto simp: under_def)
  qed
qed

lemma under_none: "before_last_dot path = None \<Longrightarrow> \<not> under q path"
  by (auto simp: under_def before_last_dot_def split: if_splits)

lemma ancestors_under: "q \<in> set (ancestors path) \<longleftrightarrow> under q path"
proof (induction path rule: ancestors.induct)
  case (1 path)
  show ?case
  proof (cases "before_last_dot path")
    case None
    then show ?thesis using under_none by (subst ancestors.simps) simp
  next
    case (Some p)
    with 1 under_step [OF Some] show ?thesis by (subst ancestors.simps) simp
  qed
qed

lemma under_length: "under q path \<Longrightarrow> length q < length path"
  by (auto simp: under_def)

section \<open>A frozen universe\<close>

lemma claim_get:
  assumes "fold_res claim sections m = Inr m'"
  shows "gm_get m' path = Some s \<longleftrightarrow> gm_get m path = Some s \<or> s \<in> set sections \<and> sec_Path s = path"
  using assms
proof (induction sections arbitrary: m)
  case (Cons t ts)
  then obtain m1 where m1: "claim t m = Inr m1" "fold_res claim ts m1 = Inr m'" by (auto split: sum.splits)
  then have "m1 = gm_put (sec_Path t) t m" "gm_get m (sec_Path t) = None" by (auto simp: claim_def split: option.splits)
  with Cons.IH [OF m1(2)] show ?case by (cases "sec_Path t = path") auto
qed simp

lemma claim_valid:
  assumes "fold_res claim sections m = Inr m'" "s \<in> set sections"
  shows "validateSectionPath (sec_Path s) = None"
  using assms
proof (induction sections arbitrary: m)
  case (Cons t ts)
  then show ?case by (auto simp: claim_def split: sum.splits option.splits)
qed simp

text \<open>What the sections of a universe are, section by section.\<close>

definition resolved_from :: "schemas \<Rightarrow> Section list \<Rightarrow> resolvedSection \<Rightarrow> bool" where
  "resolved_from sch sections r \<longleftrightarrow> rs_Section r \<in> set sections \<and> resolveSection sch (rs_Section r) = Inr r"

lemma NewUniverse_parts:
  assumes "NewUniverse sch sections = Inr u"
  shows "gm_get (un_byPath u) path = Some s \<longleftrightarrow> s \<in> set sections \<and> sec_Path s = path"
    and "path \<in> set (un_prefixes u) \<longleftrightarrow> (\<exists>s \<in> set sections. under path (sec_Path s))"
    and "r \<in> set (un_sections u) \<Longrightarrow> resolved_from sch sections r"
    and "s \<in> set sections \<Longrightarrow> \<exists>r \<in> set (un_sections u). rs_Section r = s"
    and "s \<in> set sections \<Longrightarrow> validateSectionPath (sec_Path s) = None"
    and "s \<in> set sections \<Longrightarrow> checkSectionParent s (un_byPath u) = None"
proof -
  obtain m resolved where m: "fold_res claim sections [] = Inr m" and r: "map_res (place_section sch m) sections = Inr resolved"
    and u: "u = \<lparr>un_sections = sort_key (\<lambda>r. sec_Path (rs_Section r)) resolved,
      un_roots = sort (remdups (map sec_Path (filter (\<lambda>s. CHR ''.'' \<notin> set (sec_Path s)) sections))),
      un_byPath = m, un_prefixes = concat (map (\<lambda>s. ancestors (sec_Path s)) sections)\<rparr>"
    using assms by (auto simp: NewUniverse_def split: sum.splits)
  show "gm_get (un_byPath u) path = Some s \<longleftrightarrow> s \<in> set sections \<and> sec_Path s = path"
    using claim_get [OF m, of path s] by (simp add: u)
  show "path \<in> set (un_prefixes u) \<longleftrightarrow> (\<exists>s \<in> set sections. under path (sec_Path s))"
    by (simp add: u ancestors_under)
  have all: "list_all2 (\<lambda>s r. place_section sch m s = Inr r) sections resolved" using r by (simp add: map_res_Inr_iff)
  have sec: "rs_Section r = s \<and> resolveSection sch s = Inr r \<and> checkSectionParent s m = None" if "place_section sch m s = Inr r" for s r
    using that by (auto simp: place_section_def resolveSection_def split: option.splits if_splits sum.splits)
  show "resolved_from sch sections r" if "r \<in> set (un_sections u)"
    using that all sec by (fastforce simp: u resolved_from_def list_all2_conv_all_nth in_set_conv_nth)
  show "\<exists>r \<in> set (un_sections u). rs_Section r = s" if "s \<in> set sections"
    using that all sec by (fastforce simp: u list_all2_conv_all_nth in_set_conv_nth)
  show "validateSectionPath (sec_Path s) = None" if "s \<in> set sections" using claim_valid [OF m that] .
  show "checkSectionParent s (un_byPath u) = None" if "s \<in> set sections"
    using that all sec by (fastforce simp: u list_all2_conv_all_nth in_set_conv_nth)
qed

lemma parent_check_None:
  assumes "parent_check s byPath parent = None"
  shows "\<exists>q owner. (q = parent \<or> under q parent) \<and> gm_get byPath q = Some owner \<and> sec_Kind owner = SectionNamespace \<and>
    (\<forall>p. (p = parent \<or> under p parent) \<and> gm_get byPath p \<noteq> None \<longrightarrow> p = q \<or> under p q)"
  using assms
proof (induction s byPath parent rule: parent_check.induct)
  case (1 s byPath parent)
  show ?case
  proof (cases "gm_get byPath parent")
    case (Some owner)
    with "1.prems" have "sec_Kind owner = SectionNamespace" by (subst (asm) parent_check.simps) (auto split: if_splits)
    with Some show ?thesis by (intro exI [of _ parent] exI [of _ owner]) auto
  next
    case None
    with "1.prems" obtain p where p: "before_last_dot parent = Some p" "parent_check s byPath p = None"
      by (subst (asm) parent_check.simps) (auto split: option.splits)
    from "1.IH" [OF None p] obtain q owner where q: "q = p \<or> under q p" "gm_get byPath q = Some owner" "sec_Kind owner = SectionNamespace"
      "\<forall>x. (x = p \<or> under x p) \<and> gm_get byPath x \<noteq> None \<longrightarrow> x = q \<or> under x q" by blast
    have "x = q \<or> under x q" if "x = parent \<or> under x parent" "gm_get byPath x \<noteq> None" for x
      using that None under_step [OF p(1), of x] q(4) by auto
    moreover have "under q parent" using q(1) under_step [OF p(1), of q] by blast
    ultimately show ?thesis using q(2,3) by blast
  qed
qed

text \<open>No section lies inside one that is not a namespace.\<close>

lemma sections_disjoint:
  assumes "NewUniverse sch sections = Inr u" "s \<in> set sections" "t \<in> set sections" "sec_Kind s \<noteq> SectionNamespace"
  shows "\<not> under (sec_Path s) (sec_Path t)"
  using assms(3)
proof (induction "length (sec_Path t)" arbitrary: t rule: less_induct)
  case less
  show ?case
  proof
    assume un: "under (sec_Path s) (sec_Path t)"
    then obtain parent where parent: "before_last_dot (sec_Path t) = Some parent"
      using under_none by (cases "before_last_dot (sec_Path t)") auto
    have "parent_check t (un_byPath u) parent = None"
      using NewUniverse_parts(6) [OF assms(1) less.prems] parent by (simp add: checkSectionParent_def)
    from parent_check_None [OF this] obtain q owner where q: "q = parent \<or> under q parent" "gm_get (un_byPath u) q = Some owner"
      "sec_Kind owner = SectionNamespace" "\<forall>p. (p = parent \<or> under p parent) \<and> gm_get (un_byPath u) p \<noteq> None \<longrightarrow> p = q \<or> under p q" by blast
    have get: "gm_get (un_byPath u) (sec_Path s) = Some s" using NewUniverse_parts(1) [OF assms(1)] assms(2) by blast
    have "sec_Path s = q \<or> under (sec_Path s) q" using q(4) get un under_step [OF parent] by auto
    moreover have "sec_Path s \<noteq> q" using get q(2,3) assms(4) by auto
    moreover have owner: "owner \<in> set sections" "sec_Path owner = q" using NewUniverse_parts(1) [OF assms(1)] q(2) by blast+
    moreover have "length q < length (sec_Path t)" using q(1) under_step [OF parent, of q] under_length by blast
    ultimately show False using less.hyps [of owner] by auto
  qed
qed

section \<open>Ownership\<close>

text \<open>
  The paths the walk looks at: it goes below a path that is a namespace or leads to a section. A key is owned when it
  is a section of its own, or such a path with nothing or a mapping at it.
\<close>

definition interior :: "Section list \<Rightarrow> string \<Rightarrow> bool" where
  "interior sections path \<longleftrightarrow> (\<exists>s \<in> set sections. sec_Path s = path \<and> sec_Kind s = SectionNamespace) \<or>
     (\<forall>s \<in> set sections. sec_Path s \<noteq> path) \<and> (\<exists>s \<in> set sections. under path (sec_Path s))"

definition owned_key :: "Section list \<Rightarrow> string \<Rightarrow> cval \<Rightarrow> bool" where
  "owned_key sections path v \<longleftrightarrow> (\<exists>s \<in> set sections. sec_Path s = path \<and> sec_Kind s \<noteq> SectionNamespace) \<or>
     interior sections path \<and> (case v of CNil \<Rightarrow> True | CMap _ \<Rightarrow> True | _ \<Rightarrow> False)"

inductive walked :: "Section list \<Rightarrow> string \<Rightarrow> (string, cval) gomap \<Rightarrow> string \<Rightarrow> cval \<Rightarrow> bool" for sections where
  here: "(key, v) \<in> set node \<Longrightarrow> walked sections parent node (child_path parent key) v"
| below: "(key, CMap child) \<in> set node \<Longrightarrow> interior sections (child_path parent key) \<Longrightarrow>
    walked sections (child_path parent key) child path v \<Longrightarrow> walked sections parent node path v"

inductive_cases walkedE: "walked sections parent node path v"

lemma walked_Nil: "\<not> walked sections parent [] path v"
  by (auto elim: walkedE)

lemma walked_Cons:
  "walked sections parent ((key, v) # node) path w \<longleftrightarrow> path = child_path parent key \<and> w = v \<or>
     (\<exists>child. v = CMap child \<and> interior sections (child_path parent key) \<and> walked sections (child_path parent key) child path w) \<or>
     walked sections parent node path w"
  (is "?l \<longleftrightarrow> ?r")
proof
  assume ?l
  then show ?r
  proof (cases rule: walked.cases)
    case (here k)
    then show ?thesis using walked.here [of k w node sections parent] by auto
  next
    case (below k child)
    then show ?thesis using walked.below [of k child node sections parent path w] by auto
  qed
next
  assume ?r
  then consider "path = child_path parent key" "w = v"
    | child where "v = CMap child" "interior sections (child_path parent key)" "walked sections (child_path parent key) child path w"
    | "walked sections parent node path w" by blast
  then show ?l
  proof cases
    case 1
    then show ?thesis using walked.here [of key v "(key, v) # node" sections parent] by simp
  next
    case (2 child)
    then show ?thesis using walked.below [of key child "(key, v) # node" sections parent path w] by simp
  next
    case 3
    then show ?thesis
    proof (cases rule: walked.cases)
      case (here k)
      then show ?thesis using walked.here [of k w "(key, v) # node" sections parent] by simp
    next
      case (below k child)
      then show ?thesis using walked.below [of k child "(key, v) # node" sections parent path w] by simp
    qed
  qed
qed

lemma interior_iff:
  assumes u: "NewUniverse sch sections = Inr u"
  shows "interior sections path \<longleftrightarrow> (\<exists>s. gm_get (un_byPath u) path = Some s \<and> sec_Kind s = SectionNamespace) \<or>
    gm_get (un_byPath u) path = None \<and> path \<in> set (un_prefixes u)"
proof -
  have "gm_get (un_byPath u) path = None \<longleftrightarrow> (\<forall>s \<in> set sections. sec_Path s \<noteq> path)"
    using NewUniverse_parts(1) [OF u, of path] by (cases "gm_get (un_byPath u) path") auto
  then show ?thesis unfolding interior_def NewUniverse_parts(1) [OF u] NewUniverse_parts(2) [OF u] by blast
qed

lemma section_iff:
  assumes u: "NewUniverse sch sections = Inr u"
  shows "(\<exists>s \<in> set sections. sec_Path s = path \<and> sec_Kind s \<noteq> SectionNamespace) \<longleftrightarrow>
    (\<exists>s. gm_get (un_byPath u) path = Some s \<and> sec_Kind s \<noteq> SectionNamespace)"
  unfolding NewUniverse_parts(1) [OF u] by blast

definition unowned_at :: "Universe \<Rightarrow> string \<Rightarrow> cval \<Rightarrow> string list" where
  "unowned_at u path v =
     (case gm_get (un_byPath u) path of
         Some s \<Rightarrow>
           if sec_Kind s \<noteq> SectionNamespace then []
           else (case v of CNil \<Rightarrow> [] | CMap child \<Rightarrow> collectUnowned u path child | _ \<Rightarrow> [path])
       | None \<Rightarrow>
           if path \<notin> set (un_prefixes u) then [path]
           else (case v of CNil \<Rightarrow> [] | CMap child \<Rightarrow> collectUnowned u path child | _ \<Rightarrow> [path]))"

lemma unowned_at_eq:
  assumes u: "NewUniverse sch sections = Inr u"
  shows "unowned_at u path v =
    (if \<exists>s \<in> set sections. sec_Path s = path \<and> sec_Kind s \<noteq> SectionNamespace then []
     else if \<not> interior sections path then [path]
     else (case v of CNil \<Rightarrow> [] | CMap child \<Rightarrow> collectUnowned u path child | _ \<Rightarrow> [path]))"
  unfolding section_iff [OF u] interior_iff [OF u]
  by (cases "gm_get (un_byPath u) path") (auto simp: unowned_at_def)

lemma collectUnowned_set:
  assumes "NewUniverse sch sections = Inr u"
  shows "set (collectUnowned u parent node) = {path. \<exists>v. walked sections parent node path v \<and> \<not> owned_key sections path v}"
  using assms
proof (induction u parent node rule: collectUnowned.induct)
  case (1 u parent)
  then show ?case by (simp add: walked_Nil)
next
  case (2 u parent key v node)
  let ?p = "child_path parent key"
  let ?sec = "\<exists>s \<in> set sections. sec_Path s = ?p \<and> sec_Kind s \<noteq> SectionNamespace"
  have inn: "interior sections ?p \<Longrightarrow> \<not> ?sec" unfolding section_iff [OF "2.prems"] interior_iff [OF "2.prems"] by auto
  have sub: "set (collectUnowned u ?p child) = {path. \<exists>w. walked sections ?p child path w \<and> \<not> owned_key sections path w}"
    if "interior sections ?p" "v = CMap child" for child
    using that(1) "2.IH"(1) [OF refl _ _ that(2) "2.prems"] "2.IH"(2) [OF refl _ _ that(2) "2.prems"]
    unfolding interior_iff [OF "2.prems"] by auto
  have "set (unowned_at u ?p v) = {path. \<exists>w. (path = ?p \<and> w = v \<or>
     (\<exists>child. v = CMap child \<and> interior sections ?p \<and> walked sections ?p child path w)) \<and> \<not> owned_key sections path w}"
  proof (cases "interior sections ?p")
    case True
    with inn sub show ?thesis unfolding unowned_at_eq [OF "2.prems"]
      by (cases v) (auto simp: owned_key_def)
  next
    case False
    then show ?thesis unfolding unowned_at_eq [OF "2.prems"] by (auto simp: owned_key_def)
  qed
  moreover have "set (collectUnowned u parent ((key, v) # node)) = set (unowned_at u ?p v) \<union> set (collectUnowned u parent node)"
    by (simp add: unowned_at_def Let_def)
  ultimately show ?case using "2.IH"(3) [OF "2.prems"] unfolding walked_Cons by auto
qed

text \<open>
  C9. A merged tree is accepted exactly when every key that the walk comes to is owned: it is a declared section, or a namespace
  or a path to a section that has nothing or a mapping at it. What an error lists are exactly the keys
  that are not owned, each under its parent.
\<close>

theorem checkOwnership_exact:
  assumes "NewUniverse sch sections = Inr u"
  shows "case checkOwnership (Some u) (Some k) of
      None \<Rightarrow> \<forall>path v. walked sections [] (kf_Raw k) path v \<longrightarrow> owned_key sections path v
    | Some groups \<Rightarrow> groups \<noteq> [] \<and> (\<forall>(parent, paths, _) \<in> set groups. paths \<noteq> [] \<and> (\<forall>path \<in> set paths. parentPath path = parent)) \<and>
        (\<Union>(_, paths, _) \<in> set groups. set paths) = {path. \<exists>v. walked sections [] (kf_Raw k) path v \<and> \<not> owned_key sections path v}"
proof (cases "collectUnowned u [] (kf_Raw k) = []")
  case True
  with collectUnowned_set [OF assms, of "[]" "kf_Raw k"] show ?thesis by (auto simp: checkOwnership_def)
next
  case False
  let ?xs = "collectUnowned u [] (kf_Raw k)"
  have "(\<Union>parent \<in> parentPath ` set ?xs. {p \<in> set ?xs. parentPath p = parent}) = set ?xs" by auto
  moreover have "sort (remdups (map parentPath (sort ?xs))) \<noteq> []"
    using False by (metis list.map_disc_iff remdups_eq_nil_iff set_empty set_sort)
  ultimately show ?thesis using False collectUnowned_set [OF assms, of "[]" "kf_Raw k"]
    by (auto simp: checkOwnership_def Let_def filter_empty_conv)
qed

section \<open>A composition with plugins\<close>

definition sample_schemas :: schemas where
  "sample_schemas t = (if t = RDefined ''settings'' [] [] then Inr [(''shutdown_timeout'', TyDuration), (''runtime.max_procs'', TyText True)]
     else if t = RDefined ''redis'' [] [] then Inr [(''addr'', TyString), (''options'', TyOther ''map'')] else Inl ''unknown'')"

definition sample_sections :: "Section list" where
  "sample_sections =
     [\<lparr>sec_Path = ''xbc'', sec_Owner = ''runtime'', sec_Kind = SectionTyped, sec_Schema = Some (RDefined ''settings'' [] []), sec_Toggle = False\<rparr>,
      \<lparr>sec_Path = ''plugins'', sec_Owner = ''runtime'', sec_Kind = SectionNamespace, sec_Schema = None, sec_Toggle = False\<rparr>,
      \<lparr>sec_Path = ''plugins.redis'', sec_Owner = ''redis'', sec_Kind = SectionInstanced, sec_Schema = Some (RDefined ''redis'' [] []), sec_Toggle = True\<rparr>,
      \<lparr>sec_Path = ''plugins.redis-lease'', sec_Owner = ''lease'', sec_Kind = SectionTyped, sec_Schema = None, sec_Toggle = True\<rparr>]"

definition sample_universe :: "Universe option" where
  "sample_universe = (case NewUniverse sample_schemas sample_sections of Inr u \<Rightarrow> Some u | Inl _ \<Rightarrow> None)"

lemma sample_universe_built: "\<exists>u. NewUniverse sample_schemas sample_sections = Inr u \<and> sample_universe = Some u"
proof -
  have "sample_universe \<noteq> None" by code_simp
  then show ?thesis by (auto simp: sample_universe_def split: sum.splits)
qed

definition sample_tree :: koanf where
  "sample_tree = \<lparr>kf_Raw = [(''xbc'', CMap [(''shutdown_timeout'', CString ''5s'')]), (''plugins'', CMap [(''redis'', CMap [])])], kf_Cut = (\<lambda>_. [])\<rparr>"

theorem checkOwnership_exact_witness:
  "\<exists>u. NewUniverse sample_schemas sample_sections = Inr u \<and> checkOwnership (Some u) (Some sample_tree) = None \<and>
     owned_key sample_sections ''xbc'' (CMap [(''shutdown_timeout'', CString ''5s'')])"
proof -
  obtain u where u: "NewUniverse sample_schemas sample_sections = Inr u" "sample_universe = Some u" using sample_universe_built by blast
  have ok: "checkOwnership sample_universe (Some sample_tree) = None" by code_simp
  have run: "checkOwnership (Some u) (Some sample_tree) = None" using ok unfolding u(2) .
  have "walked sample_sections [] (kf_Raw sample_tree) (child_path [] ''xbc'') (CMap [(''shutdown_timeout'', CString ''5s'')])"
    by (rule walked.here) (simp add: sample_tree_def)
  moreover have "\<forall>path v. walked sample_sections [] (kf_Raw sample_tree) path v \<longrightarrow> owned_key sample_sections path v"
    using checkOwnership_exact [OF u(1), of sample_tree] unfolding run option.case .
  ultimately have "owned_key sample_sections ''xbc'' (CMap [(''shutdown_timeout'', CString ''5s'')])" by (simp add: child_path_def)
  with u(1) run show ?thesis by blast
qed

end
