(* ===== verification/Sections.thy ===== *)
theory Sections
  imports Universe
begin

text \<open>
  The configuration sections of a composition, \<^verbatim>\<open>plugin/assembly/sections.go\<close>: which workloads
  are declared, which section each Definition and workload owns, and what the workload sections
  say. The binder of the config package is the argument \<open>cfg_bind\<close>, as in the expansion.
\<close>

section \<open>Data\<close>

record WorkloadConfig =
  wc_MaxGoroutines :: int

record WorkloadSection =
  wsec_Workload :: Workload
  wsec_Enabled :: bool
  wsec_Config :: WorkloadConfig

datatype sections_error =
    FreezeFailed freeze_error
  | WorkloadsFailed workload_error
  | SectionFailed expand_error
  | WorkloadBindFailed WorkloadKey string string
  | NegativeGoroutines string int

definition WorkloadConfigPath :: "WorkloadKey \<Rightarrow> string" where
  "WorkloadConfigPath key = workloadsRoot @ ''.'' @ key"

section \<open>Declared workloads\<close>

definition zero_workload :: Workload where
  "zero_workload = \<lparr>wl_Key = [], wl_Exclusive = False, wl_Replicas = 0\<rparr>"

definition dedupe_step ::
  "Workload \<Rightarrow> (WorkloadKey, Workload) gomap \<times> WorkloadKey list \<Rightarrow> (WorkloadKey, Workload) gomap \<times> WorkloadKey list" where
  "dedupe_step w st =
     (case st of (byKey, keys) \<Rightarrow>
        if gm_get byKey (wl_Key w) \<noteq> None then (byKey, keys)
        else (gm_put (wl_Key w) w byKey, keys @ [wl_Key w]))"

definition dedupeWorkloads :: "Workload list \<Rightarrow> Workload list" where
  "dedupeWorkloads workloads =
     (if workloads = [] then []
      else case fold dedupe_step workloads ([], []) of (byKey, keys) \<Rightarrow>
        map (\<lambda>k. case gm_get byKey k of Some w \<Rightarrow> w | None \<Rightarrow> zero_workload) (sort keys))"

definition index_definition :: "def_heap \<Rightarrow> BundleEntry \<Rightarrow> (Definition, WorkloadKey) gomap \<Rightarrow> (Definition, WorkloadKey) gomap" where
  "index_definition h e m =
     (case DescribeDefinition h (be_Definition e) of (d, ok) \<Rightarrow>
        if \<not> ok then m else gm_put (be_Definition e) (dd_Workload d) m)"

definition declaredWorkloads :: "def_heap \<Rightarrow> Bundle list \<Rightarrow> (workload_error, Workload list) result" where
  "declaredWorkloads h bundles =
     (let byDefinition = fold (\<lambda>b. fold (index_definition h) (BundleEntries b)) bundles [] in
      case ValidateWorkloads bundles byDefinition of
        Some e \<Rightarrow> Inl e
      | None \<Rightarrow> Inr (dedupeWorkloads (concat (map BundleWorkloads bundles))))"

section \<open>Sections\<close>

definition workloadConfigType :: rtype where
  "workloadConfigType = RDefined ''assembly.WorkloadConfig'' [] []"

definition ConfigSections :: "def_heap \<Rightarrow> Bundle list \<Rightarrow> (sections_error, Section list) result" where
  "ConfigSections h bundles =
     (case freezeBundles h bundles of
        Inl e \<Rightarrow> Inl (FreezeFailed e)
      | Inr selections \<Rightarrow>
          (case declaredWorkloads h bundles of
             Inl e \<Rightarrow> Inl (WorkloadsFailed e)
           | Inr workloads \<Rightarrow>
               Inr ([\<lparr>sec_Path = pluginsRoot, sec_Owner = ''the assembly layer'', sec_Kind = SectionNamespace,
                      sec_Schema = None, sec_Toggle = False\<rparr>] @
                 map (\<lambda>s. let d = sd_descriptor s in
                     \<lparr>sec_Path = definitionPath d, sec_Owner = ''plugin '' @ dd_Key d,
                      sec_Kind = (if dd_Cardinality d = MultipleInstances then SectionInstanced else SectionTyped),
                      sec_Schema = (case dd_Config d of None \<Rightarrow> None | Some c \<Rightarrow> cfg_Type c), sec_Toggle = True\<rparr>) selections @
                 map (\<lambda>w. \<lparr>sec_Path = WorkloadConfigPath (wl_Key w), sec_Owner = ''workload '' @ wl_Key w,
                      sec_Kind = SectionTyped, sec_Schema = Some workloadConfigType, sec_Toggle = True\<rparr>) workloads @
                 (if workloads = [] then []
                  else [\<lparr>sec_Path = workloadsRoot, sec_Owner = ''the assembly layer'', sec_Kind = SectionNamespace,
                         sec_Schema = None, sec_Toggle = False\<rparr>]))))"

definition validateWorkloadConfig :: "string \<Rightarrow> WorkloadConfig \<Rightarrow> sections_error option" where
  "validateWorkloadConfig path config =
     (if wc_MaxGoroutines config < 0 then Some (NegativeGoroutines path (wc_MaxGoroutines config)) else None)"

text \<open>The Go struct of the section, as the binder sees it.\<close>

definition boxed_config :: "WorkloadConfig \<Rightarrow> anyval" where
  "boxed_config c = AVal workloadConfigType (CInt (wc_MaxGoroutines c))"

fun unboxed_config :: "anyval \<Rightarrow> WorkloadConfig" where
  "unboxed_config (AVal _ (CInt n)) = \<lparr>wc_MaxGoroutines = n\<rparr>"
| "unboxed_config _ = \<lparr>wc_MaxGoroutines = 0\<rparr>"

definition readWorkloadSection ::
  "config_ops \<Rightarrow> Workload \<Rightarrow> environment option \<Rightarrow> (sections_error, WorkloadSection \<times> environment option) result" where
  "readWorkloadSection ops workload env =
     (let sec = \<lparr>wsec_Workload = workload, wsec_Enabled = True, wsec_Config = \<lparr>wc_MaxGoroutines = 0\<rparr>\<rparr> in
      case env of
        None \<Rightarrow> Inr (sec, None)
      | Some k \<Rightarrow>
          let path = WorkloadConfigPath (wl_Key workload) in
          (case sectionEnabled env path of
             Inl e \<Rightarrow> Inl (SectionFailed e)
           | Inr enabled \<Rightarrow>
               (case cfg_bind ops k path (boxed_config \<lparr>wc_MaxGoroutines = 0\<rparr>) of
                  Inl m \<Rightarrow> Inl (WorkloadBindFailed (wl_Key workload) path m)
                | Inr (v, k') \<Rightarrow>
                    let config = unboxed_config v in
                    (case validateWorkloadConfig path config of
                       Some e \<Rightarrow> Inl e
                     | None \<Rightarrow> Inr (sec\<lparr>wsec_Enabled := enabled, wsec_Config := config\<rparr>, Some k')))))"

definition ReadWorkloadSections ::
  "config_ops \<Rightarrow> def_heap \<Rightarrow> Bundle list \<Rightarrow> environment option
     \<Rightarrow> (sections_error, WorkloadSection list \<times> environment option) result" where
  "ReadWorkloadSections ops h bundles env =
     (case declaredWorkloads h bundles of
        Inl e \<Rightarrow> Inl (WorkloadsFailed e)
      | Inr workloads \<Rightarrow>
          fold_res (\<lambda>w (sections, env).
              case readWorkloadSection ops w env of
                Inl e \<Rightarrow> Inl e
              | Inr (sec, env') \<Rightarrow> Inr (sections @ [sec], env')) workloads ([], env))"

section \<open>The declared workloads are all of them\<close>

lemma dedupe_step_fold:
  assumes "fold dedupe_step ws (m, ks) = (m', ks')" "set ks = dom (gm_get m)" "distinct ks"
  shows "ks' = ks @ map wl_Key (dedupe_on wl_Key ks ws) \<and>
    (\<forall>k. gm_get m' k = (if k \<in> set ks then gm_get m k else find (\<lambda>w. wl_Key w = k) ws))"
  using assms
proof (induction ws arbitrary: m ks)
  case (Cons w ws)
  show ?case
  proof (cases "wl_Key w \<in> set ks")
    case True
    then have "gm_get m (wl_Key w) \<noteq> None" using Cons.prems(2) by blast
    then have "fold dedupe_step ws (m, ks) = (m', ks')"
      using Cons.prems(1) by (simp add: dedupe_step_def [of w "(m, ks)"])
    from Cons.IH [OF this Cons.prems(2,3)] True show ?thesis by (auto split: if_splits)
  next
    case False
    then have none: "gm_get m (wl_Key w) = None" using Cons.prems(2) by blast
    then have run: "fold dedupe_step ws (gm_put (wl_Key w) w m, ks @ [wl_Key w]) = (m', ks')"
      using Cons.prems(1) by (simp add: dedupe_step_def [of w "(m, ks)"])
    have dom: "set (ks @ [wl_Key w]) = dom (gm_get (gm_put (wl_Key w) w m))"
      using Cons.prems(2) by (simp only: dom_gm_put) simp
    have "distinct (ks @ [wl_Key w])" using Cons.prems(3) False by simp
    note IH = Cons.IH [OF run dom this]
    have "dedupe_on wl_Key (ks @ [wl_Key w]) ws = dedupe_on wl_Key (wl_Key w # ks) ws"
      by (rule dedupe_on_seen_cong) auto
    with IH False show ?thesis by auto
  qed
qed auto

text \<open>The map and the sorted keys compute the first declaration of every key, sorted.\<close>

lemma dedupeWorkloads_eq: "dedupeWorkloads ws = sort_key wl_Key (dedupe_on wl_Key [] ws)"
proof (cases "ws = []")
  case False
  obtain m ks where fold: "fold dedupe_step ws ([], []) = (m, ks)" by (cases "fold dedupe_step ws ([], [])")
  from dedupe_step_fold [OF this]
  have ks: "ks = map wl_Key (dedupe_on wl_Key [] ws)" and m: "\<And>k. gm_get m k = find (\<lambda>w. wl_Key w = k) ws"
    by simp_all
  have "sort ks = map wl_Key (sort_key wl_Key (dedupe_on wl_Key [] ws))"
    unfolding ks by (rule properties_for_sort) (simp_all add: mset_map)
  moreover have "map ((\<lambda>k. case gm_get m k of Some w \<Rightarrow> w | None \<Rightarrow> zero_workload) \<circ> wl_Key)
      (sort_key wl_Key (dedupe_on wl_Key [] ws)) = sort_key wl_Key (dedupe_on wl_Key [] ws)"
    by (rule map_idI) (auto simp: m dest: dedupe_on_first)
  ultimately show ?thesis using False by (simp add: dedupeWorkloads_def fold)
qed (simp add: dedupeWorkloads_def)

lemma BundleWorkloads_eq: "BundleWorkloads b = sort_key wl_Key (dedupe_on wl_Key [] (b_workloads b))"
  by (simp add: BundleWorkloads_def)

text \<open>What a declaration list that repeats no key differently dedupes to.\<close>

lemma dedupe_on_consistent:
  assumes "\<forall>v \<in> set xs. \<forall>w \<in> set xs. f v = f w \<longrightarrow> v = w"
  shows "set (dedupe_on f [] xs) = set xs"
proof (intro equalityI subsetI)
  fix w assume w: "w \<in> set xs"
  then have "f w \<in> f ` set (dedupe_on f [] xs)" by (simp add: dedupe_on_keys)
  then obtain v where v: "v \<in> set (dedupe_on f [] xs)" "f v = f w" by auto
  with assms w dedupe_on_subset [of f "[]" xs] have "v = w" by blast
  with v show "w \<in> set (dedupe_on f [] xs)" by simp
next
  fix w assume "w \<in> set (dedupe_on f [] xs)"
  with dedupe_on_subset [of f "[]" xs] show "w \<in> set xs" by blast
qed

text \<open>The workload a Definition declares on itself, as the index records it.\<close>

lemma index_definitions:
  "gm_list (fold (index_definition h) es m) d =
     (if d \<in> be_Definition ` set es \<and> d \<noteq> None then dd_Workload (fst (DescribeDefinition h d)) else gm_list m d)"
  by (induction es arbitrary: m) (auto simp: index_definition_def DescribeDefinition_def split: option.splits)

lemma declaredWorkloads_eq:
  "declaredWorkloads h bundles =
     (case ValidateWorkloads bundles (fold (index_definition h) (occurrences bundles) []) of
        Some e \<Rightarrow> Inl e
      | None \<Rightarrow> Inr (sort_key wl_Key (dedupe_on wl_Key [] (concat (map BundleWorkloads bundles)))))"
  by (simp add: declaredWorkloads_def BundleEntries_def fold_concat_map dedupeWorkloads_eq split: option.splits)

lemma declaredWorkloads_facts:
  assumes "declaredWorkloads h bs = Inr us"
  shows "set us = set (concat (map b_workloads bs)) \<and> sorted (map wl_Key us) \<and> distinct (map wl_Key us)"
proof -
  from assms have us: "us = sort_key wl_Key (dedupe_on wl_Key [] (concat (map BundleWorkloads bs)))"
    and ok: "ValidateWorkloads bs (fold (index_definition h) (occurrences bs) []) = None"
    by (auto simp: declaredWorkloads_eq split: option.splits)
  from ok have all: "\<forall>v \<in> set (concat (map b_workloads bs)). \<forall>w \<in> set (concat (map b_workloads bs)).
      wl_Key v = wl_Key w \<longrightarrow> v = w"
    by (rule ValidateWorkloads_declared)
  have "set (BundleWorkloads b) = set (b_workloads b)" if "b \<in> set bs" for b
    unfolding BundleWorkloads_eq set_sort
    by (rule dedupe_on_consistent) (use all that in auto)
  then have eq: "set (concat (map BundleWorkloads bs)) = set (concat (map b_workloads bs))" by simp
  have "set (dedupe_on wl_Key [] (concat (map BundleWorkloads bs))) = set (concat (map b_workloads bs))"
    using dedupe_on_consistent [of "concat (map BundleWorkloads bs)" wl_Key] all unfolding eq by blast
  then show ?thesis
    using distinct_sort_key_map [OF dedupe_on_distinct] unfolding us by simp
qed

text \<open>
  When the declarations of a composition are accepted, the declared workloads are all of
  them: the result holds every workload any Bundle declares, once, in increasing key order.
  The workloads do not depend on the order of the Bundles or of the declarations in them.
\<close>

lemma declaredWorkloads_complete:
  assumes "declaredWorkloads h bundles = Inr ws"
  shows "set ws = set (concat (map b_workloads bundles)) \<and> sorted (map wl_Key ws) \<and> distinct (map wl_Key ws) \<and>
    (\<forall>bundles' ws'. set (concat (map b_workloads bundles')) = set (concat (map b_workloads bundles)) \<longrightarrow>
       declaredWorkloads h bundles' = Inr ws' \<longrightarrow> ws' = ws)"
proof -
  have "us = ws" if "set (concat (map b_workloads bs)) = set (concat (map b_workloads bundles))"
    "declaredWorkloads h bs = Inr us" for bs us
    by (rule sorted_key_unique [of wl_Key])
      (use declaredWorkloads_facts [OF that(2)] declaredWorkloads_facts [OF assms] that(1) in auto)
  with declaredWorkloads_facts [OF assms] show ?thesis by blast
qed

lemma ReadWorkloadSections_facts:
  assumes "ReadWorkloadSections ops h bundles env = Inr (secs, env')"
  shows "declaredWorkloads h bundles = Inr (map wsec_Workload secs) \<and>
    (\<forall>sec \<in> set secs. 0 \<le> wc_MaxGoroutines (wsec_Config sec)) \<and>
    (env = None \<longrightarrow> (\<forall>sec \<in> set secs. wsec_Enabled sec \<and> wc_MaxGoroutines (wsec_Config sec) = 0))"
proof -
  let ?f = "\<lambda>w (sections, env). case readWorkloadSection ops w env of
      Inl e \<Rightarrow> Inl e | Inr (sec, env') \<Rightarrow> Inr (sections @ [sec], env')"
  from assms obtain ws where ws: "declaredWorkloads h bundles = Inr ws"
    and run: "fold_res ?f ws ([], env) = Inr (secs, env')"
    by (auto simp: ReadWorkloadSections_def split: sum.splits)
  have one: "wsec_Workload sec = w \<and> 0 \<le> wc_MaxGoroutines (wsec_Config sec) \<and>
      (e = None \<longrightarrow> wsec_Enabled sec \<and> wc_MaxGoroutines (wsec_Config sec) = 0 \<and> e' = None)"
    if "readWorkloadSection ops w e = Inr (sec, e')" for w e sec e'
    using that
    by (auto simp: readWorkloadSection_def Let_def validateWorkloadConfig_def
        split: option.splits sum.splits if_splits)
  let ?P = "\<lambda>ds (st :: WorkloadSection list \<times> environment option).
      map wsec_Workload (fst st) = ds \<and> (\<forall>sec \<in> set (fst st). 0 \<le> wc_MaxGoroutines (wsec_Config sec)) \<and>
      (env = None \<longrightarrow> snd st = None \<and> (\<forall>sec \<in> set (fst st). wsec_Enabled sec \<and> wc_MaxGoroutines (wsec_Config sec) = 0))"
  have "?P ws (secs, env')"
  proof (rule fold_res_invariant [OF run, where P = ?P])
    fix ds w st st' assume "?P ds st" "?f w st = Inr st'"
    then show "?P (ds @ [w]) st'"
      by (cases st) (auto split: sum.splits dest: one)
  qed simp
  with ws show ?thesis by simp
qed

end
