(* ===== verification/Wiring.thy ===== *)
theory Wiring
  imports Sections Digraph
begin

text \<open>
  Wiring the planned instances, \<^verbatim>\<open>indexContracts\<close> to \<^verbatim>\<open>orderSubset\<close> of
  \<^verbatim>\<open>plugin/assembly/plan.go\<close>: every input token is resolved against the exported contracts, the
  edges that the dependency direction forbids are rejected, and the construction order is the
  greedy topological order by identity. A set \<^verbatim>\<open>map[K]struct{}\<close> is the list of its keys.
  The loop over the inputs reads workloads, definitions and inputs from the planned instances
  and writes only their bindings, so it reads the argument and writes its state.
\<close>

section \<open>Contracts and producers\<close>

definition index_contract ::
  "identity \<Rightarrow> rtype option \<Rightarrow> (rtype option, identity list) gomap \<Rightarrow> (rtype option, identity list) gomap" where
  "index_contract i t index = gm_put t (gm_list index t @ [i]) index"

definition exported_types :: "DefinitionDescriptor \<Rightarrow> rtype option list" where
  "exported_types d = dd_Primary d # map con_Type (dd_Contracts d)"

definition indexContracts :: "instances \<Rightarrow> (rtype option, identity list) gomap" where
  "indexContracts instances =
     map (\<lambda>(t, is). (t, SortIdentities is))
       (fold (\<lambda>(i, inst) index. fold (index_contract i) (exported_types (pi_definition inst)) index) instances [])"

definition exports :: "plannedInstance \<Rightarrow> rtype option \<Rightarrow> bool" where
  "exports inst contract \<longleftrightarrow>
     dd_Primary (pi_definition inst) = contract \<or>
     (\<exists>c \<in> set (dd_Contracts (pi_definition inst)). con_Type c = contract)"

section \<open>What the hosting decision removed\<close>

record unhostedIndex =
  ui_byKey :: "(Key, WorkloadKey) gomap"
  ui_byContract :: "(rtype option, WorkloadKey list) gomap"

definition appendUniqueWorkload :: "WorkloadKey list \<Rightarrow> WorkloadKey \<Rightarrow> WorkloadKey list" where
  "appendUniqueWorkload ws k = (if k \<in> set ws then ws else ws @ [k])"

definition unhosted_record :: "selectedDefinition \<Rightarrow> unhostedIndex \<Rightarrow> unhostedIndex" where
  "unhosted_record s index =
     (if sd_workload s = [] then index
      else \<lparr>ui_byKey = gm_put (dd_Key (sd_descriptor s)) (sd_workload s) (ui_byKey index),
            ui_byContract =
              fold (\<lambda>t m. gm_put t (appendUniqueWorkload (gm_list m t) (sd_workload s)) m)
                (exported_types (sd_descriptor s)) (ui_byContract index)\<rparr>)"

definition suppliers :: "unhostedIndex \<Rightarrow> InputToken \<Rightarrow> WorkloadKey list" where
  "suppliers index token =
     (if ui_byKey index = [] then []
      else if tok_Kind token = QueryRef then
        (case gm_get (ui_byKey index) (tok_Key token) of None \<Rightarrow> [] | Some w \<Rightarrow> [w])
      else gm_list (ui_byContract index) (tok_Type token))"

section \<open>Dependency direction\<close>

datatype wire_error =
    UnhostedProducer identity WorkloadKey InputToken "WorkloadKey list"
  | UnownedRequiresWorkload identity InputToken identity WorkloadKey
  | CrossWorkload identity WorkloadKey InputToken identity WorkloadKey
  | ExactProducerMissing identity InputToken identity
  | NoExporter identity InputToken
  | Ambiguous identity InputToken "identity list"
  | UnknownQueryKind identity InputToken
  | SelfDependency identity InputToken
  | DependencyCycle "identity list" "(identity \<times> identity \<times> rtype option) list" "identity list"

definition toleratesNoProducers :: "QueryKind \<Rightarrow> bool" where
  "toleratesNoProducers kind \<longleftrightarrow> kind = QueryMany \<or> kind = QueryOptional"

definition instanceWorkload :: "instances \<Rightarrow> identity \<Rightarrow> WorkloadKey" where
  "instanceWorkload instances i = (case gm_get instances i of None \<Rightarrow> [] | Some inst \<Rightarrow> pi_workload inst)"

definition unownedRequiresWorkloadError :: "identity \<Rightarrow> InputToken \<Rightarrow> identity \<Rightarrow> WorkloadKey \<Rightarrow> wire_error" where
  "unownedRequiresWorkloadError consumer token producer w = UnownedRequiresWorkload consumer token producer w"

definition crossWorkloadError ::
  "identity \<Rightarrow> WorkloadKey \<Rightarrow> InputToken \<Rightarrow> identity \<Rightarrow> WorkloadKey \<Rightarrow> wire_error" where
  "crossWorkloadError consumer cw token producer pw = CrossWorkload consumer cw token producer pw"

fun checkDirection ::
  "identity \<Rightarrow> WorkloadKey \<Rightarrow> InputToken \<Rightarrow> identity list \<Rightarrow> instances \<Rightarrow> wire_error option" where
  "checkDirection consumer cw token [] instances = None"
| "checkDirection consumer cw token (producer # producers) instances =
     (let pw = instanceWorkload instances producer in
      if pw = [] then checkDirection consumer cw token producers instances
      else if pw = cw then checkDirection consumer cw token producers instances
      else if cw = [] then
        (if toleratesNoProducers (tok_Kind token) then checkDirection consumer cw token producers instances
         else Some (unownedRequiresWorkloadError consumer token producer pw))
      else Some (crossWorkloadError consumer cw token producer pw))"

definition unhostedProducerError ::
  "identity \<Rightarrow> WorkloadKey \<Rightarrow> InputToken \<Rightarrow> unhostedIndex \<Rightarrow> wire_error option" where
  "unhostedProducerError consumer cw token index =
     (let absent = suppliers index token
      in if absent = [] then None else Some (UnhostedProducer consumer cw token absent))"

definition ambiguityError :: "identity \<Rightarrow> InputToken \<Rightarrow> identity list \<Rightarrow> wire_error" where
  "ambiguityError consumer token candidates = Ambiguous consumer token candidates"

text \<open>The candidates of one query, before the direction is judged.\<close>

definition token_candidates ::
  "identity \<Rightarrow> WorkloadKey \<Rightarrow> InputToken \<Rightarrow> instances \<Rightarrow> (rtype option, identity list) gomap \<Rightarrow> unhostedIndex
     \<Rightarrow> (wire_error, identity list) result" where
  "token_candidates consumer cw token instances contracts unhosted =
     (if tok_Kind token = QueryRef then
        let target = Normalized (Identity (tok_Key token) (tok_Instance token)) in
        (case gm_get instances target of
           None \<Rightarrow>
             (case unhostedProducerError consumer cw token unhosted of
                Some e \<Rightarrow> Inl e
              | None \<Rightarrow> Inl (ExactProducerMissing consumer token target))
         | Some inst \<Rightarrow>
             if exports inst (tok_Type token) then Inr [target]
             else Inl (ExactProducerMissing consumer token target))
      else
        let candidates = gm_list contracts (tok_Type token) in
        (case tok_Kind token of
           QueryOne \<Rightarrow>
             if candidates = [] then
               (case unhostedProducerError consumer cw token unhosted of
                  Some e \<Rightarrow> Inl e
                | None \<Rightarrow> Inl (NoExporter consumer token))
             else if 1 < length candidates then Inl (ambiguityError consumer token candidates)
             else Inr candidates
         | QueryOptional \<Rightarrow>
             if 1 < length candidates then Inl (ambiguityError consumer token candidates) else Inr candidates
         | QueryMany \<Rightarrow> Inr candidates
         | _ \<Rightarrow> Inl (UnknownQueryKind consumer token)))"

definition resolveToken ::
  "identity \<Rightarrow> WorkloadKey \<Rightarrow> InputToken \<Rightarrow> instances \<Rightarrow> (rtype option, identity list) gomap \<Rightarrow> unhostedIndex
     \<Rightarrow> (wire_error, identity list) result" where
  "resolveToken consumer cw token instances contracts unhosted =
     (case token_candidates consumer cw token instances contracts unhosted of
        Inl e \<Rightarrow> Inl e
      | Inr candidates \<Rightarrow>
          (case (if cw \<noteq> [] then unhostedProducerError consumer cw token unhosted else None) of
             Some e \<Rightarrow> Inl e
           | None \<Rightarrow>
               (case checkDirection consumer cw token candidates instances of
                  Some e \<Rightarrow> Inl e
                | None \<Rightarrow> Inr candidates)))"

section \<open>The wording of the errors\<close>

definition requirementPhrase :: "InputToken \<Rightarrow> string \<Rightarrow> string" where
  "requirementPhrase token src =
     (case tok_Kind token of
        QueryRef \<Rightarrow> ''requires '' @ type_label (tok_Type token) @ '' by name from '' @ src
      | QueryOne \<Rightarrow> ''requires exactly one '' @ type_label (tok_Type token) @ '' by type from '' @ src
      | QueryOptional \<Rightarrow> ''optionally requires '' @ type_label (tok_Type token) @ '' by type from '' @ src
      | QueryMany \<Rightarrow> ''collects '' @ type_label (tok_Type token) @ '' by type from '' @ src
      | _ \<Rightarrow> ''requires '' @ type_label (tok_Type token) @ '' from '' @ src)"

definition dependencyForm :: "InputToken \<Rightarrow> string" where
  "dependencyForm token = (if tok_Kind token = QueryRef then ''by name'' else ''by type'')"

section \<open>The graph\<close>

record wire_state =
  w_indegree :: "(identity, int) gomap"
  w_outgoing :: "(identity, identity list) gomap"
  w_contractOf :: "(identity \<times> identity, rtype option) gomap"
  w_instances :: instances

definition wire_match ::
  "identity \<Rightarrow> InputToken \<Rightarrow> identity \<Rightarrow> wire_state \<Rightarrow> (wire_error, wire_state) result" where
  "wire_match consumer token producer st =
     (if producer = consumer then Inl (SelfDependency consumer token)
      else if consumer \<in> set (gm_list (w_outgoing st) producer) then Inr st
      else Inr (st\<lparr>w_outgoing := gm_put producer (gm_list (w_outgoing st) producer @ [consumer]) (w_outgoing st),
                   w_indegree := gm_put consumer (gm_int (w_indegree st) consumer + 1) (w_indegree st),
                   w_contractOf := gm_put (producer, consumer) (tok_Type token) (w_contractOf st)\<rparr>))"

definition bind_token :: "identity \<Rightarrow> nat \<Rightarrow> identity list \<Rightarrow> instances \<Rightarrow> instances" where
  "bind_token consumer token_id matches instances =
     (case gm_get instances consumer of
        None \<Rightarrow> instances
      | Some inst \<Rightarrow>
          gm_put consumer (inst\<lparr>pi_bindings := gm_put token_id matches (pi_bindings inst)\<rparr>) instances)"

definition wire_token ::
  "instances \<Rightarrow> (rtype option, identity list) gomap \<Rightarrow> unhostedIndex \<Rightarrow> identity \<times> InputToken
     \<Rightarrow> wire_state \<Rightarrow> (wire_error, wire_state) result" where
  "wire_token instances contracts unhosted ct st =
     (case ct of (consumer, token) \<Rightarrow>
        (case resolveToken consumer (instanceWorkload instances consumer) token instances contracts unhosted of
           Inl e \<Rightarrow> Inl e
         | Inr matches \<Rightarrow>
             fold_res (wire_match consumer token) matches
               (st\<lparr>w_instances := bind_token consumer (tok_ID token) matches (w_instances st)\<rparr>)))"

definition instance_inputs :: "instances \<Rightarrow> identity \<Rightarrow> InputToken list" where
  "instance_inputs instances i =
     (case gm_get instances i of None \<Rightarrow> [] | Some inst \<Rightarrow> ip_Inputs (pi_plan inst))"

definition wire_start :: "instances \<Rightarrow> wire_state" where
  "wire_start instances =
     \<lparr>w_indegree = map (\<lambda>(i, _). (i, 0)) instances, w_outgoing = map (\<lambda>(i, _). (i, [])) instances,
      w_contractOf = [], w_instances = instances\<rparr>"

definition wire_inputs ::
  "instances \<Rightarrow> (rtype option, identity list) gomap \<Rightarrow> unhostedIndex \<Rightarrow> (wire_error, wire_state) result" where
  "wire_inputs instances contracts unhosted =
     fold_res (\<lambda>consumer. fold_res (wire_token instances contracts unhosted)
                 (map (Pair consumer) (instance_inputs instances consumer)))
       (SortIdentities (map fst instances)) (wire_start instances)"

section \<open>The construction order\<close>

definition ready_push :: "identity \<Rightarrow> identity list \<Rightarrow> identity list" where
  "ready_push x ready = SortIdentities (ready @ [x])"

definition ready_pop :: "identity list \<Rightarrow> (identity \<times> identity list) option" where
  "ready_pop ready = (case ready of [] \<Rightarrow> None | x # xs \<Rightarrow> Some (x, xs))"

interpretation ready_slice: ready_pool ready_push ready_pop mset Normalized "sorted \<circ> map Normalized"
proof (unfold_locales, goal_cases)
  case (4 p x)
  then show ?case by (simp add: ready_push_def SortIdentities_def)
next
  case (6 p x p' y)
  then show ?case by (auto simp: ready_pop_def split: list.splits)
qed (auto simp: ready_push_def ready_pop_def split: list.splits)

lemma drain_ready_decreases:
  assumes "ready_pop r = Some (x, r')" "(deg', r'') = relax ready_push ys deg r'"
  shows "positive_count deg' + length r'' < positive_count deg + length r"
proof -
  have "length r = Suc (length r')" using assms(1) by (auto simp: ready_pop_def split: list.splits)
  moreover have "length (ready_push x p) = Suc (length p)" for x p
    by (simp add: ready_push_def SortIdentities_def)
  ultimately show ?thesis
    using relax_measure [of length ready_push, OF _ assms(2) [symmetric]] by simp
qed

text \<open>The loop \<^verbatim>\<open>for len(ready) > 0\<close>.\<close>

function drain_ready ::
  "(identity, identity list) gomap \<Rightarrow> (identity, int) gomap \<Rightarrow> identity list \<Rightarrow> identity list
     \<Rightarrow> (identity, int) gomap \<times> identity list" where
  "drain_ready outgoing deg ready order =
     (case ready_pop ready of
        None \<Rightarrow> (deg, order)
      | Some (x, ready') \<Rightarrow>
          (case relax ready_push (SortIdentities (gm_list outgoing x)) deg ready' of
             (deg', ready'') \<Rightarrow> drain_ready outgoing deg' ready'' (order @ [x])))"
  by pat_completeness auto
termination
  by (relation "measure (\<lambda>(outgoing, deg, ready, order). positive_count deg + length ready)")
    (auto intro: drain_ready_decreases)

declare drain_ready.simps [simp del]

interpretation slice_kahn: kahn ready_push ready_pop mset Normalized "sorted \<circ> map Normalized"
    "\<lambda>u. SortIdentities (gm_list outgoing u)" "drain_ready outgoing"
  for outgoing
  by unfold_locales (rule drain_ready.simps)

definition stuckSuccessors :: "identity list \<Rightarrow> (identity, identity list) gomap \<Rightarrow> identity \<Rightarrow> identity list" where
  "stuckSuccessors stuck outgoing i = SortIdentities (filter (\<lambda>c. c \<in> set stuck) (gm_list outgoing i))"

definition plan_findCycle ::
  "identity list \<Rightarrow> identity list \<Rightarrow> (identity, identity list) gomap \<Rightarrow> identity list option" where
  "plan_findCycle roots stuck outgoing = find_cycle (stuckSuccessors stuck outgoing) roots"

text \<open>The edges of a path whose contract is known: producer, consumer, contract.\<close>

fun path_edges :: "(identity \<times> identity, rtype option) gomap \<Rightarrow> identity list \<Rightarrow> (identity \<times> identity \<times> rtype option) list" where
  "path_edges contractOf (p # c # rest) =
     (case gm_get contractOf (p, c) of None \<Rightarrow> [] | Some t \<Rightarrow> [(p, c, t)]) @ path_edges contractOf (c # rest)"
| "path_edges contractOf _ = []"

definition cycleError ::
  "(identity, int) gomap \<Rightarrow> (identity, identity list) gomap \<Rightarrow> (identity \<times> identity, rtype option) gomap
     \<Rightarrow> wire_error option" where
  "cycleError indegree outgoing contractOf =
     (let candidates = SortIdentities (map fst (filter (\<lambda>(_, degree). 0 < degree) indegree)) in
      case plan_findCycle candidates candidates outgoing of
        None \<Rightarrow> None
      | Some path \<Rightarrow>
          Some (DependencyCycle path (path_edges contractOf path) (filter (\<lambda>i. i \<notin> set path) candidates)))"

text \<open>
  \<open>None\<close> is the cycle search running out of depth, which never happens; the result carries the
  instances with their bindings.
\<close>

definition wireGraph ::
  "instances \<Rightarrow> (rtype option, identity list) gomap \<Rightarrow> unhostedIndex
     \<Rightarrow> (wire_error, identity list \<times> instances) result option" where
  "wireGraph instances contracts unhosted =
     (case wire_inputs instances contracts unhosted of
        Inl e \<Rightarrow> Some (Inl e)
      | Inr st \<Rightarrow>
          let ready = SortIdentities (map fst (filter (\<lambda>(_, degree). degree = 0) (w_indegree st))) in
          (case drain_ready (w_outgoing st) (w_indegree st) ready [] of
             (indegree, order) \<Rightarrow>
               if length order \<noteq> length instances
               then map_option Inl (cycleError indegree (w_outgoing st) (w_contractOf st))
               else Some (Inr (order, w_instances st))))"

definition orderSubset :: "identity list \<Rightarrow> identity list \<Rightarrow> identity list" where
  "orderSubset order candidates = filter (\<lambda>i. i \<in> set candidates) order"

section \<open>The contract index\<close>

lemma exports_types: "exports inst t \<longleftrightarrow> t \<in> set (exported_types (pi_definition inst))"
  by (auto simp: exports_def exported_types_def)

lemma index_contract_fold:
  "gm_list (fold (index_contract i) ts index) t = gm_list index t @ replicate (count_list ts t) i"
  by (induction ts arbitrary: index) (auto simp: index_contract_def replicate_append_same [symmetric])

lemma indexContracts_set:
  "set (gm_list (indexContracts instances) t) = {i. \<exists>inst. (i, inst) \<in> set instances \<and> exports inst t}"
proof -
  have "set (gm_list (fold (\<lambda>(i, inst) index. fold (index_contract i) (exported_types (pi_definition inst)) index)
      xs m) t) = set (gm_list m t) \<union> {i. \<exists>inst. (i, inst) \<in> set xs \<and> exports inst t}" for xs m
  proof (induction xs arbitrary: m)
    case (Cons x xs)
    obtain i inst where "x = (i, inst)" by (cases x)
    with Cons show ?case
      by (auto simp: index_contract_fold exports_types count_list_0_iff set_replicate_conv_if split: if_splits)
  qed simp
  from this [of instances "[]"] show ?thesis
    by (simp add: indexContracts_def gm_list_def gm_get_map_values split: option.splits)
qed

lemma indexContracts_sorted: "sorted (map Normalized (gm_list (indexContracts instances) t))"
  by (auto simp: indexContracts_def gm_list_def gm_get_map_values SortIdentities_def split: option.splits)

section \<open>What a resolved token is bound to\<close>

lemma checkDirection_None:
  "checkDirection consumer cw token producers instances = None \<longleftrightarrow>
     (\<forall>p \<in> set producers. instanceWorkload instances p = [] \<or> instanceWorkload instances p = cw \<or>
        (cw = [] \<and> toleratesNoProducers (tok_Kind token)))"
  by (induction consumer cw token producers instances rule: checkDirection.induct) (auto simp: Let_def)

lemma resolveToken_Inr:
  assumes "resolveToken c cw tok instances contracts unhosted = Inr ms"
  shows "token_candidates c cw tok instances contracts unhosted = Inr ms"
    "checkDirection c cw tok ms instances = None" "cw \<noteq> [] \<Longrightarrow> suppliers unhosted tok = []"
  using assms
  by (auto simp: resolveToken_def unhostedProducerError_def Let_def split: sum.splits option.splits if_splits)

lemma token_candidates_instances:
  assumes "token_candidates c cw tok instances (indexContracts instances) unhosted = Inr ms" "p \<in> set ms"
  shows "\<exists>inst. gm_get instances p = Some inst"
proof (cases "tok_Kind tok = QueryRef")
  case True
  with assms show ?thesis
    by (auto simp: token_candidates_def Let_def split: if_splits option.splits)
next
  case False
  with assms have "p \<in> set (gm_list (indexContracts instances) (tok_Type tok))"
    by (auto simp: token_candidates_def Let_def split: if_splits option.splits QueryKind.splits)
  then have "p \<in> fst ` set instances" by (force simp: indexContracts_set)
  then show ?thesis using gm_get_None [of instances p] by auto
qed

section \<open>The loop over the inputs\<close>

definition token_matches ::
  "instances \<Rightarrow> (rtype option, identity list) gomap \<Rightarrow> unhostedIndex \<Rightarrow> identity \<Rightarrow> InputToken \<Rightarrow> identity list" where
  "token_matches instances contracts unhosted c tok =
     (case resolveToken c (instanceWorkload instances c) tok instances contracts unhosted of
        Inl _ \<Rightarrow> [] | Inr ms \<Rightarrow> ms)"

text \<open>The in-degrees count the edges, and there is at most one edge between two nodes.\<close>

definition graph_inv :: "identity list \<Rightarrow> wire_state \<Rightarrow> bool" where
  "graph_inv nodes st \<longleftrightarrow>
     (\<forall>u. distinct (gm_list (w_outgoing st) u)) \<and>
     (\<forall>v. gm_int (w_indegree st) v = int (pending nodes (gm_list (w_outgoing st)) [] v)) \<and>
     map fst (w_indegree st) = nodes"

lemma wire_match_inv:
  assumes inv: "graph_inv nodes st" and run: "wire_match c tok p st = Inr st'"
    and nodes: "distinct nodes" "p \<in> set nodes" "c \<in> set nodes"
  shows "graph_inv nodes st' \<and> p \<noteq> c \<and> w_instances st' = w_instances st \<and>
    (\<forall>u v. v \<in> set (gm_list (w_outgoing st') u) \<longleftrightarrow> v \<in> set (gm_list (w_outgoing st) u) \<or> (u = p \<and> v = c))"
proof (cases "c \<in> set (gm_list (w_outgoing st) p)")
  case True
  with inv run show ?thesis by (auto simp: wire_match_def split: if_splits)
next
  case False
  let ?out = "gm_list (w_outgoing st)"
  from run False have st': "st' = st\<lparr>w_outgoing := gm_put p (?out p @ [c]) (w_outgoing st),
      w_indegree := gm_put c (gm_int (w_indegree st) c + 1) (w_indegree st),
      w_contractOf := gm_put (p, c) (tok_Type tok) (w_contractOf st)\<rparr>" and neq: "p \<noteq> c"
    by (auto simp: wire_match_def split: if_splits)
  have out: "gm_list (w_outgoing st') = (\<lambda>u. if u = p then ?out p @ [c] else ?out u)"
    by (rule ext) (simp add: st')
  have keys: "map fst (w_indegree st') = nodes"
    using inv nodes(3) by (auto simp: st' graph_inv_def gm_keys_put_list)
  have "gm_int (w_indegree st') v = int (pending nodes (gm_list (w_outgoing st')) [] v)" for v
    unfolding out pending_add_edge [OF nodes(1,2)] using inv by (simp add: st' graph_inv_def)
  moreover have "distinct (gm_list (w_outgoing st') u)" for u
    using inv False by (simp add: out graph_inv_def)
  ultimately show ?thesis
    using keys neq unfolding graph_inv_def by (auto simp: st')
qed

lemma wire_matches_inv:
  assumes "graph_inv nodes st" "fold_res (wire_match c tok) ms st = Inr st'"
    and "distinct nodes" "set ms \<subseteq> set nodes" "c \<in> set nodes"
  shows "graph_inv nodes st' \<and> c \<notin> set ms \<and> w_instances st' = w_instances st \<and>
    (\<forall>u v. v \<in> set (gm_list (w_outgoing st') u) \<longleftrightarrow> v \<in> set (gm_list (w_outgoing st) u) \<or> (u \<in> set ms \<and> v = c))"
  using assms
proof (induction ms arbitrary: st)
  case (Cons p ms)
  from Cons.prems(2) obtain st1 where step: "wire_match c tok p st = Inr st1"
    and rest: "fold_res (wire_match c tok) ms st1 = Inr st'"
    by (auto split: sum.splits)
  have one: "graph_inv nodes st1 \<and> p \<noteq> c \<and> w_instances st1 = w_instances st \<and>
    (\<forall>u v. v \<in> set (gm_list (w_outgoing st1) u) \<longleftrightarrow> v \<in> set (gm_list (w_outgoing st) u) \<or> (u = p \<and> v = c))"
    using wire_match_inv [OF Cons.prems(1) step Cons.prems(3)] Cons.prems(4,5) by simp
  with Cons.IH [of st1] rest Cons.prems(3-5) show ?case by auto
qed simp

text \<open>The instances with the bindings of the tokens processed so far.\<close>

definition bound :: "instances \<Rightarrow> (identity \<Rightarrow> InputToken \<Rightarrow> identity list) \<Rightarrow> (identity \<times> InputToken) list \<Rightarrow> instances \<Rightarrow> bool" where
  "bound instances matches ds instances' \<longleftrightarrow>
     map fst instances' = map fst instances \<and>
     (\<forall>c inst. gm_get instances c = Some inst \<longrightarrow>
        (\<exists>b. gm_get instances' c = Some (inst\<lparr>pi_bindings := b\<rparr>) \<and>
           (\<forall>tok. (c, tok) \<in> set ds \<longrightarrow> gm_get b (tok_ID tok) = Some (matches c tok))))"

lemma bind_token_bound:
  assumes "bound instances matches ds instances'"
    and "\<And>tok'. (c, tok') \<in> set ds \<Longrightarrow> tok_ID tok' = tok_ID tok \<Longrightarrow> tok' = tok"
  shows "bound instances matches (ds @ [(c, tok)]) (bind_token c (tok_ID tok) (matches c tok) instances')"
proof (cases "gm_get instances' c")
  case None
  then have "c \<notin> fst ` set instances" using assms(1) by (metis bound_def gm_get_None set_map)
  then have "gm_get instances c = None" by (simp add: gm_get_None)
  then have "gm_get instances c' = Some inst \<Longrightarrow> (c', t) \<in> set (ds @ [(c, tok)]) \<longleftrightarrow> (c', t) \<in> set ds" for c' inst t
    by auto
  with None assms(1) show ?thesis
    unfolding bound_def bind_token_def by simp
next
  case (Some cur)
  have "c \<in> fst ` set instances'" using Some gm_get_None [of instances' c] by (metis option.distinct(1))
  then have keys: "map fst (bind_token c (tok_ID tok) (matches c tok) instances') = map fst instances'"
    by (simp add: bind_token_def Some gm_keys_put_list)
  have "\<exists>b. gm_get (bind_token c (tok_ID tok) (matches c tok) instances') c' = Some (inst\<lparr>pi_bindings := b\<rparr>) \<and>
      (\<forall>t. (c', t) \<in> set (ds @ [(c, tok)]) \<longrightarrow> gm_get b (tok_ID t) = Some (matches c' t))"
    if "gm_get instances c' = Some inst" for c' inst
  proof -
    obtain b where b: "gm_get instances' c' = Some (inst\<lparr>pi_bindings := b\<rparr>)"
      "\<forall>t. (c', t) \<in> set ds \<longrightarrow> gm_get b (tok_ID t) = Some (matches c' t)"
      using assms(1) \<open>gm_get instances c' = Some inst\<close> unfolding bound_def by blast
    show ?thesis
    proof (cases "c' = c")
      case True
      with Some b have "cur = inst\<lparr>pi_bindings := b\<rparr>" by simp
      with True Some b assms(2) show ?thesis
        by (intro exI [of _ "gm_put (tok_ID tok) (matches c tok) b"]) (auto simp: bind_token_def)
    next
      case False
      with Some b show ?thesis by (intro exI [of _ b]) (auto simp: bind_token_def)
    qed
  qed
  with keys assms(1) show ?thesis unfolding bound_def by simp
qed

definition wire_inv ::
  "instances \<Rightarrow> unhostedIndex \<Rightarrow> (identity \<times> InputToken) list \<Rightarrow> wire_state \<Rightarrow> bool" where
  "wire_inv instances unhosted ds st \<longleftrightarrow>
     (let matches = token_matches instances (indexContracts instances) unhosted in
      graph_inv (map fst instances) st \<and>
      (\<forall>c tok. (c, tok) \<in> set ds \<longrightarrow>
         resolveToken c (instanceWorkload instances c) tok instances (indexContracts instances) unhosted
           = Inr (matches c tok) \<and> c \<notin> set (matches c tok)) \<and>
      (\<forall>u v. v \<in> set (gm_list (w_outgoing st) u) \<longleftrightarrow> (\<exists>tok. (v, tok) \<in> set ds \<and> u \<in> set (matches v tok))) \<and>
      bound instances matches ds (w_instances st))"

lemma token_matches_nodes:
  "set (token_matches instances (indexContracts instances) unhosted c tok) \<subseteq> fst ` set instances"
proof
  fix p assume "p \<in> set (token_matches instances (indexContracts instances) unhosted c tok)"
  then obtain ms where "resolveToken c (instanceWorkload instances c) tok instances (indexContracts instances) unhosted = Inr ms"
    "p \<in> set ms"
    by (cases "resolveToken c (instanceWorkload instances c) tok instances (indexContracts instances) unhosted")
      (auto simp: token_matches_def)
  with token_candidates_instances resolveToken_Inr(1) obtain inst where "gm_get instances p = Some inst" by blast
  then show "p \<in> fst ` set instances" using gm_get_None [of instances p] by (metis option.distinct(1))
qed

lemma wire_token_inv:
  assumes inv: "wire_inv instances unhosted ds st" and wf: "gm_wf instances"
    and run: "wire_token instances (indexContracts instances) unhosted (c, tok) st = Inr st'"
    and c: "c \<in> fst ` set instances"
    and ids: "\<And>tok'. (c, tok') \<in> set ds \<Longrightarrow> tok_ID tok' = tok_ID tok \<Longrightarrow> tok' = tok"
  shows "wire_inv instances unhosted (ds @ [(c, tok)]) st'"
proof -
  let ?m = "token_matches instances (indexContracts instances) unhosted"
  from run obtain ms where
    res: "resolveToken c (instanceWorkload instances c) tok instances (indexContracts instances) unhosted = Inr ms"
    and fold: "fold_res (wire_match c tok) ms
      (st\<lparr>w_instances := bind_token c (tok_ID tok) ms (w_instances st)\<rparr>) = Inr st'"
    by (auto simp: wire_token_def split: sum.splits)
  have ms: "ms = ?m c tok" using res by (simp add: token_matches_def)
  have g: "graph_inv (map fst instances) (st\<lparr>w_instances := bind_token c (tok_ID tok) ms (w_instances st)\<rparr>)"
    using inv by (simp add: wire_inv_def Let_def graph_inv_def)
  have "distinct (map fst instances)" "set ms \<subseteq> set (map fst instances)" "c \<in> set (map fst instances)"
    using wf token_matches_nodes c by (simp_all add: gm_wf_def ms)
  note step = wire_matches_inv [OF g fold this]
  have "bound instances ?m (ds @ [(c, tok)]) (w_instances st')"
    using bind_token_bound [of instances ?m ds "w_instances st" c tok, OF _ ids] inv step
    by (simp add: wire_inv_def Let_def ms)
  then show ?thesis
    using inv step res unfolding wire_inv_def Let_def ms by auto
qed

definition planned_ok :: "instances \<Rightarrow> bool" where
  "planned_ok instances \<longleftrightarrow> gm_wf instances \<and>
     (\<forall>i inst. gm_get instances i = Some inst \<longrightarrow> normal_identity i \<and> plan_ok (pi_plan inst))"

definition input_pairs :: "instances \<Rightarrow> (identity \<times> InputToken) list" where
  "input_pairs instances =
     concat (map (\<lambda>c. map (Pair c) (instance_inputs instances c)) (SortIdentities (map fst instances)))"

lemma input_pairs_mem:
  "(c, tok) \<in> set (input_pairs instances) \<longleftrightarrow> tok \<in> set (instance_inputs instances c)"
proof -
  have "tok \<in> set (instance_inputs instances c) \<Longrightarrow> c \<in> fst ` set instances"
    using gm_get_None [of instances c] by (auto simp: instance_inputs_def split: option.splits)
  then show ?thesis by (auto simp: input_pairs_def)
qed

lemma wire_start_inv: "wire_inv instances unhosted [] (wire_start instances)"
proof -
  have out: "gm_list (w_outgoing (wire_start instances)) u = []" for u
    by (simp add: wire_start_def gm_list_def gm_get_map_values [of "\<lambda>_. []", unfolded case_prod_unfold]
        case_prod_unfold split: option.splits)
  have deg: "gm_int (w_indegree (wire_start instances)) u = 0" for u
    by (simp add: wire_start_def gm_int_def gm_get_map_values [of "\<lambda>_. 0", unfolded case_prod_unfold]
        case_prod_unfold split: option.splits)
  have "pending nodes (gm_list (w_outgoing (wire_start instances))) [] v = 0" for nodes v
    by (simp add: pending_zero out)
  moreover have "map fst (w_indegree (wire_start instances)) = map fst instances"
    by (simp add: wire_start_def case_prod_unfold o_def)
  moreover have "bound instances m [] (w_instances (wire_start instances))" for m
  proof -
    have "\<exists>b. inst = inst\<lparr>pi_bindings := b\<rparr>" for inst :: plannedInstance
      by (rule exI [of _ "pi_bindings inst"]) simp
    then show ?thesis unfolding bound_def by (simp add: wire_start_def)
  qed
  ultimately show ?thesis
    unfolding wire_inv_def graph_inv_def Let_def by (simp add: out deg)
qed

lemma wire_inputs_inv:
  assumes ok: "planned_ok instances"
    and run: "wire_inputs instances (indexContracts instances) unhosted = Inr st"
  shows "wire_inv instances unhosted (input_pairs instances) st"
proof (rule fold_res_invariant_prefix [where P = "wire_inv instances unhosted"])
  show "fold_res (wire_token instances (indexContracts instances) unhosted) (input_pairs instances)
      (wire_start instances) = Inr st"
    using run by (simp add: wire_inputs_def fold_res_concat input_pairs_def)
  show "wire_inv instances unhosted [] (wire_start instances)" by (rule wire_start_inv)
  fix ds x rest s s'
  assume pre: "input_pairs instances = ds @ x # rest" and inv: "wire_inv instances unhosted ds s"
    and step: "wire_token instances (indexContracts instances) unhosted x s = Inr s'"
  obtain c tok where x: "x = (c, tok)" by (cases x)
  have mem: "(c, t) \<in> set ds \<or> t = tok \<Longrightarrow> t \<in> set (instance_inputs instances c)" for t
    using pre x input_pairs_mem [of c t instances] by auto
  from mem [of tok] obtain inst where inst: "gm_get instances c = Some inst"
    by (cases "gm_get instances c") (auto simp: instance_inputs_def)
  then have "distinct (map tok_ID (instance_inputs instances c))"
    using ok by (auto simp: planned_ok_def plan_ok_def instance_inputs_def)
  then have inj: "inj_on tok_ID (set (instance_inputs instances c))" by (simp add: distinct_map)
  have "wire_inv instances unhosted (ds @ [(c, tok)]) s'"
  proof (rule wire_token_inv [OF inv _ step [unfolded x]])
    show "gm_wf instances" using ok by (simp add: planned_ok_def)
    show "c \<in> fst ` set instances" using inst gm_get_None [of instances c] by (metis option.distinct(1))
    fix tok' assume "(c, tok') \<in> set ds" "tok_ID tok' = tok_ID tok"
    with inj mem show "tok' = tok" by (auto dest: inj_onD)
  qed
  then show "wire_inv instances unhosted (ds @ [x]) s'" by (simp add: x)
qed

section \<open>The dependency relation\<close>

text \<open>The consumers an instance has to come before, and the relation between them.\<close>

definition dep_succ :: "instances \<Rightarrow> unhostedIndex \<Rightarrow> identity \<Rightarrow> identity list" where
  "dep_succ instances unhosted u =
     filter (\<lambda>v. \<exists>tok \<in> set (instance_inputs instances v).
        u \<in> set (token_matches instances (indexContracts instances) unhosted v tok)) (map fst instances)"

definition depends :: "instances \<Rightarrow> unhostedIndex \<Rightarrow> (identity \<times> identity) set" where
  "depends instances unhosted = {(p, c). c \<in> set (dep_succ instances unhosted p)}"

lemma wire_inv_succ:
  assumes "wire_inv instances unhosted (input_pairs instances) st"
  shows "set (gm_list (w_outgoing st) u) = set (dep_succ instances unhosted u)"
proof -
  have "v \<in> set (gm_list (w_outgoing st) u) \<longleftrightarrow> v \<in> set (dep_succ instances unhosted u)" for v
  proof -
    have "tok \<in> set (instance_inputs instances v) \<Longrightarrow> v \<in> fst ` set instances" for tok
      using gm_get_None [of instances v] by (cases "gm_get instances v") (auto simp: instance_inputs_def)
    then show ?thesis
      using assms unfolding wire_inv_def Let_def dep_succ_def input_pairs_mem by auto
  qed
  then show ?thesis by blast
qed

lemma depends_nodes: "(p, c) \<in> depends instances unhosted \<Longrightarrow> p \<in> fst ` set instances \<and> c \<in> fst ` set instances"
  using token_matches_nodes by (fastforce simp: depends_def dep_succ_def)

text \<open>The state of the loop when no instance is ready.\<close>

lemma wire_drained:
  assumes ok: "planned_ok instances" and inv: "wire_inv instances unhosted (input_pairs instances) st"
    and ready: "ready = SortIdentities (map fst (filter (\<lambda>(_, degree). degree = 0) (w_indegree st)))"
    and run: "drain_ready (w_outgoing st) (w_indegree st) ready [] = (deg, order)"
  shows "kahn_inv (map fst instances) (\<lambda>u. SortIdentities (gm_list (w_outgoing st) u)) Normalized deg {#} order"
    and "map fst deg = map fst instances"
proof -
  let ?succ = "\<lambda>u. SortIdentities (gm_list (w_outgoing st) u)"
  let ?nodes = "map fst instances"
  have g: "graph_inv ?nodes st" using inv by (simp add: wire_inv_def Let_def)
  have dist: "distinct ?nodes" using ok by (simp add: planned_ok_def gm_wf_def)
  have closed: "set (gm_list (w_outgoing st) u) \<subseteq> set ?nodes" for u
    using wire_inv_succ [OF inv, of u] by (auto simp: dep_succ_def)
  have pend: "pending ?nodes ?succ [] v = pending ?nodes (gm_list (w_outgoing st)) [] v" for v
    by (rule pending_cong) (simp add: SortIdentities_def flip: count_mset)
  have wf: "gm_wf (w_indegree st)" using g dist by (simp add: graph_inv_def gm_wf_def)
  have mem: "v \<in> set (map fst (filter (\<lambda>(_, degree). degree = 0) (w_indegree st))) \<longleftrightarrow>
      v \<in> set ?nodes \<and> gm_int (w_indegree st) v = 0" for v
    using g unfolding graph_inv_def set_map gm_int_filter [OF wf] by (metis set_map)
  have "distinct (map fst (filter (\<lambda>(_, degree). degree = 0) (w_indegree st)))"
    using wf by (simp add: gm_wf_def distinct_map_filter)
  then have "count (mset ready) v = (if v \<in> eligible ?nodes ?succ [] then 1 else 0)" for v
    using mem [of v] g pend [of v] unfolding ready
    by (auto simp: distinct_count_atmost_1 eligible_pending graph_inv_def)
  then have "kahn_inv ?nodes ?succ Normalized (w_indegree st) (mset ready) []"
    using dist closed g pend by (auto simp: kahn_inv_def greedy_order_def graph_inv_def)
  moreover have "(sorted \<circ> map Normalized) ready" by (simp add: ready SortIdentities_def)
  ultimately show "kahn_inv ?nodes ?succ Normalized deg {#} order"
    using slice_kahn.loop_inv run by blast
  have "set (?succ u) \<subseteq> fst ` set (w_indegree st)" for u
    using closed [of u] g by (metis graph_inv_def list.set_map set_SortIdentities)
  then show "map fst deg = ?nodes"
    using slice_kahn.loop_keys [OF _ run] g by (simp add: graph_inv_def)
qed

text \<open>The leftover nodes are the candidates of the search, and it finds a cycle among them.\<close>

lemma cycleError_cycle:
  assumes inv: "wire_inv instances unhosted (input_pairs instances) st"
    and k: "kahn_inv (map fst instances) (\<lambda>u. SortIdentities (gm_list (w_outgoing st) u)) Normalized deg {#} order"
    and keys: "map fst deg = map fst instances" and left: "set (map fst instances) - set order \<noteq> {}"
  obtains path blocked where
    "cycleError deg (w_outgoing st) contractOf = Some (DependencyCycle path (path_edges contractOf path) blocked)"
    "is_cycle (dep_succ instances unhosted) path" "set path \<subseteq> set (map fst instances) - set order"
    "set blocked = set (map fst instances) - set order - set path"
proof -
  let ?nodes = "map fst instances" and ?succ = "\<lambda>u. SortIdentities (gm_list (w_outgoing st) u)"
  define S where "S = SortIdentities (map fst (filter (\<lambda>(_, degree). 0 < degree) deg))"
  let ?stuck = "stuckSuccessors S (w_outgoing st)"
  have dist: "distinct ?nodes" and greedy: "greedy_order ?nodes ?succ Normalized order"
    and deg: "\<And>v. gm_int deg v = int (pending ?nodes ?succ order v)"
    using k by (auto simp: kahn_inv_def)
  have wf: "gm_wf deg" using dist keys by (simp add: gm_wf_def)
  have pos: "0 < pending ?nodes ?succ order v \<longleftrightarrow> v \<notin> set order" if "v \<in> set ?nodes" for v
    using pending_emitted [OF greedy] kahn_leftover_pred [OF k, of v] that pending_zero [of ?nodes ?succ order v]
    by (metis DiffD1 DiffD2 DiffI neq0_conv)
  have mem: "v \<in> set S \<longleftrightarrow> v \<in> set ?nodes - set order" for v
  proof -
    have "v \<in> set S \<longleftrightarrow> v \<in> set (map fst deg) \<and> 0 < gm_int deg v"
      unfolding S_def set_SortIdentities set_map gm_int_filter [OF wf] ..
    then show ?thesis using pos [of v] deg [of v] unfolding keys by auto
  qed
  have distS: "distinct S"
    unfolding S_def using wf by (simp add: gm_wf_def distinct_map_filter)
  have "\<exists>path. find_cycle ?stuck S = Some path \<and> is_cycle ?stuck path"
  proof (rule find_cycle_leftover [OF distS])
    show "S \<noteq> []" using left mem by fastforce
    show "\<exists>u \<in> set S. v \<in> set (?stuck u)" if v: "v \<in> set S" for v
    proof -
      obtain u where "u \<in> set ?nodes - set order" "v \<in> set (?succ u)"
        using kahn_leftover_pred [OF k v [unfolded mem]] by blast
      with v mem show ?thesis by (intro bexI [of _ u]) (simp_all add: stuckSuccessors_def)
    qed
    show "set (?stuck u) \<subseteq> set S" for u by (auto simp: stuckSuccessors_def)
  qed
  then obtain path where path: "find_cycle ?stuck S = Some path" "is_cycle ?stuck path" by blast
  have cyc: "is_cycle (dep_succ instances unhosted) path"
    by (rule is_cycle_mono [OF path(2)]) (auto simp: stuckSuccessors_def wire_inv_succ [OF inv])
  have "set path \<subseteq> set S"
    by (rule is_cycle_closed [OF path(2)]) (auto simp: stuckSuccessors_def)
  moreover have "cycleError deg (w_outgoing st) contractOf =
      Some (DependencyCycle path (path_edges contractOf path) (filter (\<lambda>i. i \<notin> set path) S))"
    using path(1) by (simp add: cycleError_def plan_findCycle_def S_def [symmetric] Let_def)
  ultimately show ?thesis
    using that [of path "filter (\<lambda>i. i \<notin> set path) S"] cyc mem by auto
qed

text \<open>Everything \<open>wireGraph\<close> can return.\<close>

lemma wireGraph_cases:
  assumes ok: "planned_ok instances"
  obtains (unresolved) e where "wire_inputs instances (indexContracts instances) unhosted = Inl e"
      "wireGraph instances (indexContracts instances) unhosted = Some (Inl e)"
  | (cycle) st path edges blocked where "wire_inputs instances (indexContracts instances) unhosted = Inr st"
      "wireGraph instances (indexContracts instances) unhosted = Some (Inl (DependencyCycle path edges blocked))"
      "is_cycle (dep_succ instances unhosted) path"
  | (ordered) st order where "wire_inputs instances (indexContracts instances) unhosted = Inr st"
      "wire_inv instances unhosted (input_pairs instances) st"
      "wireGraph instances (indexContracts instances) unhosted = Some (Inr (order, w_instances st))"
      "greedy_order (map fst instances) (dep_succ instances unhosted) Normalized order"
      "set order = fst ` set instances"
proof (cases "wire_inputs instances (indexContracts instances) unhosted")
  case (Inl e)
  with unresolved show ?thesis by (simp add: wireGraph_def)
next
  case (Inr st)
  let ?nodes = "map fst instances" and ?succ = "\<lambda>u. SortIdentities (gm_list (w_outgoing st) u)"
  define ready where "ready = SortIdentities (map fst (filter (\<lambda>(_, degree). degree = 0) (w_indegree st)))"
  obtain deg order where run: "drain_ready (w_outgoing st) (w_indegree st) ready [] = (deg, order)"
    by (cases "drain_ready (w_outgoing st) (w_indegree st) ready []")
  note inv = wire_inputs_inv [OF ok Inr]
  note k = wire_drained [OF ok inv ready_def run]
  have wg: "wireGraph instances (indexContracts instances) unhosted =
      (if length order \<noteq> length instances then map_option Inl (cycleError deg (w_outgoing st) (w_contractOf st))
       else Some (Inr (order, w_instances st)))"
    using Inr run by (simp add: wireGraph_def ready_def Let_def)
  have greedy: "greedy_order ?nodes ?succ Normalized order" and dist: "distinct ?nodes"
    using k(1) by (simp_all add: kahn_inv_def)
  note ordn = greedy_order_nodes [OF greedy]
  have len: "length order = length instances \<longleftrightarrow> set order = set ?nodes"
    using ordn dist card_subset_eq [of "set ?nodes" "set order"] by (metis List.finite_set distinct_card length_map)
  show ?thesis
  proof (cases "set order = set ?nodes")
    case True
    have "greedy_order ?nodes (dep_succ instances unhosted) Normalized order"
      using greedy greedy_order_cong [of ?succ "dep_succ instances unhosted" ?nodes Normalized order]
        wire_inv_succ [OF inv] by simp
    with True wg len inv Inr show ?thesis by (intro ordered) auto
  next
    case False
    with ordn have "set ?nodes - set order \<noteq> {}" by blast
    from cycleError_cycle [OF inv k this] obtain path blocked where
      "cycleError deg (w_outgoing st) (w_contractOf st) =
        Some (DependencyCycle path (path_edges (w_contractOf st) path) blocked)"
      "is_cycle (dep_succ instances unhosted) path" by metis
    with wg len False Inr show ?thesis by (intro cycle) auto
  qed
qed

section \<open>Correctness of the wiring\<close>

text \<open>The producers a consumer's token is bound to in the wired instances.\<close>

definition binding :: "instances \<Rightarrow> identity \<Rightarrow> InputToken \<Rightarrow> identity list" where
  "binding instances c tok =
     (case gm_get instances c of None \<Rightarrow> [] | Some inst \<Rightarrow> gm_list (pi_bindings inst) (tok_ID tok))"

lemma wire_inv_binding:
  assumes "wire_inv instances unhosted (input_pairs instances) st" "tok \<in> set (instance_inputs instances c)"
  shows "binding (w_instances st) c tok = token_matches instances (indexContracts instances) unhosted c tok"
    and "resolveToken c (instanceWorkload instances c) tok instances (indexContracts instances) unhosted
      = Inr (binding (w_instances st) c tok)"
    and "c \<notin> set (binding (w_instances st) c tok)"
proof -
  let ?m = "token_matches instances (indexContracts instances) unhosted"
  have pair: "(c, tok) \<in> set (input_pairs instances)" using assms(2) by (simp add: input_pairs_mem)
  obtain inst where "gm_get instances c = Some inst"
    using assms(2) by (cases "gm_get instances c") (auto simp: instance_inputs_def)
  then obtain b where b: "gm_get (w_instances st) c = Some (inst\<lparr>pi_bindings := b\<rparr>)"
    "gm_get b (tok_ID tok) = Some (?m c tok)"
    using assms(1) pair unfolding wire_inv_def Let_def bound_def by blast
  then show eq: "binding (w_instances st) c tok = ?m c tok"
    by (simp add: binding_def gm_list_def)
  show "resolveToken c (instanceWorkload instances c) tok instances (indexContracts instances) unhosted
      = Inr (binding (w_instances st) c tok)" "c \<notin> set (binding (w_instances st) c tok)"
    using assms(1) pair unfolding wire_inv_def Let_def eq by blast+
qed

lemma dep_succ_binding:
  assumes "wire_inv instances unhosted (input_pairs instances) st" "tok \<in> set (instance_inputs instances c)"
    and "p \<in> set (binding (w_instances st) c tok)"
  shows "p \<in> fst ` set instances" "c \<in> set (dep_succ instances unhosted p)"
proof -
  note m = assms(3) [unfolded wire_inv_binding(1) [OF assms(1,2)]]
  show "p \<in> fst ` set instances" using m token_matches_nodes by blast
  have "c \<in> fst ` set instances"
    using assms(2) gm_get_None [of instances c] by (cases "gm_get instances c") (auto simp: instance_inputs_def)
  with m assms(2) show "c \<in> set (dep_succ instances unhosted p)" by (auto simp: dep_succ_def)
qed

lemma wireGraph_ordered:
  assumes "planned_ok instances"
    and "wireGraph instances (indexContracts instances) unhosted = Some (Inr (order, instances'))"
  obtains st where "instances' = w_instances st" "wire_inv instances unhosted (input_pairs instances) st"
    "greedy_order (map fst instances) (dep_succ instances unhosted) Normalized order"
    "set order = fst ` set instances"
  using assms(1)
proof (cases rule: wireGraph_cases [where unhosted = unhosted])
  case (ordered st order')
  with assms(2) have "order' = order" "instances' = w_instances st" by simp_all
  with ordered that show ?thesis by blast
qed (use assms(2) in simp_all)

text \<open>A producer comes before the consumers it is bound to.\<close>

lemma wireGraph_before:
  assumes "planned_ok instances"
    and "wireGraph instances (indexContracts instances) unhosted = Some (Inr (order, instances'))"
    and "tok \<in> set (instance_inputs instances c)" "p \<in> set (binding instances' c tok)"
  shows "\<exists>i j. i < j \<and> j < length order \<and> order ! i = p \<and> order ! j = c"
proof -
  obtain st where st: "instances' = w_instances st" "wire_inv instances unhosted (input_pairs instances) st"
    and greedy: "greedy_order (map fst instances) (dep_succ instances unhosted) Normalized order"
    and all: "set order = fst ` set instances"
    using wireGraph_ordered [OF assms(1,2)] by metis
  note d = dep_succ_binding [OF st(2) assms(3), of p, folded st(1), OF assms(4)]
  then have "c \<in> set order" by (auto simp: all dep_succ_def)
  then obtain j where j: "j < length order" "order ! j = c" by (auto simp: in_set_conv_nth)
  from greedy_order_before [OF greedy, of p c j] d j show ?thesis by auto
qed

text \<open>
  C16. A successful wiring orders every planned instance exactly once, with every producer that an
  input is bound to before the consumer of that input. The order is canonical: at every position
  it has the least identity among the instances whose producers have all been emitted, and it is
  the only order of that length with this property.
\<close>

theorem wireGraph_order:
  assumes "planned_ok instances"
    and "wireGraph instances (indexContracts instances) unhosted = Some (Inr (order, instances'))"
  shows "distinct order \<and> set order = fst ` set instances \<and>
    (\<forall>c tok p. tok \<in> set (instance_inputs instances c) \<and> p \<in> set (binding instances' c tok) \<longrightarrow>
       (\<exists>i j. i < j \<and> j < length order \<and> order ! i = p \<and> order ! j = c)) \<and>
    greedy_order (map fst instances) (dep_succ instances unhosted) Normalized order \<and>
    (\<forall>other. greedy_order (map fst instances) (dep_succ instances unhosted) Normalized other \<and>
       length other = length order \<longrightarrow> other = order)"
proof -
  obtain greedy: "greedy_order (map fst instances) (dep_succ instances unhosted) Normalized order"
    and all: "set order = fst ` set instances"
    using wireGraph_ordered [OF assms] by metis
  note wireGraph_before [OF assms]
  moreover have "inj_on Normalized (set (map fst instances))"
  proof (rule inj_onI)
    have "normal_identity i" if "i \<in> set (map fst instances)" for i
    proof -
      from that obtain inst where "gm_get instances i = Some inst"
        using gm_get_None [of instances i] by (cases "gm_get instances i") auto
      with assms(1) show ?thesis by (simp add: planned_ok_def)
    qed
    then show "x \<in> set (map fst instances) \<Longrightarrow> y \<in> set (map fst instances) \<Longrightarrow> Normalized x = Normalized y \<Longrightarrow> x = y"
      for x y by (metis Normalized_normal)
  qed
  then have "\<forall>other. greedy_order (map fst instances) (dep_succ instances unhosted) Normalized other \<and>
       length other = length order \<longrightarrow> other = order"
    using greedy_order_unique [OF _ greedy] by blast
  ultimately show ?thesis
    using greedy_order_nodes [OF greedy] all greedy by blast
qed

text \<open>
  C17. What a query binds, on success: a \<^verbatim>\<open>Ref\<close> exactly the named instance, which exports the
  contract; a \<^verbatim>\<open>One\<close> the only exporter; an \<^verbatim>\<open>Optional\<close> at most one producer, and every
  exporter; a \<^verbatim>\<open>Many\<close> every exporter in identity order. No instance is bound to itself.
\<close>

theorem wireGraph_bindings:
  assumes "planned_ok instances"
    and "wireGraph instances (indexContracts instances) unhosted = Some (Inr (order, instances'))"
    and "tok \<in> set (instance_inputs instances c)"
  shows "c \<notin> set (binding instances' c tok) \<and>
    (let exporters = {i. \<exists>inst. (i, inst) \<in> set instances \<and> exports inst (tok_Type tok)};
         target = Normalized (Identity (tok_Key tok) (tok_Instance tok))
     in case tok_Kind tok of
          QueryRef \<Rightarrow> binding instances' c tok = [target] \<and> target \<in> exporters
        | QueryOne \<Rightarrow> (\<exists>p. binding instances' c tok = [p] \<and> exporters = {p})
        | QueryOptional \<Rightarrow> length (binding instances' c tok) \<le> 1 \<and> set (binding instances' c tok) = exporters
        | QueryMany \<Rightarrow> set (binding instances' c tok) = exporters \<and> sorted (map Normalized (binding instances' c tok))
        | QueryOther _ \<Rightarrow> False)"
proof -
  obtain st where st: "instances' = w_instances st" "wire_inv instances unhosted (input_pairs instances) st"
    using wireGraph_ordered [OF assms(1,2)] by metis
  note b = wire_inv_binding [OF st(2) assms(3), folded st(1)]
  note cand = resolveToken_Inr(1) [OF b(2)]
  note ix = indexContracts_set [of instances "tok_Type tok"] indexContracts_sorted [of instances "tok_Type tok"]
  have one: "xs = [hd xs]" if "xs \<noteq> []" "\<not> 1 < length xs" for xs :: "identity list"
    using that by (cases xs) auto
  show ?thesis
  proof (cases "tok_Kind tok")
    case QueryRef
    with cand b(3) show ?thesis
      by (auto simp: token_candidates_def Let_def split: option.splits if_splits dest: map_of_SomeD)
  next
    case QueryOne
    let ?xs = "gm_list (indexContracts instances) (tok_Type tok)"
    from QueryOne cand have xs: "?xs \<noteq> []" "\<not> 1 < length ?xs" "binding instances' c tok = ?xs"
      by (auto simp: token_candidates_def Let_def split: option.splits if_splits)
    note o = one [OF xs(1,2)]
    have "{i. \<exists>inst. (i, inst) \<in> set instances \<and> exports inst (tok_Type tok)} = {hd ?xs}"
      unfolding ix(1) [symmetric] by (subst o) simp
    with QueryOne b(3) o xs(3) show ?thesis unfolding Let_def by auto
  next
    case QueryOptional
    with cand b(3) ix show ?thesis by (auto simp: token_candidates_def Let_def split: if_splits)
  next
    case QueryMany
    with cand b(3) ix show ?thesis by (auto simp: token_candidates_def Let_def split: if_splits)
  next
    case (QueryOther n)
    with cand show ?thesis by (simp add: token_candidates_def Let_def)
  qed
qed

text \<open>
  C18. Placement never decides whether a wired edge exists: every producer an input is bound to
  belongs to no workload or to the consumer's own, unless the consumer is unowned and asked with
  \<^verbatim>\<open>Many\<close> or \<^verbatim>\<open>Optional\<close>. So there is no edge between two workloads, and no unowned consumer
  holds a \<^verbatim>\<open>Ref\<close> or \<^verbatim>\<open>One\<close> on a workload. A consumer in a workload moreover has no query that a
  workload absent from this process would have answered.
\<close>

theorem wireGraph_direction:
  assumes "planned_ok instances"
    and "wireGraph instances (indexContracts instances) unhosted = Some (Inr (order, instances'))"
    and "tok \<in> set (instance_inputs instances c)"
  shows "(\<forall>p \<in> set (binding instances' c tok).
      instanceWorkload instances p = [] \<or> instanceWorkload instances p = instanceWorkload instances c \<or>
      (instanceWorkload instances c = [] \<and> (tok_Kind tok = QueryMany \<or> tok_Kind tok = QueryOptional))) \<and>
    (instanceWorkload instances c \<noteq> [] \<longrightarrow> suppliers unhosted tok = [])"
proof -
  obtain st where st: "instances' = w_instances st" "wire_inv instances unhosted (input_pairs instances) st"
    using wireGraph_ordered [OF assms(1,2)] by metis
  note r = resolveToken_Inr [OF wire_inv_binding(2) [OF st(2) assms(3)], folded st(1)]
  show ?thesis
    using r(2,3) unfolding checkDirection_None toleratesNoProducers_def by blast
qed


section \<open>Two wired instances\<close>

lemma map_sum_eq_Inl: "map_sum id f x = Inl e \<longleftrightarrow> x = Inl e"
  by (cases x) auto

definition sample_token :: "nat \<Rightarrow> QueryKind \<Rightarrow> rtype \<Rightarrow> Key \<Rightarrow> InputToken" where
  "sample_token n kind t key = \<lparr>tok_ID = n, tok_Kind = kind, tok_Type = Some t, tok_Key = key,
     tok_Instance = ''default'', tok_Origin = ''x.go:1''\<rparr>"

definition sample_instance :: "Key \<Rightarrow> WorkloadKey \<Rightarrow> InputToken list \<Rightarrow> identity \<times> plannedInstance" where
  "sample_instance key w inputs =
     (Identity key ''default'',
      \<lparr>pi_identity = Identity key ''default'', pi_definition = sample_definition key, pi_selectedAt = ''main.go:1'',
       pi_configPath = ''plugins.'' @ key, pi_workload = w,
       pi_plan = \<lparr>ip_Inputs = inputs, ip_Factory = Some (\<lambda>st c. Returns (Inr ANil))\<rparr>, pi_bindings = [],
       pi_logger = Logger 0 [], pi_lifecycle = empty_lifecycle\<rparr>)"

definition no_unhosted :: unhostedIndex where
  "no_unhosted = \<lparr>ui_byKey = [], ui_byContract = []\<rparr>"

definition gorm_type :: rtype where
  "gorm_type = RPointer (RDefined ''gorm'' [] [])"

definition sample_instances :: instances where
  "sample_instances =
     [sample_instance ''api'' ''sast'' [sample_token 1 QueryRef gorm_type ''gorm'', sample_token 2 QueryMany gorm_type []],
      sample_instance ''gorm'' [] []]"

definition wired_instances :: instances where
  "wired_instances =
     (case wireGraph sample_instances (indexContracts sample_instances) no_unhosted of
        Some (Inr (_, instances')) \<Rightarrow> instances' | _ \<Rightarrow> [])"

lemma sample_instances_ok: "planned_ok sample_instances"
proof -
  have "gm_wf sample_instances \<and> list_all (\<lambda>(i, inst). normal_identity i \<and> ip_Factory (pi_plan inst) \<noteq> None \<and>
      distinct (map tok_ID (ip_Inputs (pi_plan inst))) \<and>
      list_all (\<lambda>t. tok_ID t \<noteq> 0 \<and> tok_Type t \<noteq> None) (ip_Inputs (pi_plan inst))) sample_instances"
    by code_simp
  then show ?thesis
    by (fastforce simp: planned_ok_def plan_ok_def list_all_iff dest: map_of_SomeD)
qed

lemma sample_wired:
  "wireGraph sample_instances (indexContracts sample_instances) no_unhosted =
     Some (Inr ([Identity ''gorm'' ''default'', Identity ''api'' ''default''], wired_instances))"
proof -
  have "map_option (map_sum (\<lambda>_. ()) fst) (wireGraph sample_instances (indexContracts sample_instances) no_unhosted)
      = Some (Inr [Identity ''gorm'' ''default'', Identity ''api'' ''default''])"
    by code_simp
  then show ?thesis
    by (auto simp: wired_instances_def split: option.splits sum.splits)
qed

lemma sample_input: "sample_token 1 QueryRef gorm_type ''gorm'' \<in> set (instance_inputs sample_instances (Identity ''api'' ''default''))"
  by (simp add: instance_inputs_def sample_instances_def sample_instance_def)

lemma sample_binding:
  "binding wired_instances (Identity ''api'' ''default'') (sample_token 1 QueryRef gorm_type ''gorm'') = [Identity ''gorm'' ''default'']"
  by code_simp

theorem wireGraph_order_witness:
  "\<exists>order i j. wireGraph sample_instances (indexContracts sample_instances) no_unhosted = Some (Inr (order, wired_instances)) \<and>
     i < j \<and> j < length order \<and> order ! i = Identity ''gorm'' ''default'' \<and> order ! j = Identity ''api'' ''default''"
proof -
  note t = wireGraph_order [OF sample_instances_ok sample_wired, THEN conjunct2, THEN conjunct2, THEN conjunct1, rule_format,
    of "sample_token 1 QueryRef gorm_type ''gorm''" "Identity ''api'' ''default''" "Identity ''gorm'' ''default''"]
  from t sample_input show ?thesis unfolding sample_binding sample_wired by simp
qed

theorem wireGraph_bindings_witness:
  "binding wired_instances (Identity ''api'' ''default'') (sample_token 1 QueryRef gorm_type ''gorm'')
     = [Normalized (Identity ''gorm'' ''default'')]"
proof -
  have "tok_Kind (sample_token 1 QueryRef gorm_type ''gorm'') = QueryRef"
    "tok_Key (sample_token 1 QueryRef gorm_type ''gorm'') = ''gorm''"
    "tok_Instance (sample_token 1 QueryRef gorm_type ''gorm'') = ''default''"
    by (simp_all add: sample_token_def)
  with wireGraph_bindings [OF sample_instances_ok sample_wired sample_input] show ?thesis by (simp add: Let_def)
qed

theorem wireGraph_direction_witness:
  "instanceWorkload sample_instances (Identity ''gorm'' ''default'') = [] \<and>
   instanceWorkload sample_instances (Identity ''api'' ''default'') = ''sast'' \<and>
   suppliers no_unhosted (sample_token 1 QueryRef gorm_type ''gorm'') = []"
proof -
  have w: "instanceWorkload sample_instances (Identity ''api'' ''default'') = ''sast''"
    "instanceWorkload sample_instances (Identity ''gorm'' ''default'') \<noteq> ''sast''" by code_simp+
  note t = wireGraph_direction [OF sample_instances_ok sample_wired sample_input, unfolded sample_binding w]
  from t w show ?thesis by simp
qed

definition looped_instances :: instances where
  "looped_instances =
     [sample_instance ''a'' [] [sample_token 1 QueryRef (RPointer (RDefined ''b'' [] [])) ''b''],
      sample_instance ''b'' [] [sample_token 2 QueryRef (RPointer (RDefined ''a'' [] [])) ''a'']]"


end
