(* ===== verification/Plan.thy ===== *)
theory Plan
  imports Wiring
begin

text \<open>
  \<^verbatim>\<open>BuildPlan\<close> of \<^verbatim>\<open>plugin/assembly/plan.go\<close>: the composition is frozen, the Definitions of the
  workloads this process does not carry are removed, the rest is expanded and wired, and the
  result is the immutable plan with its accessors. A \<^verbatim>\<open>*Plan\<close> is a \<open>Plan option\<close>.
\<close>

section \<open>Data\<close>

text \<open>\<open>pl_Hosted = None\<close> is the nil slice, which the code tells apart from an empty one.\<close>

record Placement =
  pl_Source :: string
  pl_Holder :: string
  pl_Hosted :: "WorkloadKey list option"
  pl_Notes :: "string list"

record PlanOptions =
  po_Bundles :: "Bundle list"
  po_Env :: "environment option"
  po_Logger :: "Logger option"
  po_Placement :: Placement

record PlanWorkload =
  pw_Workload :: Workload
  pw_Hosted :: bool
  pw_Identities :: "identity list"

record Plan =
  plan_definitionCount :: nat
  plan_instances :: instances
  plan_order :: "identity list"
  plan_disabled :: "DisabledDefinition list"
  plan_contractIndex :: "(rtype option, identity list) gomap"
  plan_placement :: Placement
  plan_workloads :: "PlanWorkload list"
  plan_workloadOf :: "(identity, WorkloadKey) gomap"

datatype plan_error =
    PlanFreeze freeze_error
  | PlanWorkloads workload_error
  | PlanExpand expand_error
  | PlanWire wire_error

section \<open>Building\<close>

definition placementSourceUnspecified :: string where
  "placementSourceUnspecified = ''static (default)''"

definition hosted_keys :: "WorkloadKey list option \<Rightarrow> WorkloadKey list" where
  "hosted_keys h = (case h of None \<Rightarrow> [] | Some ks \<Rightarrow> ks)"

definition hostedWorkloads :: "Placement \<Rightarrow> Workload list \<Rightarrow> (WorkloadKey, bool) gomap" where
  "hostedWorkloads placement declared =
     (if pl_Source placement = [] \<and> pl_Hosted placement = None
      then fold (\<lambda>w. gm_put (wl_Key w) True) declared []
      else fold (\<lambda>k. gm_put k True) (hosted_keys (pl_Hosted placement)) [])"

definition groupWorkloads ::
  "Workload list \<Rightarrow> (WorkloadKey, bool) gomap \<Rightarrow> identity list \<Rightarrow> (identity, WorkloadKey) gomap \<Rightarrow> PlanWorkload list" where
  "groupWorkloads declared hosted order workloadOf =
     (if declared = [] then []
      else
        let identities = fold (\<lambda>i m. case gm_get workloadOf i of
                None \<Rightarrow> m | Some w \<Rightarrow> gm_put w (gm_list m w @ [i]) m) order []
        in map (\<lambda>w. \<lparr>pw_Workload = w, pw_Hosted = gm_bool hosted (wl_Key w),
                    pw_Identities = gm_list identities (wl_Key w)\<rparr>) declared)"

text \<open>One round of the loop that drops what is not hosted.\<close>

definition host_selection ::
  "(WorkloadKey, bool) gomap \<Rightarrow> selectedDefinition \<Rightarrow> selectedDefinition list \<times> unhostedIndex
     \<Rightarrow> selectedDefinition list \<times> unhostedIndex" where
  "host_selection hosted s st =
     (case st of (selections, unhosted) \<Rightarrow>
        if sd_workload s \<noteq> [] \<and> \<not> gm_bool hosted (sd_workload s)
        then (selections, unhosted_record s unhosted) else (selections @ [s], unhosted))"

definition BuildPlan ::
  "config_ops \<Rightarrow> Logger \<Rightarrow> def_heap \<Rightarrow> PlanOptions \<Rightarrow> (plan_error, Plan) result option" where
  "BuildPlan ops default_logger h options =
     (let env = (case po_Env options of None \<Rightarrow> empty_environment | Some e \<Rightarrow> e) in
      case freezeBundles h (po_Bundles options) of
        Inl e \<Rightarrow> Some (Inl (PlanFreeze e))
      | Inr definitions \<Rightarrow>
      (case declaredWorkloads h (po_Bundles options) of
        Inl e \<Rightarrow> Some (Inl (PlanWorkloads e))
      | Inr workloads \<Rightarrow>
      (let hosted = hostedWorkloads (po_Placement options) workloads in
       case fold (host_selection hosted) definitions ([], \<lparr>ui_byKey = [], ui_byContract = []\<rparr>) of
        (selections, unhosted) \<Rightarrow>
      (case expandDefinitions ops default_logger selections env (po_Logger options) of
        Inl e \<Rightarrow> Some (Inl (PlanExpand e))
      | Inr (env', instances, disabled) \<Rightarrow>
      (let contractIndex = indexContracts instances in
       case wireGraph instances contractIndex unhosted of
        None \<Rightarrow> None
      | Some (Inl e) \<Rightarrow> Some (Inl (PlanWire e))
      | Some (Inr (order, instances')) \<Rightarrow>
          let placement = po_Placement options;
              placement' = (if pl_Source placement = [] \<and> pl_Hosted placement = None
                then placement\<lparr>pl_Source := placementSourceUnspecified\<rparr> else placement);
              workloadOf = map (\<lambda>(i, inst). (i, pi_workload inst))
                (filter (\<lambda>(i, inst). pi_workload inst \<noteq> []) instances')
          in Some (Inr
               \<lparr>plan_definitionCount = length selections, plan_instances = instances', plan_order = order,
                plan_disabled = disabled,
                plan_contractIndex = map (\<lambda>(t, ids). (t, orderSubset order ids)) contractIndex,
                plan_placement = placement',
                plan_workloads = groupWorkloads workloads hosted order workloadOf,
                plan_workloadOf = workloadOf\<rparr>))))))"

section \<open>Accessors\<close>

definition Order :: "Plan option \<Rightarrow> identity list" where
  "Order plan = (case plan of None \<Rightarrow> [] | Some p \<Rightarrow> plan_order p)"

definition Workloads :: "Plan option \<Rightarrow> PlanWorkload list" where
  "Workloads plan = (case plan of None \<Rightarrow> [] | Some p \<Rightarrow> plan_workloads p)"

definition zero_placement :: Placement where
  "zero_placement = \<lparr>pl_Source = [], pl_Holder = [], pl_Hosted = None, pl_Notes = []\<rparr>"

text \<open>The copies \<^verbatim>\<open>append([]T(nil), xs...)\<close> of an empty slice are nil.\<close>

definition copy_slice :: "'a list option \<Rightarrow> 'a list option" where
  "copy_slice xs = (case xs of None \<Rightarrow> None | Some [] \<Rightarrow> None | Some ys \<Rightarrow> Some ys)"

definition Plan_Placement :: "Plan option \<Rightarrow> Placement" where
  "Plan_Placement plan =
     (case plan of None \<Rightarrow> zero_placement
      | Some p \<Rightarrow> \<lparr>pl_Source = pl_Source (plan_placement p), pl_Holder = pl_Holder (plan_placement p),
                   pl_Hosted = copy_slice (pl_Hosted (plan_placement p)), pl_Notes = pl_Notes (plan_placement p)\<rparr>)"

definition Plan_WorkloadOf :: "Plan option \<Rightarrow> identity \<Rightarrow> WorkloadKey \<times> bool" where
  "Plan_WorkloadOf plan i =
     (case plan of None \<Rightarrow> ([], False)
      | Some p \<Rightarrow> (case gm_get (plan_workloadOf p) (Normalized i) of
          None \<Rightarrow> ([], False) | Some w \<Rightarrow> (w, True)))"

definition DefinitionCount :: "Plan option \<Rightarrow> nat" where
  "DefinitionCount plan = (case plan of None \<Rightarrow> 0 | Some p \<Rightarrow> plan_definitionCount p)"

definition Disabled :: "Plan option \<Rightarrow> Key list" where
  "Disabled plan = (case plan of None \<Rightarrow> [] | Some p \<Rightarrow> map dis_Key (plan_disabled p))"

definition DisabledDetail :: "Plan option \<Rightarrow> DisabledDefinition list" where
  "DisabledDetail plan = (case plan of None \<Rightarrow> [] | Some p \<Rightarrow> plan_disabled p)"

text \<open>\<^verbatim>\<open>plan.instances[identity.Normalized()]\<close>.\<close>

definition plan_instance :: "Plan option \<Rightarrow> identity \<Rightarrow> plannedInstance option" where
  "plan_instance plan i = (case plan of None \<Rightarrow> None | Some p \<Rightarrow> gm_get (plan_instances p) (Normalized i))"

definition InstanceConfigPath :: "Plan option \<Rightarrow> identity \<Rightarrow> string" where
  "InstanceConfigPath plan i = (case plan_instance plan i of None \<Rightarrow> [] | Some inst \<Rightarrow> pi_configPath inst)"

definition InstanceActivationPath :: "Plan option \<Rightarrow> identity \<Rightarrow> string \<times> bool" where
  "InstanceActivationPath plan i =
     (case plan_instance plan i of None \<Rightarrow> ([], False)
      | Some inst \<Rightarrow>
          if act_Kind (dd_Activation (pi_definition inst)) \<noteq> ActivationConfigured then ([], False)
          else (act_Path (dd_Activation (pi_definition inst)), True))"

definition InstanceSelectedAt :: "Plan option \<Rightarrow> identity \<Rightarrow> string" where
  "InstanceSelectedAt plan i = (case plan_instance plan i of None \<Rightarrow> [] | Some inst \<Rightarrow> pi_selectedAt inst)"

record InputEdge =
  ie_Contract :: "rtype option"
  ie_Query :: string
  ie_Producers :: "identity list"

definition describeQuery :: "QueryKind \<Rightarrow> string" where
  "describeQuery kind =
     (case kind of
        QueryRef \<Rightarrow> ''ref''
      | QueryOne \<Rightarrow> ''one''
      | QueryOptional \<Rightarrow> ''optional''
      | QueryMany \<Rightarrow> ''many''
      | QueryOther n \<Rightarrow> ''query('' @ nat_digits n @ '')'')"

definition InstanceInputs :: "Plan option \<Rightarrow> identity \<Rightarrow> InputEdge list" where
  "InstanceInputs plan i =
     (case plan_instance plan i of None \<Rightarrow> []
      | Some inst \<Rightarrow>
          map (\<lambda>tok. \<lparr>ie_Contract = tok_Type tok, ie_Query = describeQuery (tok_Kind tok),
                      ie_Producers = SortIdentities (gm_list (pi_bindings inst) (tok_ID tok))\<rparr>)
            (ip_Inputs (pi_plan inst)))"

definition Contracts :: "Plan option \<Rightarrow> rtype option \<Rightarrow> identity list" where
  "Contracts plan contract = (case plan of None \<Rightarrow> [] | Some p \<Rightarrow> gm_list (plan_contractIndex p) contract)"

section \<open>What is hosted\<close>

lemma gm_bool_fold_put: "gm_bool (fold (\<lambda>x. gm_put (f x) True) xs m) k \<longleftrightarrow> gm_bool m k \<or> k \<in> f ` set xs"
  by (induction xs arbitrary: m) auto

lemma hostedWorkloads_iff:
  "gm_bool (hostedWorkloads placement declared) k \<longleftrightarrow>
     (if pl_Source placement = [] \<and> pl_Hosted placement = None then k \<in> wl_Key ` set declared
      else k \<in> set (hosted_keys (pl_Hosted placement)))"
  using gm_bool_fold_put [of wl_Key declared "[]" k] gm_bool_fold_put [of "\<lambda>k. k" "hosted_keys (pl_Hosted placement)" "[]" k]
  by (auto simp: hostedWorkloads_def gm_bool_def)

definition carried :: "(WorkloadKey, bool) gomap \<Rightarrow> selectedDefinition \<Rightarrow> bool" where
  "carried hosted s \<longleftrightarrow> sd_workload s = [] \<or> gm_bool hosted (sd_workload s)"

lemma host_selections:
  "fold (host_selection hosted) defs (sels, unhosted) =
     (sels @ filter (carried hosted) defs,
      fold unhosted_record (filter (\<lambda>s. \<not> carried hosted s) defs) unhosted)"
  by (induction defs arbitrary: sels unhosted) (auto simp: host_selection_def carried_def)

lemma group_identities:
  "gm_list (fold (\<lambda>i m. case gm_get workloadOf i of
       None \<Rightarrow> m | Some w \<Rightarrow> gm_put w (gm_list m w @ [i]) m) order m) w =
     gm_list m w @ filter (\<lambda>i. gm_get workloadOf i = Some w) order"
  by (induction order arbitrary: m) (auto split: option.splits)

section \<open>What a built plan holds\<close>

text \<open>The stages of a successful build.\<close>

definition built_plan ::
  "config_ops \<Rightarrow> Logger \<Rightarrow> def_heap \<Rightarrow> PlanOptions \<Rightarrow> Plan \<Rightarrow> selectedDefinition list \<Rightarrow> Workload list \<Rightarrow>
     (WorkloadKey, bool) gomap \<Rightarrow> unhostedIndex \<Rightarrow> instances \<Rightarrow> bool" where
  "built_plan ops dl h options plan defs workloads hosted unhosted insts \<longleftrightarrow>
     freezeBundles h (po_Bundles options) = Inr defs \<and>
     declaredWorkloads h (po_Bundles options) = Inr workloads \<and>
     hosted = hostedWorkloads (po_Placement options) workloads \<and>
     unhosted = fold unhosted_record (filter (\<lambda>s. \<not> carried hosted s) defs) \<lparr>ui_byKey = [], ui_byContract = []\<rparr> \<and>
     plan_definitionCount plan = length (filter (carried hosted) defs) \<and>
     (\<exists>env'. expandDefinitions ops dl (filter (carried hosted) defs)
        (case po_Env options of None \<Rightarrow> empty_environment | Some e \<Rightarrow> e) (po_Logger options)
        = Inr (env', insts, plan_disabled plan)) \<and>
     wireGraph insts (indexContracts insts) unhosted = Some (Inr (plan_order plan, plan_instances plan)) \<and>
     plan_contractIndex plan = map (\<lambda>(t, ids). (t, orderSubset (plan_order plan) ids)) (indexContracts insts) \<and>
     plan_workloadOf plan = map (\<lambda>(i, inst). (i, pi_workload inst))
       (filter (\<lambda>(i, inst). pi_workload inst \<noteq> []) (plan_instances plan)) \<and>
     plan_workloads plan = groupWorkloads workloads hosted (plan_order plan) (plan_workloadOf plan)"

lemma BuildPlan_built:
  assumes "BuildPlan ops dl h options = Some (Inr plan)"
  obtains defs workloads hosted unhosted insts where
    "built_plan ops dl h options plan defs workloads hosted unhosted insts"
  using assms unfolding BuildPlan_def
  by (auto simp: Let_def host_selections built_plan_def
      split: sum.splits option.splits prod.splits)

lemma built_planD:
  assumes "built_plan ops dl h options plan defs workloads hosted unhosted insts"
  shows "freezeBundles h (po_Bundles options) = Inr defs"
    and "declaredWorkloads h (po_Bundles options) = Inr workloads"
    and "hosted = hostedWorkloads (po_Placement options) workloads"
    and "wireGraph insts (indexContracts insts) unhosted = Some (Inr (plan_order plan, plan_instances plan))"
    and "plan_contractIndex plan = map (\<lambda>(t, ids). (t, orderSubset (plan_order plan) ids)) (indexContracts insts)"
    and "plan_workloadOf plan = map (\<lambda>(i, inst). (i, pi_workload inst))
       (filter (\<lambda>(i, inst). pi_workload inst \<noteq> []) (plan_instances plan))"
    and "plan_workloads plan = groupWorkloads workloads hosted (plan_order plan) (plan_workloadOf plan)"
  using assms unfolding built_plan_def by blast+

lemma built_plan_ok:
  assumes "built_plan ops dl h options plan defs workloads hosted unhosted insts"
  shows "planned_ok insts"
    and "gm_get insts i = Some inst \<Longrightarrow> \<exists>s \<in> set defs. carried hosted s \<and> well_planned s i inst"
proof -
  from assms obtain env env' logger where ex: "expandDefinitions ops dl (filter (carried hosted) defs) env logger
      = Inr (env', insts, plan_disabled plan)" and fr: "freezeBundles h (po_Bundles options) = Inr defs"
    by (auto simp: built_plan_def)
  have "distinct (map sel_key (filter (carried hosted) defs))"
    using freezeBundles_selections(3) [OF fr] by (simp add: distinct_map_filter o_def)
  note r = expandDefinitions_instances [OF ex this]
  show "\<exists>s \<in> set defs. carried hosted s \<and> well_planned s i inst" if "gm_get insts i = Some inst"
    using r(2) [OF that] by auto
  show "planned_ok insts"
    using r unfolding planned_ok_def well_planned_def by blast
qed

text \<open>Wiring changes only the bindings.\<close>

lemma wireGraph_instances:
  assumes "planned_ok insts" "wireGraph insts (indexContracts insts) unhosted = Some (Inr (order, insts'))"
  shows "map fst insts' = map fst insts" "gm_wf insts'"
    and "gm_get insts c = Some inst \<Longrightarrow> \<exists>b. gm_get insts' c = Some (inst\<lparr>pi_bindings := b\<rparr>)"
    and "gm_get insts c = None \<longleftrightarrow> gm_get insts' c = None"
proof -
  obtain st where st: "insts' = w_instances st" "wire_inv insts unhosted (input_pairs insts) st"
    using wireGraph_ordered [OF assms] by metis
  then have b: "bound insts (token_matches insts (indexContracts insts) unhosted) (input_pairs insts) insts'"
    by (simp add: wire_inv_def Let_def)
  show keys: "map fst insts' = map fst insts" using b by (simp add: bound_def)
  with assms(1) show "gm_wf insts'" by (simp add: planned_ok_def gm_wf_def)
  show "\<exists>b. gm_get insts' c = Some (inst\<lparr>pi_bindings := b\<rparr>)" if "gm_get insts c = Some inst"
    using b that unfolding bound_def by blast
  show "gm_get insts c = None \<longleftrightarrow> gm_get insts' c = None"
    using keys by (metis gm_get_None set_map)
qed

lemma built_plan_instance:
  assumes built: "built_plan ops dl h options plan defs workloads hosted unhosted insts"
    and i: "gm_get (plan_instances plan) i = Some inst"
  obtains inst0 b s where "gm_get insts i = Some inst0" "inst = inst0\<lparr>pi_bindings := b\<rparr>" "s \<in> set defs"
    "carried hosted s" "well_planned s i inst0"
proof -
  note ok = built_plan_ok [OF built]
  note wg = built_planD(4) [OF built]
  note w = wireGraph_instances [OF ok(1) wg]
  from w(4) [of i] i obtain inst0 where "gm_get insts i = Some inst0" by (cases "gm_get insts i") auto
  with w(3) [OF this] ok(2) [OF this] i that show ?thesis by auto
qed

lemma built_plan_workloadOf:
  assumes "built_plan ops dl h options plan defs workloads hosted unhosted insts"
  shows "gm_get (plan_workloadOf plan) i = Some w \<longleftrightarrow>
    (\<exists>inst. gm_get (plan_instances plan) i = Some inst \<and> pi_workload inst = w \<and> w \<noteq> [])"
proof -
  note wg = built_planD(4) [OF assms] and wof = built_planD(6) [OF assms]
  have wf: "gm_wf (plan_instances plan)" by (rule wireGraph_instances(2) [OF built_plan_ok(1) [OF assms] wg])
  have "gm_wf (filter (\<lambda>(i, inst). pi_workload inst \<noteq> []) (plan_instances plan))"
    using wf by (simp add: gm_wf_def distinct_map_filter)
  then have "gm_get (plan_workloadOf plan) i = Some w \<longleftrightarrow>
      (\<exists>inst. (i, inst) \<in> set (filter (\<lambda>(i, inst). pi_workload inst \<noteq> []) (plan_instances plan)) \<and> pi_workload inst = w)"
    unfolding wof gm_get_map_values by (auto simp: gm_get_in_set)
  also have "\<dots> \<longleftrightarrow> (\<exists>inst. gm_get (plan_instances plan) i = Some inst \<and> pi_workload inst = w \<and> w \<noteq> [])"
    using gm_get_in_set [OF wf] by auto
  finally show ?thesis .
qed

lemma built_plan_carried:
  assumes "built_plan ops dl h options plan defs workloads hosted unhosted insts"
    and "gm_get (plan_instances plan) i = Some inst"
  shows "pi_workload inst = [] \<or> gm_bool hosted (pi_workload inst)"
proof -
  obtain inst0 b s where "inst = inst0\<lparr>pi_bindings := b\<rparr>" "carried hosted s" "well_planned s i inst0"
    using built_plan_instance [OF assms] by metis
  then show ?thesis by (simp add: carried_def well_planned_def)
qed

lemma built_plan_normal:
  assumes "built_plan ops dl h options plan defs workloads hosted unhosted insts" "i \<in> set (plan_order plan)"
  shows "Normalized i = i"
proof -
  note ok = built_plan_ok(1) [OF assms(1)]
  have "set (plan_order plan) = fst ` set insts" using wireGraph_ordered [OF ok built_planD(4) [OF assms(1)]] by metis
  with assms(2) obtain inst where "gm_get insts i = Some inst"
    using gm_get_None [of insts i] by (cases "gm_get insts i") auto
  with ok show ?thesis by (simp add: planned_ok_def)
qed

lemma Plan_WorkloadOf_iff:
  "Plan_WorkloadOf (Some plan) i = (w, True) \<longleftrightarrow> gm_get (plan_workloadOf plan) (Normalized i) = Some w"
  by (auto simp: Plan_WorkloadOf_def split: option.splits)

lemma built_plan_groups:
  assumes built: "built_plan ops dl h options plan defs workloads hosted unhosted insts"
  shows "plan_workloads plan = map (\<lambda>w. \<lparr>pw_Workload = w, pw_Hosted = gm_bool hosted (wl_Key w),
      pw_Identities = filter (\<lambda>i. Plan_WorkloadOf (Some plan) i = (wl_Key w, True)) (plan_order plan)\<rparr>) workloads"
    and "\<not> gm_bool hosted k \<Longrightarrow> filter (\<lambda>i. Plan_WorkloadOf (Some plan) i = (k, True)) (plan_order plan) = []"
proof -
  have ids: "filter (\<lambda>i. gm_get (plan_workloadOf plan) i = Some k) (plan_order plan) =
      filter (\<lambda>i. Plan_WorkloadOf (Some plan) i = (k, True)) (plan_order plan)" for k
    by (rule filter_cong) (simp_all add: Plan_WorkloadOf_iff built_plan_normal [OF built])
  show "plan_workloads plan = map (\<lambda>w. \<lparr>pw_Workload = w, pw_Hosted = gm_bool hosted (wl_Key w),
      pw_Identities = filter (\<lambda>i. Plan_WorkloadOf (Some plan) i = (wl_Key w, True)) (plan_order plan)\<rparr>) workloads"
    using built_planD(7) [OF built]
    by (simp add: groupWorkloads_def group_identities ids) (simp add: gm_list_def)
  show "filter (\<lambda>i. Plan_WorkloadOf (Some plan) i = (k, True)) (plan_order plan) = []" if "\<not> gm_bool hosted k"
  proof -
    have "gm_get (plan_workloadOf plan) i \<noteq> Some k" for i
      using built_plan_workloadOf [OF built, of i k] built_plan_carried [OF built] that by blast
    then show ?thesis by (simp add: Plan_WorkloadOf_iff)
  qed
qed

text \<open>
  C20. A workload this process does not carry has no presence in its plan: every planned instance
  belongs to no workload or to a carried one, the workload that \<open>WorkloadOf\<close> reports is the one
  of the instance's Definition, and every declared workload is listed with exactly its instances
  in construction order, none when it is not carried.
\<close>

theorem BuildPlan_hosting:
  assumes "BuildPlan ops dl h options = Some (Inr plan)"
  shows "\<exists>workloads. declaredWorkloads h (po_Bundles options) = Inr workloads \<and>
    (let hosted = hostedWorkloads (po_Placement options) workloads in
     (\<forall>i inst. gm_get (plan_instances plan) i = Some inst \<longrightarrow>
        pi_workload inst = [] \<or> gm_bool hosted (pi_workload inst)) \<and>
     (\<forall>i w. Plan_WorkloadOf (Some plan) i = (w, True) \<longleftrightarrow>
        (\<exists>inst. gm_get (plan_instances plan) (Normalized i) = Some inst \<and> pi_workload inst = w \<and> w \<noteq> [])) \<and>
     map pw_Workload (Workloads (Some plan)) = workloads \<and>
     (\<forall>pw \<in> set (Workloads (Some plan)).
        pw_Hosted pw = gm_bool hosted (wl_Key (pw_Workload pw)) \<and>
        pw_Identities pw = filter (\<lambda>i. Plan_WorkloadOf (Some plan) i = (wl_Key (pw_Workload pw), True)) (Order (Some plan)) \<and>
        (\<not> pw_Hosted pw \<longrightarrow> pw_Identities pw = [])))"
proof -
  obtain defs workloads hosted unhosted insts where
    built: "built_plan ops dl h options plan defs workloads hosted unhosted insts"
    using BuildPlan_built [OF assms] by metis
  note b = built_planD [OF built] and g = built_plan_groups [OF built]
  have "\<forall>pw \<in> set (plan_workloads plan). pw_Hosted pw = gm_bool hosted (wl_Key (pw_Workload pw)) \<and>
      pw_Identities pw = filter (\<lambda>i. Plan_WorkloadOf (Some plan) i = (wl_Key (pw_Workload pw), True)) (plan_order plan) \<and>
      (\<not> pw_Hosted pw \<longrightarrow> pw_Identities pw = [])"
    unfolding g(1) by (auto simp: g(2))
  moreover have "map pw_Workload (plan_workloads plan) = workloads" by (simp add: g(1) o_def)
  moreover have "\<forall>i w. Plan_WorkloadOf (Some plan) i = (w, True) \<longleftrightarrow>
      (\<exists>inst. gm_get (plan_instances plan) (Normalized i) = Some inst \<and> pi_workload inst = w \<and> w \<noteq> [])"
    unfolding Plan_WorkloadOf_iff built_plan_workloadOf [OF built] by blast
  moreover have "\<forall>i inst. gm_get (plan_instances plan) i = Some inst \<longrightarrow>
      pi_workload inst = [] \<or> gm_bool hosted (pi_workload inst)"
    using built_plan_carried [OF built] by blast
  ultimately have "declaredWorkloads h (po_Bundles options) = Inr workloads \<and>
    (\<forall>i inst. gm_get (plan_instances plan) i = Some inst \<longrightarrow> pi_workload inst = [] \<or> gm_bool hosted (pi_workload inst)) \<and>
    (\<forall>i w. Plan_WorkloadOf (Some plan) i = (w, True) \<longleftrightarrow>
       (\<exists>inst. gm_get (plan_instances plan) (Normalized i) = Some inst \<and> pi_workload inst = w \<and> w \<noteq> [])) \<and>
    map pw_Workload (plan_workloads plan) = workloads \<and>
    (\<forall>pw \<in> set (plan_workloads plan). pw_Hosted pw = gm_bool hosted (wl_Key (pw_Workload pw)) \<and>
      pw_Identities pw = filter (\<lambda>i. Plan_WorkloadOf (Some plan) i = (wl_Key (pw_Workload pw), True)) (plan_order plan) \<and>
      (\<not> pw_Hosted pw \<longrightarrow> pw_Identities pw = []))"
    by (intro conjI b(2)) assumption+
  then show ?thesis
    unfolding Let_def Workloads_def Order_def option.case b(3) by (rule exI)
qed

text \<open>
  The construction order of a built plan lists exactly its instances, each once, and every
  producer that an input of an instance is bound to comes before that instance; no edge of the
  plan crosses from one workload into another.
\<close>

lemma BuildPlan_order:
  assumes "BuildPlan ops dl h options = Some (Inr plan)"
  shows "distinct (Order (Some plan)) \<and> set (Order (Some plan)) = fst ` set (plan_instances plan) \<and>
    (\<forall>c inst tok p. gm_get (plan_instances plan) c = Some inst \<and> tok \<in> set (ip_Inputs (pi_plan inst)) \<and>
       p \<in> set (gm_list (pi_bindings inst) (tok_ID tok)) \<longrightarrow>
       (\<exists>i j. i < j \<and> j < length (Order (Some plan)) \<and> Order (Some plan) ! i = p \<and> Order (Some plan) ! j = c) \<and>
       (pi_workload inst = [] \<or> instanceWorkload (plan_instances plan) p \<in> {[], pi_workload inst}))"
proof -
  obtain defs workloads hosted unhosted insts where
    built: "built_plan ops dl h options plan defs workloads hosted unhosted insts"
    using BuildPlan_built [OF assms] by metis
  note ok = built_plan_ok(1) [OF built] and wg = built_planD(4) [OF built]
  note keep = wireGraph_instances [OF ok wg]
  obtain st where st: "plan_instances plan = w_instances st" "wire_inv insts unhosted (input_pairs insts) st"
    and greedy: "greedy_order (map fst insts) (dep_succ insts unhosted) Normalized (plan_order plan)"
    and all: "set (plan_order plan) = fst ` set insts"
    using wireGraph_ordered [OF ok wg] by metis
  have edge: "(\<exists>i j. i < j \<and> j < length (plan_order plan) \<and> plan_order plan ! i = p \<and> plan_order plan ! j = c) \<and>
      (pi_workload inst = [] \<or> instanceWorkload (plan_instances plan) p \<in> {[], pi_workload inst})"
    if c: "gm_get (plan_instances plan) c = Some inst" and tok: "tok \<in> set (ip_Inputs (pi_plan inst))"
      and p: "p \<in> set (gm_list (pi_bindings inst) (tok_ID tok))" for c inst tok p
  proof -
    obtain inst0 b where i0: "gm_get insts c = Some inst0" "inst = inst0\<lparr>pi_bindings := b\<rparr>"
      using built_plan_instance [OF built c] by metis
    then have tok': "tok \<in> set (instance_inputs insts c)" using tok by (simp add: instance_inputs_def)
    have p': "p \<in> set (binding (plan_instances plan) c tok)" using p c by (simp add: binding_def)
    have same: "instanceWorkload (plan_instances plan) x = instanceWorkload insts x" for x
      using keep(3,4) [of x] by (cases "gm_get insts x") (auto simp: instanceWorkload_def)
    have "instanceWorkload insts c = pi_workload inst" using i0 by (simp add: instanceWorkload_def)
    with resolveToken_Inr(2) [OF wire_inv_binding(2) [OF st(2) tok'], unfolded checkDirection_None, folded st(1)] p'
    have "pi_workload inst = [] \<or> instanceWorkload (plan_instances plan) p \<in> {[], pi_workload inst}"
      by (auto simp: same)
    with wireGraph_before [OF ok wg tok' p'] show ?thesis by blast
  qed
  have "fst ` set (plan_instances plan) = fst ` set insts" using keep(1) by (metis set_map)
  with greedy_order_nodes [OF greedy] all edge show ?thesis
    unfolding Order_def option.case by (intro conjI allI impI) (auto, blast)
qed

text \<open>
  \<open>Contracts\<close> of a built plan lists exactly the instances that export the contract, in
  construction order.
\<close>

lemma Contracts_exporters:
  assumes "BuildPlan ops dl h options = Some (Inr plan)"
  shows "Contracts (Some plan) t =
    filter (\<lambda>i. \<exists>inst. gm_get (plan_instances plan) i = Some inst \<and> exports inst t) (Order (Some plan))"
proof -
  obtain defs workloads hosted unhosted insts where
    built: "built_plan ops dl h options plan defs workloads hosted unhosted insts"
    using BuildPlan_built [OF assms] by metis
  note ok = built_plan_ok(1) [OF built] and wg = built_planD(4) [OF built]
  note keep = wireGraph_instances [OF ok wg]
  have wf: "gm_wf insts" using ok by (simp add: planned_ok_def)
  have "Contracts (Some plan) t = orderSubset (plan_order plan) (gm_list (indexContracts insts) t)"
    unfolding Contracts_def option.case built_planD(5) [OF built] gm_list_def gm_get_map_values
    by (simp add: orderSubset_def split: option.splits)
  also have "\<dots> = filter (\<lambda>i. \<exists>inst. gm_get insts i = Some inst \<and> exports inst t) (plan_order plan)"
    unfolding orderSubset_def indexContracts_set by (simp add: gm_get_in_set [OF wf])
  also have "\<dots> = filter (\<lambda>i. \<exists>inst. gm_get (plan_instances plan) i = Some inst \<and> exports inst t) (plan_order plan)"
  proof (rule filter_cong [OF refl])
    fix i
    show "(\<exists>inst. gm_get insts i = Some inst \<and> exports inst t) \<longleftrightarrow>
        (\<exists>inst. gm_get (plan_instances plan) i = Some inst \<and> exports inst t)"
      using keep(3,4) [of i] by (cases "gm_get insts i") (auto simp: exports_def)
  qed
  finally show ?thesis by (simp add: Order_def)
qed

text \<open>
  Building a plan always returns a plan or an error: for every composition, configuration and
  placement the sorting loop ends and the search for a cycle stays within its depth.
\<close>

lemma BuildPlan_total: "\<exists>result. BuildPlan ops dl h options = Some result"
proof -
  have "BuildPlan ops dl h options \<noteq> None"
  proof
    assume none: "BuildPlan ops dl h options = None"
    then obtain defs workloads sels env' insts disabled unhosted where
      fr: "freezeBundles h (po_Bundles options) = Inr defs"
      and ex: "expandDefinitions ops dl (filter (carried (hostedWorkloads (po_Placement options) workloads)) defs)
          (case po_Env options of None \<Rightarrow> empty_environment | Some e \<Rightarrow> e) (po_Logger options) = Inr (env', insts, disabled)"
      and wg: "wireGraph insts (indexContracts insts) unhosted = None"
      unfolding BuildPlan_def
      by (auto simp: Let_def host_selections split: sum.splits option.splits prod.splits)
    have "distinct (map sel_key (filter (carried (hostedWorkloads (po_Placement options) workloads)) defs))"
      using freezeBundles_selections(3) [OF fr] by (simp add: distinct_map_filter o_def)
    note r = expandDefinitions_instances [OF ex this]
    then have "planned_ok insts" unfolding planned_ok_def well_planned_def by blast
    then show False
      by (cases rule: wireGraph_cases [where unhosted = unhosted]) (simp_all add: wg)
  qed
  then show ?thesis by blast
qed

section \<open>A plan, and two process shapes\<close>

text \<open>
  Two workloads: \<open>api\<close> collects the contract that \<open>probe\<close>, in the other workload, exports, and the
  configuration turns \<open>probe\<close> off.
\<close>

definition probe_contract :: rtype where
  "probe_contract = RInterface ''health.Contributor'' [''Probe() error'']"

definition shape_heap :: def_heap where
  "shape_heap =
     [(sample_definition ''api'')\<lparr>dd_Plan := Some (\<lambda>_. Returns (Inr
         \<lparr>ip_Inputs = [sample_token 1 QueryMany probe_contract []], ip_Factory = Some (\<lambda>st c. Returns (Inr ANil))\<rparr>))\<rparr>,
      (sample_definition ''probe'')\<lparr>dd_Primary := Some (RDefined ''probe.T'' [''Probe() error''] []),
         dd_Contracts := [\<lparr>con_Type = Some probe_contract, con_Origin = ''probe.go:9''\<rparr>]\<rparr>]"

definition shape_bundles :: "Bundle list" where
  "shape_bundles =
     [AssignWorkload (BundleOf ''main.go:1'' [Some 0]) \<lparr>wl_Key = ''one'', wl_Exclusive = False, wl_Replicas = 1\<rparr>,
      AssignWorkload (BundleOf ''main.go:2'' [Some 1]) \<lparr>wl_Key = ''two'', wl_Exclusive = False, wl_Replicas = 1\<rparr>]"

definition shape_env :: "bool \<Rightarrow> environment" where
  "shape_env on = \<lparr>k_get = (\<lambda>p. if p = ''plugins'' then CMap [(''probe'', CMap [(''enabled'', CBool on)])]
         else if p = ''plugins.probe'' then CMap [(''enabled'', CBool on)]
         else if p = ''plugins.probe.enabled'' then CBool on else CNil),
      k_exists = (\<lambda>p. p \<in> set [''plugins'', ''plugins.probe'', ''plugins.probe.enabled''])\<rparr>"

definition shape_options :: "bool \<Rightarrow> WorkloadKey list \<Rightarrow> PlanOptions" where
  "shape_options on hosted = \<lparr>po_Bundles = shape_bundles, po_Env = Some (shape_env on), po_Logger = None,
     po_Placement = \<lparr>pl_Source = ''static'', pl_Holder = [], pl_Hosted = Some hosted, pl_Notes = []\<rparr>\<rparr>"

definition plan_summary :: "(plan_error, Plan) result option \<Rightarrow> (plan_error, identity list \<times> Key list) result option" where
  "plan_summary r = map_option (map_sum id (\<lambda>p. (plan_order p, map dis_Key (plan_disabled p)))) r"

text \<open>
  The verdict of the direction check depends on the shape of the process: with the same
  composition and configuration, a process that carries both workloads builds its plan, because
  the disabled exporter is not an instance, while a process that carries only the consumer's
  workload fails, because what placement removed is indexed without asking whether it is enabled.
\<close>

lemma direction_verdict_example:
  "plan_summary (BuildPlan sample_ops (Logger 0 []) shape_heap (shape_options False [''one'', ''two'']))
     = Some (Inr ([Identity ''api'' ''default''], [''probe''])) \<and>
   plan_summary (BuildPlan sample_ops (Logger 0 []) shape_heap (shape_options False [''one'']))
     = Some (Inl (PlanWire (UnhostedProducer (Identity ''api'' ''default'') ''one''
         (sample_token 1 QueryMany probe_contract []) [''two''])))"
  by (intro conjI; code_simp)

text \<open>A workload whose member holds a \<^verbatim>\<open>Ref\<close> on an unowned Definition.\<close>

definition demo_heap :: def_heap where
  "demo_heap =
     [(sample_definition ''api'')\<lparr>dd_Plan := Some (\<lambda>_. Returns (Inr
         \<lparr>ip_Inputs = [sample_token 1 QueryRef gorm_type ''gorm''], ip_Factory = Some (\<lambda>st c. Returns (Inr ANil))\<rparr>))\<rparr>,
      sample_definition ''gorm'']"

definition demo_options :: "WorkloadKey list \<Rightarrow> PlanOptions" where
  "demo_options hosted =
     \<lparr>po_Bundles = [AssignWorkload (BundleOf ''main.go:1'' [Some 0]) \<lparr>wl_Key = ''one'', wl_Exclusive = False, wl_Replicas = 1\<rparr>,
        BundleOf ''main.go:2'' [Some 1]],
      po_Env = None, po_Logger = None,
      po_Placement = \<lparr>pl_Source = ''static'', pl_Holder = [], pl_Hosted = Some hosted, pl_Notes = []\<rparr>\<rparr>"

lemma demo_plan:
  "\<exists>plan. BuildPlan sample_ops (Logger 0 []) demo_heap (demo_options [''one'']) = Some (Inr plan) \<and>
     plan_order plan = [Identity ''gorm'' ''default'', Identity ''api'' ''default'']"
  "\<exists>plan. BuildPlan sample_ops (Logger 0 []) demo_heap (demo_options []) = Some (Inr plan) \<and>
     plan_order plan = [Identity ''gorm'' ''default'']"
proof -
  have "plan_summary (BuildPlan sample_ops (Logger 0 []) demo_heap (demo_options [''one'']))
      = Some (Inr ([Identity ''gorm'' ''default'', Identity ''api'' ''default''], []))" by code_simp
  then show "\<exists>plan. BuildPlan sample_ops (Logger 0 []) demo_heap (demo_options [''one'']) = Some (Inr plan) \<and>
     plan_order plan = [Identity ''gorm'' ''default'', Identity ''api'' ''default'']"
    unfolding plan_summary_def by (auto simp: map_sum_eq_Inr)
  have "plan_summary (BuildPlan sample_ops (Logger 0 []) demo_heap (demo_options []))
      = Some (Inr ([Identity ''gorm'' ''default''], []))" by code_simp
  then show "\<exists>plan. BuildPlan sample_ops (Logger 0 []) demo_heap (demo_options []) = Some (Inr plan) \<and>
     plan_order plan = [Identity ''gorm'' ''default'']"
    unfolding plan_summary_def by (auto simp: map_sum_eq_Inr)
qed

theorem BuildPlan_hosting_witness:
  "\<exists>plan. BuildPlan sample_ops (Logger 0 []) demo_heap (demo_options []) = Some (Inr plan) \<and>
     map wl_Key (map pw_Workload (Workloads (Some plan))) = [''one'']"
proof -
  obtain plan where plan: "BuildPlan sample_ops (Logger 0 []) demo_heap (demo_options []) = Some (Inr plan)"
    using demo_plan(2) by blast
  have "map_sum (\<lambda>_. ()) (map wl_Key) (declaredWorkloads demo_heap (po_Bundles (demo_options []))) = Inr [''one'']"
    by code_simp
  then obtain ws where ws: "declaredWorkloads demo_heap (po_Bundles (demo_options [])) = Inr ws" "map wl_Key ws = [''one'']"
    by (cases "declaredWorkloads demo_heap (po_Bundles (demo_options []))") auto
  obtain workloads where "declaredWorkloads demo_heap (po_Bundles (demo_options [])) = Inr workloads"
    "map pw_Workload (Workloads (Some plan)) = workloads"
    using BuildPlan_hosting [OF plan] unfolding Let_def by (elim exE conjE)
  with ws have "map wl_Key (map pw_Workload (Workloads (Some plan))) = [''one'']" by simp
  with plan show ?thesis by (intro exI conjI)
qed

lemma BuildPlan_order_example:
  "\<exists>plan. BuildPlan sample_ops (Logger 0 []) demo_heap (demo_options [''one'']) = Some (Inr plan) \<and>
     Order (Some plan) = [Identity ''gorm'' ''default'', Identity ''api'' ''default''] \<and>
     set (Order (Some plan)) = fst ` set (plan_instances plan)"
proof -
  obtain plan where plan: "BuildPlan sample_ops (Logger 0 []) demo_heap (demo_options [''one'']) = Some (Inr plan)"
    and order: "plan_order plan = [Identity ''gorm'' ''default'', Identity ''api'' ''default'']"
    using demo_plan(1) by metis
  from BuildPlan_order [OF plan] have "set (Order (Some plan)) = fst ` set (plan_instances plan)" by (elim conjE)
  moreover have "Order (Some plan) = [Identity ''gorm'' ''default'', Identity ''api'' ''default'']"
    using order by (simp add: Order_def)
  ultimately show ?thesis using plan by (intro exI conjI)
qed

end
