(* ===== verification/Hooks.thy ===== *)
theory Hooks
  imports Plan
begin

text \<open>
  Owned instances and the stages the framework invokes on them, the first half of
  \<^verbatim>\<open>plugin/assembly/construct.go\<close>: stage names, contexts and deadlines, the panic boundary, and
  the bounded calls of \<^verbatim>\<open>Stop\<close>, \<^verbatim>\<open>Drain\<close> and \<^verbatim>\<open>PreStop\<close>.
  \<^item> Time is an explicit clock. It advances while a hook runs and while a walk waits for one; a
    hook that returns at the very instant a deadline passes has returned, which is what the
    second read of the result channel decides.
  \<^item> A \<^verbatim>\<open>context.Context\<close> is the deadline it reports and the instant at which it is done.
  \<^item> Application code is an argument \<open>app\<close>. A hook may consult the whole world (the clock and
    everything that was called before), may panic, and may never return. A startup hook or a factory that
    never returns keeps its caller; a shutdown hook runs on its own goroutine, which its caller may
    abandon. The value \<open>None\<close> of an operation is that it does not return.
  \<^item> A \<^verbatim>\<open>*Instance\<close> is a position of the list of owned instances.
\<close>

section \<open>Stages, contexts and the world\<close>

datatype Stage = StageFactory | StageInit | StageMigrate | StagePreflight | StageStart
  | StageOpenTraffic | StagePreStop | StageDrain | StageStop

fun Stage_string :: "Stage \<Rightarrow> string" where
  "Stage_string StageFactory = ''factory''"
| "Stage_string StageInit = ''Init''"
| "Stage_string StageMigrate = ''Migrate''"
| "Stage_string StagePreflight = ''Preflight''"
| "Stage_string StageStart = ''Start''"
| "Stage_string StageOpenTraffic = ''OpenTraffic''"
| "Stage_string StagePreStop = ''PreStop''"
| "Stage_string StageDrain = ''Drain''"
| "Stage_string StageStop = ''Stop''"

text \<open>Instants and durations, in nanoseconds.\<close>

type_synonym time = int

record ctx =
  ctx_Deadline :: "time option"
  ctx_done :: "time option"

definition Background :: ctx where
  "Background = \<lparr>ctx_Deadline = None, ctx_done = None\<rparr>"

fun earliest :: "time option \<Rightarrow> time \<Rightarrow> time option" where
  "earliest None d = Some d"
| "earliest (Some c) d = Some (min c d)"

text \<open>\<^verbatim>\<open>context.WithDeadline\<close> and \<^verbatim>\<open>context.WithTimeout\<close>: the earlier of the two instants counts.\<close>

definition WithDeadline :: "ctx \<Rightarrow> time \<Rightarrow> ctx" where
  "WithDeadline parent d =
     \<lparr>ctx_Deadline = earliest (ctx_Deadline parent) d, ctx_done = earliest (ctx_done parent) d\<rparr>"

definition WithTimeout :: "time \<Rightarrow> ctx \<Rightarrow> time \<Rightarrow> ctx" where
  "WithTimeout now parent t = WithDeadline parent (now + t)"

text \<open>\<^verbatim>\<open>ctx.Err() != nil\<close>.\<close>

definition ctx_Err :: "time \<Rightarrow> ctx \<Rightarrow> bool" where
  "ctx_Err now c = (case ctx_done c of None \<Rightarrow> False | Some d \<Rightarrow> d \<le> now)"

text \<open>What has happened so far, in order.\<close>

datatype event =
    StageBegan identity Stage
  | FactoryCalled identity "(nat, ResolvedEntry list) gomap"
  | HookCalled Stage identity
  | AfterStopCalled identity

record world =
  w_now :: time
  w_events :: "event list"
  w_store :: build_store

definition emit :: "event \<Rightarrow> world \<Rightarrow> world" where
  "emit e w = w\<lparr>w_events := w_events w @ [e]\<rparr>"

definition advance :: "time \<Rightarrow> world \<Rightarrow> world" where
  "advance t w = w\<lparr>w_now := t\<rparr>"

lemma emit_simps [simp]:
  "w_now (emit e w) = w_now w" "w_store (emit e w) = w_store w"
  "w_events (emit e w) = w_events w @ [e]"
  by (simp_all add: emit_def)

lemma advance_simps [simp]:
  "w_now (advance t w) = t" "w_store (advance t w) = w_store w" "w_events (advance t w) = w_events w"
  by (simp_all add: advance_def)

section \<open>Instances\<close>

record StageTiming =
  st_Stage :: Stage
  st_Duration :: time

record Instance_data =
  in_identity :: identity
  in_value :: anyval
  in_context :: "nat option"
  in_lifecycle :: lifecycleDescriptor
  in_workload :: WorkloadKey
  in_dependsOn :: "identity list"
  in_timings :: "StageTiming list"
  in_onStageBegin :: bool
  in_stopped :: bool

definition HasMigration :: "Instance_data \<Rightarrow> bool" where
  "HasMigration x \<longleftrightarrow> ld_migrate (in_lifecycle x) \<noteq> None"

definition HasStart :: "Instance_data \<Rightarrow> bool" where
  "HasStart x \<longleftrightarrow> ld_start (in_lifecycle x) \<noteq> None"

definition HasTrafficPreparation :: "Instance_data \<Rightarrow> bool" where
  "HasTrafficPreparation x \<longleftrightarrow> ld_openTraffic (in_lifecycle x) \<noteq> None"

definition HasStop :: "Instance_data \<Rightarrow> bool" where
  "HasStop x \<longleftrightarrow> ld_stop (in_lifecycle x) \<noteq> None"

definition HasPreStop :: "Instance_data \<Rightarrow> bool" where
  "HasPreStop x \<longleftrightarrow> ld_preStop (in_lifecycle x) \<noteq> None"

definition HasDrain :: "Instance_data \<Rightarrow> bool" where
  "HasDrain x \<longleftrightarrow> ld_drain (in_lifecycle x) \<noteq> None"

definition HasPreflight :: "Instance_data \<Rightarrow> bool" where
  "HasPreflight x \<longleftrightarrow> ld_preflight (in_lifecycle x) \<noteq> None"

definition IsIngress :: "Instance_data \<Rightarrow> bool" where
  "IsIngress x \<longleftrightarrow> ld_openTraffic (in_lifecycle x) \<noteq> None"

definition Timings :: "Instance_data option \<Rightarrow> StageTiming list" where
  "Timings x = (case x of None \<Rightarrow> [] | Some x \<Rightarrow> in_timings x)"

text \<open>
  \<open>con_byIdentity\<close> holds positions of \<open>con_instances\<close>: both fields of the Go structure point to
  the same objects.
\<close>

record Constructed =
  con_instances :: "Instance_data list"
  con_byIdentity :: "(identity, nat) gomap"

definition Instances :: "Constructed option \<Rightarrow> Instance_data list" where
  "Instances c = (case c of None \<Rightarrow> [] | Some c \<Rightarrow> con_instances c)"

definition Constructed_Instance :: "Constructed option \<Rightarrow> identity \<Rightarrow> Instance_data option" where
  "Constructed_Instance c i =
     (case c of None \<Rightarrow> None
      | Some c \<Rightarrow> map_option (\<lambda>p. con_instances c ! p) (gm_get (con_byIdentity c) (Normalized i)))"

abbreviation con_identities :: "Constructed \<Rightarrow> identity list" where
  "con_identities c \<equiv> map in_identity (con_instances c)"

definition put_instance :: "nat \<Rightarrow> Instance_data \<Rightarrow> Constructed \<Rightarrow> Constructed" where
  "put_instance p x c = c\<lparr>con_instances := (con_instances c)[p := x]\<rparr>"

section \<open>Errors and application code\<close>

datatype stage_error =
    NilPlan
  | ProducerNotConstructed identity nat identity
  | FactoryPanic identity string
  | FactoryFailed identity string
  | NilPrimary identity
  | PrimaryMismatch identity "rtype option" "rtype option"
  | HookFailed identity Stage string
  | HookPanic identity Stage string
  | HookAbandoned identity Stage time
  | HookNotAttempted identity Stage time
  | TaskError identity string

text \<open>
  Application code. \<open>ap_factory_time\<close> is how long a factory runs; \<open>ap_hook\<close> runs a startup
  hook on the caller's goroutine; \<open>ap_detached\<close> runs a shutdown hook on its own goroutine under
  a context. Each is \<open>None\<close> when the code never returns. The durations are natural numbers.
\<close>

record app =
  ap_factory_time :: "world \<Rightarrow> identity \<Rightarrow> nat option"
  ap_hook :: "world \<Rightarrow> Stage \<Rightarrow> Instance_data \<Rightarrow> (nat \<times> string option call) option"
  ap_detached :: "world \<Rightarrow> Stage \<Rightarrow> Instance_data \<Rightarrow> ctx \<Rightarrow> (nat \<times> string option call) option"

text \<open>\<^verbatim>\<open>invokeClassified\<close>: a returned error and a recovered panic are told apart.\<close>

definition invokeClassified :: "identity \<Rightarrow> Stage \<Rightarrow> string option call \<Rightarrow> bool \<times> stage_error option" where
  "invokeClassified i stage result =
     (case result of
        Panics m \<Rightarrow> (True, Some (HookPanic i stage m))
      | Returns (Some e) \<Rightarrow> (False, Some (HookFailed i stage e))
      | Returns None \<Rightarrow> (False, None))"

text \<open>\<^verbatim>\<open>invoke\<close>: a stage that is not declared is neither run, nor timed, nor announced.\<close>

type_synonym staged = "(stage_error option \<times> Instance_data \<times> world) option"

definition invoke :: "app \<Rightarrow> Stage \<Rightarrow> hook option \<Rightarrow> Instance_data \<Rightarrow> world \<Rightarrow> staged" where
  "invoke app stage h x w =
     (case h of None \<Rightarrow> Some (None, x, w)
      | Some _ \<Rightarrow>
          let w1 = (if in_onStageBegin x then emit (StageBegan (in_identity x) stage) w else w);
              w2 = emit (HookCalled stage (in_identity x)) w1
          in map_option (\<lambda>(elapsed, result).
               (snd (invokeClassified (in_identity x) stage result),
                x\<lparr>in_timings := in_timings x @ [\<lparr>st_Stage = stage, st_Duration = int elapsed\<rparr>]\<rparr>,
                advance (w_now w2 + int elapsed) w2))
             (ap_hook app w2 stage x))"

definition InvokeMigration :: "app \<Rightarrow> Instance_data \<Rightarrow> world \<Rightarrow> staged" where
  "InvokeMigration app x w = invoke app StageMigrate (ld_migrate (in_lifecycle x)) x w"

definition InvokeStart :: "app \<Rightarrow> Instance_data \<Rightarrow> world \<Rightarrow> staged" where
  "InvokeStart app x w = invoke app StageStart (ld_start (in_lifecycle x)) x w"

definition InvokePreflight :: "app \<Rightarrow> Instance_data \<Rightarrow> world \<Rightarrow> staged" where
  "InvokePreflight app x w = invoke app StagePreflight (ld_preflight (in_lifecycle x)) x w"

definition InvokeTrafficPreparation :: "app \<Rightarrow> Instance_data \<Rightarrow> world \<Rightarrow> staged" where
  "InvokeTrafficPreparation app x w = invoke app StageOpenTraffic (ld_openTraffic (in_lifecycle x)) x w"

section \<open>Waiting for a detached hook\<close>

text \<open>
  A goroutine that runs a hook from \<open>started\<close> on reports into a buffered channel; a waiter
  reads the channel until a context is done and looks once more when it is.
  \<open>Reported t r\<close> is a result read at instant \<open>t\<close>, \<open>GaveUp t\<close> an abandoned hook.
\<close>

datatype waited = Reported time "string option call" | GaveUp time

definition await :: "time \<Rightarrow> (nat \<times> string option call) option \<Rightarrow> ctx \<Rightarrow> waited option" where
  "await started running c =
     (case running of
        None \<Rightarrow> (case ctx_done c of None \<Rightarrow> None | Some d \<Rightarrow> Some (GaveUp (max started d)))
      | Some (elapsed, result) \<Rightarrow>
          (case ctx_done c of
             None \<Rightarrow> Some (Reported (started + int elapsed) result)
           | Some d \<Rightarrow>
               if started + int elapsed \<le> max started d then Some (Reported (started + int elapsed) result)
               else Some (GaveUp (max started d))))"

fun waited_until :: "waited \<Rightarrow> time" where
  "waited_until (Reported t _) = t"
| "waited_until (GaveUp t) = t"

lemma await_bounds:
  "await started running c = Some r \<Longrightarrow> started \<le> waited_until r \<and>
     (\<forall>d. ctx_done c = Some d \<longrightarrow> waited_until r \<le> max started d)"
  by (auto simp: await_def split: option.splits if_splits)

lemma await_returns: "ctx_done c = Some d \<Longrightarrow> \<exists>r. await started running c = Some r"
  by (auto simp: await_def split: option.splits)

subsection \<open>Stop\<close>

datatype StopOutcome = StopSkipped | StopCompleted | StopFailed | StopPanicked | StopAbandoned
  | StopNotAttempted

record StopRecord =
  sr_Identity :: identity
  sr_Outcome :: StopOutcome
  sr_Err :: "stage_error option"
  sr_TaskErr :: "string option"
  sr_Duration :: time

text \<open>
  \<^verbatim>\<open>stopBounded\<close>: at most one \<^verbatim>\<open>Stop\<close> per instance; the hook is handed \<open>hookCtx\<close>, the walk
  waits until \<open>waitCtx\<close> is done.
\<close>

definition stopBounded ::
  "app \<Rightarrow> Instance_data \<Rightarrow> ctx \<Rightarrow> ctx \<Rightarrow> time \<Rightarrow> world
     \<Rightarrow> ((StopOutcome \<times> time \<times> stage_error option) \<times> Instance_data \<times> world) option" where
  "stopBounded app x hookCtx waitCtx budget w =
     (if in_stopped x then Some ((StopSkipped, 0, None), x, w)
      else
        let x = x\<lparr>in_stopped := True\<rparr> in
        if ld_stop (in_lifecycle x) = None then Some ((StopSkipped, 0, None), x, w)
        else
          let started = w_now w;
              w1 = emit (HookCalled StageStop (in_identity x)) w in
          map_option (\<lambda>r. case r of
              Reported t result \<Rightarrow>
                (let (panicked, err) = invokeClassified (in_identity x) StageStop result;
                     outcome = (if panicked then StopPanicked else if err \<noteq> None then StopFailed else StopCompleted)
                 in ((outcome, t - started, err), x, advance t w1))
            | GaveUp t \<Rightarrow>
                ((StopAbandoned, t - started, Some (HookAbandoned (in_identity x) StageStop budget)), x, advance t w1))
            (await started (ap_detached app w1 StageStop x hookCtx) waitCtx))"

definition StopBounded ::
  "app \<Rightarrow> Instance_data \<Rightarrow> ctx \<Rightarrow> time \<Rightarrow> world \<Rightarrow> (stage_error option \<times> Instance_data \<times> world) option" where
  "StopBounded app x deadline budget w =
     map_option (\<lambda>((_, _, err), x', w'). (err, x', w')) (stopBounded app x deadline deadline budget w)"

subsection \<open>Drain\<close>

datatype DrainOutcome = DrainSkipped | DrainCompleted | DrainFailed | DrainPanicked
  | DrainAbandoned | DrainNotAttempted

record DrainRecord =
  dr_Identity :: identity
  dr_Outcome :: DrainOutcome
  dr_Err :: "stage_error option"
  dr_Duration :: time

definition drainBounded ::
  "app \<Rightarrow> Instance_data \<Rightarrow> ctx \<Rightarrow> time \<Rightarrow> world
     \<Rightarrow> ((DrainOutcome \<times> time \<times> stage_error option) \<times> world) option" where
  "drainBounded app x deadline budget w =
     (if ld_drain (in_lifecycle x) = None then Some ((DrainSkipped, 0, None), w)
      else
        let started = w_now w;
            w1 = emit (HookCalled StageDrain (in_identity x)) w in
        map_option (\<lambda>r. case r of
            Reported t result \<Rightarrow>
              (let (panicked, err) = invokeClassified (in_identity x) StageDrain result;
                   outcome = (if panicked then DrainPanicked else if err \<noteq> None then DrainFailed else DrainCompleted)
               in ((outcome, t - started, err), advance t w1))
          | GaveUp t \<Rightarrow>
              ((DrainAbandoned, t - started, Some (HookAbandoned (in_identity x) StageDrain budget)), advance t w1))
          (await started (ap_detached app w1 StageDrain x deadline) deadline))"

end
