(* ===== verification/PreStopPhase.thy ===== *)
theory PreStopPhase
  imports Hooks
begin

text \<open>
  The pre-stop phase of \<^verbatim>\<open>plugin/assembly/construct.go\<close>: every declared \<^verbatim>\<open>PreStop\<close> hook is launched
  on a goroutine of its own, then the phase waits for all of them under one shared deadline. The
  section on durations is \<^verbatim>\<open>time.Duration.String\<close>, which the reports print.
\<close>

section \<open>Durations\<close>

text \<open>Fraction digits without trailing zeros, from the last of \<open>prec\<close> digits on.\<close>

fun fmtFrac :: "nat \<Rightarrow> nat \<Rightarrow> bool \<Rightarrow> string \<Rightarrow> string \<times> nat" where
  "fmtFrac v 0 print buf = (if print then CHR ''.'' # buf else buf, v)"
| "fmtFrac v (Suc prec) print buf =
     (let digit = v mod 10; print = (print \<or> digit \<noteq> 0)
      in fmtFrac (v div 10) prec print (if print then char_of (digit + 48) # buf else buf))"

definition Duration_String :: "time \<Rightarrow> string" where
  "Duration_String d =
     (let u = nat \<bar>d\<bar>;
          body =
            (if u = 0 then ''0s''
             else if u < 1000 then nat_digits u @ ''ns''
             else if u < 1000000 then
               (let (f, v) = fmtFrac u 3 False ([CHR 0xC2, CHR 0xB5] @ ''s'') in nat_digits v @ f)
             else if u < 1000000000 then (let (f, v) = fmtFrac u 6 False ''ms'' in nat_digits v @ f)
             else
               (let (f, v) = fmtFrac u 9 False ''s'';
                    seconds = nat_digits (v mod 60) @ f;
                    m = v div 60;
                    minutes = (if m > 0 then nat_digits (m mod 60) @ ''m'' else []);
                    h = m div 60;
                    hours = (if h > 0 then nat_digits h @ ''h'' else [])
                in hours @ minutes @ seconds))
      in if d < 0 then CHR ''-'' # body else body)"

section \<open>The phase\<close>

datatype PreStopOutcome = PreStopCompleted | PreStopFailed | PreStopPanicked | PreStopAbandoned

record PreStopRecord =
  pr_Identity :: identity
  pr_Outcome :: PreStopOutcome
  pr_Err :: "stage_error option"
  pr_Duration :: time

record PreStopReport =
  psr_Records :: "PreStopRecord list"

definition PreStopReport_Identities :: "PreStopReport \<Rightarrow> PreStopOutcome \<Rightarrow> identity list" where
  "PreStopReport_Identities report outcome =
     map pr_Identity (filter (\<lambda>r. pr_Outcome r = outcome) (psr_Records report))"

definition PreStopReport_Empty :: "PreStopReport \<Rightarrow> bool" where
  "PreStopReport_Empty report \<longleftrightarrow> psr_Records report = []"

definition PreStopReport_Waited :: "PreStopReport \<Rightarrow> string list" where
  "PreStopReport_Waited report =
     map (\<lambda>r. identity_string (pr_Identity r) @ '' '' @ Duration_String (pr_Duration r))
       (filter (\<lambda>r. pr_Outcome r \<noteq> PreStopAbandoned) (psr_Records report))"

record preStopResult =
  ps_outcome :: PreStopOutcome
  ps_err :: "stage_error option"
  ps_elapsed :: time

text \<open>What the goroutine of a hook writes into its channel when the hook is over.\<close>

definition preStop_result :: "identity \<Rightarrow> nat \<times> string option call \<Rightarrow> preStopResult" where
  "preStop_result i run =
     (let (panicked, err) = invokeClassified i StagePreStop (snd run)
      in \<lparr>ps_outcome = (if panicked then PreStopPanicked else if err \<noteq> None then PreStopFailed else PreStopCompleted),
          ps_err = err, ps_elapsed = int (fst run)\<rparr>)"

text \<open>A launched hook: its instance, the instant of the launch, and how the hook will run.\<close>

record launched =
  la_instance :: Instance_data
  la_started :: time
  la_running :: "(nat \<times> string option call) option"

definition startPreStop :: "app \<Rightarrow> Instance_data \<Rightarrow> ctx \<Rightarrow> world \<Rightarrow> launched \<times> world" where
  "startPreStop app x deadline w =
     (let w1 = emit (HookCalled StagePreStop (in_identity x)) w
      in (\<lparr>la_instance = x, la_started = w_now w, la_running = ap_detached app w1 StagePreStop x deadline\<rparr>, w1))"

text \<open>The result in the channel at instant \<open>now\<close>, if the hook has written it.\<close>

definition readPreStopResult :: "launched \<Rightarrow> time \<Rightarrow> preStopResult option" where
  "readPreStopResult l now =
     (case la_running l of
        None \<Rightarrow> None
      | Some run \<Rightarrow>
          if la_started l + int (fst run) \<le> now then Some (preStop_result (in_identity (la_instance l)) run)
          else None)"

definition awaitPreStop ::
  "launched \<Rightarrow> ctx \<Rightarrow> time \<Rightarrow> time \<Rightarrow> ((PreStopOutcome \<times> time \<times> stage_error option) \<times> time) option" where
  "awaitPreStop l deadline budget now =
     (let i = in_identity (la_instance l);
          report = (\<lambda>r t. Some ((ps_outcome r, ps_elapsed r, ps_err r), t));
          abandon = (\<lambda>t. Some ((PreStopAbandoned, t - la_started l, Some (HookAbandoned i StagePreStop budget)), t))
      in case readPreStopResult l now of
           Some r \<Rightarrow> report r now
         | None \<Rightarrow>
             (case ctx_done deadline of
                None \<Rightarrow>
                  (case la_running l of None \<Rightarrow> None
                   | Some run \<Rightarrow> report (preStop_result i run) (la_started l + int (fst run)))
              | Some d \<Rightarrow>
                  (case readPreStopResult l (max now d) of
                     Some r \<Rightarrow> report r (la_started l + ps_elapsed r)
                   | None \<Rightarrow> abandon (max now d))))"

definition InvokePreStop ::
  "app \<Rightarrow> Instance_data \<Rightarrow> ctx \<Rightarrow> time \<Rightarrow> world
     \<Rightarrow> ((PreStopOutcome \<times> time \<times> stage_error option) \<times> world) option" where
  "InvokePreStop app x deadline budget w =
     (if ld_preStop (in_lifecycle x) = None then Some ((PreStopCompleted, 0, None), w)
      else
        let (l, w1) = startPreStop app x deadline w in
        map_option (\<lambda>(r, t). (r, advance t w1)) (awaitPreStop l deadline budget (w_now w1)))"

fun launch_all :: "app \<Rightarrow> ctx \<Rightarrow> Instance_data list \<Rightarrow> world \<Rightarrow> launched list \<times> world" where
  "launch_all app deadline [] w = ([], w)"
| "launch_all app deadline (x # xs) w =
     (if \<not> HasPreStop x then launch_all app deadline xs w
      else
        let (l, w1) = startPreStop app x deadline w;
            (ls, w2) = launch_all app deadline xs w1
        in (l # ls, w2))"

text \<open>The instant at which every launched hook is over, if every one of them ever is.\<close>

fun all_over :: "time \<Rightarrow> launched list \<Rightarrow> time option" where
  "all_over now [] = Some now"
| "all_over now (l # ls) =
     (case la_running l of None \<Rightarrow> None
      | Some run \<Rightarrow> all_over (max now (la_started l + int (fst run))) ls)"

text \<open>The wait for the whole group or the shared deadline, whichever comes first.\<close>

definition wait_group :: "time \<Rightarrow> launched list \<Rightarrow> ctx \<Rightarrow> time option" where
  "wait_group now ls deadline =
     (case (all_over now ls, ctx_done deadline) of
        (None, None) \<Rightarrow> None
      | (Some t, None) \<Rightarrow> Some t
      | (None, Some d) \<Rightarrow> Some (max now d)
      | (Some t, Some d) \<Rightarrow> Some (min t (max now d)))"

fun collect :: "ctx \<Rightarrow> time \<Rightarrow> launched list \<Rightarrow> time \<Rightarrow> (PreStopRecord list \<times> stage_error list \<times> time) option" where
  "collect deadline budget [] now = Some ([], [], now)"
| "collect deadline budget (l # ls) now =
     (case awaitPreStop l deadline budget now of
        None \<Rightarrow> None
      | Some ((outcome, elapsed, err), now1) \<Rightarrow>
          map_option (\<lambda>(rs, errs, t).
              (\<lparr>pr_Identity = in_identity (la_instance l), pr_Outcome = outcome, pr_Err = err, pr_Duration = elapsed\<rparr> # rs,
               (case err of None \<Rightarrow> errs | Some e \<Rightarrow> e # errs), t))
            (collect deadline budget ls now1))"

definition Constructed_PreStop ::
  "app \<Rightarrow> Constructed option \<Rightarrow> ctx \<Rightarrow> time \<Rightarrow> world \<Rightarrow> ((PreStopReport \<times> stage_error list) \<times> world) option" where
  "Constructed_PreStop app con deadline budget w =
     (case con of
        None \<Rightarrow> Some ((\<lparr>psr_Records = []\<rparr>, []), w)
      | Some con \<Rightarrow>
          let (pending, w1) = launch_all app deadline (con_instances con) w in
          if pending = [] then Some ((\<lparr>psr_Records = []\<rparr>, []), w1)
          else
            (case wait_group (w_now w1) pending deadline of
               None \<Rightarrow> None
             | Some t \<Rightarrow>
                 map_option (\<lambda>(rs, errs, t'). ((\<lparr>psr_Records = rs\<rparr>, errs), advance t' w1))
                   (collect deadline budget pending t)))"

section \<open>One budget for the whole phase\<close>

text \<open>
  What a phase that starts at \<open>now\<close> and may wait until \<open>d\<close> says of one launched hook: what the
  hook did, when it was over by then, and otherwise that it was abandoned.
\<close>

definition prestop_verdict :: "time \<Rightarrow> time \<Rightarrow> launched \<Rightarrow> PreStopRecord" where
  "prestop_verdict budget end_time l =
     (let i = in_identity (la_instance l)
      in case readPreStopResult l end_time of
           Some r \<Rightarrow> \<lparr>pr_Identity = i, pr_Outcome = ps_outcome r, pr_Err = ps_err r, pr_Duration = ps_elapsed r\<rparr>
         | None \<Rightarrow> \<lparr>pr_Identity = i, pr_Outcome = PreStopAbandoned,
                     pr_Err = Some (HookAbandoned i StagePreStop budget), pr_Duration = end_time - la_started l\<rparr>)"

lemma launch_all_spec:
  "launch_all app deadline xs w = (ls, w') \<Longrightarrow>
     map la_instance ls = filter HasPreStop xs \<and> (\<forall>l \<in> set ls. la_started l = w_now w) \<and>
     w_now w' = w_now w \<and> w_store w' = w_store w \<and>
     w_events w' = w_events w @ map (\<lambda>x. HookCalled StagePreStop (in_identity x)) (filter HasPreStop xs)"
proof (induction app deadline xs w arbitrary: ls w' rule: launch_all.induct)
  case (2 app deadline x xs w)
  show ?case
  proof (cases "HasPreStop x")
    case True
    obtain l w1 where l: "startPreStop app x deadline w = (l, w1)" by fastforce
    obtain ls' w2 where ls': "launch_all app deadline xs w1 = (ls', w2)" by fastforce
    from 2(2) [OF _ l [symmetric] refl ls'] True l ls' 2(3) show ?thesis
      by (auto simp: startPreStop_def Let_def)
  qed (use 2 in auto)
qed auto

lemma readPreStopResult_mono:
  "readPreStopResult l t = Some r \<Longrightarrow> t \<le> u \<Longrightarrow> readPreStopResult l u = Some r"
  by (auto simp: readPreStopResult_def split: option.splits if_splits)

lemma awaitPreStop_verdict:
  assumes "ctx_done deadline = Some d" and "t \<le> E" and "max t d = E"
    and "t = E \<or> readPreStopResult l t \<noteq> None"
  shows "awaitPreStop l deadline budget t =
    Some ((pr_Outcome (prestop_verdict budget E l), pr_Duration (prestop_verdict budget E l),
           pr_Err (prestop_verdict budget E l)), t)"
proof (cases "readPreStopResult l t")
  case None
  with assms have "t = E" by simp
  with None assms show ?thesis
    by (simp add: awaitPreStop_def prestop_verdict_def Let_def)
next
  case (Some r)
  with readPreStopResult_mono [OF Some assms(2)] show ?thesis
    by (simp add: awaitPreStop_def prestop_verdict_def Let_def)
qed

lemma collect_verdicts:
  assumes "ctx_done deadline = Some d" and "t \<le> E" and "max t d = E"
    and "\<forall>l \<in> set ls. t = E \<or> readPreStopResult l t \<noteq> None"
  shows "collect deadline budget ls t =
    Some (map (prestop_verdict budget E) ls,
          List.map_filter pr_Err (map (prestop_verdict budget E) ls), t)"
  using assms(4)
proof (induction ls)
  case (Cons l ls)
  have "pr_Identity (prestop_verdict budget E l) = in_identity (la_instance l)"
    by (simp add: prestop_verdict_def Let_def split: option.splits)
  then have rec: "\<lparr>pr_Identity = in_identity (la_instance l), pr_Outcome = pr_Outcome (prestop_verdict budget E l),
      pr_Err = pr_Err (prestop_verdict budget E l), pr_Duration = pr_Duration (prestop_verdict budget E l)\<rparr>
      = prestop_verdict budget E l"
    by simp
  from Cons.prems have "t = E \<or> readPreStopResult l t \<noteq> None" by auto
  note head = awaitPreStop_verdict [OF assms(1-3) this, of budget]
  from Cons.prems have "\<forall>l \<in> set ls. t = E \<or> readPreStopResult l t \<noteq> None" by auto
  from head rec Cons.IH [OF this] show ?case
    by (cases "pr_Err (prestop_verdict budget E l)") (simp_all add: List.map_filter_simps)
qed (simp add: List.map_filter_simps)

lemma all_over_ge: "all_over now ls = Some t \<Longrightarrow> now \<le> t"
  by (induction ls arbitrary: now) (fastforce split: option.splits)+

lemma all_over_readable:
  "all_over now ls = Some t \<Longrightarrow> t \<le> u \<Longrightarrow> l \<in> set ls \<Longrightarrow> readPreStopResult l u \<noteq> None"
proof (induction ls arbitrary: now)
  case (Cons m ls)
  then obtain run where run: "la_running m = Some run"
    "all_over (max now (la_started m + int (fst run))) ls = Some t"
    by (auto split: option.splits)
  with all_over_ge [OF run(2)] Cons show ?case
    by (auto simp: readPreStopResult_def)
qed simp

lemma wait_group_bounded:
  assumes "ctx_done deadline = Some d"
  obtains t where "wait_group now ls deadline = Some t" "now \<le> t" "max t d = max now d" "t \<le> max now d"
    "\<forall>l \<in> set ls. t = max now d \<or> readPreStopResult l t \<noteq> None"
proof (cases "all_over now ls")
  case None
  with assms show thesis by (intro that [of "max now d"]) (auto simp: wait_group_def)
next
  case (Some t)
  with assms all_over_ge [OF Some] all_over_readable [OF Some] show thesis
    by (intro that [of "min t (max now d)"]) (auto simp: wait_group_def min_def)
qed

lemma PreStop_result:
  assumes bounded: "ctx_done deadline = Some d"
  shows "let (pending, _) = launch_all app deadline (con_instances con) w;
             verdicts = map (prestop_verdict budget (max (w_now w) d)) pending
    in map la_instance pending = filter HasPreStop (con_instances con) \<and>
       (\<forall>l \<in> set pending. la_started l = w_now w) \<and>
       (\<exists>w'. Constructed_PreStop app (Some con) deadline budget w =
           Some ((\<lparr>psr_Records = verdicts\<rparr>, List.map_filter pr_Err verdicts), w') \<and>
         w_now w \<le> w_now w' \<and> w_now w' \<le> max (w_now w) d \<and>
         w_events w' = w_events w @
           map (\<lambda>x. HookCalled StagePreStop (in_identity x)) (filter HasPreStop (con_instances con)))"
proof -
  obtain pending w1 where launch: "launch_all app deadline (con_instances con) w = (pending, w1)"
    by fastforce
  note l = launch_all_spec [OF launch]
  obtain t where t: "wait_group (w_now w1) pending deadline = Some t" "w_now w1 \<le> t"
    "max t d = max (w_now w1) d" "t \<le> max (w_now w1) d"
    "\<forall>l \<in> set pending. t = max (w_now w1) d \<or> readPreStopResult l t \<noteq> None"
    using wait_group_bounded [OF bounded] by metis
  have "\<exists>w'. Constructed_PreStop app (Some con) deadline budget w =
      Some ((\<lparr>psr_Records = map (prestop_verdict budget (max (w_now w1) d)) pending\<rparr>,
        List.map_filter pr_Err (map (prestop_verdict budget (max (w_now w1) d)) pending)), w') \<and>
      w_now w1 \<le> w_now w' \<and> w_now w' \<le> max (w_now w1) d \<and> w_events w' = w_events w1"
    using launch t collect_verdicts [OF bounded t(4) t(3) t(5)]
    by (auto simp: Constructed_PreStop_def List.map_filter_simps)
  with l launch show ?thesis by simp
qed


text \<open>A hook that returns after 3, one that fails after 1, and one that never returns.\<close>

definition sample_owned :: "string \<Rightarrow> lifecycleDescriptor \<Rightarrow> identity list \<Rightarrow> Instance_data" where
  "sample_owned key ld deps =
     \<lparr>in_identity = Identity key ''default'', in_value = AVal gorm_type CNil, in_context = None, in_lifecycle = ld,
      in_workload = [], in_dependsOn = deps, in_timings = [], in_onStageBegin = False, in_stopped = False\<rparr>"

definition sample_constructed :: Constructed where
  "sample_constructed =
     (let ld = empty_lifecycle\<lparr>ld_preStop := Some (MethodHook ''PreStop'')\<rparr>
      in \<lparr>con_instances = [sample_owned ''a'' ld [], sample_owned ''b'' ld [], sample_owned ''c'' empty_lifecycle [],
            sample_owned ''d'' ld []],
          con_byIdentity = [(Identity ''a'' ''default'', 0), (Identity ''b'' ''default'', 1),
            (Identity ''c'' ''default'', 2), (Identity ''d'' ''default'', 3)]\<rparr>)"

definition sample_app :: app where
  "sample_app =
     \<lparr>ap_factory_time = (\<lambda>_ _. Some 1), ap_hook = (\<lambda>_ _ _. Some (1, Returns None)),
      ap_detached = (\<lambda>_ _ x _.
        if Plugin (in_identity x) = ''a'' then None
        else if Plugin (in_identity x) = ''b'' then Some (1, Returns (Some ''lost''))
        else Some (3, Returns None))\<rparr>"

definition start_world :: world where
  "start_world = \<lparr>w_now = 100, w_events = [], w_store = []\<rparr>"


end
