(* ===== verification/Unwind.thy ===== *)
theory Unwind
  imports PreStopPhase
begin

text \<open>
  The reverse unwind of \<^verbatim>\<open>plugin/assembly/construct.go\<close>: the ingress closure, the three phases
  (stop the ingress closure, drain what remains, stop what remains) and their budgets.
\<close>

section \<open>The ingress closure\<close>

text \<open>A \<^verbatim>\<open>map[Identity]bool\<close> whose values are all true is the list of its keys.\<close>

definition add_dependent :: "identity \<Rightarrow> identity \<Rightarrow> (identity, identity list) gomap \<Rightarrow> (identity, identity list) gomap" where
  "add_dependent consumer dependency m = gm_put dependency (gm_list m dependency @ [consumer]) m"

definition dependents :: "Instance_data list \<Rightarrow> (identity, identity list) gomap" where
  "dependents xs = fold (\<lambda>x. fold (add_dependent (in_identity x)) (in_dependsOn x)) xs []"

fun absorb :: "identity list \<Rightarrow> identity list \<times> identity list \<Rightarrow> identity list \<times> identity list" where
  "absorb [] st = st"
| "absorb (d # ds) (ingress, queue) =
     (if d \<in> set ingress then absorb ds (ingress, queue) else absorb ds (ingress @ [d], queue @ [d]))"

definition unreached :: "(identity, identity list) gomap \<Rightarrow> identity list \<Rightarrow> nat" where
  "unreached deps ingress = card (set (concat (map snd deps)) - set ingress)"

lemma absorb_measure:
  "set ds \<subseteq> set (concat (map snd deps)) \<Longrightarrow>
   2 * unreached deps (fst (absorb ds st)) + length (snd (absorb ds st)) \<le> 2 * unreached deps (fst st) + length (snd st)"
proof (induction ds st rule: absorb.induct)
  case (2 d ds ingress queue)
  show ?case
  proof (cases "d \<in> set ingress")
    case False
    let ?U = "set (concat (map snd deps))"
    have d: "d \<in> ?U" using "2.prems" by (rule subsetD) simp
    have "?U - set (ingress @ [d]) = (?U - set ingress) - {d}" by auto
    moreover have "d \<in> ?U - set ingress" using d False by simp
    ultimately have "unreached deps ingress = Suc (unreached deps (ingress @ [d]))"
      unfolding unreached_def by (metis List.finite_set finite_Diff card_Suc_Diff1)
    with 2(2) [OF False] 2(3) False show ?thesis by simp
  qed (use 2 in simp)
qed simp

lemma gm_list_values: "set (gm_list m k) \<subseteq> set (concat (map snd m))"
proof (cases "map_of m k")
  case (Some v)
  then have "(k, v) \<in> set m" by (rule map_of_SomeD)
  with Some show ?thesis by (force simp: gm_list_def)
qed (simp add: gm_list_def)

function close_ingress :: "(identity, identity list) gomap \<Rightarrow> identity list \<Rightarrow> identity list \<Rightarrow> identity list" where
  "close_ingress deps ingress [] = ingress"
| "close_ingress deps ingress (current # queue) =
     (let (ingress', queue') = absorb (gm_list deps current) (ingress, queue)
      in close_ingress deps ingress' queue')"
  by pat_completeness auto
termination
proof (relation "measure (\<lambda>(deps, ingress, queue). 2 * unreached deps ingress + length queue)", goal_cases)
  case (2 deps ingress current queue st ingress' queue')
  then show ?case
    using absorb_measure [OF gm_list_values, of deps current "(ingress, queue)"]
    by (cases "absorb (gm_list deps current) (ingress, queue)") simp
qed simp

definition ingressClosure :: "Constructed \<Rightarrow> identity list" where
  "ingressClosure con =
     (let ingress = dedupe_on (\<lambda>i. i) [] (map in_identity (filter IsIngress (con_instances con)))
      in if ingress = [] then [] else close_ingress (dependents (con_instances con)) ingress ingress)"

section \<open>The walk\<close>

record ShutdownReport =
  sh_Attempted :: "identity list"
  sh_Completed :: "identity list"
  sh_Records :: "StopRecord list"

definition ShutdownReport_Identities :: "ShutdownReport \<Rightarrow> StopOutcome \<Rightarrow> identity list" where
  "ShutdownReport_Identities report outcome =
     map sr_Identity (filter (\<lambda>r. sr_Outcome r = outcome) (sh_Records report))"

record DrainReport =
  dp_Records :: "DrainRecord list"

definition DrainReport_Identities :: "DrainReport \<Rightarrow> DrainOutcome \<Rightarrow> identity list" where
  "DrainReport_Identities report outcome =
     map dr_Identity (filter (\<lambda>r. dr_Outcome r = outcome) (dp_Records report))"

definition DrainReport_Empty :: "DrainReport \<Rightarrow> bool" where
  "DrainReport_Empty report \<longleftrightarrow> dp_Records report = []"

definition DrainReport_Waited :: "DrainReport \<Rightarrow> string list" where
  "DrainReport_Waited report =
     map (\<lambda>r. identity_string (dr_Identity r) @ '' '' @ Duration_String (dr_Duration r))
       (filter (\<lambda>r. \<not> (dr_Outcome r = DrainAbandoned \<or> dr_Outcome r = DrainNotAttempted)) (dp_Records report))"

text \<open>The callback after a \<^verbatim>\<open>Stop\<close>: how long it takes and its error; \<open>None\<close> is the nil function.\<close>

type_synonym after_stop = "(world \<Rightarrow> identity \<Rightarrow> nat \<times> string option) option"

record walk =
  wk_con :: Constructed
  wk_world :: world
  wk_report :: ShutdownReport
  wk_drain :: DrainReport
  wk_errs :: "stage_error list"

definition start_walk :: "Constructed \<Rightarrow> world \<Rightarrow> walk" where
  "start_walk con w =
     \<lparr>wk_con = con, wk_world = w, wk_report = \<lparr>sh_Attempted = [], sh_Completed = [], sh_Records = []\<rparr>,
      wk_drain = \<lparr>dp_Records = []\<rparr>, wk_errs = []\<rparr>"

definition run_afterStop :: "after_stop \<Rightarrow> identity \<Rightarrow> world \<Rightarrow> string option \<times> world" where
  "run_afterStop afterStop i w =
     (case afterStop of None \<Rightarrow> (None, w)
      | Some f \<Rightarrow>
          let w1 = emit (AfterStopCalled i) w; (elapsed, err) = f w1 i
          in (err, advance (w_now w1 + int elapsed) w1))"

definition stopOne ::
  "app \<Rightarrow> nat \<Rightarrow> ctx \<Rightarrow> ctx \<Rightarrow> time \<Rightarrow> after_stop \<Rightarrow> walk
     \<Rightarrow> ((StopRecord \<times> string option \<times> stage_error option) \<times> walk) option" where
  "stopOne app p deadline settledCtx budget afterStop s =
     (let x = con_instances (wk_con s) ! p; i = in_identity x; report = wk_report s in
      if ctx_Err (w_now (wk_world s)) deadline then
        let record = \<lparr>sr_Identity = i, sr_Outcome = StopNotAttempted, sr_Err = None, sr_TaskErr = None, sr_Duration = 0\<rparr>
        in Some ((record, None, Some (HookNotAttempted i StageStop budget)),
             s\<lparr>wk_report := report\<lparr>sh_Records := sh_Records report @ [record]\<rparr>\<rparr>)
      else
        let report = report\<lparr>sh_Attempted := sh_Attempted report @ [i]\<rparr> in
        map_option (\<lambda>((outcome, elapsed, err), x', w).
            let record = \<lparr>sr_Identity = i, sr_Outcome = outcome, sr_Err = err, sr_TaskErr = None, sr_Duration = elapsed\<rparr>;
                (report, record, taskErr, w) =
                  (if outcome \<noteq> StopAbandoned then
                     let (callErr, w) = run_afterStop afterStop i w
                     in (report\<lparr>sh_Completed := sh_Completed report @ [i]\<rparr>, record\<lparr>sr_TaskErr := callErr\<rparr>, callErr, w)
                   else (report, record, None, w));
                report = report\<lparr>sh_Records := sh_Records report @ [record]\<rparr>
            in ((record, taskErr, err),
                s\<lparr>wk_con := put_instance p x' (wk_con s), wk_world := w, wk_report := report\<rparr>))
          (stopBounded app x deadline settledCtx budget (wk_world s)))"

text \<open>One iteration of the loops of phases A and C, for the instances that \<open>chosen\<close> selects.\<close>

definition stop_visit ::
  "app \<Rightarrow> (identity \<Rightarrow> bool) \<Rightarrow> ctx \<Rightarrow> ctx \<Rightarrow> time \<Rightarrow> after_stop \<Rightarrow> nat \<Rightarrow> walk \<Rightarrow> walk option" where
  "stop_visit app chosen deadline settledCtx budget afterStop p s =
     (let i = in_identity (con_instances (wk_con s) ! p) in
      if \<not> chosen i then Some s
      else
        map_option (\<lambda>((_, taskErr, stopErr), s').
            s'\<lparr>wk_errs := wk_errs s' @ (case stopErr of None \<Rightarrow> [] | Some e \<Rightarrow> [e]) @
                 (case taskErr of None \<Rightarrow> [] | Some m \<Rightarrow> [TaskError i m])\<rparr>)
          (stopOne app p deadline settledCtx budget afterStop s))"

text \<open>One iteration of the loop of phase B.\<close>

definition drain_visit :: "app \<Rightarrow> (identity \<Rightarrow> bool) \<Rightarrow> ctx \<Rightarrow> time \<Rightarrow> nat \<Rightarrow> walk \<Rightarrow> walk option" where
  "drain_visit app ingress drainDeadline drainBudget p s =
     (let x = con_instances (wk_con s) ! p; i = in_identity x; report = wk_drain s in
      if ingress i \<or> \<not> HasDrain x then Some s
      else if ctx_Err (w_now (wk_world s)) drainDeadline then
        Some (s\<lparr>wk_drain := report\<lparr>dp_Records := dp_Records report @
          [\<lparr>dr_Identity = i, dr_Outcome = DrainNotAttempted, dr_Err = Some (HookNotAttempted i StageDrain drainBudget),
            dr_Duration = 0\<rparr>]\<rparr>\<rparr>)
      else
        map_option (\<lambda>((outcome, elapsed, err), w).
            s\<lparr>wk_world := w, wk_drain := report\<lparr>dp_Records := dp_Records report @
              [\<lparr>dr_Identity = i, dr_Outcome = outcome, dr_Err = err, dr_Duration = elapsed\<rparr>]\<rparr>\<rparr>)
          (drainBounded app x drainDeadline drainBudget (wk_world s)))"

text \<open>The deadlines of phases A and B: the early one, the one with the settle window, the budget.\<close>

definition early_contexts :: "ctx \<Rightarrow> time \<Rightarrow> time \<Rightarrow> ctx \<times> ctx \<times> time" where
  "early_contexts deadline budget stopReserve =
     (case ctx_Deadline deadline of
        Some walkEnd \<Rightarrow>
          if stopReserve > 0 then
            let earlyEnd = walkEnd - stopReserve
            in (WithDeadline deadline earlyEnd, WithDeadline deadline (earlyEnd + stopReserve div 4), budget - stopReserve)
          else (deadline, deadline, budget)
      | None \<Rightarrow> (deadline, deadline, budget))"

definition walk_positions :: "Constructed \<Rightarrow> nat list" where
  "walk_positions con = rev [0..<length (con_instances con)]"

definition phase_A ::
  "app \<Rightarrow> Constructed \<Rightarrow> ctx \<Rightarrow> time \<Rightarrow> time \<Rightarrow> after_stop \<Rightarrow> walk \<Rightarrow> walk option" where
  "phase_A app con deadline budget stopReserve afterStop s =
     (let (early, earlySettled, earlyBudget) = early_contexts deadline budget stopReserve
      in fold_opt (stop_visit app (\<lambda>i. i \<in> set (ingressClosure con)) early earlySettled earlyBudget afterStop)
           (walk_positions con) s)"

definition phase_B :: "app \<Rightarrow> Constructed \<Rightarrow> ctx \<Rightarrow> time \<Rightarrow> time \<Rightarrow> time \<Rightarrow> walk \<Rightarrow> walk option" where
  "phase_B app con deadline budget drainBudget stopReserve s =
     (if drainBudget > 0 then
        let (early, _, _) = early_contexts deadline budget stopReserve;
            drainDeadline = WithTimeout (w_now (wk_world s)) early drainBudget
        in fold_opt (drain_visit app (\<lambda>i. i \<in> set (ingressClosure con)) drainDeadline drainBudget) (walk_positions con) s
      else Some s)"

definition phase_C :: "app \<Rightarrow> Constructed \<Rightarrow> ctx \<Rightarrow> time \<Rightarrow> after_stop \<Rightarrow> walk \<Rightarrow> walk option" where
  "phase_C app con deadline budget afterStop s =
     fold_opt (stop_visit app (\<lambda>i. i \<notin> set (ingressClosure con)) deadline deadline budget afterStop)
       (walk_positions con) s"

text \<open>A nil receiver owns nothing.\<close>

definition nothing_owned :: Constructed where
  "nothing_owned = \<lparr>con_instances = [], con_byIdentity = []\<rparr>"

definition unwindPhases ::
  "app \<Rightarrow> Constructed option \<Rightarrow> ctx \<Rightarrow> time \<Rightarrow> time \<Rightarrow> time \<Rightarrow> after_stop \<Rightarrow> world \<Rightarrow> walk option" where
  "unwindPhases app constructed deadline budget drainBudget stopReserve afterStop w =
     (case constructed of
        None \<Rightarrow> Some (start_walk nothing_owned w)
      | Some con \<Rightarrow>
          (case phase_A app con deadline budget stopReserve afterStop (start_walk con w) of
             None \<Rightarrow> None
           | Some s \<Rightarrow>
               (case phase_B app con deadline budget drainBudget stopReserve s of
                  None \<Rightarrow> None
                | Some s' \<Rightarrow> phase_C app con deadline budget afterStop s')))"

definition Unwind :: "app \<Rightarrow> Constructed option \<Rightarrow> ctx \<Rightarrow> time \<Rightarrow> after_stop \<Rightarrow> world \<Rightarrow> walk option" where
  "Unwind app con deadline budget afterStop w = unwindPhases app con deadline budget 0 0 afterStop w"

definition UnwindWithDrain ::
  "app \<Rightarrow> Constructed option \<Rightarrow> ctx \<Rightarrow> time \<Rightarrow> time \<Rightarrow> time \<Rightarrow> after_stop \<Rightarrow> world \<Rightarrow> walk option" where
  "UnwindWithDrain app con deadline budget drainBudget stopReserve afterStop w =
     unwindPhases app con deadline budget drainBudget stopReserve afterStop w"

section \<open>The closure is the transitive closure\<close>

text \<open>The edges of the walk: from a producer to an instance that declared an input on it.\<close>

definition consumer_edges :: "Constructed \<Rightarrow> (identity \<times> identity) set" where
  "consumer_edges con = {(d, in_identity x) | d x. x \<in> set (con_instances con) \<and> d \<in> set (in_dependsOn x)}"

lemma add_dependents_list:
  "set (gm_list (fold (add_dependent c) ds m) k) = set (gm_list m k) \<union> (if k \<in> set ds then {c} else {})"
  by (induction ds arbitrary: m) (auto simp: add_dependent_def)

lemma dependents_list:
  "set (gm_list (dependents xs) d) = {in_identity x | x. x \<in> set xs \<and> d \<in> set (in_dependsOn x)}"
proof -
  have "set (gm_list (fold (\<lambda>x. fold (add_dependent (in_identity x)) (in_dependsOn x)) xs m) d) =
      set (gm_list m d) \<union> {in_identity x | x. x \<in> set xs \<and> d \<in> set (in_dependsOn x)}" for m
    by (induction xs arbitrary: m) (auto simp: add_dependents_list)
  from this [of "[]"] show ?thesis by (simp add: dependents_def gm_list_def)
qed

lemma absorb_spec:
  "\<exists>new. absorb ds (ingress, queue) = (ingress @ new, queue @ new) \<and> set (ingress @ new) = set ingress \<union> set ds"
proof (induction ds arbitrary: ingress queue)
  case (Cons d ds)
  show ?case
  proof (cases "d \<in> set ingress")
    case True
    with Cons.IH [of ingress queue] show ?thesis by auto
  next
    case False
    obtain new where new: "absorb ds (ingress @ [d], queue @ [d]) = ((ingress @ [d]) @ new, (queue @ [d]) @ new)"
      "set ((ingress @ [d]) @ new) = set (ingress @ [d]) \<union> set ds"
      using Cons.IH by blast
    with False show ?thesis by (intro exI [of _ "d # new"]) auto
  qed
qed simp

lemma close_ingress_closure:
  assumes "set queue \<subseteq> set ingress" and "S \<subseteq> set ingress" and "set ingress \<subseteq> R\<^sup>* `` S"
    and "R = {(j, i). i \<in> set (gm_list deps j)}"
    and "\<And>j i. j \<in> set ingress \<Longrightarrow> j \<notin> set queue \<Longrightarrow> (j, i) \<in> R \<Longrightarrow> i \<in> set ingress"
  shows "set (close_ingress deps ingress queue) = R\<^sup>* `` S"
  using assms
proof (induction deps ingress queue rule: close_ingress.induct)
  case (1 deps ingress)
  have "i \<in> set ingress" if "(j, i) \<in> R\<^sup>*" "j \<in> S" for i j
    using that by (induction rule: rtrancl_induct) (use 1 in auto)
  with 1 show ?case by auto
next
  case (2 deps ingress current queue)
  obtain new where new: "absorb (gm_list deps current) (ingress, queue) = (ingress @ new, queue @ new)"
    and all: "set (ingress @ new) = set ingress \<union> set (gm_list deps current)"
    using absorb_spec by blast
  have "current \<in> R\<^sup>* `` S" using 2(2,4) by auto
  then have "set (gm_list deps current) \<subseteq> R\<^sup>* `` S"
    using 2(5) by (auto intro: rtrancl_into_rtrancl)
  then have "set (ingress @ new) \<subseteq> R\<^sup>* `` S" using 2(4) all by blast
  moreover have "i \<in> set (ingress @ new)" if "j \<in> set (ingress @ new)" "j \<notin> set (queue @ new)" "(j, i) \<in> R" for i j
  proof (cases "j = current")
    case True
    with that(3) 2(5) all show ?thesis by auto
  next
    case False
    with that 2(6) [of j i] show ?thesis by auto
  qed
  ultimately have "set (close_ingress deps (ingress @ new) (queue @ new)) = R\<^sup>* `` S"
    using 2(2,3,5) by (intro 2(1) [OF new [symmetric] refl]) auto
  with new show ?case by simp
qed

lemma ingressClosure_image:
  "set (ingressClosure con) = (consumer_edges con)\<^sup>* `` (in_identity ` {x \<in> set (con_instances con). IsIngress x})"
proof -
  let ?ing = "dedupe_on (\<lambda>i. i) [] (map in_identity (filter IsIngress (con_instances con)))"
  have ing: "set ?ing = in_identity ` {x \<in> set (con_instances con). IsIngress x}"
    using dedupe_on_keys [of "\<lambda>i. i" "[]" "map in_identity (filter IsIngress (con_instances con))"] by auto
  have edges: "consumer_edges con = {(j, i). i \<in> set (gm_list (dependents (con_instances con)) j)}"
    by (auto simp: consumer_edges_def dependents_list)
  show ?thesis
  proof (cases "?ing = []")
    case True
    with ing have "in_identity ` {x \<in> set (con_instances con). IsIngress x} = {}" by simp
    with True show ?thesis by (simp add: ingressClosure_def del: image_is_empty)
  next
    case False
    have "set (close_ingress (dependents (con_instances con)) ?ing ?ing) = (consumer_edges con)\<^sup>* `` set ?ing"
      by (rule close_ingress_closure [OF _ _ _ edges]) auto
    with False ing show ?thesis by (simp add: ingressClosure_def Let_def)
  qed
qed

text \<open>
  C28. The breadth-first search of \<^verbatim>\<open>ingressClosure\<close> returns exactly the instances that open
  traffic and those that depend on one of them, directly or through others; in particular the set
  is closed under consumers.
\<close>

theorem ingressClosure_closure:
  "i \<in> set (ingressClosure con) \<longleftrightarrow>
     (\<exists>x. x \<in> set (con_instances con) \<and> IsIngress x \<and> (in_identity x, i) \<in> (consumer_edges con)\<^sup>*)"
  by (auto simp: ingressClosure_image)

lemma ingressClosure_up:
  "j \<in> set (ingressClosure con) \<Longrightarrow> (j, i) \<in> consumer_edges con \<Longrightarrow> i \<in> set (ingressClosure con)"
  by (auto simp: ingressClosure_image intro: rtrancl_into_rtrancl)

section \<open>Single visits\<close>

text \<open>The identities whose \<^verbatim>\<open>Stop\<close> hook was called, in order.\<close>

fun stop_call :: "event \<Rightarrow> identity option" where
  "stop_call (HookCalled StageStop i) = Some i"
| "stop_call _ = None"

definition stop_calls :: "world \<Rightarrow> identity list" where
  "stop_calls w = List.map_filter stop_call (w_events w)"

lemma stop_calls_emit [simp]:
  "stop_calls (emit e w) = stop_calls w @ (case stop_call e of None \<Rightarrow> [] | Some i \<Rightarrow> [i])"
  by (simp add: stop_calls_def map_filter_simps List.map_filter_def split: option.splits)

lemma stop_calls_advance [simp]: "stop_calls (advance t w) = stop_calls w"
  by (simp add: stop_calls_def)

text \<open>An attempt calls the hook unless there is none or the instance was stopped before.\<close>

definition stop_due :: "Instance_data \<Rightarrow> bool" where
  "stop_due x \<longleftrightarrow> \<not> in_stopped x \<and> HasStop x"

lemma stopBounded_cases:
  assumes "stopBounded app x hookCtx waitCtx budget w = Some ((outcome, elapsed, err), x', w')"
  shows "x' = x\<lparr>in_stopped := True\<rparr> \<and>
    (\<not> stop_due x \<and> outcome = StopSkipped \<and> w' = w \<or>
     stop_due x \<and> outcome \<notin> {StopSkipped, StopNotAttempted} \<and>
     (\<exists>running r. await (w_now w) running waitCtx = Some r \<and>
        w' = advance (waited_until r) (emit (HookCalled StageStop (in_identity x)) w)))"
proof (cases "stop_due x")
  case False
  with assms show ?thesis by (auto simp: stopBounded_def stop_due_def HasStop_def Let_def split: if_splits)
next
  case True
  then have due: "\<not> in_stopped x" "ld_stop (in_lifecycle x) \<noteq> None" by (auto simp: stop_due_def HasStop_def)
  with assms obtain r where r: "await (w_now w)
      (ap_detached app (emit (HookCalled StageStop (in_identity x)) w) StageStop (x\<lparr>in_stopped := True\<rparr>) hookCtx) waitCtx = Some r"
    by (auto simp: stopBounded_def Let_def)
  obtain t res where "r = Reported t res \<or> r = GaveUp t" by (cases r) auto
  moreover obtain panicked e where "invokeClassified (in_identity x) StageStop res = (panicked, e)" by fastforce
  ultimately have "x' = x\<lparr>in_stopped := True\<rparr> \<and> outcome \<notin> {StopSkipped, StopNotAttempted} \<and>
      w' = advance (waited_until r) (emit (HookCalled StageStop (in_identity x)) w)"
    using assms due r by (auto simp: stopBounded_def Let_def split: if_splits)
  with True r show ?thesis by blast
qed

lemma stopBounded_spec:
  assumes "stopBounded app x hookCtx waitCtx budget w = Some ((outcome, elapsed, err), x', w')"
  shows "x' = x\<lparr>in_stopped := True\<rparr>"
    and "stop_calls w' = stop_calls w @ (if stop_due x then [in_identity x] else [])"
    and "outcome = StopSkipped \<longleftrightarrow> \<not> stop_due x"
    and "outcome \<noteq> StopNotAttempted"
    and "w_now w \<le> w_now w'"
    and "ctx_done waitCtx = Some d \<Longrightarrow> w_now w' \<le> max (w_now w) d"
  using stopBounded_cases [OF assms] await_bounds by fastforce+

lemma stopBounded_returns:
  assumes "ctx_done waitCtx = Some d"
  shows "stopBounded app x hookCtx waitCtx budget w \<noteq> None"
proof -
  have "await started running waitCtx \<noteq> None" for started running using await_returns [OF assms] by simp
  then show ?thesis by (simp add: stopBounded_def Let_def del: not_None_eq)
qed

lemma drainBounded_cases:
  assumes "drainBounded app x deadline budget w = Some ((outcome, elapsed, err), w')"
  shows "w' = w \<or> (\<exists>running r. await (w_now w) running deadline = Some r \<and>
    w' = advance (waited_until r) (emit (HookCalled StageDrain (in_identity x)) w))"
proof (cases "ld_drain (in_lifecycle x) = None")
  case True
  with assms show ?thesis by (simp add: drainBounded_def)
next
  case False
  with assms obtain r where r: "await (w_now w)
      (ap_detached app (emit (HookCalled StageDrain (in_identity x)) w) StageDrain x deadline) deadline = Some r"
    by (auto simp: drainBounded_def Let_def)
  obtain t res where "r = Reported t res \<or> r = GaveUp t" by (cases r) auto
  moreover obtain panicked e where "invokeClassified (in_identity x) StageDrain res = (panicked, e)" by fastforce
  ultimately have "w' = advance (waited_until r) (emit (HookCalled StageDrain (in_identity x)) w)"
    using assms False r by (auto simp: drainBounded_def Let_def)
  with r show ?thesis by blast
qed

lemma drainBounded_spec:
  assumes "drainBounded app x deadline budget w = Some ((outcome, elapsed, err), w')"
  shows "stop_calls w' = stop_calls w" and "w_now w \<le> w_now w'"
    and "ctx_done deadline = Some d \<Longrightarrow> w_now w' \<le> max (w_now w) d"
  using drainBounded_cases [OF assms] await_bounds by fastforce+

lemma drainBounded_returns:
  assumes "ctx_done deadline = Some d"
  shows "drainBounded app x deadline budget w \<noteq> None"
proof -
  have "await started running deadline \<noteq> None" for started running using await_returns [OF assms] by simp
  then show ?thesis by (simp add: drainBounded_def Let_def del: not_None_eq)
qed

lemma run_afterStop_spec:
  assumes "run_afterStop afterStop i w = (err, w')"
  shows "stop_calls w' = stop_calls w" and "w_now w \<le> w_now w'"
  using assms by (auto simp: run_afterStop_def Let_def split: option.splits prod.splits)

text \<open>Two sets of owned instances that differ only in what has been stopped.\<close>

definition same_shape :: "Constructed \<Rightarrow> Constructed \<Rightarrow> bool" where
  "same_shape a b \<longleftrightarrow>
     map (in_stopped_update (\<lambda>_. False)) (con_instances a) = map (in_stopped_update (\<lambda>_. False)) (con_instances b) \<and>
     con_byIdentity a = con_byIdentity b"

lemma same_shape_refl [simp]: "same_shape a a"
  by (simp add: same_shape_def)

lemma same_shape_trans: "same_shape a b \<Longrightarrow> same_shape b c \<Longrightarrow> same_shape a c"
  by (simp add: same_shape_def)

lemma same_shape_length: "same_shape a b \<Longrightarrow> length (con_instances a) = length (con_instances b)"
  unfolding same_shape_def by (metis length_map)

lemma same_shape_map:
  assumes "same_shape a b" and "\<And>x v. f (x\<lparr>in_stopped := v\<rparr>) = f x"
  shows "map f (con_instances a) = map f (con_instances b)"
proof -
  have "map f xs = map f (map (in_stopped_update (\<lambda>_. False)) xs)" for xs
    by (simp add: assms(2))
  with assms(1) show ?thesis unfolding same_shape_def by metis
qed

lemma same_shape_nth:
  assumes "same_shape a b" and "p < length (con_instances a)" and "\<And>x v. f (x\<lparr>in_stopped := v\<rparr>) = f x"
  shows "f (con_instances b ! p) = f (con_instances a ! p)"
  using same_shape_map [OF assms(1,3)] assms(2) same_shape_length [OF assms(1)] by (metis nth_map)

lemma same_shape_stop:
  "p < length (con_instances c) \<Longrightarrow>
     same_shape c (put_instance p ((con_instances c ! p)\<lparr>in_stopped := True\<rparr>) c)"
  using list_update_id [of "map (in_stopped_update (\<lambda>_. False)) (con_instances c)" p]
  by (simp add: same_shape_def put_instance_def map_update)

text \<open>What one attempt at stopping the instance at position \<open>p\<close> does to the walk.\<close>

lemma stopOne_spec:
  assumes "stopOne app p deadline settledCtx budget afterStop s = Some ((r, taskErr, err), s')"
    and p: "p < length (con_instances (wk_con s))"
  defines "x \<equiv> con_instances (wk_con s) ! p"
  shows "same_shape (wk_con s) (wk_con s')"
    and "sh_Records (wk_report s') = sh_Records (wk_report s) @ [r]" and "sr_Identity r = in_identity x"
    and "wk_drain s' = wk_drain s" and "wk_errs s' = wk_errs s"
    and "sr_Outcome r = StopNotAttempted \<and> wk_con s' = wk_con s \<and> wk_world s' = wk_world s \<and>
           err = Some (HookNotAttempted (in_identity x) StageStop budget) \<or>
         sr_Outcome r \<noteq> StopNotAttempted \<and> (sr_Outcome r = StopSkipped \<longleftrightarrow> \<not> stop_due x) \<and>
           wk_con s' = put_instance p (x\<lparr>in_stopped := True\<rparr>) (wk_con s) \<and>
           stop_calls (wk_world s') = stop_calls (wk_world s) @ (if stop_due x then [in_identity x] else [])"
    and "sr_Outcome r = StopNotAttempted \<longleftrightarrow> ctx_Err (w_now (wk_world s)) deadline"
proof -
  have all: "same_shape (wk_con s) (wk_con s') \<and>
      sh_Records (wk_report s') = sh_Records (wk_report s) @ [r] \<and> sr_Identity r = in_identity x \<and>
      wk_drain s' = wk_drain s \<and> wk_errs s' = wk_errs s \<and>
      (sr_Outcome r = StopNotAttempted \<and> wk_con s' = wk_con s \<and> wk_world s' = wk_world s \<and>
           err = Some (HookNotAttempted (in_identity x) StageStop budget) \<or>
         sr_Outcome r \<noteq> StopNotAttempted \<and> (sr_Outcome r = StopSkipped \<longleftrightarrow> \<not> stop_due x) \<and>
           wk_con s' = put_instance p (x\<lparr>in_stopped := True\<rparr>) (wk_con s) \<and>
           stop_calls (wk_world s') = stop_calls (wk_world s) @ (if stop_due x then [in_identity x] else [])) \<and>
      (sr_Outcome r = StopNotAttempted \<longleftrightarrow> ctx_Err (w_now (wk_world s)) deadline)"
  proof (cases "ctx_Err (w_now (wk_world s)) deadline")
    case True
    with assms(1) show ?thesis by (auto simp: stopOne_def Let_def x_def)
  next
    case False
    with assms(1) obtain outcome elapsed e x' w where
      st: "stopBounded app x deadline settledCtx budget (wk_world s) = Some ((outcome, elapsed, e), x', w)"
      by (auto simp: stopOne_def Let_def x_def)
    obtain ce w2 where as: "run_afterStop afterStop (in_identity x) w = (ce, w2)" by fastforce
    note spec = stopBounded_spec(1-4) [OF st]
    note sh = same_shape_stop [OF p, folded x_def]
    show ?thesis
      using assms(1) False st as spec run_afterStop_spec(1) [OF as] sh
      by (auto simp: stopOne_def Let_def x_def [symmetric] split: if_splits)
  qed
  then show "same_shape (wk_con s) (wk_con s')"
    "sh_Records (wk_report s') = sh_Records (wk_report s) @ [r]" "sr_Identity r = in_identity x"
    "wk_drain s' = wk_drain s" "wk_errs s' = wk_errs s"
    "sr_Outcome r = StopNotAttempted \<and> wk_con s' = wk_con s \<and> wk_world s' = wk_world s \<and>
           err = Some (HookNotAttempted (in_identity x) StageStop budget) \<or>
         sr_Outcome r \<noteq> StopNotAttempted \<and> (sr_Outcome r = StopSkipped \<longleftrightarrow> \<not> stop_due x) \<and>
           wk_con s' = put_instance p (x\<lparr>in_stopped := True\<rparr>) (wk_con s) \<and>
           stop_calls (wk_world s') = stop_calls (wk_world s) @ (if stop_due x then [in_identity x] else [])"
    "sr_Outcome r = StopNotAttempted \<longleftrightarrow> ctx_Err (w_now (wk_world s)) deadline"
    by blast+
qed

section \<open>Walks\<close>

text \<open>
  What the three loops have in common: a visit of a position appends at most one identity to a
  list of records, the one \<open>item\<close> names, and changes neither the range of positions nor what
  the other positions would record.
\<close>

locale visit_walk =
  fixes visit :: "nat \<Rightarrow> 's \<Rightarrow> 's option"
    and inside :: "nat \<Rightarrow> 's \<Rightarrow> bool"
    and item :: "'s \<Rightarrow> nat \<Rightarrow> identity option"
    and seen :: "'s \<Rightarrow> identity list"
  assumes visit_keeps: "\<lbrakk>inside p s; visit p s = Some s'; inside q s\<rbrakk> \<Longrightarrow> inside q s' \<and> item s' q = item s q"
    and visit_seen: "\<lbrakk>inside p s; visit p s = Some s'\<rbrakk> \<Longrightarrow>
      seen s' = seen s @ (case item s p of None \<Rightarrow> [] | Some i \<Rightarrow> [i])"
begin

lemma walk_seen:
  assumes "fold_opt visit ps s = Some t" and "\<forall>p \<in> set ps. inside p s"
  shows "seen t = seen s @ List.map_filter (item s) ps \<and> (\<forall>q. inside q s \<longrightarrow> inside q t \<and> item t q = item s q)"
  using assms
proof (induction ps arbitrary: s)
  case Nil
  then show ?case by (simp add: List.map_filter_simps)
next
  case (Cons p ps)
  then obtain s' where s': "visit p s = Some s'" "fold_opt visit ps s' = Some t" by (auto split: option.splits)
  have p: "inside p s" using Cons.prems by simp
  have keep: "inside q s' \<and> item s' q = item s q" if "inside q s" for q
    using visit_keeps [OF p s'(1) that] .
  have rest: "\<forall>q \<in> set ps. inside q s'" using keep Cons.prems by auto
  note ih = Cons.IH [OF s'(2) rest]
  have "List.map_filter (item s') ps = List.map_filter (item s) ps"
    using keep Cons.prems(2) by (auto simp: List.map_filter_def intro!: map_cong filter_cong)
  with ih visit_seen [OF p s'(1)] keep show ?case
    by (auto simp: List.map_filter_simps split: option.splits)
qed

end

text \<open>A walk whose waits end: every visit returns, and only waits until \<open>limit\<close> or costs \<open>cost\<close>.\<close>

locale timed_walk = visit_walk visit inside item seen
  for visit :: "nat \<Rightarrow> 's \<Rightarrow> 's option" and inside item seen +
  fixes clock :: "'s \<Rightarrow> time" and limit cost :: time
  assumes cost_nonneg: "0 \<le> cost"
    and visit_returns: "inside p s \<Longrightarrow> visit p s \<noteq> None"
    and visit_clock: "\<lbrakk>inside p s; visit p s = Some s'\<rbrakk> \<Longrightarrow> clock s \<le> clock s' \<and> clock s' \<le> max (clock s) limit + cost"
begin

lemma walk_returns:
  assumes "\<forall>p \<in> set ps. inside p s"
  shows "\<exists>t. fold_opt visit ps s = Some t \<and> clock s \<le> clock t \<and>
    clock t \<le> max (clock s) limit + int (length ps) * cost"
  using assms
proof (induction ps arbitrary: s)
  case (Cons p ps)
  then have p: "inside p s" by simp
  then obtain s' where s': "visit p s = Some s'" using visit_returns by blast
  have "\<forall>q \<in> set ps. inside q s'" using visit_keeps [OF p s'] Cons.prems by auto
  from Cons.IH [OF this] obtain t where "fold_opt visit ps s' = Some t" "clock s' \<le> clock t"
    "clock t \<le> max (clock s') limit + int (length ps) * cost" by blast
  with s' visit_clock [OF p s'] cost_nonneg show ?case
    by (auto simp: distrib_right)
qed simp

end

abbreviation owned_at :: "nat \<Rightarrow> walk \<Rightarrow> bool" where
  "owned_at p s \<equiv> p < length (con_instances (wk_con s))"

abbreviation walk_clock :: "walk \<Rightarrow> time" where
  "walk_clock s \<equiv> w_now (wk_world s)"

definition stop_item :: "(identity \<Rightarrow> bool) \<Rightarrow> walk \<Rightarrow> nat \<Rightarrow> identity option" where
  "stop_item chosen s p =
     (let i = in_identity (con_instances (wk_con s) ! p) in if chosen i then Some i else None)"

definition drain_item :: "(identity \<Rightarrow> bool) \<Rightarrow> walk \<Rightarrow> nat \<Rightarrow> identity option" where
  "drain_item ingress s p =
     (let x = con_instances (wk_con s) ! p; i = in_identity x in if ingress i \<or> \<not> HasDrain x then None else Some i)"

abbreviation stop_seen :: "walk \<Rightarrow> identity list" where
  "stop_seen s \<equiv> map sr_Identity (sh_Records (wk_report s))"

abbreviation drain_seen :: "walk \<Rightarrow> identity list" where
  "drain_seen s \<equiv> map dr_Identity (dp_Records (wk_drain s))"

text \<open>A visit of the stop loops, with what it keeps of the rest of the walk.\<close>

lemma stop_visit_chosen:
  assumes "stop_visit app chosen deadline settledCtx budget afterStop p s = Some s'"
    and "chosen (in_identity (con_instances (wk_con s) ! p))"
  obtains r taskErr err s1 where
    "stopOne app p deadline settledCtx budget afterStop s = Some ((r, taskErr, err), s1)"
    "s' = s1\<lparr>wk_errs := wk_errs s1 @ (case err of None \<Rightarrow> [] | Some e \<Rightarrow> [e]) @
       (case taskErr of None \<Rightarrow> [] | Some m \<Rightarrow> [TaskError (in_identity (con_instances (wk_con s) ! p)) m])\<rparr>"
  using assms by (auto simp: stop_visit_def Let_def)

lemma stop_visit_shape:
  assumes "stop_visit app chosen deadline settledCtx budget afterStop p s = Some s'" and "owned_at p s"
  shows "same_shape (wk_con s) (wk_con s') \<and> wk_drain s' = wk_drain s \<and>
    stop_seen s' = stop_seen s @ (case stop_item chosen s p of None \<Rightarrow> [] | Some i \<Rightarrow> [i])"
proof (cases "chosen (in_identity (con_instances (wk_con s) ! p))")
  case True
  obtain r taskErr err s1 where
    one: "stopOne app p deadline settledCtx budget afterStop s = Some ((r, taskErr, err), s1)" and
    s': "s' = s1\<lparr>wk_errs := wk_errs s'\<rparr>"
    by (rule stop_visit_chosen [OF assms(1) True]) simp
  from stopOne_spec(1-4) [OF one assms(2)] True arg_cong [OF s', of wk_con]
    arg_cong [OF s', of wk_drain] arg_cong [OF s', of wk_report] show ?thesis by (auto simp: stop_item_def)
qed (use assms in \<open>auto simp: stop_visit_def stop_item_def\<close>)

lemma drain_visit_shape:
  assumes "drain_visit app ingress deadline budget p s = Some s'"
  shows "wk_con s' = wk_con s \<and> wk_report s' = wk_report s \<and> wk_errs s' = wk_errs s \<and>
    stop_calls (wk_world s') = stop_calls (wk_world s) \<and>
    drain_seen s' = drain_seen s @ (case drain_item ingress s p of None \<Rightarrow> [] | Some i \<Rightarrow> [i])"
  using assms by (auto simp: drain_visit_def drain_item_def Let_def dest: drainBounded_spec(1) split: if_splits)

lemma stop_item_shape:
  "same_shape (wk_con s) (wk_con s') \<Longrightarrow> owned_at q s \<Longrightarrow> stop_item chosen s' q = stop_item chosen s q"
  using same_shape_nth [of "wk_con s" "wk_con s'" q in_identity] by (simp add: stop_item_def)

interpretation stops: visit_walk "stop_visit app chosen deadline settledCtx budget afterStop" owned_at
  "stop_item chosen" stop_seen
  for app chosen deadline settledCtx budget afterStop
  by unfold_locales (auto dest!: stop_visit_shape simp: stop_item_shape dest: same_shape_length)

interpretation drains: visit_walk "drain_visit app ingress deadline budget" owned_at "drain_item ingress" drain_seen
  for app ingress deadline budget
  by unfold_locales (auto dest!: drain_visit_shape simp: drain_item_def)

section \<open>Order\<close>

text \<open>\<open>precedes i d xs\<close>: somewhere in \<open>xs\<close>, \<open>i\<close> comes before \<open>d\<close>.\<close>

definition precedes :: "'a \<Rightarrow> 'a \<Rightarrow> 'a list \<Rightarrow> bool" where
  "precedes i d xs \<longleftrightarrow> (\<exists>as bs cs. xs = as @ i # bs @ d # cs)"

lemma precedes_append:
  "precedes i d xs \<Longrightarrow> precedes i d (xs @ ys)"
  "precedes i d ys \<Longrightarrow> precedes i d (xs @ ys)"
  "i \<in> set xs \<Longrightarrow> d \<in> set ys \<Longrightarrow> precedes i d (xs @ ys)"
proof -
  show "precedes i d (xs @ ys)" if "precedes i d xs"
    using that unfolding precedes_def by force
  show "precedes i d (xs @ ys)" if "precedes i d ys"
    using that unfolding precedes_def by (metis append.assoc)
  show "precedes i d (xs @ ys)" if i: "i \<in> set xs" and d: "d \<in> set ys"
  proof -
    from split_list [OF i] obtain as bs where "xs = as @ i # bs" by blast
    moreover from split_list [OF d] obtain cs ds where "ys = cs @ d # ds" by blast
    ultimately have "xs @ ys = as @ i # (bs @ cs) @ d # ds" by simp
    then show ?thesis unfolding precedes_def by blast
  qed
qed

lemma precedes_filter: "precedes i d xs \<Longrightarrow> P i \<Longrightarrow> P d \<Longrightarrow> precedes i d (filter P xs)"
  unfolding precedes_def by force

lemma precedes_rev: "precedes d i xs \<Longrightarrow> precedes i d (rev xs)"
  unfolding precedes_def by force

text \<open>Every instance depends only on instances that were constructed before it.\<close>

definition dependency_ordered :: "Constructed \<Rightarrow> bool" where
  "dependency_ordered con \<longleftrightarrow>
     (\<forall>p < length (con_instances con). set (in_dependsOn (con_instances con ! p)) \<subseteq> set (take p (con_identities con)))"

lemma dependency_ordered_precedes:
  assumes "dependency_ordered con" and "(d, i) \<in> consumer_edges con"
  shows "precedes d i (con_identities con)"
proof -
  obtain p where p: "p < length (con_instances con)" "in_identity (con_instances con ! p) = i"
    "d \<in> set (in_dependsOn (con_instances con ! p))"
    using assms(2) by (auto simp: consumer_edges_def in_set_conv_nth)
  with assms(1) have "d \<in> set (take p (con_identities con))" unfolding dependency_ordered_def by blast
  moreover have "con_identities con = take p (con_identities con) @ i # drop (Suc p) (con_identities con)"
    using p id_take_nth_drop [of p "con_identities con"] by simp
  ultimately show ?thesis
    using precedes_append(3) [of d "take p (con_identities con)" i "i # drop (Suc p) (con_identities con)"] by simp
qed

text \<open>The identities in the order in which the walk records them.\<close>

definition unwind_order :: "Constructed \<Rightarrow> identity list" where
  "unwind_order con =
     filter (\<lambda>i. i \<in> set (ingressClosure con)) (rev (con_identities con)) @
     filter (\<lambda>i. i \<notin> set (ingressClosure con)) (rev (con_identities con))"

lemma unwind_order_consumers_first:
  assumes "dependency_ordered con" and edge: "(d, i) \<in> consumer_edges con"
  shows "precedes i d (unwind_order con)"
proof -
  have di: "precedes d i (con_identities con)" using dependency_ordered_precedes [OF assms] .
  then have r: "precedes i d (rev (con_identities con))" by (rule precedes_rev)
  from di have mem: "i \<in> set (con_identities con)" "d \<in> set (con_identities con)"
    unfolding precedes_def by (metis in_set_conv_decomp append.assoc append_Cons)+
  consider "i \<in> set (ingressClosure con)" "d \<in> set (ingressClosure con)"
    | "i \<in> set (ingressClosure con)" "d \<notin> set (ingressClosure con)"
    | "i \<notin> set (ingressClosure con)" "d \<notin> set (ingressClosure con)"
    using ingressClosure_up [OF _ edge] by blast
  then show ?thesis
  proof cases
    case 1
    with precedes_filter [OF r, of "\<lambda>i. i \<in> set (ingressClosure con)"] show ?thesis
      unfolding unwind_order_def by (intro precedes_append(1)) simp
  next
    case 2
    with mem show ?thesis unfolding unwind_order_def by (intro precedes_append(3)) auto
  next
    case 3
    with precedes_filter [OF r, of "\<lambda>i. i \<notin> set (ingressClosure con)"] show ?thesis
      unfolding unwind_order_def by (intro precedes_append(2)) simp
  qed
qed

lemma map_filter_positions:
  "List.map_filter (\<lambda>p. if P (f (xs ! p)) then Some (f (xs ! p)) else None) (rev [0..<length xs]) =
   filter P (rev (map f xs))"
proof -
  have "map (\<lambda>p. f (xs ! p)) (rev [0..<length xs]) = rev (map f xs)"
    by (simp add: rev_map [symmetric]) (rule nth_equalityI, simp_all)
  moreover have "List.map_filter (\<lambda>p. if P (g p) then Some (g p) else None) ps = filter P (map g ps)" for g and ps :: "nat list"
    by (induction ps) (auto simp: List.map_filter_simps)
  ultimately show ?thesis by metis
qed

lemma stop_items:
  "same_shape con (wk_con s) \<Longrightarrow> List.map_filter (stop_item chosen s) (walk_positions con) = filter chosen (rev (con_identities con))"
  using map_filter_positions [of chosen in_identity "con_instances (wk_con s)"]
    same_shape_map [of con "wk_con s" in_identity] same_shape_length [of con "wk_con s"]
  by (simp add: stop_item_def [abs_def] walk_positions_def Let_def)

lemma positions_owned: "same_shape con (wk_con s) \<Longrightarrow> \<forall>p \<in> set (walk_positions con). owned_at p s"
  using same_shape_length [of con "wk_con s"] by (simp add: walk_positions_def)

text \<open>A whole stop loop: its records, and the hooks it called.\<close>

definition hook_ran :: "StopRecord \<Rightarrow> bool" where
  "hook_ran r \<longleftrightarrow> sr_Outcome r \<notin> {StopSkipped, StopNotAttempted}"

abbreviation ran :: "walk \<Rightarrow> identity list" where
  "ran s \<equiv> map sr_Identity (filter hook_ran (sh_Records (wk_report s)))"

lemma stop_visit_ran:
  assumes "stop_visit app chosen deadline settledCtx budget afterStop p s = Some s'" and "owned_at p s"
    and "stop_calls (wk_world s) = calls @ ran s"
  shows "stop_calls (wk_world s') = calls @ ran s'"
proof (cases "chosen (in_identity (con_instances (wk_con s) ! p))")
  case True
  obtain r taskErr err s1 where
    one: "stopOne app p deadline settledCtx budget afterStop s = Some ((r, taskErr, err), s1)" and
    s': "s' = s1\<lparr>wk_errs := wk_errs s'\<rparr>"
    by (rule stop_visit_chosen [OF assms(1) True]) simp
  have eq: "wk_world s' = wk_world s1" "wk_report s' = wk_report s1"
    using arg_cong [OF s', of wk_world] arg_cong [OF s', of wk_report] by simp_all
  from stopOne_spec(2,3,6) [OF one assms(2)] assms(3) show ?thesis
    by (auto simp: eq hook_ran_def)
qed (use assms in \<open>auto simp: stop_visit_def\<close>)

lemma stop_loop:
  assumes run: "fold_opt (stop_visit app chosen deadline settledCtx budget afterStop) (walk_positions con) s = Some t"
    and sh: "same_shape con (wk_con s)" and calls: "stop_calls (wk_world s) = calls @ ran s"
  shows "same_shape con (wk_con t) \<and> wk_drain t = wk_drain s \<and>
    stop_seen t = stop_seen s @ filter chosen (rev (con_identities con)) \<and> stop_calls (wk_world t) = calls @ ran t"
proof -
  have "same_shape con (wk_con t) \<and> wk_drain t = wk_drain s \<and> stop_calls (wk_world t) = calls @ ran t"
    using run
  proof (rule fold_opt_invariant)
    show "same_shape con (wk_con s) \<and> wk_drain s = wk_drain s \<and> stop_calls (wk_world s) = calls @ ran s"
      using sh calls by simp
  next
    fix p u u' assume p: "p \<in> set (walk_positions con)"
      and u: "same_shape con (wk_con u) \<and> wk_drain u = wk_drain s \<and> stop_calls (wk_world u) = calls @ ran u"
      and v: "stop_visit app chosen deadline settledCtx budget afterStop p u = Some u'"
    have own: "owned_at p u" using positions_owned u p by blast
    from stop_visit_shape [OF v own] stop_visit_ran [OF v own] u
    show "same_shape con (wk_con u') \<and> wk_drain u' = wk_drain s \<and> stop_calls (wk_world u') = calls @ ran u'"
      by (auto intro: same_shape_trans)
  qed
  with stops.walk_seen [OF run positions_owned [OF sh]] stop_items [OF sh] show ?thesis by simp
qed

lemma drain_items:
  "same_shape con (wk_con s) \<Longrightarrow>
     List.map_filter (drain_item ingress s) (walk_positions con) =
     map in_identity (filter (\<lambda>x. \<not> ingress (in_identity x) \<and> HasDrain x) (rev (con_instances con)))"
proof -
  assume sh: "same_shape con (wk_con s)"
  let ?P = "\<lambda>(i, h). \<not> ingress i \<and> h" and ?f = "\<lambda>x. (in_identity x, HasDrain x)"
  have f: "map ?f (con_instances con) = map ?f (con_instances (wk_con s))"
    by (rule same_shape_map [OF sh]) (simp add: HasDrain_def)
  have "List.map_filter (drain_item ingress s) ps =
      map fst (List.map_filter (\<lambda>p. if ?P (?f (con_instances (wk_con s) ! p)) then Some (?f (con_instances (wk_con s) ! p)) else None) ps)" for ps
    by (induction ps) (auto simp: List.map_filter_simps drain_item_def Let_def)
  then have "List.map_filter (drain_item ingress s) (walk_positions con) = map fst (filter ?P (rev (map ?f (con_instances con))))"
    using map_filter_positions [of ?P ?f "con_instances (wk_con s)"] same_shape_length [OF sh] f
    by (simp add: walk_positions_def)
  then show ?thesis by (simp add: rev_map filter_map comp_def)
qed

lemma drain_loop:
  assumes run: "fold_opt (drain_visit app ingress deadline budget) (walk_positions con) s = Some t"
    and sh: "same_shape con (wk_con s)" and calls: "stop_calls (wk_world s) = calls @ ran s"
  shows "same_shape con (wk_con t) \<and> stop_seen t = stop_seen s \<and> stop_calls (wk_world t) = calls @ ran t \<and>
    drain_seen t = drain_seen s @
      map in_identity (filter (\<lambda>x. \<not> ingress (in_identity x) \<and> HasDrain x) (rev (con_instances con)))"
proof -
  have "wk_con t = wk_con s \<and> wk_report t = wk_report s \<and> stop_calls (wk_world t) = stop_calls (wk_world s)"
    using run by (rule fold_opt_invariant) (auto dest!: drain_visit_shape)
  with sh calls drains.walk_seen [OF run positions_owned [OF sh]] drain_items [OF sh] show ?thesis by auto
qed

definition drained_order :: "Constructed \<Rightarrow> identity list" where
  "drained_order con =
     map in_identity (filter (\<lambda>x. in_identity x \<notin> set (ingressClosure con) \<and> HasDrain x) (rev (con_instances con)))"

lemma unwindPhases_Some:
  assumes "unwindPhases app (Some con) deadline budget drainBudget stopReserve afterStop w = Some s"
  obtains s1 s2 where "phase_A app con deadline budget stopReserve afterStop (start_walk con w) = Some s1"
    "phase_B app con deadline budget drainBudget stopReserve s1 = Some s2"
    "phase_C app con deadline budget afterStop s2 = Some s"
  using assms by (auto simp: unwindPhases_def split: option.splits)

lemma unwind_result:
  assumes "unwindPhases app (Some con) deadline budget drainBudget stopReserve afterStop w = Some s"
  shows "same_shape con (wk_con s) \<and> stop_seen s = unwind_order con \<and>
    drain_seen s = (if drainBudget > 0 then drained_order con else []) \<and>
    stop_calls (wk_world s) = stop_calls w @ ran s"
proof -
  obtain s1 s2 where A: "phase_A app con deadline budget stopReserve afterStop (start_walk con w) = Some s1"
    and B: "phase_B app con deadline budget drainBudget stopReserve s1 = Some s2"
    and C: "phase_C app con deadline budget afterStop s2 = Some s"
    by (rule unwindPhases_Some [OF assms])
  let ?ing = "\<lambda>i. i \<in> set (ingressClosure con)"
  have s1: "same_shape con (wk_con s1) \<and> wk_drain s1 = \<lparr>dp_Records = []\<rparr> \<and>
      stop_seen s1 = filter ?ing (rev (con_identities con)) \<and> stop_calls (wk_world s1) = stop_calls w @ ran s1"
  proof -
    obtain early settledCtx b where e: "early_contexts deadline budget stopReserve = (early, settledCtx, b)"
      by (cases "early_contexts deadline budget stopReserve") auto
    with A have run: "fold_opt (stop_visit app ?ing early settledCtx b afterStop) (walk_positions con) (start_walk con w) = Some s1"
      by (simp add: phase_A_def)
    from stop_loop [OF run, of "stop_calls w"] show ?thesis by (simp add: start_walk_def)
  qed
  have s2: "same_shape con (wk_con s2) \<and> stop_seen s2 = stop_seen s1 \<and> stop_calls (wk_world s2) = stop_calls w @ ran s2 \<and>
      drain_seen s2 = (if drainBudget > 0 then drained_order con else [])"
  proof (cases "drainBudget > 0")
    case True
    obtain early settledCtx b where e: "early_contexts deadline budget stopReserve = (early, settledCtx, b)"
      by (cases "early_contexts deadline budget stopReserve") auto
    with B True have run: "fold_opt (drain_visit app ?ing (WithTimeout (walk_clock s1) early drainBudget) drainBudget)
        (walk_positions con) s1 = Some s2"
      by (simp add: phase_B_def)
    from drain_loop [OF run, of "stop_calls w"] s1 True show ?thesis by (simp add: drained_order_def)
  qed (use B s1 in \<open>auto simp: phase_B_def\<close>)
  from C have run: "fold_opt (stop_visit app (\<lambda>i. \<not> ?ing i) deadline deadline budget afterStop) (walk_positions con) s2 = Some s"
    by (simp add: phase_C_def)
  from stop_loop [OF run, of "stop_calls w"] s1 s2 show ?thesis
    by (auto simp: unwind_order_def)
qed

text \<open>
  C27. An unwind records every owned instance exactly once: first the ingress closure, then the
  rest, each in reverse construction order. With a drain budget it records a drain of exactly the
  remaining instances that declare one, in the same order; without one it drains nothing. The
  \<^verbatim>\<open>Stop\<close> hooks are called in the order of the records, exactly for those that say the hook ran.
  When every instance was constructed after what it depends on, no producer is reached before a
  consumer of it.
\<close>

theorem Unwind_order:
  assumes "unwindPhases app (Some con) deadline budget drainBudget stopReserve afterStop w = Some s"
    and "dependency_ordered con"
  shows "map sr_Identity (sh_Records (wk_report s)) = unwind_order con \<and>
    mset (unwind_order con) = mset (con_identities con) \<and>
    map dr_Identity (dp_Records (wk_drain s)) = (if drainBudget > 0 then drained_order con else []) \<and>
    stop_calls (wk_world s) = stop_calls w @ map sr_Identity (filter hook_ran (sh_Records (wk_report s))) \<and>
    (\<forall>d i. (d, i) \<in> consumer_edges con \<longrightarrow> precedes i d (unwind_order con))"
proof -
  have "mset (filter P xs @ filter (\<lambda>x. \<not> P x) xs) = mset xs" for P and xs :: "identity list"
    by simp
  then have "mset (unwind_order con) = mset (con_identities con)"
    unfolding unwind_order_def by (metis mset_rev)
  with unwind_result [OF assms(1)] unwind_order_consumers_first [OF assms(2)] show ?thesis by blast
qed

section \<open>Budgets\<close>

text \<open>
  Callbacks after a \<^verbatim>\<open>Stop\<close>. The callback of the runtime waits for the tasks of the plugin until the walk's
  own context is done and not longer: \<open>after_within\<close>. \<open>after_cost\<close> bounds what a callback takes when it takes less.
\<close>

definition after_within :: "after_stop \<Rightarrow> time \<Rightarrow> bool" where
  "after_within afterStop d \<longleftrightarrow> (\<forall>f w i. afterStop = Some f \<longrightarrow> w_now w + int (fst (f w i)) \<le> max (w_now w) d)"

definition after_cost :: "after_stop \<Rightarrow> time \<Rightarrow> bool" where
  "after_cost afterStop c \<longleftrightarrow> 0 \<le> c \<and> (\<forall>f w i. afterStop = Some f \<longrightarrow> int (fst (f w i)) \<le> c)"

text \<open>A visit is over at \<open>d\<close>, or \<open>c\<close> after it, when each callback that begins at \<open>t\<close> is over at \<open>max t d + c\<close>.\<close>

definition after_bound :: "after_stop \<Rightarrow> time \<Rightarrow> time \<Rightarrow> bool" where
  "after_bound afterStop d c \<longleftrightarrow> 0 \<le> c \<and> (\<forall>f w i. afterStop = Some f \<longrightarrow> w_now w + int (fst (f w i)) \<le> max (w_now w) d + c)"

lemma after_bounds:
  "after_within afterStop d \<Longrightarrow> after_bound afterStop d 0" "after_cost afterStop c \<Longrightarrow> after_bound afterStop d c"
  by (auto simp: after_bound_def after_within_def after_cost_def intro!: add_mono max.cobounded1)

lemma after_within_None [simp]: "after_within None d"
  by (simp add: after_within_def)

lemma run_afterStop_bound:
  assumes "after_bound afterStop d c" and "run_afterStop afterStop i w = (err, w')"
  shows "w_now w \<le> w_now w' \<and> w_now w' \<le> max (w_now w) d + c"
proof (cases afterStop)
  case (Some f)
  obtain elapsed e where f: "f (emit (AfterStopCalled i) w) i = (elapsed, e)" by fastforce
  have "w_now v + int (fst (f v i)) \<le> max (w_now v) d + c" for v using assms(1) Some by (simp add: after_bound_def)
  from this [of "emit (AfterStopCalled i) w"] f assms(2) Some show ?thesis by (auto simp: run_afterStop_def Let_def)
qed (use assms in \<open>auto simp: run_afterStop_def after_bound_def\<close>)

lemma stopOne_clock:
  assumes "stopOne app p deadline settledCtx budget afterStop s = Some (r, s')"
    and "ctx_done settledCtx = Some x" "x \<le> d" and cost: "after_bound afterStop d c"
  shows "walk_clock s \<le> walk_clock s' \<and> walk_clock s' \<le> max (walk_clock s) d + c"
proof (cases "ctx_Err (walk_clock s) deadline")
  case True
  with assms(1) cost show ?thesis by (auto simp: stopOne_def Let_def after_bound_def)
next
  case False
  let ?x = "con_instances (wk_con s) ! p"
  from False assms(1) obtain outcome elapsed e x' w where
    st: "stopBounded app ?x deadline settledCtx budget (wk_world s) = Some ((outcome, elapsed, e), x', w)"
    by (auto simp: stopOne_def Let_def)
  obtain ce w2 where as: "run_afterStop afterStop (in_identity ?x) w = (ce, w2)" by fastforce
  have c: "0 \<le> c" using cost by (simp add: after_bound_def)
  have "wk_world s' = w \<or> wk_world s' = w2"
    using assms(1) False st as by (auto simp: stopOne_def Let_def split: if_splits)
  moreover have "walk_clock s \<le> w_now w" "w_now w \<le> max (walk_clock s) x" using stopBounded_spec(5,6) [OF st] assms(2) by force+
  ultimately show ?thesis using run_afterStop_bound [OF cost as] c assms(3) by force
qed

lemma stop_visit_timed:
  assumes "ctx_done settledCtx = Some x" "x \<le> d" and "after_bound afterStop d c"
  shows "timed_walk (stop_visit app chosen deadline settledCtx budget afterStop) owned_at (stop_item chosen) stop_seen
    walk_clock d c"
proof
  show "0 \<le> c" using assms(3) by (simp add: after_bound_def)
  show "stop_visit app chosen deadline settledCtx budget afterStop p s \<noteq> None" if "owned_at p s" for p s
    using stopBounded_returns [OF assms(1)]
    by (simp add: stop_visit_def stopOne_def Let_def del: not_None_eq)
  show "walk_clock s \<le> walk_clock s' \<and> walk_clock s' \<le> max (walk_clock s) d + c"
    if "owned_at p s" and v: "stop_visit app chosen deadline settledCtx budget afterStop p s = Some s'" for p s s'
  proof (cases "chosen (in_identity (con_instances (wk_con s) ! p))")
    case True
    obtain r taskErr err s1 where
      one: "stopOne app p deadline settledCtx budget afterStop s = Some ((r, taskErr, err), s1)" and
      s': "s' = s1\<lparr>wk_errs := wk_errs s'\<rparr>"
      by (rule stop_visit_chosen [OF v True]) simp
    from stopOne_clock [OF one assms] arg_cong [OF s', of wk_world] show ?thesis by simp
  qed (use v \<open>0 \<le> c\<close> in \<open>auto simp: stop_visit_def\<close>)
qed

lemma drain_visit_timed:
  assumes "ctx_done deadline = Some d"
  shows "timed_walk (drain_visit app ingress deadline budget) owned_at (drain_item ingress) drain_seen walk_clock d 0"
proof
  show "drain_visit app ingress deadline budget p s \<noteq> None" if "owned_at p s" for p s
    using drainBounded_returns [OF assms] by (simp add: drain_visit_def Let_def del: not_None_eq)
  show "walk_clock s \<le> walk_clock s' \<and> walk_clock s' \<le> max (walk_clock s) d + 0"
    if "owned_at p s" "drain_visit app ingress deadline budget p s = Some s'" for p s s'
    using that(2) assms drainBounded_spec(2,3)
    by (force simp: drain_visit_def Let_def split: if_splits)
qed simp

text \<open>The walk of \<^verbatim>\<open>joinConstructionFailure\<close>: a timeout on a background context and no callback.\<close>

interpretation construction_unwind: timed_walk
  "stop_visit app chosen (WithTimeout now Background t) (WithTimeout now Background t) budget None"
  owned_at "stop_item chosen" stop_seen walk_clock "now + t" 0
  for app chosen now t budget
  by (rule stop_visit_timed [OF _ order_refl])
    (simp_all add: WithTimeout_def WithDeadline_def Background_def after_bound_def)

interpretation drain_phase: timed_walk
  "drain_visit app ingress (WithTimeout now \<lparr>ctx_Deadline = dl, ctx_done = Some e\<rparr> t) budget"
  owned_at "drain_item ingress" drain_seen walk_clock "min e (now + t)" 0
  for app ingress now dl e t budget
  by (rule drain_visit_timed) (simp add: WithTimeout_def WithDeadline_def)

text \<open>The instant at which the waits of phase A end.\<close>

definition settle_end :: "time \<Rightarrow> time \<Rightarrow> time \<Rightarrow> time" where
  "settle_end e d stopReserve = (if 0 < stopReserve then min d (e - stopReserve + stopReserve div 4) else d)"

lemma early_contexts_done:
  assumes "ctx_Deadline deadline = Some e" and "ctx_done deadline = Some d"
    and "early_contexts deadline budget stopReserve = (early, settledCtx, b)"
  obtains x where "ctx_done early = Some x" "x \<le> settle_end e d stopReserve"
    "ctx_done settledCtx = Some (settle_end e d stopReserve)"
proof (rule that [of "if 0 < stopReserve then min d (e - stopReserve) else d"])
  show "(if 0 < stopReserve then min d (e - stopReserve) else d) \<le> settle_end e d stopReserve"
    using pos_imp_zdiv_nonneg_iff [of 4 stopReserve] by (auto simp: settle_end_def)
qed (use assms in \<open>auto simp: early_contexts_def WithDeadline_def Let_def settle_end_def split: if_splits\<close>)

lemma phase_A_budget:
  assumes "ctx_Deadline deadline = Some e" and "ctx_done deadline = Some d" and "\<forall>p \<in> set (walk_positions con). owned_at p s"
    and within: "after_within afterStop d"
  obtains s1 where "phase_A app con deadline budget stopReserve afterStop s = Some s1"
    "\<forall>p \<in> set (walk_positions con). owned_at p s1" "walk_clock s1 \<le> max (walk_clock s) d"
    "\<And>c. after_cost afterStop c \<Longrightarrow>
      walk_clock s1 \<le> max (walk_clock s) (settle_end e d stopReserve) + int (length (con_instances con)) * c"
proof -
  let ?chosen = "\<lambda>i. i \<in> set (ingressClosure con)"
  obtain early settledCtx b where ec: "early_contexts deadline budget stopReserve = (early, settledCtx, b)"
    by (cases "early_contexts deadline budget stopReserve") auto
  obtain x where settled: "ctx_done settledCtx = Some (settle_end e d stopReserve)"
    by (rule early_contexts_done [OF assms(1,2) ec])
  have "settle_end e d stopReserve \<le> d" by (simp add: settle_end_def)
  note timed = stop_visit_timed [OF settled this after_bounds(1) [OF within], of app ?chosen early b]
  obtain s1 where s1: "fold_opt (stop_visit app ?chosen early settledCtx b afterStop) (walk_positions con) s = Some s1"
    "walk_clock s1 \<le> max (walk_clock s) d"
    using timed_walk.walk_returns [OF timed assms(3)] by auto
  have "walk_clock s1 \<le> max (walk_clock s) (settle_end e d stopReserve) + int (length (con_instances con)) * c"
    if "after_cost afterStop c" for c
    using timed_walk.walk_returns [OF stop_visit_timed [OF settled order_refl after_bounds(2) [OF that], of app ?chosen early b] assms(3)] s1(1)
    by (auto simp: walk_positions_def)
  with s1 stops.walk_seen [OF s1(1) assms(3)] assms(3) show thesis
    by (intro that [of s1]) (auto simp: phase_A_def ec)
qed

lemma phase_B_budget:
  assumes "ctx_Deadline deadline = Some e" and "ctx_done deadline = Some d"
    and "\<forall>p \<in> set (walk_positions con). owned_at p s"
  obtains s2 where "phase_B app con deadline budget drainBudget stopReserve s = Some s2"
    "\<forall>p \<in> set (walk_positions con). owned_at p s2"
    "walk_clock s2 \<le> max (walk_clock s) (settle_end e d stopReserve)"
    "walk_clock s2 \<le> walk_clock s + max 0 drainBudget"
proof (cases "drainBudget > 0")
  case True
  obtain early settledCtx b where ec: "early_contexts deadline budget stopReserve = (early, settledCtx, b)"
    by (cases "early_contexts deadline budget stopReserve") auto
  obtain x where x: "ctx_done early = Some x" "x \<le> settle_end e d stopReserve"
    by (rule early_contexts_done [OF assms(1,2) ec])
  then have over: "ctx_done (WithTimeout (walk_clock s) early drainBudget) = Some (min x (walk_clock s + drainBudget))"
    by (simp add: WithTimeout_def WithDeadline_def)
  note timed = drain_visit_timed [OF over, of app "\<lambda>i. i \<in> set (ingressClosure con)" drainBudget]
  from timed_walk.walk_returns [OF timed assms(3)] obtain s2 where
    s2: "fold_opt (drain_visit app (\<lambda>i. i \<in> set (ingressClosure con)) (WithTimeout (walk_clock s) early drainBudget) drainBudget)
      (walk_positions con) s = Some s2" "walk_clock s2 \<le> max (walk_clock s) (min x (walk_clock s + drainBudget))"
    by auto
  from s2 drains.walk_seen [OF s2(1) assms(3)] assms(3) x(2) True show thesis
    by (intro that [of s2]) (auto simp: phase_B_def ec)
next
  case False
  with assms(3) show thesis by (intro that [of s]) (auto simp: phase_B_def)
qed

lemma unwind_budget:
  assumes "ctx_Deadline deadline = Some e" and "ctx_done deadline = Some d" and within: "after_within afterStop d"
  shows "\<exists>s1 s2 s. phase_A app con deadline budget stopReserve afterStop (start_walk con w) = Some s1 \<and>
    phase_B app con deadline budget drainBudget stopReserve s1 = Some s2 \<and>
    unwindPhases app (Some con) deadline budget drainBudget stopReserve afterStop w = Some s \<and>
    walk_clock s \<le> max (w_now w) d \<and> walk_clock s2 \<le> walk_clock s1 + max 0 drainBudget \<and>
    (\<forall>c. 0 < stopReserve \<and> after_cost afterStop c \<longrightarrow>
       walk_clock s2 \<le> max (w_now w) (e - stopReserve + stopReserve div 4) + int (length (con_instances con)) * c)"
proof -
  have own: "\<forall>p \<in> set (walk_positions con). owned_at p (start_walk con w)"
    by (simp add: walk_positions_def start_walk_def)
  have start: "walk_clock (start_walk con w) = w_now w" by (simp add: start_walk_def)
  obtain s1 where s1: "phase_A app con deadline budget stopReserve afterStop (start_walk con w) = Some s1"
    "\<forall>p \<in> set (walk_positions con). owned_at p s1" "walk_clock s1 \<le> max (w_now w) d"
    "\<And>c. after_cost afterStop c \<Longrightarrow> walk_clock s1 \<le> max (w_now w) (settle_end e d stopReserve) + int (length (con_instances con)) * c"
    by (rule phase_A_budget [OF assms(1,2) own within]) (auto simp: start)
  obtain s2 where s2: "phase_B app con deadline budget drainBudget stopReserve s1 = Some s2"
    "\<forall>p \<in> set (walk_positions con). owned_at p s2"
    "walk_clock s2 \<le> max (walk_clock s1) (settle_end e d stopReserve)"
    "walk_clock s2 \<le> walk_clock s1 + max 0 drainBudget"
    by (rule phase_B_budget [OF assms(1,2) s1(2)])
  obtain s where s: "phase_C app con deadline budget afterStop s2 = Some s" "walk_clock s \<le> max (walk_clock s2) d"
    using timed_walk.walk_returns [OF stop_visit_timed [OF assms(2) order_refl after_bounds(1) [OF within]] s2(2)]
    unfolding phase_C_def by fastforce
  have "settle_end e d stopReserve \<le> d" by (simp add: settle_end_def)
  then have "walk_clock s \<le> max (w_now w) d" using s(2) s2(3) s1(3) by linarith
  moreover have "walk_clock s2 \<le> max (w_now w) (e - stopReserve + stopReserve div 4) + int (length (con_instances con)) * c"
    if "0 < stopReserve" "after_cost afterStop c" for c
  proof -
    have "0 \<le> int (length (con_instances con)) * c" using that(2) by (simp add: after_cost_def)
    then show ?thesis using s1(4) [OF that(2)] s2(3) that(1) by (auto simp: settle_end_def)
  qed
  moreover have "unwindPhases app (Some con) deadline budget drainBudget stopReserve afterStop w = Some s"
    using s1(1) s2(1) s(1) by (simp add: unwindPhases_def)
  ultimately show ?thesis using s1(1) s2(1,4) by blast
qed

text \<open>
  C30. Under a context with a deadline, and with callbacks that do not wait past the end of that context, the whole
  unwind returns by the end of that context, whatever the hooks do. The drain phase takes no longer than its own budget. With
  a stop reserve, the hooks of the first two phases use at most a quarter of it: the last phase begins no later than a
  quarter of the reserve after the early deadline, plus what the callbacks of the first phase take, at most \<open>c\<close> for each of the
  instances. Callbacks count in full: three quarters of the reserve are kept when they take no time, and no share is
  promised when they wait.
\<close>

theorem Unwind_budget:
  assumes "ctx_Deadline deadline = Some e" and "ctx_done deadline = Some d" and "after_within afterStop d"
  shows "\<exists>s1 s2 s. phase_A app con deadline budget stopReserve afterStop (start_walk con w) = Some s1 \<and>
    phase_B app con deadline budget drainBudget stopReserve s1 = Some s2 \<and>
    unwindPhases app (Some con) deadline budget drainBudget stopReserve afterStop w = Some s \<and>
    walk_clock s \<le> max (w_now w) d \<and> walk_clock s2 \<le> walk_clock s1 + max 0 drainBudget \<and>
    (\<forall>c. 0 < stopReserve \<and> after_cost afterStop c \<longrightarrow>
       walk_clock s2 \<le> max (w_now w) (e - stopReserve + stopReserve div 4) + int (length (con_instances con)) * c)"
  by (rule unwind_budget [OF assms])

section \<open>At most one Stop\<close>

text \<open>
  What may happen to owned instances after their construction, in any order: a startup stage of
  one of them, a pre-stop phase, a single bounded stop, or an unwind.
\<close>

inductive lifecycle_step :: "app \<Rightarrow> Constructed \<times> world \<Rightarrow> Constructed \<times> world \<Rightarrow> bool" for app where
  stage: "\<lbrakk>p < length (con_instances con); stage \<noteq> StageStop;
     invoke app stage h (con_instances con ! p) w = Some (err, x', w')\<rbrakk>
     \<Longrightarrow> lifecycle_step app (con, w) (put_instance p x' con, w')"
| prestop: "Constructed_PreStop app (Some con) deadline budget w = Some (r, w')
     \<Longrightarrow> lifecycle_step app (con, w) (con, w')"
| stop: "\<lbrakk>p < length (con_instances con); StopBounded app (con_instances con ! p) deadline budget w = Some (err, x', w')\<rbrakk>
     \<Longrightarrow> lifecycle_step app (con, w) (put_instance p x' con, w')"
| unwind: "unwindPhases app (Some con) deadline budget drainBudget stopReserve afterStop w = Some s
     \<Longrightarrow> lifecycle_step app (con, w) (wk_con s, wk_world s)"

inductive_cases lifecycle_stepE: "lifecycle_step app (con, w) st"

definition stop_inv :: "Constructed \<Rightarrow> world \<Rightarrow> bool" where
  "stop_inv con w \<longleftrightarrow> distinct (con_identities con) \<and> distinct (stop_calls w) \<and>
     (\<forall>x \<in> set (con_instances con). in_identity x \<in> set (stop_calls w) \<longrightarrow> in_stopped x)"

text \<open>Replacing an instance by one that is the same or now stopped keeps the invariant.\<close>

lemma stop_inv_put:
  assumes inv: "stop_inv con w" and p: "p < length (con_instances con)"
    and id: "in_identity x' = in_identity (con_instances con ! p)"
    and st: "in_stopped (con_instances con ! p) \<longrightarrow> in_stopped x'"
    and calls: "stop_calls w' = stop_calls w \<or>
      stop_calls w' = stop_calls w @ [in_identity x'] \<and> \<not> in_stopped (con_instances con ! p) \<and> in_stopped x'"
  shows "stop_inv (put_instance p x' con) w'"
proof -
  let ?xs = "con_instances con"
  have ids: "con_identities (put_instance p x' con) = con_identities con"
    using p id list_update_id [of "con_identities con" p] by (simp add: put_instance_def map_update)
  have new: "in_identity x' \<notin> set (stop_calls w)" if "\<not> in_stopped (?xs ! p)"
    using inv p id that by (auto simp: stop_inv_def)
  have "in_stopped y" if y: "y \<in> set (?xs[p := x'])" "in_identity y \<in> set (stop_calls w')" for y
  proof -
    from y(1) obtain q where q: "q < length ?xs" "y = ?xs[p := x'] ! q" by (metis in_set_conv_nth length_list_update)
    show ?thesis
    proof (cases "q = p")
      case True
      with q y(2) calls inv p id st show ?thesis by (auto simp: stop_inv_def)
    next
      case False
      with q have yq: "y = ?xs ! q" by simp
      have "in_identity y \<noteq> in_identity x'"
        using False q(1) p yq id inv unfolding stop_inv_def by (metis length_map nth_eq_iff_index_eq nth_map)
      with y(2) calls have "in_identity y \<in> set (stop_calls w)" by auto
      with inv yq q(1) show ?thesis by (auto simp: stop_inv_def)
    qed
  qed
  moreover have "distinct (stop_calls w')" using calls inv new by (auto simp: stop_inv_def)
  ultimately show ?thesis using inv ids by (simp add: stop_inv_def put_instance_def)
qed

lemma stop_inv_world: "stop_inv con w \<Longrightarrow> stop_calls w' = stop_calls w \<Longrightarrow> stop_inv con w'"
  by (simp add: stop_inv_def)

lemma stop_visit_inv:
  assumes "stop_visit app chosen deadline settledCtx budget afterStop p s = Some s'" and "owned_at p s"
    and "stop_inv (wk_con s) (wk_world s)"
  shows "stop_inv (wk_con s') (wk_world s')"
proof (cases "chosen (in_identity (con_instances (wk_con s) ! p))")
  case True
  obtain r taskErr err s1 where
    one: "stopOne app p deadline settledCtx budget afterStop s = Some ((r, taskErr, err), s1)" and
    s': "s' = s1\<lparr>wk_errs := wk_errs s'\<rparr>"
    by (rule stop_visit_chosen [OF assms(1) True]) simp
  have eq: "wk_world s' = wk_world s1" "wk_con s' = wk_con s1"
    using arg_cong [OF s', of wk_world] arg_cong [OF s', of wk_con] by simp_all
  from stopOne_spec(6) [OF one assms(2)] consider
    "wk_con s1 = wk_con s" "wk_world s1 = wk_world s"
  | "wk_con s1 = put_instance p ((con_instances (wk_con s) ! p)\<lparr>in_stopped := True\<rparr>) (wk_con s)"
    "stop_calls (wk_world s1) = stop_calls (wk_world s) @
       (if stop_due (con_instances (wk_con s) ! p) then [in_identity (con_instances (wk_con s) ! p)] else [])"
    by blast
  then show ?thesis
  proof cases
    case 1
    with eq assms(3) show ?thesis by simp
  next
    case 2
    show ?thesis
      unfolding eq 2(1)
      by (rule stop_inv_put [OF assms(3,2)]) (use 2(2) in \<open>auto simp: stop_due_def split: if_splits\<close>)
  qed
qed (use assms in \<open>auto simp: stop_visit_def\<close>)

lemma stop_loop_inv:
  assumes run: "fold_opt (stop_visit app chosen deadline settledCtx budget afterStop) (walk_positions con) s = Some t"
    and sh: "same_shape con (wk_con s)" and inv: "stop_inv (wk_con s) (wk_world s)"
  shows "same_shape con (wk_con t) \<and> stop_inv (wk_con t) (wk_world t)"
  using run
proof (rule fold_opt_invariant)
  show "same_shape con (wk_con s) \<and> stop_inv (wk_con s) (wk_world s)" using sh inv by simp
next
  fix p u u' assume p: "p \<in> set (walk_positions con)"
    and u: "same_shape con (wk_con u) \<and> stop_inv (wk_con u) (wk_world u)"
    and v: "stop_visit app chosen deadline settledCtx budget afterStop p u = Some u'"
  have own: "owned_at p u" using positions_owned u p by blast
  from stop_visit_inv [OF v own] stop_visit_shape [OF v own] u
  show "same_shape con (wk_con u') \<and> stop_inv (wk_con u') (wk_world u')" by (auto intro: same_shape_trans)
qed

lemma unwind_inv:
  assumes "unwindPhases app (Some con) deadline budget drainBudget stopReserve afterStop w = Some s"
    and inv: "stop_inv con w"
  shows "stop_inv (wk_con s) (wk_world s)"
proof -
  obtain s1 s2 where A: "phase_A app con deadline budget stopReserve afterStop (start_walk con w) = Some s1"
    and B: "phase_B app con deadline budget drainBudget stopReserve s1 = Some s2"
    and C: "phase_C app con deadline budget afterStop s2 = Some s"
    by (rule unwindPhases_Some [OF assms(1)])
  have s1: "same_shape con (wk_con s1) \<and> stop_inv (wk_con s1) (wk_world s1)"
    using A stop_loop_inv [where s = "start_walk con w" and t = s1 and con = con] inv
    by (auto simp: phase_A_def start_walk_def split: prod.splits)
  have "wk_con s2 = wk_con s1 \<and> stop_calls (wk_world s2) = stop_calls (wk_world s1)"
  proof (cases "drainBudget > 0")
    case True
    with B obtain c where "fold_opt (drain_visit app (\<lambda>i. i \<in> set (ingressClosure con)) c drainBudget) (walk_positions con) s1 = Some s2"
      by (auto simp: phase_B_def Let_def split: prod.splits)
    then show ?thesis by (rule fold_opt_invariant) (auto dest!: drain_visit_shape)
  qed (use B in \<open>simp add: phase_B_def\<close>)
  with s1 stop_inv_world have "same_shape con (wk_con s2) \<and> stop_inv (wk_con s2) (wk_world s2)" by auto
  with C stop_loop_inv show ?thesis unfolding phase_C_def by blast
qed

lemma invoke_stop_calls:
  assumes "invoke app stage h x w = Some (err, x', w')" and "stage \<noteq> StageStop"
  shows "stop_calls w' = stop_calls w \<and> in_identity x' = in_identity x \<and> in_stopped x' = in_stopped x"
proof -
  have "stop_call (HookCalled stage i) = None" "stop_call (StageBegan i stage) = None" for i
    using assms(2) by (cases stage; simp)+
  with assms(1) show ?thesis
    by (auto simp: invoke_def Let_def split: option.splits prod.splits if_splits)
qed

lemma launch_all_calls: "stop_calls (snd (launch_all app deadline xs w)) = stop_calls w"
  by (induction app deadline xs w rule: launch_all.induct) (auto simp: startPreStop_def Let_def split: prod.splits)

lemma PreStop_calls:
  assumes "Constructed_PreStop app (Some con) deadline budget w = Some (r, w')"
  shows "stop_calls w' = stop_calls w"
proof -
  obtain pending w1 where l: "launch_all app deadline (con_instances con) w = (pending, w1)" by fastforce
  have "stop_calls w1 = stop_calls w" using launch_all_calls [of app deadline "con_instances con" w] l by simp
  with assms l show ?thesis
    by (auto simp: Constructed_PreStop_def split: if_splits option.splits prod.splits)
qed

lemma lifecycle_step_inv:
  "lifecycle_step app (con, w) (con', w') \<Longrightarrow> stop_inv con w \<Longrightarrow> stop_inv con' w'"
proof (erule lifecycle_stepE, goal_cases)
  case (1 p stage h err x' w1)
  with stop_inv_put [of con w p x' w1] invoke_stop_calls [OF 1(5,4)] show ?case by simp
next
  case (2 deadline budget r w1)
  with PreStop_calls [OF 2(3)] show ?case by (simp add: stop_inv_def)
next
  case (3 p deadline budget err x' w1)
  from 3(4) obtain outcome elapsed where
    st: "stopBounded app (con_instances con ! p) deadline deadline budget w = Some ((outcome, elapsed, err), x', w1)"
    by (auto simp: StopBounded_def)
  from 3 stop_inv_put [of con w p x' w1] stopBounded_spec(1,2) [OF st] show ?case
    by (auto simp: stop_due_def split: if_splits)
next
  case (4 deadline budget drainBudget stopReserve afterStop s)
  with unwind_inv show ?case by simp
qed

text \<open>
  C29. Whatever is done to owned instances with distinct identities, in whatever order and how
  often (startup stages, pre-stop phases, bounded stops, unwinds under any deadlines, budgets and
  callbacks), no \<^verbatim>\<open>Stop\<close> hook is ever called twice.
\<close>

theorem Stop_at_most_once:
  assumes "(lifecycle_step app)\<^sup>*\<^sup>* (con, w) (con', w')" and "distinct (con_identities con)" and "stop_calls w = []"
  shows "distinct (stop_calls w')"
proof -
  have "stop_inv (fst st') (snd st')" if "(lifecycle_step app)\<^sup>*\<^sup>* st st'" "stop_inv (fst st) (snd st)" for st st'
    using that by (induction rule: rtranclp_induct) (auto intro: lifecycle_step_inv)
  from this [OF assms(1)] assms(2,3) show ?thesis by (simp add: stop_inv_def)
qed

section \<open>Nothing owned is forgotten\<close>

text \<open>Every stopped instance with a hook had its hook called.\<close>

definition stops_called :: "Constructed \<Rightarrow> world \<Rightarrow> bool" where
  "stops_called con w \<longleftrightarrow>
     (\<forall>x \<in> set (con_instances con). in_stopped x \<and> HasStop x \<longrightarrow> in_identity x \<in> set (stop_calls w))"

definition accounted :: "time \<Rightarrow> walk \<Rightarrow> bool" where
  "accounted budget s \<longleftrightarrow> stops_called (wk_con s) (wk_world s) \<and>
     (\<forall>x \<in> set (con_instances (wk_con s)). HasStop x \<and> in_identity x \<in> set (stop_seen s) \<longrightarrow>
        in_identity x \<in> set (stop_calls (wk_world s)) \<or>
        HookNotAttempted (in_identity x) StageStop budget \<in> set (wk_errs s))"

lemma stop_visit_accounted:
  assumes v: "stop_visit app chosen deadline settledCtx budget afterStop p s = Some s'" and own: "owned_at p s"
    and dist: "distinct (con_identities (wk_con s))" and acc: "accounted budget s"
  shows "accounted budget s'"
proof (cases "chosen (in_identity (con_instances (wk_con s) ! p))")
  case True
  let ?x = "con_instances (wk_con s) ! p"
  obtain r taskErr err s1 where
    one: "stopOne app p deadline settledCtx budget afterStop s = Some ((r, taskErr, err), s1)" and
    s': "s' = s1\<lparr>wk_errs := wk_errs s1 @ (case err of None \<Rightarrow> [] | Some e \<Rightarrow> [e]) @
       (case taskErr of None \<Rightarrow> [] | Some m \<Rightarrow> [TaskError (in_identity ?x) m])\<rparr>"
    by (rule stop_visit_chosen [OF v True])
  note spec = stopOne_spec [OF one own]
  have errs: "set (wk_errs s) \<subseteq> set (wk_errs s')" "\<And>e. err = Some e \<Longrightarrow> e \<in> set (wk_errs s')"
    using spec(5) by (auto simp: s')
  have seen: "set (stop_seen s') = insert (in_identity ?x) (set (stop_seen s))"
    using spec(2,3) by (auto simp: s')
  from spec(6) consider
    (skipped) "wk_con s1 = wk_con s" "wk_world s1 = wk_world s" "err = Some (HookNotAttempted (in_identity ?x) StageStop budget)"
  | (tried) "wk_con s1 = put_instance p (?x\<lparr>in_stopped := True\<rparr>) (wk_con s)"
    "stop_calls (wk_world s1) = stop_calls (wk_world s) @ (if stop_due ?x then [in_identity ?x] else [])"
    by blast
  then show ?thesis
  proof cases
    case skipped
    then have "HookNotAttempted (in_identity ?x) StageStop budget \<in> set (wk_errs s')" using errs by blast
    with skipped acc errs(1) seen show ?thesis by (auto simp: accounted_def s')
  next
    case tried
    have inst: "y \<in> set (con_instances (wk_con s)) \<or> y = ?x\<lparr>in_stopped := True\<rparr>"
      if "y \<in> set (con_instances (wk_con s'))" for y
      using that set_update_subset_insert [of "con_instances (wk_con s)" p] by (auto simp: s' tried(1) put_instance_def)
    have sub: "set (stop_calls (wk_world s)) \<subseteq> set (stop_calls (wk_world s'))"
      by (auto simp: s' tried(2))
    have x: "in_identity ?x \<in> set (stop_calls (wk_world s'))" if "HasStop ?x"
    proof (cases "in_stopped ?x")
      case True
      with acc own that sub show ?thesis by (auto simp: accounted_def stops_called_def)
    next
      case False
      with that show ?thesis by (simp add: s' tried(2) stop_due_def)
    qed
    have same: "y = ?x" if "y \<in> set (con_instances (wk_con s))" "in_identity y = in_identity ?x" for y
      using that dist own by (metis distinct_map inj_onD nth_mem)
    show ?thesis
      unfolding accounted_def stops_called_def
    proof (intro conjI ballI impI)
      fix y assume y: "y \<in> set (con_instances (wk_con s'))" "in_stopped y \<and> HasStop y"
      show "in_identity y \<in> set (stop_calls (wk_world s'))"
        using inst [OF y(1)]
      proof
        assume "y \<in> set (con_instances (wk_con s))"
        with y(2) acc sub show ?thesis by (auto simp: accounted_def stops_called_def)
      next
        assume "y = ?x\<lparr>in_stopped := True\<rparr>"
        with y(2) x show ?thesis by (simp add: HasStop_def)
      qed
    next
      fix y assume y: "y \<in> set (con_instances (wk_con s'))" "HasStop y \<and> in_identity y \<in> set (stop_seen s')"
      show "in_identity y \<in> set (stop_calls (wk_world s')) \<or> HookNotAttempted (in_identity y) StageStop budget \<in> set (wk_errs s')"
        using inst [OF y(1)]
      proof
        assume m: "y \<in> set (con_instances (wk_con s))"
        show ?thesis
        proof (cases "in_identity y = in_identity ?x")
          case True
          with same [OF m] x y(2) show ?thesis by auto
        next
          case False
          with m y(2) seen acc sub errs(1) show ?thesis by (auto simp: accounted_def)
        qed
      next
        assume "y = ?x\<lparr>in_stopped := True\<rparr>"
        with y(2) x show ?thesis by (simp add: HasStop_def)
      qed
    qed
  qed
qed (use v acc in \<open>auto simp: stop_visit_def\<close>)

lemma stop_loop_accounted:
  assumes run: "fold_opt (stop_visit app chosen deadline settledCtx budget afterStop) (walk_positions con) s = Some t"
    and sh: "same_shape con (wk_con s)" and dist: "distinct (con_identities con)" and acc: "accounted budget s"
  shows "same_shape con (wk_con t) \<and> accounted budget t"
  using run
proof (rule fold_opt_invariant)
  show "same_shape con (wk_con s) \<and> accounted budget s" using sh acc by simp
next
  fix p u u' assume p: "p \<in> set (walk_positions con)" and u: "same_shape con (wk_con u) \<and> accounted budget u"
    and v: "stop_visit app chosen deadline settledCtx budget afterStop p u = Some u'"
  have own: "owned_at p u" using positions_owned u p by blast
  have "distinct (con_identities (wk_con u))"
    using dist same_shape_map [of con "wk_con u" in_identity] u by simp
  from stop_visit_accounted [OF v own this] stop_visit_shape [OF v own] u
  show "same_shape con (wk_con u') \<and> accounted budget u'" by (auto intro: same_shape_trans)
qed

lemma unwind_accounted:
  assumes "Unwind app (Some con) deadline budget afterStop w = Some s"
    and dist: "distinct (con_identities con)" and acc: "stops_called con w"
    and x: "x \<in> set (con_instances con)" "HasStop x"
  shows "in_identity x \<in> set (stop_calls (wk_world s)) \<or> HookNotAttempted (in_identity x) StageStop budget \<in> set (wk_errs s)"
proof -
  have uw: "unwindPhases app (Some con) deadline budget 0 0 afterStop w = Some s" using assms(1) by (simp add: Unwind_def)
  obtain s1 s2 where A: "phase_A app con deadline budget 0 afterStop (start_walk con w) = Some s1"
    and B: "phase_B app con deadline budget 0 0 s1 = Some s2" and C: "phase_C app con deadline budget afterStop s2 = Some s"
    by (rule unwindPhases_Some [OF uw])
  have "accounted budget (start_walk con w)" using acc by (simp add: accounted_def start_walk_def)
  with A dist stop_loop_accounted [where s = "start_walk con w" and t = s1 and con = con and budget = budget]
  have "same_shape con (wk_con s1) \<and> accounted budget s1"
    by (auto simp: phase_A_def early_contexts_def start_walk_def split: option.splits)
  moreover have "s2 = s1" using B by (simp add: phase_B_def)
  ultimately have s: "same_shape con (wk_con s)" "accounted budget s"
    using C dist stop_loop_accounted unfolding phase_C_def by blast+
  have "mset (stop_seen s) = mset (con_identities con)"
    using unwind_result [OF uw] unfolding unwind_order_def by (metis mset_rev mset_append mset_filter multiset_partition)
  then have "set (stop_seen s) = set (con_identities con)" by (metis set_mset_mset)
  moreover obtain y where "y \<in> set (con_instances (wk_con s))" "in_identity y = in_identity x" "HasStop y"
  proof -
    have m: "map (\<lambda>x. (in_identity x, HasStop x)) (con_instances con) = map (\<lambda>x. (in_identity x, HasStop x)) (con_instances (wk_con s))"
      by (rule same_shape_map [OF s(1)]) (simp add: HasStop_def)
    have "(in_identity x, True) \<in> set (map (\<lambda>x. (in_identity x, HasStop x)) (con_instances con))" using x by force
    then show thesis unfolding m using that by auto
  qed
  ultimately show ?thesis using s(2) x(1) unfolding accounted_def
    by (metis image_eqI list.set_map)
qed

section \<open>A walk that overruns its budget\<close>

text \<open>
  \<open>api\<close> opens traffic and depends on \<open>db\<close>, whose drain never ends; \<open>log\<close> takes 3 to stop.
\<close>

definition walk_constructed :: Constructed where
  "walk_constructed =
     (let stop = empty_lifecycle\<lparr>ld_stop := Some (MethodHook ''Stop'')\<rparr>;
          db = Identity ''db'' ''default'' in
      \<lparr>con_instances = [sample_owned ''log'' stop [],
         sample_owned ''db'' (stop\<lparr>ld_drain := Some (MethodHook ''Drain'')\<rparr>) [],
         sample_owned ''api'' (stop\<lparr>ld_openTraffic := Some (MethodHook ''OpenTraffic'')\<rparr>) [db]],
       con_byIdentity = [(Identity ''log'' ''default'', 0), (db, 1), (Identity ''api'' ''default'', 2)]\<rparr>)"

definition walk_app :: app where
  "walk_app = sample_app\<lparr>ap_detached := (\<lambda>_ stage x _.
     if stage = StageDrain then None
     else Some (if Plugin (in_identity x) = ''api'' then 5 else 3, Returns None))\<rparr>"

definition walk_ctx :: ctx where
  "walk_ctx = \<lparr>ctx_Deadline = Some 120, ctx_done = Some 120\<rparr>"

definition walk_summary ::
  "walk option \<Rightarrow> (time \<times> (identity \<times> StopOutcome) list \<times> (identity \<times> DrainOutcome) list) option" where
  "walk_summary s = map_option (\<lambda>s. (walk_clock s,
     map (\<lambda>r. (sr_Identity r, sr_Outcome r)) (sh_Records (wk_report s)),
     map (\<lambda>r. (dr_Identity r, dr_Outcome r)) (dp_Records (wk_drain s)))) s"

lemma sample_walk:
  "walk_summary (unwindPhases walk_app (Some walk_constructed) walk_ctx 20 10 8 None start_world) =
     Some (118, [(Identity ''api'' ''default'', StopCompleted), (Identity ''db'' ''default'', StopCompleted),
       (Identity ''log'' ''default'', StopCompleted)], [(Identity ''db'' ''default'', DrainAbandoned)])"
  by code_simp

lemma sample_walk_again:
  "walk_summary (let s = the (unwindPhases walk_app (Some walk_constructed) walk_ctx 20 10 8 None start_world)
      in unwindPhases walk_app (Some (wk_con s)) walk_ctx 20 10 8 None (wk_world s)) =
     Some (118, [(Identity ''api'' ''default'', StopNotAttempted), (Identity ''db'' ''default'', StopSkipped),
       (Identity ''log'' ''default'', StopSkipped)], [(Identity ''db'' ''default'', DrainNotAttempted)])"
  by code_simp

lemma walk_constructed_ordered: "dependency_ordered walk_constructed"
  by (simp add: dependency_ordered_def walk_constructed_def sample_owned_def Let_def less_Suc_eq
      numeral_3_eq_3 take_Cons')

lemma Unwind_order_witness:
  "\<exists>s. unwindPhases walk_app (Some walk_constructed) walk_ctx 20 10 8 None start_world = Some s \<and>
     map sr_Identity (sh_Records (wk_report s)) =
       [Identity ''api'' ''default'', Identity ''db'' ''default'', Identity ''log'' ''default''] \<and>
     precedes (Identity ''api'' ''default'') (Identity ''db'' ''default'') (unwind_order walk_constructed)"
proof -
  obtain s where s: "unwindPhases walk_app (Some walk_constructed) walk_ctx 20 10 8 None start_world = Some s"
    using sample_walk by (auto simp: walk_summary_def)
  have "(Identity ''db'' ''default'', Identity ''api'' ''default'') \<in> consumer_edges walk_constructed"
    unfolding consumer_edges_def
    by (intro CollectI exI [of _ "Identity ''db'' ''default''"] exI [of _ "con_instances walk_constructed ! 2"])
      (simp add: walk_constructed_def sample_owned_def Let_def)
  with Unwind_order [OF s walk_constructed_ordered]
  have p: "precedes (Identity ''api'' ''default'') (Identity ''db'' ''default'') (unwind_order walk_constructed)"
    and o: "map sr_Identity (sh_Records (wk_report s)) = unwind_order walk_constructed" by blast+
  have "unwind_order walk_constructed =
      [Identity ''api'' ''default'', Identity ''db'' ''default'', Identity ''log'' ''default'']"
    by code_simp
  with s p o show ?thesis by (intro exI [of _ s] conjI) simp_all
qed

lemma Unwind_budget_witness:
  "\<exists>s2 s. phase_B walk_app walk_constructed walk_ctx 20 10 8
       (the (phase_A walk_app walk_constructed walk_ctx 20 8 None (start_walk walk_constructed start_world))) = Some s2 \<and>
     unwindPhases walk_app (Some walk_constructed) walk_ctx 20 10 8 None start_world = Some s \<and>
     walk_clock s2 \<le> 114 \<and> walk_clock s \<le> 120"
proof -
  have "after_cost None 0" by (simp add: after_cost_def)
  then show ?thesis
    using Unwind_budget [of walk_ctx 120 120 None walk_app walk_constructed 20 8 start_world 10]
    by (auto simp: walk_ctx_def start_world_def)
qed

text \<open>
  The callback of the first phase may wait for a task until the end of the walk's context, and then the last phase has none of its reserve.
\<close>

definition waiting_callback :: after_stop where
  "waiting_callback = Some (\<lambda>w i. (nat (120 - w_now w), None))"

lemma callback_takes_reserve:
  "after_within waiting_callback 120"
  "walk_summary (unwindPhases walk_app (Some walk_constructed) walk_ctx 20 10 8 waiting_callback start_world) =
     Some (120, [(Identity ''api'' ''default'', StopCompleted), (Identity ''db'' ''default'', StopNotAttempted),
       (Identity ''log'' ''default'', StopNotAttempted)], [(Identity ''db'' ''default'', DrainNotAttempted)])"
  by (simp add: after_within_def waiting_callback_def) code_simp

lemma Stop_at_most_once_witness:
  "\<exists>s s'. unwindPhases walk_app (Some walk_constructed) walk_ctx 20 10 8 None start_world = Some s \<and>
     unwindPhases walk_app (Some (wk_con s)) walk_ctx 20 10 8 None (wk_world s) = Some s' \<and>
     distinct (stop_calls (wk_world s'))"
proof -
  obtain s where s: "unwindPhases walk_app (Some walk_constructed) walk_ctx 20 10 8 None start_world = Some s"
    using sample_walk by (auto simp: walk_summary_def)
  then obtain s' where s': "unwindPhases walk_app (Some (wk_con s)) walk_ctx 20 10 8 None (wk_world s) = Some s'"
    using sample_walk_again by (auto simp: walk_summary_def)
  have "(lifecycle_step walk_app)\<^sup>*\<^sup>* (walk_constructed, start_world) (wk_con s', wk_world s')"
    using lifecycle_step.unwind [OF s] lifecycle_step.unwind [OF s'] by simp
  moreover have "distinct (con_identities walk_constructed)" "stop_calls start_world = []"
    by code_simp+
  ultimately have "distinct (stop_calls (wk_world s'))" by (rule Stop_at_most_once)
  with s s' show ?thesis by blast
qed

end
