(* ===== verification/Construct.thy ===== *)
theory Construct
  imports Unwind
begin

text \<open>
  The construction transaction of \<^verbatim>\<open>plugin/assembly/construct.go\<close>: every factory is called once
  in graph order with the values of the producers it declared, ownership passes to the set of
  constructed instances before \<^verbatim>\<open>Init\<close>, and a failure unwinds everything that is owned.
\<close>

section \<open>Construction\<close>

record ConstructOptions =
  co_ContextFactory :: "(identity \<Rightarrow> Logger \<Rightarrow> nat option) option"
  co_ShutdownTimeout :: time
  co_Service :: ServiceIdentity
  co_OnStageBegin :: bool

definition defaultShutdownTimeout :: time where
  "defaultShutdownTimeout = 15 * 1000000000"

definition directDependencies :: "plannedInstance \<Rightarrow> identity list" where
  "directDependencies planned =
     (if pi_bindings planned = [] then []
      else dedupe_on (\<lambda>i. i) [] (map Normalized (concat (map snd (pi_bindings planned)))))"

definition materialize_entry ::
  "plannedInstance \<Rightarrow> Constructed \<Rightarrow> nat \<Rightarrow> identity \<Rightarrow> (stage_error, ResolvedEntry) result" where
  "materialize_entry planned owned tokenID producer =
     (case gm_get (con_byIdentity owned) producer of
        None \<Rightarrow> Inl (ProducerNotConstructed (pi_identity planned) tokenID producer)
      | Some p \<Rightarrow>
          let x = con_instances owned ! p
          in Inr \<lparr>re_Identity = producer, re_Value = in_value x, re_Workload = in_workload x\<rparr>)"

definition materializeSlots ::
  "plannedInstance \<Rightarrow> Constructed \<Rightarrow> (stage_error, (nat, ResolvedEntry list) gomap) result" where
  "materializeSlots planned owned =
     map_res (\<lambda>(tokenID, producers).
         case map_res (materialize_entry planned owned tokenID) producers of
           Inl e \<Rightarrow> Inl e | Inr entries \<Rightarrow> Inr (tokenID, entries))
       (pi_bindings planned)"

text \<open>Calling the nil function panics; the recovered message is the runtime's.\<close>

definition invokeFactory :: "plannedInstance \<Rightarrow> BuildContext \<Rightarrow> build_store \<Rightarrow> (stage_error, anyval) result" where
  "invokeFactory planned c st =
     (case (case ip_Factory (pi_plan planned) of
              None \<Rightarrow> Panics ''runtime error: invalid memory address or nil pointer dereference''
            | Some f \<Rightarrow> f st c) of
        Panics m \<Rightarrow> Inl (FactoryPanic (pi_identity planned) m)
      | Returns (Inl e) \<Rightarrow> Inl (FactoryFailed (pi_identity planned) e)
      | Returns (Inr value) \<Rightarrow> Inr value)"

fun isNil :: "anyval \<Rightarrow> bool" where
  "isNil ANil = True"
| "isNil (ANilOf _) = True"
| "isNil (AVal _ _) = False"

text \<open>
  The call of a factory: its BuildContext is created, announced, used and invalidated.
\<close>

definition call_factory ::
  "app \<Rightarrow> ConstructOptions \<Rightarrow> plannedInstance \<Rightarrow> identity \<Rightarrow> (nat, ResolvedEntry list) gomap \<Rightarrow> world
     \<Rightarrow> ((stage_error, anyval) result \<times> time \<times> world) option" where
  "call_factory app options planned i slots w =
     (let (bc, store) = NewBuildContext i (Some (pi_logger planned)) (co_Service options) slots (w_store w);
          w1 = w\<lparr>w_store := store\<rparr>;
          w2 = (if co_OnStageBegin options then emit (StageBegan i StageFactory) w1 else w1);
          w3 = emit (FactoryCalled i slots) w2;
          result = invokeFactory planned bc (w_store w3)
      in map_option (\<lambda>elapsed.
           let w4 = advance (w_now w3 + int elapsed) w3
           in (result, int elapsed, w4\<lparr>w_store := InvalidateBuildContext bc (w_store w4)\<rparr>))
         (ap_factory_time app w3 i))"

definition new_instance :: "ConstructOptions \<Rightarrow> plannedInstance \<Rightarrow> identity \<Rightarrow> anyval \<Rightarrow> time \<Rightarrow> Instance_data" where
  "new_instance options planned i value elapsed =
     \<lparr>in_identity = i, in_value = value,
      in_context = (case co_ContextFactory options of None \<Rightarrow> None | Some f \<Rightarrow> f i (pi_logger planned)),
      in_lifecycle = pi_lifecycle planned, in_workload = pi_workload planned,
      in_dependsOn = directDependencies planned,
      in_timings = [\<lparr>st_Stage = StageFactory, st_Duration = elapsed\<rparr>],
      in_onStageBegin = co_OnStageBegin options, in_stopped = False\<rparr>"

text \<open>
  One iteration of the loop of \<^verbatim>\<open>Construct\<close>: an error that stops the construction, the owned
  instances and the world after it, or no return when the factory or \<^verbatim>\<open>Init\<close> does not return.
\<close>

definition construct_one ::
  "app \<Rightarrow> ConstructOptions \<Rightarrow> plannedInstance \<Rightarrow> identity \<Rightarrow> Constructed \<Rightarrow> world
     \<Rightarrow> (stage_error option \<times> Constructed \<times> world) option" where
  "construct_one app options planned i con w =
     (case materializeSlots planned con of
        Inl e \<Rightarrow> Some (Some e, con, w)
      | Inr slots \<Rightarrow>
          (case call_factory app options planned i slots w of
             None \<Rightarrow> None
           | Some (Inl e, _, w1) \<Rightarrow> Some (Some e, con, w1)
           | Some (Inr value, elapsed, w1) \<Rightarrow>
               if isNil value then Some (Some (NilPrimary i), con, w1)
               else if TypeOf value \<noteq> dd_Primary (pi_definition planned) then
                 Some (Some (PrimaryMismatch i (TypeOf value) (dd_Primary (pi_definition planned))), con, w1)
               else
                 let x = new_instance options planned i value elapsed;
                     p = length (con_instances con);
                     con1 = \<lparr>con_instances = con_instances con @ [x], con_byIdentity = gm_put i p (con_byIdentity con)\<rparr>
                 in map_option (\<lambda>(err, x', w2). (err, put_instance p x' con1, w2))
                      (invoke app StageInit (ld_init (in_lifecycle x)) x w1)))"

type_synonym construction = "(stage_error list, Constructed) result \<times> world"

definition joinConstructionFailure ::
  "app \<Rightarrow> stage_error \<Rightarrow> Constructed \<Rightarrow> time \<Rightarrow> world \<Rightarrow> construction option" where
  "joinConstructionFailure app cause con timeout w =
     map_option (\<lambda>s. (Inl (cause # wk_errs s), wk_world s))
       (Unwind app (Some con) (WithTimeout (w_now w) Background timeout) timeout None w)"

text \<open>
  The loop. A planned identity without an instance is a nil pointer whose first use panics out of
  the call; like a call that does not return, this is \<open>None\<close>.
\<close>

fun construct_loop ::
  "app \<Rightarrow> ConstructOptions \<Rightarrow> Plan \<Rightarrow> identity list \<Rightarrow> Constructed \<Rightarrow> world \<Rightarrow> construction option" where
  "construct_loop app options plan [] con w = Some (Inr con, w)"
| "construct_loop app options plan (i # rest) con w =
     (case gm_get (plan_instances plan) i of
        None \<Rightarrow> None
      | Some planned \<Rightarrow>
          (case construct_one app options planned i con w of
             None \<Rightarrow> None
           | Some (None, con', w') \<Rightarrow> construct_loop app options plan rest con' w'
           | Some (Some e, con', w') \<Rightarrow> joinConstructionFailure app e con' (co_ShutdownTimeout options) w'))"

definition Construct :: "app \<Rightarrow> Plan option \<Rightarrow> ConstructOptions \<Rightarrow> world \<Rightarrow> construction option" where
  "Construct app plan options w =
     (case plan of
        None \<Rightarrow> Some (Inl [NilPlan], w)
      | Some plan \<Rightarrow>
          let options = (if co_ShutdownTimeout options \<le> 0
                then options\<lparr>co_ShutdownTimeout := defaultShutdownTimeout\<rparr> else options)
          in construct_loop app options plan (plan_order plan) nothing_owned w)"

section \<open>What a built plan guarantees\<close>

text \<open>Every planned instance is present, normalised, and bound only to instances before it.\<close>

definition plan_sound :: "Plan \<Rightarrow> bool" where
  "plan_sound plan \<longleftrightarrow> distinct (plan_order plan) \<and>
     (\<forall>i \<in> set (plan_order plan). Normalized i = i \<and>
        (\<exists>planned. gm_get (plan_instances plan) i = Some planned \<and> pi_identity planned = i \<and>
           (\<forall>ids \<in> snd ` set (pi_bindings planned). \<forall>p \<in> set ids. precedes p i (plan_order plan))))"

definition binding_keys_ok :: "instances \<Rightarrow> bool" where
  "binding_keys_ok instances \<longleftrightarrow>
     (\<forall>c inst. gm_get instances c = Some inst \<longrightarrow> gm_wf (pi_bindings inst) \<and>
        fst ` set (pi_bindings inst) \<subseteq> tok_ID ` set (ip_Inputs (pi_plan inst)))"

lemma wire_matches_instances:
  "fold_res (wire_match c tok) ms st = Inr st' \<Longrightarrow> w_instances st' = w_instances st"
  by (rule fold_res_invariant [where P = "\<lambda>_ s. w_instances s = w_instances st"])
    (auto simp: wire_match_def split: if_splits)

lemma wire_token_keys:
  assumes "wire_token instances contracts unhosted (c, tok) st = Inr st'" and ok: "binding_keys_ok (w_instances st)"
    and tok: "\<And>inst. gm_get (w_instances st) c = Some inst \<Longrightarrow> tok \<in> set (ip_Inputs (pi_plan inst))"
  shows "binding_keys_ok (w_instances st')"
proof -
  from assms(1) obtain ms where
    "w_instances st' = bind_token c (tok_ID tok) ms (w_instances st)"
    by (auto simp: wire_token_def split: sum.splits dest!: wire_matches_instances)
  with ok tok show ?thesis
    by (auto simp: bind_token_def binding_keys_ok_def split: option.splits if_splits)
qed

lemma wire_inputs_keys:
  assumes ok: "planned_ok instances" and empty: "\<forall>c inst. gm_get instances c = Some inst \<longrightarrow> pi_bindings inst = []"
    and run: "wire_inputs instances (indexContracts instances) unhosted = Inr st"
  shows "binding_keys_ok (w_instances st)"
proof -
  let ?P = "\<lambda>(ds :: (identity \<times> InputToken) list) s. binding_keys_ok (w_instances s) \<and>
    (\<forall>c. map_option pi_plan (gm_get (w_instances s) c) = map_option pi_plan (gm_get instances c))"
  have "?P (input_pairs instances) st"
  proof (rule fold_res_invariant_prefix [where P = ?P])
    show "fold_res (wire_token instances (indexContracts instances) unhosted) (input_pairs instances)
        (wire_start instances) = Inr st"
      using run by (simp add: wire_inputs_def fold_res_concat input_pairs_def)
    show "?P [] (wire_start instances)" using empty by (simp add: wire_start_def binding_keys_ok_def)
    fix ds x rest s s'
    assume pre: "input_pairs instances = ds @ x # rest" and inv: "?P ds s"
      and step: "wire_token instances (indexContracts instances) unhosted x s = Inr s'"
    obtain c tok where x: "x = (c, tok)" by (cases x)
    have "tok \<in> set (instance_inputs instances c)" using pre x input_pairs_mem [of c tok instances] by auto
    then obtain inst where inst: "gm_get instances c = Some inst" "tok \<in> set (ip_Inputs (pi_plan inst))"
      by (cases "gm_get instances c") (auto simp: instance_inputs_def)
    have "tok \<in> set (ip_Inputs (pi_plan i'))" if "gm_get (w_instances s) c = Some i'" for i'
      using inv inst that by (metis option.map(2) option.inject)
    with wire_token_keys [OF step [unfolded x]] inv have "binding_keys_ok (w_instances s')" by blast
    moreover have "\<exists>ms. w_instances s' = bind_token c (tok_ID tok) ms (w_instances s)"
      using step by (auto simp: x wire_token_def split: sum.splits dest!: wire_matches_instances)
    then have "map_option pi_plan (gm_get (w_instances s') d) = map_option pi_plan (gm_get (w_instances s) d)" for d
      by (auto simp: bind_token_def split: option.splits)
    ultimately show "?P (ds @ [x]) s'" using inv by simp
  qed
  then show ?thesis by blast
qed

lemma BuildPlan_sound:
  assumes "BuildPlan ops dl h options = Some (Inr plan)"
  shows "plan_sound plan"
proof -
  obtain defs workloads hosted unhosted insts where
    built: "built_plan ops dl h options plan defs workloads hosted unhosted insts"
    using BuildPlan_built [OF assms] by metis
  note ok = built_plan_ok(1) [OF built] and wg = built_planD(4) [OF built]
  note keep = wireGraph_instances [OF ok wg]
  obtain st where inp: "wire_inputs insts (indexContracts insts) unhosted = Inr st" and pi: "plan_instances plan = w_instances st"
    and greedy: "greedy_order (map fst insts) (dep_succ insts unhosted) Normalized (plan_order plan)"
    and all: "set (plan_order plan) = fst ` set insts"
    using ok by (cases rule: wireGraph_cases [where unhosted = unhosted]) (use wg in auto)
  have "pi_bindings inst = []" if "gm_get insts c = Some inst" for c inst
    using built_plan_ok(2) [OF built that] by (auto simp: well_planned_def)
  with wire_inputs_keys [OF ok _ inp] have keys: "binding_keys_ok (plan_instances plan)" by (simp add: pi)
  have "Normalized i = i \<and> (\<exists>planned. gm_get (plan_instances plan) i = Some planned \<and> pi_identity planned = i \<and>
      (\<forall>ids \<in> snd ` set (pi_bindings planned). \<forall>p \<in> set ids. precedes p i (plan_order plan)))"
    if i: "i \<in> set (plan_order plan)" for i
  proof -
    have "i \<in> fst ` set (plan_instances plan)" using i all keep(1) by (metis set_map)
    then obtain planned where planned: "gm_get (plan_instances plan) i = Some planned"
      using gm_get_None [of "plan_instances plan" i] by (cases "gm_get (plan_instances plan) i") auto
    obtain inst0 b s where i0: "gm_get insts i = Some inst0" "planned = inst0\<lparr>pi_bindings := b\<rparr>" "well_planned s i inst0"
      using built_plan_instance [OF built planned] by metis
    have "precedes p i (plan_order plan)" if ids: "(k, ids) \<in> set (pi_bindings planned)" "p \<in> set ids" for k ids p
    proof -
      have kb: "gm_wf (pi_bindings planned)" "k \<in> tok_ID ` set (ip_Inputs (pi_plan planned))"
        using keys planned ids(1) unfolding binding_keys_ok_def by force+
      then obtain tok where tok: "tok \<in> set (ip_Inputs (pi_plan planned))" "tok_ID tok = k" by blast
      have "gm_get (pi_bindings planned) k = Some ids" using kb(1) ids(1) gm_get_in_set by metis
      then have "p \<in> set (binding (plan_instances plan) i tok)"
        using ids(2) planned tok(2) by (simp add: binding_def gm_list_def)
      moreover have "tok \<in> set (instance_inputs insts i)" using i0 tok(1) by (simp add: instance_inputs_def)
      ultimately obtain a b where ab: "a < b" "b < length (plan_order plan)" "plan_order plan ! a = p" "plan_order plan ! b = i"
        using wireGraph_before [OF ok wg] by blast
      have "plan_order plan = take b (plan_order plan) @ i # drop (Suc b) (plan_order plan)"
        using id_take_nth_drop [OF ab(2)] ab(4) by simp
      moreover have "p \<in> set (take b (plan_order plan))" using ab by (auto simp: in_set_conv_nth intro!: exI [of _ a])
      ultimately show ?thesis using precedes_append(3) by (metis list.set_intros(1))
    qed
    with planned i0 built_plan_normal [OF built i] show ?thesis by (force simp: well_planned_def)
  qed
  with greedy_order_nodes [OF greedy] show ?thesis unfolding plan_sound_def by blast
qed

section \<open>The loop\<close>

text \<open>The factory calls so far, with the slots of the context each was given.\<close>

fun factory_call :: "event \<Rightarrow> (identity \<times> (nat, ResolvedEntry list) gomap) option" where
  "factory_call (FactoryCalled i slots) = Some (i, slots)"
| "factory_call _ = None"

definition factory_calls :: "world \<Rightarrow> (identity \<times> (nat, ResolvedEntry list) gomap) list" where
  "factory_calls w = List.map_filter factory_call (w_events w)"

lemma factory_calls_emit [simp]:
  "factory_calls (emit e w) = factory_calls w @ (case factory_call e of None \<Rightarrow> [] | Some c \<Rightarrow> [c])"
  by (simp add: factory_calls_def List.map_filter_def split: option.splits)

lemma calls_other [simp]:
  "factory_calls (advance t w) = factory_calls w"
  "factory_calls (w\<lparr>w_store := st\<rparr>) = factory_calls w"
  "stop_calls (w\<lparr>w_store := st\<rparr>) = stop_calls w"
  by (simp_all add: factory_calls_def stop_calls_def)

text \<open>The entry a consumer reads for a producer: the constructed value and its workload.\<close>

definition resolved :: "Constructed \<Rightarrow> identity \<Rightarrow> ResolvedEntry option" where
  "resolved con producer =
     map_option (\<lambda>p. let x = con_instances con ! p
         in \<lparr>re_Identity = producer, re_Value = in_value x, re_Workload = in_workload x\<rparr>)
       (gm_get (con_byIdentity con) producer)"

text \<open>Slots that hold, for every bound token and in the order of its producers, their entries.\<close>

definition slots_exact :: "Constructed \<Rightarrow> plannedInstance \<Rightarrow> (nat, ResolvedEntry list) gomap \<Rightarrow> bool" where
  "slots_exact con planned slots \<longleftrightarrow>
     list_all2 (\<lambda>(tok, producers) (tok', entries).
        tok' = tok \<and> list_all2 (\<lambda>p e. resolved con p = Some e) producers entries) (pi_bindings planned) slots"

lemma materialize_entry_Inr: "materialize_entry planned con tok p = Inr e \<longleftrightarrow> resolved con p = Some e"
  by (auto simp: materialize_entry_def resolved_def Let_def split: option.splits)

lemma materializeSlots_Inr: "materializeSlots planned con = Inr slots \<longleftrightarrow> slots_exact con planned slots"
proof -
  have "(case b of (tok, producers) \<Rightarrow> case map_res (materialize_entry planned con tok) producers of
        Inl e \<Rightarrow> Inl e | Inr entries \<Rightarrow> Inr (tok, entries)) = Inr s \<longleftrightarrow>
      (case (b, s) of ((tok, producers), (tok', entries)) \<Rightarrow>
        tok' = tok \<and> list_all2 (\<lambda>p e. resolved con p = Some e) producers entries)" for b s
    using map_res_Inr_iff [of "materialize_entry planned con (fst b)" "snd b" "snd s"]
    by (cases b; cases s) (auto simp: materialize_entry_Inr split: sum.splits)
  then show ?thesis
    unfolding materializeSlots_def slots_exact_def map_res_Inr_iff by (simp add: case_prod_unfold)
qed

lemma slots_exact_mono:
  assumes "slots_exact con planned slots" and "\<And>p e. resolved con p = Some e \<Longrightarrow> resolved con' p = Some e"
  shows "slots_exact con' planned slots"
  using assms(1) unfolding slots_exact_def
  by (rule list_all2_mono) (auto intro: list_all2_mono assms(2))

lemma materializeSlots_total:
  assumes "\<And>ids p. ids \<in> snd ` set (pi_bindings planned) \<Longrightarrow> p \<in> set ids \<Longrightarrow> gm_get (con_byIdentity con) p \<noteq> None"
  obtains slots where "materializeSlots planned con = Inr slots"
proof (cases "materializeSlots planned con")
  case (Inl e)
  then obtain tok ids where b: "(tok, ids) \<in> set (pi_bindings planned)" "map_res (materialize_entry planned con tok) ids = Inl e"
    unfolding materializeSlots_def by (auto dest!: map_res_Inl split: sum.splits)
  then obtain p where "p \<in> set ids" "materialize_entry planned con tok p = Inl e" by (auto dest: map_res_Inl)
  with assms [of ids p] b(1) show thesis by (force simp: materialize_entry_def Let_def split: option.splits)
qed (rule that)

text \<open>What is owned after the identities \<open>ds\<close> have been constructed.\<close>

definition from_plan :: "Plan \<Rightarrow> Instance_data \<Rightarrow> bool" where
  "from_plan plan x \<longleftrightarrow> \<not> in_stopped x \<and>
     (\<exists>planned. gm_get (plan_instances plan) (in_identity x) = Some planned \<and> in_lifecycle x = pi_lifecycle planned \<and>
        in_workload x = pi_workload planned \<and> TypeOf (in_value x) = dd_Primary (pi_definition planned) \<and>
        in_dependsOn x = directDependencies planned)"

definition owned_ok :: "Plan \<Rightarrow> identity list \<Rightarrow> Constructed \<Rightarrow> bool" where
  "owned_ok plan ds con \<longleftrightarrow> con_identities con = ds \<and>
     (\<forall>i p. gm_get (con_byIdentity con) i = Some p \<longleftrightarrow> p < length ds \<and> ds ! p = i) \<and>
     dependency_ordered con \<and> (\<forall>x \<in> set (con_instances con). from_plan plan x)"

text \<open>What has happened since \<open>w0\<close> when the factories of \<open>called\<close> have been called.\<close>

definition trace_ok :: "Plan \<Rightarrow> world \<Rightarrow> identity list \<Rightarrow> Constructed \<Rightarrow> world \<Rightarrow> bool" where
  "trace_ok plan w0 called con w \<longleftrightarrow>
     (\<exists>calls. factory_calls w = factory_calls w0 @ calls \<and> map fst calls = called \<and>
        (\<forall>(i, slots) \<in> set calls. \<exists>planned. gm_get (plan_instances plan) i = Some planned \<and> slots_exact con planned slots)) \<and>
     stop_calls w = stop_calls w0 \<and>
     (\<exists>new. w_store w = w_store w0 @ new \<and> (\<forall>s \<in> set new. \<not> bs_active s))"

lemma owned_ok_get: "owned_ok plan ds con \<Longrightarrow> i \<in> set ds \<Longrightarrow> gm_get (con_byIdentity con) i \<noteq> None"
  unfolding owned_ok_def by (metis in_set_conv_nth option.distinct(1))

text \<open>The instances after a successful factory: the new one is the last, whatever \<^verbatim>\<open>Init\<close> recorded in it.\<close>

lemma owned_ok_extend:
  assumes ok: "owned_ok plan ds con" and new: "i \<notin> set ds"
    and planned: "gm_get (plan_instances plan) i = Some planned"
    and before: "\<forall>ids \<in> snd ` set (pi_bindings planned). \<forall>p \<in> set ids. p \<in> set ds \<and> Normalized p = p"
    and x: "in_identity x = i" "in_lifecycle x = pi_lifecycle planned" "in_workload x = pi_workload planned"
      "TypeOf (in_value x) = dd_Primary (pi_definition planned)" "in_dependsOn x = directDependencies planned" "\<not> in_stopped x"
  defines "con' \<equiv> \<lparr>con_instances = con_instances con @ [x], con_byIdentity = gm_put i (length (con_instances con)) (con_byIdentity con)\<rparr>"
  shows "owned_ok plan (ds @ [i]) con'" and "resolved con p = Some e \<Longrightarrow> resolved con' p = Some e"
proof -
  have ids: "con_identities con = ds" and len: "length (con_instances con) = length ds"
    using ok by (auto simp: owned_ok_def)
  have at: "gm_get (con_byIdentity con) j = Some p \<longleftrightarrow> p < length ds \<and> ds ! p = j" for j p
    using ok by (simp add: owned_ok_def)
  have "set (directDependencies planned) \<subseteq> set (map Normalized (concat (map snd (pi_bindings planned))))"
    by (cases "pi_bindings planned = []") (simp_all only: directDependencies_def if_True if_False dedupe_on_subset, simp)
  moreover have "Normalized p \<in> set ds" if "p \<in> set (concat (map snd (pi_bindings planned)))" for p
    using before that by fastforce
  ultimately have "set (in_dependsOn x) \<subseteq> set ds" unfolding x(5) by (metis (no_types) imageE list.set_map subset_iff)
  then have "dependency_ordered con'"
    using ok ids len by (auto simp: owned_ok_def dependency_ordered_def con'_def nth_append less_Suc_eq)
  moreover have "gm_get (con_byIdentity con') j = Some p \<longleftrightarrow> p < length (ds @ [i]) \<and> (ds @ [i]) ! p = j" for j p
  proof (cases "j = i")
    case True
    have "\<not> (p < length ds \<and> ds ! p = i)" using new by (metis nth_mem)
    with True show ?thesis by (auto simp: con'_def len nth_append less_Suc_eq)
  next
    case False
    with at [of j p] show ?thesis by (auto simp: con'_def nth_append less_Suc_eq)
  qed
  moreover have "from_plan plan x" using planned x by (auto simp: from_plan_def)
  ultimately show "owned_ok plan (ds @ [i]) con'"
    using ok ids x(1) by (auto simp: owned_ok_def con'_def)
  show "resolved con' p = Some e" if r: "resolved con p = Some e"
  proof -
    from r obtain q where q: "gm_get (con_byIdentity con) p = Some q" by (auto simp: resolved_def)
    with at have "q < length ds" "p \<noteq> i" using new by (auto dest: nth_mem)
    with q r len show ?thesis by (simp add: resolved_def con'_def nth_append)
  qed
qed

lemma put_instance_last:
  "put_instance (length xs) y \<lparr>con_instances = xs @ [x], con_byIdentity = b\<rparr> = \<lparr>con_instances = xs @ [y], con_byIdentity = b\<rparr>"
  by (simp add: put_instance_def)

lemma invoke_keeps:
  assumes "invoke app StageInit h x w = Some (err, x', w')"
  shows "factory_calls w' = factory_calls w \<and> stop_calls w' = stop_calls w \<and> w_store w' = w_store w \<and>
    (\<exists>ts. x' = x\<lparr>in_timings := ts\<rparr>)"
proof -
  have "\<exists>ts. x = x\<lparr>in_timings := ts\<rparr>" by (rule exI [of _ "in_timings x"]) simp
  moreover have "\<exists>ts. x\<lparr>in_timings := us\<rparr> = x\<lparr>in_timings := ts\<rparr>" for us by (rule exI [of _ us]) simp
  ultimately show ?thesis
    using assms by (auto simp: invoke_def Let_def split: option.splits prod.splits if_splits)
qed

lemma trace_ok_mono:
  assumes "trace_ok plan w0 called con w" and "\<And>p e. resolved con p = Some e \<Longrightarrow> resolved con' p = Some e"
    and "factory_calls w' = factory_calls w" "stop_calls w' = stop_calls w" "w_store w' = w_store w"
  shows "trace_ok plan w0 called con' w'"
  using assms(1) slots_exact_mono [OF _ assms(2)] assms(3-) unfolding trace_ok_def by (auto, blast)

lemma call_factory_spec:
  assumes "call_factory app options planned i slots w = Some (result, elapsed, w')"
  shows "factory_calls w' = factory_calls w @ [(i, slots)]" and "stop_calls w' = stop_calls w"
    and "\<exists>s. w_store w' = w_store w @ [s] \<and> \<not> bs_active s"
  using assms
  by (auto simp: call_factory_def NewBuildContext_def InvalidateBuildContext_def Let_def split: if_splits)

text \<open>One iteration, after the identities \<open>ds\<close>.\<close>

lemma construct_one_spec:
  assumes ok: "owned_ok plan ds con" and tr: "trace_ok plan w0 ds con w" and new: "i \<notin> set ds"
    and planned: "gm_get (plan_instances plan) i = Some planned"
    and before: "\<forall>ids \<in> snd ` set (pi_bindings planned). \<forall>p \<in> set ids. p \<in> set ds \<and> Normalized p = p"
    and run: "construct_one app options planned i con w = Some (err, con', w')"
  shows "trace_ok plan w0 (ds @ [i]) con' w' \<and>
    (owned_ok plan (ds @ [i]) con' \<or> err \<noteq> None \<and> owned_ok plan ds con')"
proof -
  have "gm_get (con_byIdentity con) p \<noteq> None"
    if "ids \<in> snd ` set (pi_bindings planned)" "p \<in> set ids" for ids p
    using owned_ok_get [OF ok] before that by blast
  then obtain slots where slots: "materializeSlots planned con = Inr slots"
    by (rule materializeSlots_total)
  obtain calls where calls: "factory_calls w = factory_calls w0 @ calls" "map fst calls = ds"
    "\<forall>(i, slots) \<in> set calls. \<exists>planned. gm_get (plan_instances plan) i = Some planned \<and> slots_exact con planned slots"
    using tr unfolding trace_ok_def by blast
  obtain news where news: "w_store w = w_store w0 @ news" "\<forall>s \<in> set news. \<not> bs_active s"
    using tr unfolding trace_ok_def by blast
  obtain result elapsed w5 where cf: "call_factory app options planned i slots w = Some (result, elapsed, w5)"
    using run slots by (cases "call_factory app options planned i slots w") (auto simp: construct_one_def)
  note cfs = call_factory_spec [OF cf]
  have ex: "slots_exact con planned slots" using slots by (simp add: materializeSlots_Inr)
  obtain s where s: "w_store w5 = w_store w @ [s]" "\<not> bs_active s" using cfs(3) by blast
  have w5: "trace_ok plan w0 (ds @ [i]) con w5"
    unfolding trace_ok_def
  proof (intro conjI)
    show "\<exists>calls. factory_calls w5 = factory_calls w0 @ calls \<and> map fst calls = ds @ [i] \<and>
      (\<forall>(i, slots) \<in> set calls. \<exists>planned. gm_get (plan_instances plan) i = Some planned \<and> slots_exact con planned slots)"
      using cfs(1) calls planned ex by (intro exI [of _ "calls @ [(i, slots)]"]) simp
    show "stop_calls w5 = stop_calls w0" using cfs(2) tr by (simp add: trace_ok_def)
    show "\<exists>new. w_store w5 = w_store w0 @ new \<and> (\<forall>s \<in> set new. \<not> bs_active s)"
      using s news by (intro exI [of _ "news @ [s]"]) simp
  qed
  show ?thesis
  proof (cases "\<exists>value. result = Inr value \<and> \<not> isNil value \<and> TypeOf value = dd_Primary (pi_definition planned)")
    case False
    then have "err \<noteq> None \<and> con' = con \<and> w' = w5"
      using run slots cf by (auto simp: construct_one_def split: sum.splits if_splits)
    with w5 ok show ?thesis by simp
  next
    case True
    then obtain v where v: "result = Inr v" "\<not> isNil v" "TypeOf v = dd_Primary (pi_definition planned)"
      by blast
    let ?x = "new_instance options planned i v elapsed"
    obtain x' where inv: "invoke app StageInit (ld_init (in_lifecycle ?x)) ?x w5 = Some (err, x', w')"
      and con': "con' = \<lparr>con_instances = con_instances con @ [x'],
         con_byIdentity = gm_put i (length (con_instances con)) (con_byIdentity con)\<rparr>"
      using run slots cf v by (auto simp: construct_one_def Let_def put_instance_last split: prod.splits)
    note keep = invoke_keeps [OF inv]
    then have x': "in_identity x' = i" "in_lifecycle x' = pi_lifecycle planned"
      "in_workload x' = pi_workload planned" "TypeOf (in_value x') = dd_Primary (pi_definition planned)"
      "in_dependsOn x' = directDependencies planned" "\<not> in_stopped x'"
      using v(3) by (auto simp: new_instance_def)
    note ext = owned_ok_extend [OF ok new planned before x', folded con']
    from trace_ok_mono [OF w5 ext(2)] keep ext(1) show ?thesis by blast
  qed
qed

text \<open>The factory or the \<^verbatim>\<open>Init\<close> hook of an identity does not always return.\<close>

definition may_block :: "app \<Rightarrow> identity \<Rightarrow> bool" where
  "may_block app i \<longleftrightarrow> (\<exists>w. ap_factory_time app w i = None) \<or> (\<exists>w x. in_identity x = i \<and> ap_hook app w StageInit x = None)"

lemma invoke_None: "invoke app stage h x w = None \<Longrightarrow> \<exists>w. ap_hook app w stage x = None"
  by (auto simp: invoke_def Let_def split: option.splits)

lemma construct_one_None:
  assumes "construct_one app options planned i con w = None"
  shows "may_block app i"
proof -
  obtain slots where slots: "materializeSlots planned con = Inr slots"
    using assms by (auto simp: construct_one_def split: sum.splits)
  show ?thesis
  proof (cases "call_factory app options planned i slots w")
    case None
    then show ?thesis by (auto simp: call_factory_def Let_def may_block_def split: prod.splits)
  next
    case (Some out)
    obtain result elapsed w1 where out: "out = (result, elapsed, w1)" by (cases out)
    with assms slots Some obtain v where "invoke app StageInit (ld_init (in_lifecycle (new_instance options planned i v elapsed)))
        (new_instance options planned i v elapsed) w1 = None"
      by (auto simp: construct_one_def Let_def split: sum.splits if_splits)
    from invoke_None [OF this] have "\<exists>w. ap_hook app w StageInit (new_instance options planned i v elapsed) = None" .
    moreover have "in_identity (new_instance options planned i v elapsed) = i" by (simp add: new_instance_def)
    ultimately show ?thesis unfolding may_block_def by blast
  qed
qed

lemma construct_loop_result:
  assumes sound: "plan_sound plan"
  shows "\<lbrakk>plan_order plan = ds @ rest; owned_ok plan ds con; trace_ok plan w0 ds con w\<rbrakk> \<Longrightarrow>
    (\<exists>con' w'. construct_loop app options plan rest con w = Some (Inr con', w') \<and>
       owned_ok plan (plan_order plan) con' \<and> trace_ok plan w0 (plan_order plan) con' w') \<or>
    (\<exists>es i rest' owned con' w' cause.
       plan_order plan = es @ i # rest' \<and> (owned = es \<or> owned = es @ [i]) \<and>
       owned_ok plan owned con' \<and> trace_ok plan w0 (es @ [i]) con' w' \<and>
       construct_loop app options plan rest con w = joinConstructionFailure app cause con' (co_ShutdownTimeout options) w') \<or>
    (construct_loop app options plan rest con w = None \<and> (\<exists>i \<in> set (plan_order plan). may_block app i))"
proof (induction rest arbitrary: ds con w)
  case (Cons i rest)
  have i: "i \<in> set (plan_order plan)" and new: "i \<notin> set ds"
    using Cons.prems(1) sound by (auto simp: plan_sound_def)
  obtain planned where planned: "gm_get (plan_instances plan) i = Some planned"
    and prec: "\<And>ids p. ids \<in> snd ` set (pi_bindings planned) \<Longrightarrow> p \<in> set ids \<Longrightarrow> precedes p i (plan_order plan)"
    using sound i unfolding plan_sound_def by blast
  have before: "p \<in> set ds \<and> Normalized p = p" if ids: "ids \<in> snd ` set (pi_bindings planned)" "p \<in> set ids" for ids p
  proof -
    obtain as bs cs where o: "plan_order plan = as @ p # bs @ i # cs" using prec [OF ids] unfolding precedes_def by blast
    have "distinct (plan_order plan)" using sound unfolding plan_sound_def by (rule conjunct1)
    then have "i \<notin> set (as @ p # bs)" "i \<notin> set cs" unfolding o by auto
    with o Cons.prems(1) append_Cons_eq_iff [of i "as @ p # bs" cs ds rest] have "as @ p # bs = ds" by simp
    then have "p \<in> set ds" by auto
    moreover from this have "p \<in> set (plan_order plan)" using Cons.prems(1) by simp
    ultimately show ?thesis using sound by (simp add: plan_sound_def)
  qed
  from before have bound: "\<forall>ids \<in> snd ` set (pi_bindings planned). \<forall>p \<in> set ids. p \<in> set ds \<and> Normalized p = p" by blast
  show ?case
  proof (cases "construct_one app options planned i con w")
    case None
    with planned i construct_one_None [OF None] show ?thesis by auto
  next
    case (Some out)
    obtain err con' w' where one: "construct_one app options planned i con w = Some (err, con', w')"
      using Some by (cases out) simp
    note spec = construct_one_spec [OF Cons.prems(2,3) new planned bound one]
    show ?thesis
    proof (cases err)
      case None
      with spec have "owned_ok plan (ds @ [i]) con'" "trace_ok plan w0 (ds @ [i]) con' w'" by auto
      with Cons.IH [of "ds @ [i]" con' w'] Cons.prems(1) planned one None show ?thesis by simp
    next
      case (Some e)
      then have loop: "construct_loop app options plan (i # rest) con w = joinConstructionFailure app e con' (co_ShutdownTimeout options) w'"
        using planned one by simp
      from spec have "trace_ok plan w0 (ds @ [i]) con' w'" "owned_ok plan ds con' \<or> owned_ok plan (ds @ [i]) con'" by auto
      with Cons.prems(1) loop show ?thesis by blast
    qed
  qed
qed auto

lemma construct_start: "owned_ok plan [] nothing_owned \<and> trace_ok plan w [] nothing_owned w"
  by (simp add: owned_ok_def trace_ok_def nothing_owned_def dependency_ordered_def)

definition effective_timeout :: "ConstructOptions \<Rightarrow> time" where
  "effective_timeout options =
     (if co_ShutdownTimeout options \<le> 0 then defaultShutdownTimeout else co_ShutdownTimeout options)"

lemma Construct_result:
  assumes "plan_sound plan"
  shows "(\<exists>con' w'. Construct app (Some plan) options w = Some (Inr con', w') \<and>
       owned_ok plan (plan_order plan) con' \<and> trace_ok plan w (plan_order plan) con' w') \<or>
    (\<exists>es i rest' owned con' w' cause.
       plan_order plan = es @ i # rest' \<and> (owned = es \<or> owned = es @ [i]) \<and>
       owned_ok plan owned con' \<and> trace_ok plan w (es @ [i]) con' w' \<and>
       Construct app (Some plan) options w = joinConstructionFailure app cause con' (effective_timeout options) w') \<or>
    (Construct app (Some plan) options w = None \<and> (\<exists>i \<in> set (plan_order plan). may_block app i))"
proof -
  define o' where "o' = (if co_ShutdownTimeout options \<le> 0
    then options\<lparr>co_ShutdownTimeout := defaultShutdownTimeout\<rparr> else options)"
  have "Construct app (Some plan) options w = construct_loop app o' plan (plan_order plan) nothing_owned w"
    by (simp add: Construct_def o'_def)
  moreover have "co_ShutdownTimeout o' = effective_timeout options" by (simp add: o'_def effective_timeout_def)
  ultimately show ?thesis
    using construct_loop_result [OF assms, of "[]" "plan_order plan" nothing_owned w w app o'] construct_start [of plan w]
    by simp
qed

lemma joinConstructionFailure_result:
  obtains s where "Unwind app (Some con) (WithTimeout (w_now w) Background timeout) timeout None w = Some s"
    "joinConstructionFailure app cause con timeout w = Some (Inl (cause # wk_errs s), wk_world s)"
    "w_now (wk_world s) \<le> max (w_now w) (w_now w + timeout)"
proof -
  obtain s where "unwindPhases app (Some con) (WithTimeout (w_now w) Background timeout) timeout 0 0 None w = Some s"
    "w_now (wk_world s) \<le> max (w_now w) (w_now w + timeout)"
    using unwind_budget [of "WithTimeout (w_now w) Background timeout" "w_now w + timeout" "w_now w + timeout" None app con timeout 0 w 0]
    by (auto simp: WithTimeout_def WithDeadline_def Background_def)
  then show thesis by (intro that [of s]) (simp_all add: Unwind_def joinConstructionFailure_def)
qed


text \<open>
  A rollback that began at \<open>w1\<close>, after the factories of \<open>called\<close> had been called since \<open>w\<close>: the
  owned instances are unwound within the timeout, only theirs are the stops that were called, and
  every one of them that has a hook had it called or is reported.
\<close>

definition rolled_back :: "app \<Rightarrow> time \<Rightarrow> world \<Rightarrow> identity list \<Rightarrow> Constructed \<Rightarrow> world \<Rightarrow> walk \<Rightarrow> bool" where
  "rolled_back app timeout w called con w1 s \<longleftrightarrow>
     Unwind app (Some con) (WithTimeout (w_now w1) Background timeout) timeout None w1 = Some s \<and>
     w_now (wk_world s) \<le> w_now w1 + timeout \<and>
     (\<exists>calls. factory_calls w1 = factory_calls w @ calls \<and> map fst calls = called) \<and>
     map sr_Identity (sh_Records (wk_report s)) = unwind_order con \<and>
     stop_calls (wk_world s) = stop_calls w @ map sr_Identity (filter hook_ran (sh_Records (wk_report s))) \<and>
     (\<forall>x \<in> set (con_instances con). HasStop x \<longrightarrow>
        in_identity x \<in> set (stop_calls (wk_world s)) \<or>
        HookNotAttempted (in_identity x) StageStop timeout \<in> set (wk_errs s))"

lemma rollback:
  assumes dist: "distinct owned" and ok: "owned_ok plan owned con" and tr: "trace_ok plan w called con w1" and t: "0 < timeout"
  obtains s where "joinConstructionFailure app cause con timeout w1 = Some (Inl (cause # wk_errs s), wk_world s)"
    "rolled_back app timeout w called con w1 s"
proof -
  obtain s where s: "Unwind app (Some con) (WithTimeout (w_now w1) Background timeout) timeout None w1 = Some s"
    "joinConstructionFailure app cause con timeout w1 = Some (Inl (cause # wk_errs s), wk_world s)"
    "w_now (wk_world s) \<le> max (w_now w1) (w_now w1 + timeout)"
    by (rule joinConstructionFailure_result)
  have "distinct (con_identities con)" using ok dist by (simp add: owned_ok_def)
  moreover have "stops_called con w1" using ok by (auto simp: owned_ok_def from_plan_def stops_called_def)
  ultimately have all: "\<forall>x \<in> set (con_instances con). HasStop x \<longrightarrow> in_identity x \<in> set (stop_calls (wk_world s)) \<or>
      HookNotAttempted (in_identity x) StageStop timeout \<in> set (wk_errs s)"
    using unwind_accounted [OF s(1)] by blast
  have res: "map sr_Identity (sh_Records (wk_report s)) = unwind_order con" "stop_calls (wk_world s) = stop_calls w1 @ ran s"
    using unwind_result [OF s(1) [unfolded Unwind_def]] by auto
  have "\<exists>calls. factory_calls w1 = factory_calls w @ calls \<and> map fst calls = called" "stop_calls w1 = stop_calls w"
    using tr by (auto simp: trace_ok_def)
  with s t all res show thesis by (intro that [of s]) (simp_all add: rolled_back_def)
qed

lemma Construct_failure_cases:
  assumes "BuildPlan ops dl h popts = Some (Inr plan)"
  shows "(\<exists>con w'. Construct app (Some plan) options w = Some (Inr con, w')) \<or>
    (\<exists>es i rest con w1 s cause. Order (Some plan) = es @ i # rest \<and> con_identities con \<in> {es, es @ [i]} \<and>
       Construct app (Some plan) options w = Some (Inl (cause # wk_errs s), wk_world s) \<and>
       rolled_back app (effective_timeout options) w (es @ [i]) con w1 s) \<or>
    (Construct app (Some plan) options w = None \<and> (\<exists>i \<in> set (Order (Some plan)). may_block app i))"
proof -
  note sound = BuildPlan_sound [OF assms]
  from Construct_result [OF sound, of app options w] show ?thesis
  proof (elim disjE)
    assume "\<exists>con' w'. Construct app (Some plan) options w = Some (Inr con', w') \<and>
      owned_ok plan (plan_order plan) con' \<and> trace_ok plan w (plan_order plan) con' w'"
    then show ?thesis by blast
  next
    assume "\<exists>es i rest' owned con' w' cause. plan_order plan = es @ i # rest' \<and> (owned = es \<or> owned = es @ [i]) \<and>
      owned_ok plan owned con' \<and> trace_ok plan w (es @ [i]) con' w' \<and>
      Construct app (Some plan) options w = joinConstructionFailure app cause con' (effective_timeout options) w'"
    then obtain es i rest owned con w1 cause where f: "plan_order plan = es @ i # rest" "owned = es \<or> owned = es @ [i]"
      "owned_ok plan owned con" "trace_ok plan w (es @ [i]) con w1"
      "Construct app (Some plan) options w = joinConstructionFailure app cause con (effective_timeout options) w1"
      by (elim exE conjE)
    have t: "0 < effective_timeout options" by (simp add: effective_timeout_def defaultShutdownTimeout_def)
    have "distinct owned" using f(1,2) sound by (auto simp: plan_sound_def)
    from rollback [OF this f(3,4) t, of app cause] obtain s where
      s: "joinConstructionFailure app cause con (effective_timeout options) w1 = Some (Inl (cause # wk_errs s), wk_world s)"
      "rolled_back app (effective_timeout options) w (es @ [i]) con w1 s" by metis
    moreover have "con_identities con \<in> {es, es @ [i]}" using f(2,3) by (auto simp: owned_ok_def)
    ultimately show ?thesis using f(1,5) unfolding Order_def option.case
      by (intro disjI2 disjI1 exI [of _ es] exI [of _ i] exI [of _ rest] exI [of _ con] exI [of _ w1] exI [of _ s] exI [of _ cause] conjI) simp_all
  next
    assume "Construct app (Some plan) options w = None \<and> (\<exists>i \<in> set (plan_order plan). may_block app i)"
    then show ?thesis by (simp add: Order_def)
  qed
qed


section \<open>A construction and a rollback\<close>

text \<open>
  \<open>api\<close> reads the value of \<open>gorm\<close> through its context; when \<open>broken\<close>, its factory fails and
  \<open>gorm\<close> is stopped.
\<close>

definition run_heap :: "bool \<Rightarrow> def_heap" where
  "run_heap broken =
     [(sample_definition ''api'')\<lparr>dd_Plan := Some (\<lambda>_. Returns (Inr
         \<lparr>ip_Inputs = [sample_token 1 QueryRef gorm_type ''gorm''],
          ip_Factory = Some (\<lambda>st c.
            if broken then Returns (Inl ''refused'')
            else case ReadBuildSlot st c (sample_token 1 QueryRef gorm_type ''gorm'') of
                Panics m \<Rightarrow> Panics m
              | Returns entries \<Rightarrow> Returns (Inr (AVal (RPointer (RDefined ''api'' [] [])) (CInt (int (length entries))))))\<rparr>))\<rparr>,
      (sample_definition ''gorm'')\<lparr>dd_Lifecycle := no_adapters\<lparr>lc_Stop := Some 0\<rparr>,
        dd_Plan := Some (\<lambda>_. Returns (Inr
         \<lparr>ip_Inputs = [], ip_Factory = Some (\<lambda>st c. Returns (Inr (AVal gorm_type (CInt 7))))\<rparr>))\<rparr>]"

definition run_options :: ConstructOptions where
  "run_options = \<lparr>co_ContextFactory = None, co_ShutdownTimeout = 0,
     co_Service = \<lparr>svc_Name = [], svc_Version = [], svc_Instance = []\<rparr>, co_OnStageBegin = True\<rparr>"

definition run_plan :: "bool \<Rightarrow> Plan option" where
  "run_plan broken =
     (case BuildPlan sample_ops (Logger 0 []) (run_heap broken) (demo_options [''one'']) of
        Some (Inr plan) \<Rightarrow> Some plan | _ \<Rightarrow> None)"

definition run_summary :: "bool \<Rightarrow> ((stage_error list, (identity \<times> anyval) list) result \<times> identity list \<times> identity list) option" where
  "run_summary broken =
     (case run_plan broken of None \<Rightarrow> None
      | Some plan \<Rightarrow> map_option (\<lambda>(r, w).
            (map_sum id (\<lambda>con. map (\<lambda>x. (in_identity x, in_value x)) (con_instances con)) r, map fst (factory_calls w), stop_calls w))
          (Construct walk_app (Some plan) run_options start_world))"

lemma run_summaries:
  "run_summary False = Some (Inr [(Identity ''gorm'' ''default'', AVal gorm_type (CInt 7)),
       (Identity ''api'' ''default'', AVal (RPointer (RDefined ''api'' [] [])) (CInt 1))],
     [Identity ''gorm'' ''default'', Identity ''api'' ''default''], [])"
  "run_summary True = Some (Inl [FactoryFailed (Identity ''api'' ''default'') ''refused''],
     [Identity ''gorm'' ''default'', Identity ''api'' ''default''], [Identity ''gorm'' ''default''])"
  by code_simp+

lemma run_plan_built: "run_plan broken = Some plan \<Longrightarrow>
    BuildPlan sample_ops (Logger 0 []) (run_heap broken) (demo_options [''one'']) = Some (Inr plan)"
  by (auto simp: run_plan_def split: option.splits sum.splits)



text \<open>A factory that never returns keeps the construction.\<close>

lemma Construct_blocked:
  "(case run_plan False of None \<Rightarrow> False
    | Some plan \<Rightarrow> Construct (walk_app\<lparr>ap_factory_time := (\<lambda>_ i. if Plugin i = ''api'' then None else Some 1)\<rparr>) (Some plan) run_options start_world = None)"
  by code_simp

end
