(* ===== verification/PlacementDecision.thy ===== *)
theory PlacementDecision
  imports Plan
begin

text \<open>
  The placement decision of \<^verbatim>\<open>runtime/placement.go\<close> and \<^verbatim>\<open>plugin/placement.go\<close>: which of the declared
  workloads this process carries, settled before the plan is built. A placement source is
  application code, given by its two operations on a state of its own; what it answers is checked
  before it shapes the plan.
\<close>

section \<open>Sources\<close>

text \<open>A nil \<^verbatim>\<open>Enabled\<close> is \<open>None\<close>.\<close>

record PlacementRequest =
  req_Workloads :: "Workload list"
  req_Instance :: string
  req_Enabled :: "(WorkloadKey \<Rightarrow> bool) option"

definition Admits :: "PlacementRequest \<Rightarrow> WorkloadKey \<Rightarrow> bool" where
  "Admits r key = (case req_Enabled r of None \<Rightarrow> True | Some enabled \<Rightarrow> enabled key)"

text \<open>
  \<open>ps_Release\<close> is \<open>None\<close> for a source that is not a \<^verbatim>\<open>PlacementReleaser\<close>; it is given the time it has.
\<close>

record 'st PlacementSource =
  ps_Resolve :: "PlacementRequest \<Rightarrow> 'st \<Rightarrow> (string, Placement) result \<times> 'st"
  ps_Release :: "(int \<Rightarrow> 'st \<Rightarrow> string option \<times> 'st) option"

definition placementSourceStatic :: string where
  "placementSourceStatic = ''static''"

definition static_Resolve :: "PlacementRequest \<Rightarrow> Placement" where
  "static_Resolve r =
     \<lparr>pl_Source = placementSourceStatic, pl_Holder = [],
      pl_Hosted = Some (map wl_Key (filter (\<lambda>w. Admits r (wl_Key w)) (req_Workloads r))), pl_Notes = []\<rparr>"

definition StaticPlacement :: "'st PlacementSource" where
  "StaticPlacement = \<lparr>ps_Resolve = (\<lambda>r st. (Inr (static_Resolve r), st)), ps_Release = None\<rparr>"

datatype placement_error =
    NilSource
  | SectionsFailed sections_error
  | SourceFailed string
  | EmptySource
  | UndeclaredHosted string WorkloadKey
  | DisabledHosted string WorkloadKey
  | HostedTwice string WorkloadKey
  | ExclusiveShares WorkloadKey "WorkloadKey list"

record 'st placement_options =
  opt_placement :: "'st PlacementSource option"
  opt_hasPlacement :: bool

definition WithPlacement ::
  "'st PlacementSource option \<Rightarrow> 'st placement_options \<Rightarrow> (placement_error, 'st placement_options) result" where
  "WithPlacement source options =
     (case source of
        None \<Rightarrow> Inl NilSource
      | Some _ \<Rightarrow> Inr (options\<lparr>opt_placement := source, opt_hasPlacement := True\<rparr>))"

definition app_placement :: "'st PlacementSource option \<Rightarrow> 'st PlacementSource" where
  "app_placement source = (case source of None \<Rightarrow> StaticPlacement | Some s \<Rightarrow> s)"

section \<open>Checking a decision\<close>

fun check_hosted ::
  "string \<Rightarrow> (WorkloadKey, bool) gomap \<Rightarrow> WorkloadKey list \<Rightarrow> (WorkloadKey, bool) gomap \<Rightarrow> placement_error option" where
  "check_hosted source enabled [] seen = None"
| "check_hosted source enabled (key # keys) seen =
     (case gm_get enabled key of
        None \<Rightarrow> Some (UndeclaredHosted source key)
      | Some admitted \<Rightarrow>
          if \<not> admitted then Some (DisabledHosted source key)
          else if gm_bool seen key then Some (HostedTwice source key)
          else check_hosted source enabled keys (gm_put key True seen))"

definition validatePlacement :: "Placement \<Rightarrow> (WorkloadKey, bool) gomap \<Rightarrow> placement_error option" where
  "validatePlacement placement enabled =
     (if trim_space (pl_Source placement) = [] then Some EmptySource
      else check_hosted (pl_Source placement) enabled (hosted_keys (pl_Hosted placement)) [])"

fun first_exclusive :: "(WorkloadKey, bool) gomap \<Rightarrow> WorkloadKey list \<Rightarrow> WorkloadKey list \<Rightarrow> placement_error option" where
  "first_exclusive exclusive [] keys = None"
| "first_exclusive exclusive (key # rest) keys =
     (if \<not> gm_bool exclusive key then first_exclusive exclusive rest keys
      else Some (ExclusiveShares key (filter (\<lambda>other. other \<noteq> key) keys)))"

definition validateExclusiveHosting :: "WorkloadKey list \<Rightarrow> Workload list \<Rightarrow> placement_error option" where
  "validateExclusiveHosting hosted declared =
     (if length hosted < 2 then None
      else
        let exclusive = fold (\<lambda>w. gm_put (wl_Key w) (wl_Exclusive w)) declared [];
            keys = sort hosted
        in first_exclusive exclusive keys keys)"

section \<open>Resolving and releasing\<close>

text \<open>The switches of the declared workloads: a key that is absent was never declared.\<close>

abbreviation section_switches :: "WorkloadSection list \<Rightarrow> (WorkloadKey, bool) gomap" where
  "section_switches sections \<equiv> fold (\<lambda>sec. gm_put (wl_Key (wsec_Workload sec)) (wsec_Enabled sec)) sections []"

text \<open>The copy of an empty slice by \<^verbatim>\<open>append\<close> is the nil slice.\<close>

definition resolvePlacement ::
  "config_ops \<Rightarrow> def_heap \<Rightarrow> Bundle list \<Rightarrow> environment option \<Rightarrow> string \<Rightarrow> 'st PlacementSource option \<Rightarrow> 'st
     \<Rightarrow> (placement_error, Placement) result \<times> 'st" where
  "resolvePlacement ops h bundles env inst source st =
     (case ReadWorkloadSections ops h bundles env of
        Inl e \<Rightarrow> (Inl (SectionsFailed e), st)
      | Inr (sections, _) \<Rightarrow>
          let workloads = map wsec_Workload sections;
              enabled = section_switches sections
          in (case ps_Resolve (app_placement source)
                \<lparr>req_Workloads = workloads, req_Instance = inst, req_Enabled = Some (gm_bool enabled)\<rparr> st of
                (Inl e, st) \<Rightarrow> (Inl (SourceFailed e), st)
              | (Inr placement, st) \<Rightarrow>
                  (case validatePlacement placement enabled of
                     Some e \<Rightarrow> (Inl e, st)
                   | None \<Rightarrow>
                       (case validateExclusiveHosting (hosted_keys (pl_Hosted placement)) workloads of
                          Some e \<Rightarrow> (Inl e, st)
                        | None \<Rightarrow>
                            let keys = sort (hosted_keys (pl_Hosted placement))
                            in (Inr (placement\<lparr>pl_Hosted := (if keys = [] then None else Some keys)\<rparr>), st)))))"

definition placementReleaseBudget :: int where
  "placementReleaseBudget = 5 * 1000000000"

text \<open>The last component says whether the failure was logged.\<close>

definition releasePlacement :: "'st PlacementSource option \<Rightarrow> 'st \<Rightarrow> string option \<times> 'st \<times> bool" where
  "releasePlacement source st =
     (case ps_Release (app_placement source) of
        None \<Rightarrow> (None, st, False)
      | Some release \<Rightarrow>
          (case release placementReleaseBudget st of
             (Some e, st) \<Rightarrow> (Some e, st, True)
           | (None, st) \<Rightarrow> (None, st, False)))"

definition workloadLabels :: "WorkloadKey list \<Rightarrow> string list" where
  "workloadLabels hosted = (if hosted = [] then [''(none)''] else hosted)"

section \<open>What the checks establish\<close>

lemma check_hosted_None:
  "check_hosted source enabled keys seen = None \<longleftrightarrow>
     (\<forall>k \<in> set keys. gm_get enabled k = Some True \<and> \<not> gm_bool seen k) \<and> distinct keys"
proof (induction keys arbitrary: seen)
  case (Cons k keys)
  then show ?case by (auto simp: gm_bool_def split: option.splits)
qed simp

text \<open>The three refusals of a key are told apart by what the composition and the configuration say.\<close>

lemma check_hosted_Some:
  "check_hosted source enabled keys seen = Some e \<Longrightarrow>
     \<exists>k \<in> set keys. (gm_get enabled k = None \<and> e = UndeclaredHosted source k) \<or>
       (gm_get enabled k = Some False \<and> e = DisabledHosted source k) \<or>
       (gm_get enabled k = Some True \<and> e = HostedTwice source k)"
  by (induction keys arbitrary: seen) (auto split: option.splits if_splits)

lemma first_exclusive_None: "first_exclusive ex rest keys = None \<longleftrightarrow> (\<forall>k \<in> set rest. \<not> gm_bool ex k)"
  by (induction rest) auto

lemma fold_put_iff:
  "distinct (map f xs) \<Longrightarrow>
     gm_get (fold (\<lambda>x. gm_put (f x) (g x)) xs m) k = Some v \<longleftrightarrow>
       (\<exists>x \<in> set xs. f x = k \<and> g x = v) \<or> (k \<notin> f ` set xs \<and> gm_get m k = Some v)"
proof (induction xs arbitrary: m)
  case (Cons x xs)
  then show ?case by (cases "f x = k") auto
qed simp

text \<open>Every step a successful resolution took.\<close>

lemma resolvePlacement_steps:
  assumes "resolvePlacement ops h bundles env inst source st = (Inr placement, st')"
  obtains sections env' answer where "ReadWorkloadSections ops h bundles env = Inr (sections, env')"
    and "ps_Resolve (app_placement source)
       \<lparr>req_Workloads = map wsec_Workload sections, req_Instance = inst,
        req_Enabled = Some (gm_bool (section_switches sections))\<rparr> st
       = (Inr answer, st')"
    and "validatePlacement answer (section_switches sections) = None"
    and "validateExclusiveHosting (hosted_keys (pl_Hosted answer)) (map wsec_Workload sections) = None"
    and "pl_Source placement = pl_Source answer"
    and "hosted_keys (pl_Hosted placement) = sort (hosted_keys (pl_Hosted answer))"
  using assms
  by (auto simp: resolvePlacement_def Let_def hosted_keys_def split: sum.splits option.splits prod.splits if_splits)

text \<open>The configuration switch of a declared workload.\<close>

lemma section_enabled:
  assumes "ReadWorkloadSections ops h bundles env = Inr (sections, env')"
  shows "gm_get (section_switches sections) k = Some b \<longleftrightarrow>
    (\<exists>sec \<in> set sections. wl_Key (wsec_Workload sec) = k \<and> wsec_Enabled sec = b)"
proof -
  have "distinct (map (\<lambda>sec. wl_Key (wsec_Workload sec)) sections)"
    using declaredWorkloads_facts [OF conjunct1 [OF ReadWorkloadSections_facts [OF assms]]] by (simp add: comp_def)
  then show ?thesis by (subst fold_put_iff) auto
qed

lemma exclusive_alone:
  assumes "validateExclusiveHosting hosted (map wsec_Workload sections) = None" and "2 \<le> length hosted"
    and "distinct (map (\<lambda>sec. wl_Key (wsec_Workload sec)) sections)"
    and "sec \<in> set sections" and "wl_Key (wsec_Workload sec) \<in> set hosted"
  shows "\<not> wl_Exclusive (wsec_Workload sec)"
proof -
  let ?ex = "fold (\<lambda>w. gm_put (wl_Key w) (wl_Exclusive w)) (map wsec_Workload sections) []"
  have d: "distinct (map wl_Key (map wsec_Workload sections))" using assms(3) by (simp add: comp_def)
  have "\<not> gm_bool ?ex (wl_Key (wsec_Workload sec))"
    using assms(1,2,5) by (simp add: validateExclusiveHosting_def Let_def first_exclusive_None)
  moreover have "gm_get ?ex (wl_Key (wsec_Workload sec)) = Some (wl_Exclusive (wsec_Workload sec))"
    unfolding fold_put_iff [OF d] using assms(4) by auto
  ultimately show ?thesis by (simp add: gm_bool_def)
qed

lemma static_hosted:
  assumes "ReadWorkloadSections ops h bundles env = Inr (sections, env')"
  shows "set (hosted_keys (pl_Hosted (static_Resolve \<lparr>req_Workloads = map wsec_Workload sections, req_Instance = inst,
        req_Enabled = Some (gm_bool (section_switches sections))\<rparr>)))
    = {wl_Key (wsec_Workload sec) | sec. sec \<in> set sections \<and> wsec_Enabled sec}"
proof -
  have iff: "gm_bool (section_switches sections) k \<longleftrightarrow>
      (\<exists>sec \<in> set sections. wl_Key (wsec_Workload sec) = k \<and> wsec_Enabled sec)" for k
    using section_enabled [OF assms, of k True] by (auto simp: gm_bool_def split: option.splits)
  show ?thesis
  proof (intro set_eqI iffI)
    fix k assume "k \<in> {wl_Key (wsec_Workload sec) | sec. sec \<in> set sections \<and> wsec_Enabled sec}"
    then obtain sec where "sec \<in> set sections" "wsec_Enabled sec" "k = wl_Key (wsec_Workload sec)" by blast
    then show "k \<in> set (hosted_keys (pl_Hosted (static_Resolve \<lparr>req_Workloads = map wsec_Workload sections, req_Instance = inst,
        req_Enabled = Some (gm_bool (section_switches sections))\<rparr>)))"
      by (auto simp: static_Resolve_def hosted_keys_def Admits_def iff)
  next
    fix k assume "k \<in> set (hosted_keys (pl_Hosted (static_Resolve \<lparr>req_Workloads = map wsec_Workload sections, req_Instance = inst,
        req_Enabled = Some (gm_bool (section_switches sections))\<rparr>)))"
    then have "gm_bool (section_switches sections) k"
      by (auto simp: static_Resolve_def hosted_keys_def Admits_def)
    then obtain sec where "sec \<in> set sections" "wl_Key (wsec_Workload sec) = k" "wsec_Enabled sec" unfolding iff by blast
    then show "k \<in> {wl_Key (wsec_Workload sec) | sec. sec \<in> set sections \<and> wsec_Enabled sec}" by blast
  qed
qed

text \<open>
  C39. Whatever a placement source answers, the decision that shapes the plan is sound: it names its
  source, lists declared workloads that the configuration enables, each once and in key order, and
  an exclusive workload only by itself; without a source it lists exactly the enabled workloads.
  A plan built from it has an instance of a workload only if the workload is on the list: a
  decision to carry nothing is never widened to carrying everything.
\<close>

theorem resolvePlacement_shapes_plan:
  assumes resolved: "resolvePlacement ops h bundles env inst source st = (Inr placement, st')"
    and options: "po_Bundles options = bundles" "po_Placement options = placement"
    and plan: "BuildPlan ops dl h options = Some (Inr plan)"
  shows "\<exists>sections env'. ReadWorkloadSections ops h bundles env = Inr (sections, env') \<and>
    (let hosted = hosted_keys (pl_Hosted placement) in
     trim_space (pl_Source placement) \<noteq> [] \<and> sorted hosted \<and> distinct hosted \<and>
     (\<forall>k \<in> set hosted. \<exists>sec \<in> set sections. wl_Key (wsec_Workload sec) = k \<and> wsec_Enabled sec) \<and>
     (\<forall>sec \<in> set sections. wl_Exclusive (wsec_Workload sec) \<and> wl_Key (wsec_Workload sec) \<in> set hosted \<longrightarrow>
        hosted = [wl_Key (wsec_Workload sec)]) \<and>
     (source = None \<longrightarrow> set hosted = {wl_Key (wsec_Workload sec) | sec. sec \<in> set sections \<and> wsec_Enabled sec}) \<and>
     (\<forall>i pi. gm_get (plan_instances plan) i = Some pi \<longrightarrow> pi_workload pi = [] \<or> pi_workload pi \<in> set hosted))"
proof -
  obtain sections env' answer where read: "ReadWorkloadSections ops h bundles env = Inr (sections, env')"
    and ask: "ps_Resolve (app_placement source)
       \<lparr>req_Workloads = map wsec_Workload sections, req_Instance = inst,
        req_Enabled = Some (gm_bool (section_switches sections))\<rparr> st
       = (Inr answer, st')"
    and valid: "validatePlacement answer (section_switches sections) = None"
    and alone: "validateExclusiveHosting (hosted_keys (pl_Hosted answer)) (map wsec_Workload sections) = None"
    and source: "pl_Source placement = pl_Source answer"
    and sorted: "hosted_keys (pl_Hosted placement) = sort (hosted_keys (pl_Hosted answer))"
    using resolved by (rule resolvePlacement_steps)
  let ?hosted = "hosted_keys (pl_Hosted placement)"
  have name: "trim_space (pl_Source placement) \<noteq> []"
    and keys: "\<forall>k \<in> set ?hosted. gm_get (section_switches sections) k = Some True"
      "distinct ?hosted"
    using valid by (auto simp: validatePlacement_def source sorted check_hosted_None split: if_splits)
  have declared: "distinct (map (\<lambda>sec. wl_Key (wsec_Workload sec)) sections)"
    using declaredWorkloads_facts [OF conjunct1 [OF ReadWorkloadSections_facts [OF read]]] by (simp add: comp_def)
  have single: "?hosted = [wl_Key (wsec_Workload sec)]"
    if "sec \<in> set sections" "wl_Exclusive (wsec_Workload sec)" "wl_Key (wsec_Workload sec) \<in> set ?hosted" for sec
  proof -
    have "\<not> 2 \<le> length ?hosted" using exclusive_alone [OF alone _ declared that(1)] that by (auto simp: sorted)
    with that(3) show ?thesis by (cases ?hosted) (auto simp: Suc_le_eq)
  qed
  have static: "set ?hosted = {wl_Key (wsec_Workload sec) | sec. sec \<in> set sections \<and> wsec_Enabled sec}" if "source = None"
    using ask that static_hosted [OF read, of inst] by (simp add: app_placement_def StaticPlacement_def sorted)
  have carried: "pi_workload pi = [] \<or> pi_workload pi \<in> set ?hosted" if "gm_get (plan_instances plan) i = Some pi" for i pi
  proof -
    obtain defs workloads hosted unhosted insts where
      built: "built_plan ops dl h options plan defs workloads hosted unhosted insts"
      using BuildPlan_built [OF plan] by metis
    have "pl_Source placement \<noteq> []" using name by auto
    then have "gm_bool hosted k \<longleftrightarrow> k \<in> set ?hosted" for k
      unfolding built_planD(3) [OF built] hostedWorkloads_iff options by simp
    with built_plan_carried [OF built that] show ?thesis by simp
  qed
  have enabled: "\<forall>k \<in> set ?hosted. \<exists>sec \<in> set sections. wl_Key (wsec_Workload sec) = k \<and> wsec_Enabled sec"
    using keys(1) section_enabled [OF read, of _ True] by simp
  have "sorted ?hosted" by (simp add: sorted)
  with read name keys(2) enabled single static carried show ?thesis
    unfolding Let_def by (intro exI [of _ sections] exI [of _ env'] conjI) (simp, simp, simp, simp, simp, blast, simp, blast)
qed

theorem resolvePlacement_shapes_plan_witness:
  "\<exists>plan. BuildPlan sample_ops (Logger 0 []) demo_heap (demo_options [''one'']) = Some (Inr plan) \<and>
     resolvePlacement sample_ops demo_heap (po_Bundles (demo_options [''one''])) None ''p1'' (None :: unit PlacementSource option) ()
       = (Inr (po_Placement (demo_options [''one''])), ()) \<and>
     sorted (hosted_keys (pl_Hosted (po_Placement (demo_options [''one'']))))"
proof -
  obtain plan where plan: "BuildPlan sample_ops (Logger 0 []) demo_heap (demo_options [''one'']) = Some (Inr plan)"
    using demo_plan(1) by blast
  let ?r = "resolvePlacement sample_ops demo_heap (po_Bundles (demo_options [''one''])) None ''p1'' (None :: unit PlacementSource option) ()"
  have "map_sum (\<lambda>_. ()) id (fst ?r) = Inr (po_Placement (demo_options [''one'']))" by code_simp
  then have r: "?r = (Inr (po_Placement (demo_options [''one''])), ())" by (cases ?r) (auto simp: map_sum_eq_Inr)
  from resolvePlacement_shapes_plan [OF r refl refl plan] plan r show ?thesis unfolding Let_def by blast
qed

end
