(* ===== verification/Tasks.thy ===== *)
theory Tasks
  imports Plan Sections
begin

text \<open>
  Managed tasks and the work budget of a workload: \<^verbatim>\<open>runtime/task.go\<close>.
  \<^item> \<open>workloadBudget\<close> bounds how much work of a workload is in flight; \<open>taskRuntime\<close> admits managed tasks
    while the owning plugin's Start hook executes and keeps one group per plugin.
  \<^item> Every section under a mutex is one step. \<open>task_step\<close> interleaves the goroutines of a process: hooks that
    submit, tasks that return or panic, and workers that acquire a unit, wait for one, give up or give
    one back.
  \<^item> A channel is a number; the one the budget creates is open until a release closes it.
\<close>

section \<open>The budget\<close>

record workloadBudget =
  bg_bounded :: bool
  bg_limits :: "(WorkloadKey, int) gomap"
  bg_running :: "(WorkloadKey, int) gomap"
  bg_rejected :: "(WorkloadKey, int) gomap"
  bg_freed :: "nat option"
  bg_waiting :: int
  bg_channels :: nat
  bg_closed :: "nat list"

record budgetRefusal =
  rf_workload :: WorkloadKey
  rf_limit :: int
  rf_running :: int
  rf_rejected :: int

definition charge :: "WorkloadKey \<Rightarrow> workloadBudget \<Rightarrow> (WorkloadKey \<times> budgetRefusal option) \<times> workloadBudget" where
  "charge workload b =
     (if \<not> bg_bounded b \<or> workload = [] then (([], None), b)
      else
        (case gm_get (bg_limits b) workload of
           None \<Rightarrow> (([], None), b)
         | Some limit \<Rightarrow>
             let running = gm_int (bg_running b) workload in
             if running \<ge> limit then
               let b = b\<lparr>bg_rejected := gm_put workload ((gm_int (bg_rejected b) workload + 1) mod 2 ^ 64) (bg_rejected b)\<rparr>
               in (([], Some \<lparr>rf_workload = workload, rf_limit = limit, rf_running = running,
                      rf_rejected = gm_int (bg_rejected b) workload\<rparr>), b)
             else ((workload, None), b\<lparr>bg_running := gm_put workload (running + 1) (bg_running b)\<rparr>)))"

text \<open>
  An acquisition passes through the mutex several times: it enters, and each time its workload is at the
  limit it parks on the channel; it resumes when the channel is closed, or its context ends.
\<close>

datatype acquisition = Granted WorkloadKey | Parks nat

definition acquire_check :: "WorkloadKey \<Rightarrow> int \<Rightarrow> workloadBudget \<Rightarrow> acquisition \<times> workloadBudget" where
  "acquire_check workload limit b =
     (if gm_int (bg_running b) workload \<ge> limit then
        (case bg_freed b of
           None \<Rightarrow>
             (Parks (bg_channels b),
              b\<lparr>bg_freed := Some (bg_channels b), bg_channels := bg_channels b + 1, bg_waiting := bg_waiting b + 1\<rparr>)
         | Some freed \<Rightarrow> (Parks freed, b\<lparr>bg_waiting := bg_waiting b + 1\<rparr>))
      else (Granted workload, b\<lparr>bg_running := gm_put workload (gm_int (bg_running b) workload + 1) (bg_running b)\<rparr>))"

definition acquire_enter :: "WorkloadKey \<Rightarrow> workloadBudget \<Rightarrow> acquisition \<times> workloadBudget" where
  "acquire_enter workload b =
     (if \<not> bg_bounded b \<or> workload = [] then (Granted [], b)
      else
        (case gm_get (bg_limits b) workload of
           None \<Rightarrow> (Granted [], b)
         | Some limit \<Rightarrow> acquire_check workload limit b))"

definition acquire_resume :: "WorkloadKey \<Rightarrow> int \<Rightarrow> workloadBudget \<Rightarrow> acquisition \<times> workloadBudget" where
  "acquire_resume workload limit b = acquire_check workload limit (b\<lparr>bg_waiting := bg_waiting b - 1\<rparr>)"

definition acquire_cancel :: "workloadBudget \<Rightarrow> workloadBudget" where
  "acquire_cancel b = b\<lparr>bg_waiting := bg_waiting b - 1\<rparr>"

definition budget_release :: "WorkloadKey \<Rightarrow> workloadBudget \<Rightarrow> workloadBudget" where
  "budget_release workload b =
     (if workload = [] then b
      else
        let running = gm_int (bg_running b) workload;
            b = b\<lparr>bg_running := (if running > 1 then gm_put workload (running - 1) (bg_running b) else gm_del workload (bg_running b))\<rparr>
        in (case bg_freed b of
              Some freed \<Rightarrow> if bg_waiting b > 0 then b\<lparr>bg_closed := freed # bg_closed b, bg_freed := None\<rparr> else b
            | None \<Rightarrow> b))"

section \<open>The task runtime\<close>

datatype task_failure = TaskPanic identity string | CriticalReturned identity | DidNotExit identity

record pluginTasks =
  pt_cancelled :: bool
  pt_wg :: int
  pt_errs :: "task_failure list"

text \<open>
  Groups are pointers into a heap. \<open>tr_critical\<close> collects what \<^verbatim>\<open>onCritical\<close> was called with.
\<close>

record taskRuntime =
  tr_admitting :: "(identity, bool) gomap"
  tr_groups :: "(identity, nat) gomap"
  tr_heap :: "pluginTasks list"
  tr_criticalTasks :: int
  tr_closed :: bool
  tr_shuttingDown :: bool
  tr_critical :: "task_failure list"
  tr_budget :: workloadBudget
  tr_attribute :: "(identity \<Rightarrow> WorkloadKey \<times> bool) option"
  tr_hosted :: "(WorkloadKey \<Rightarrow> bool) option"

definition zero_budget :: workloadBudget where
  "zero_budget = \<lparr>bg_bounded = False, bg_limits = [], bg_running = [], bg_rejected = [], bg_freed = None, bg_waiting = 0,
     bg_channels = 0, bg_closed = []\<rparr>"

definition newTaskRuntime :: taskRuntime where
  "newTaskRuntime = \<lparr>tr_admitting = [], tr_groups = [], tr_heap = [], tr_criticalTasks = 0, tr_closed = False,
     tr_shuttingDown = False, tr_critical = [], tr_budget = zero_budget, tr_attribute = None, tr_hosted = None\<rparr>"

definition configureWorkloadBudget ::
  "(WorkloadKey, int) gomap \<Rightarrow> (identity \<Rightarrow> WorkloadKey \<times> bool) option \<Rightarrow> (WorkloadKey \<Rightarrow> bool) option \<Rightarrow> taskRuntime \<Rightarrow> taskRuntime" where
  "configureWorkloadBudget limits attribute hosted r =
     r\<lparr>tr_attribute := attribute, tr_hosted := hosted,
       tr_budget := (tr_budget r)\<lparr>bg_limits := limits, bg_bounded := 0 < length limits, bg_running := [], bg_rejected := []\<rparr>\<rparr>"

definition openStart :: "identity \<Rightarrow> taskRuntime \<Rightarrow> bool \<times> taskRuntime" where
  "openStart i r =
     (let i = Normalized i in
      if tr_closed r \<or> tr_shuttingDown r then (False, r)
      else (True, r\<lparr>tr_admitting := gm_put i True (tr_admitting r)\<rparr>))"

definition closeStart :: "identity \<Rightarrow> taskRuntime \<Rightarrow> taskRuntime" where
  "closeStart i r = r\<lparr>tr_admitting := gm_del (Normalized i) (tr_admitting r)\<rparr>"

definition task_workloadOf :: "identity \<Rightarrow> taskRuntime \<Rightarrow> WorkloadKey" where
  "task_workloadOf i r =
     (case tr_attribute r of
        None \<Rightarrow> []
      | Some attribute \<Rightarrow> (case attribute i of (workload, attributed) \<Rightarrow> if \<not> attributed then [] else workload))"

text \<open>A task that runs, with the arguments of \<^verbatim>\<open>runTask\<close>.\<close>

record running_task =
  rt_identity :: identity
  rt_group :: nat
  rt_critical :: bool
  rt_charged :: WorkloadKey
  rt_workload :: WorkloadKey

text \<open>\<open>fn\<close> says whether the function is given; an accepted submission starts the goroutine it returns.\<close>

definition submit :: "identity \<Rightarrow> bool \<Rightarrow> bool \<Rightarrow> taskRuntime \<Rightarrow> running_task option \<times> taskRuntime" where
  "submit i fn critical r =
     (let i = Normalized i in
      if \<not> fn then (None, r)
      else if tr_closed r \<or> \<not> gm_bool (tr_admitting r) i then (None, r)
      else
        let workload = task_workloadOf i r in
        (case charge workload (tr_budget r) of
           ((_, Some refusal), b) \<Rightarrow> (None, r\<lparr>tr_budget := b\<rparr>)
         | ((charged, None), b) \<Rightarrow>
             let r = r\<lparr>tr_budget := b\<rparr>;
                 (group, r) =
                   (case gm_get (tr_groups r) i of
                      Some g \<Rightarrow> (g, r)
                    | None \<Rightarrow>
                        (length (tr_heap r),
                         r\<lparr>tr_heap := tr_heap r @ [\<lparr>pt_cancelled = False, pt_wg = 0, pt_errs = []\<rparr>],
                           tr_groups := gm_put i (length (tr_heap r)) (tr_groups r)\<rparr>));
                 r = r\<lparr>tr_heap := (tr_heap r)[group := (tr_heap r ! group)\<lparr>pt_wg := pt_wg (tr_heap r ! group) + 1\<rparr>]\<rparr>;
                 r = (if critical then r\<lparr>tr_criticalTasks := tr_criticalTasks r + 1\<rparr> else r)
             in (Some \<lparr>rt_identity = i, rt_group = group, rt_critical = critical, rt_charged = charged, rt_workload = workload\<rparr>, r)))"

definition group_record :: "nat \<Rightarrow> task_failure \<Rightarrow> taskRuntime \<Rightarrow> taskRuntime" where
  "group_record g e r = r\<lparr>tr_heap := (tr_heap r)[g := (tr_heap r ! g)\<lparr>pt_errs := pt_errs (tr_heap r ! g) @ [e]\<rparr>]\<rparr>"

definition onCritical :: "task_failure \<Rightarrow> taskRuntime \<Rightarrow> taskRuntime" where
  "onCritical e r = r\<lparr>tr_critical := tr_critical r @ [e]\<rparr>"

text \<open>
  The end of a task: its unit goes back to the budget first (\<open>task_return\<close>), then its outcome is judged
  and the group's counter drops (\<open>task_judge\<close>). \<open>None\<close> is a return, \<open>Some\<close> a panic.
\<close>

definition task_return :: "running_task \<Rightarrow> taskRuntime \<Rightarrow> taskRuntime" where
  "task_return t r = r\<lparr>tr_budget := budget_release (rt_charged t) (tr_budget r)\<rparr>"

definition task_judge :: "running_task \<Rightarrow> string option \<Rightarrow> taskRuntime \<Rightarrow> taskRuntime" where
  "task_judge t outcome r =
     (let g = rt_group t;
          r = (case outcome of
                 Some text \<Rightarrow>
                   let failure = TaskPanic (rt_identity t) text;
                       r = group_record g failure r
                   in if rt_critical t \<and> \<not> tr_shuttingDown r then onCritical failure r else r
               | None \<Rightarrow>
                   if rt_critical t \<and> \<not> tr_shuttingDown r \<and> \<not> pt_cancelled (tr_heap r ! g) then
                     let failure = CriticalReturned (rt_identity t)
                     in onCritical failure (group_record g failure r)
                   else r)
      in r\<lparr>tr_heap := (tr_heap r)[g := (tr_heap r ! g)\<lparr>pt_wg := pt_wg (tr_heap r ! g) - 1\<rparr>]\<rparr>)"

text \<open>
  \<^verbatim>\<open>closeAdmission\<close> announces the shutdown before it takes the mutex, so that another goroutine may run in
  between: \<open>announceShutdown\<close> is a step of its own.
\<close>

definition announceShutdown :: "taskRuntime \<Rightarrow> taskRuntime" where
  "announceShutdown r = r\<lparr>tr_shuttingDown := True\<rparr>"

definition closeAdmission :: "taskRuntime \<Rightarrow> taskRuntime" where
  "closeAdmission r = (announceShutdown r)\<lparr>tr_closed := True, tr_admitting := []\<rparr>"

text \<open>
  Waiting for a group: what the other goroutines do meanwhile is the argument \<open>during\<close>; the wait ends when
  the group is empty or at the deadline, whichever state it then is.
\<close>

definition waitTasks :: "pluginTasks \<Rightarrow> identity \<Rightarrow> task_failure list" where
  "waitTasks g owner = (if pt_wg g = 0 then pt_errs g else pt_errs g @ [DidNotExit owner])"

definition group_cancel :: "nat \<Rightarrow> taskRuntime \<Rightarrow> taskRuntime" where
  "group_cancel g r = r\<lparr>tr_heap := (tr_heap r)[g := (tr_heap r ! g)\<lparr>pt_cancelled := True\<rparr>]\<rparr>"

definition stopPlugin :: "identity \<Rightarrow> (taskRuntime \<Rightarrow> taskRuntime) \<Rightarrow> taskRuntime \<Rightarrow> task_failure list \<times> taskRuntime" where
  "stopPlugin i during r =
     (let i = Normalized i;
          group = gm_get (tr_groups r) i;
          r = r\<lparr>tr_groups := gm_del i (tr_groups r)\<rparr>
      in case group of
           None \<Rightarrow> ([], r)
         | Some g \<Rightarrow> let r = during (group_cancel g r) in (waitTasks (tr_heap r ! g) i, r))"

fun drain_groups :: "(identity, nat) gomap \<Rightarrow> (taskRuntime \<Rightarrow> taskRuntime) \<Rightarrow> taskRuntime \<Rightarrow> task_failure list \<times> taskRuntime" where
  "drain_groups [] during r = ([], r)"
| "drain_groups ((i, g) # groups) during r =
     (let r = during (group_cancel g r);
          errs = waitTasks (tr_heap r ! g) i
      in case drain_groups groups during r of (rest, r) \<Rightarrow> (errs @ rest, r))"

definition drainRemaining :: "(taskRuntime \<Rightarrow> taskRuntime) \<Rightarrow> taskRuntime \<Rightarrow> task_failure list \<times> taskRuntime" where
  "drainRemaining during r = drain_groups (tr_groups r) during (r\<lparr>tr_groups := []\<rparr>)"

section \<open>Admission\<close>

text \<open>\<open>None\<close> is the nil limiter, which bounds nothing.\<close>

definition admissionFor :: "identity \<Rightarrow> WorkloadKey \<Rightarrow> taskRuntime option \<Rightarrow> WorkloadKey option" where
  "admissionFor i workload runtime =
     (case runtime of
        None \<Rightarrow> None
      | Some r \<Rightarrow>
          if \<not> bg_bounded (tr_budget r) then None
          else
            let workload = (if workload = [] then task_workloadOf i r else workload) in
            if workload = [] then None
            else if (case tr_hosted r of None \<Rightarrow> False | Some hosted \<Rightarrow> \<not> hosted workload) then None
            else
              (case gm_get (bg_limits (tr_budget r)) workload of
                 None \<Rightarrow> None
               | Some limit \<Rightarrow> if limit \<le> 0 then None else Some workload))"

record workloadBudgetReport =
  rep_Workload :: WorkloadKey
  rep_Limit :: int
  rep_Running :: int
  rep_Rejected :: int

definition workloadBudgets :: "taskRuntime option \<Rightarrow> workloadBudgetReport list" where
  "workloadBudgets runtime =
     (case runtime of
        None \<Rightarrow> []
      | Some r \<Rightarrow>
          if \<not> bg_bounded (tr_budget r) then []
          else sort_key rep_Workload
            (map (\<lambda>(workload, limit). \<lparr>rep_Workload = workload, rep_Limit = limit,
                rep_Running = gm_int (bg_running (tr_budget r)) workload,
                rep_Rejected = gm_int (bg_rejected (tr_budget r)) workload\<rparr>) (bg_limits (tr_budget r))))"

definition workloadTaskLimits ::
  "config_ops \<Rightarrow> def_heap \<Rightarrow> Bundle list \<Rightarrow> environment option \<Rightarrow> (sections_error, (WorkloadKey, int) gomap) result" where
  "workloadTaskLimits ops h bundles env =
     (case ReadWorkloadSections ops h bundles env of
        Inl e \<Rightarrow> Inl e
      | Inr (sections, _) \<Rightarrow>
          Inr (fold (\<lambda>sec limits. if wc_MaxGoroutines (wsec_Config sec) > 0
                 then gm_put (wl_Key (wsec_Workload sec)) (wc_MaxGoroutines (wsec_Config sec)) limits else limits) sections []))"

text \<open>What the plan answers: the workload a plugin belongs to, and whether a workload is carried.\<close>

definition app_workloadOf :: "Plan option \<Rightarrow> identity \<Rightarrow> WorkloadKey \<times> bool" where
  "app_workloadOf plan i = Plan_WorkloadOf plan i"

definition hostsWorkload :: "Plan option \<Rightarrow> WorkloadKey \<Rightarrow> bool" where
  "hostsWorkload plan key =
     (if key = [] then False
      else (case find (\<lambda>w. wl_Key (pw_Workload w) = key) (Workloads plan) of None \<Rightarrow> False | Some w \<Rightarrow> pw_Hosted w))"

section \<open>The goroutines of a process\<close>

text \<open>An admitted unit of work waits on a channel, with the limit it read, or holds what it charged.\<close>

datatype unit_state = Waits WorkloadKey int nat | Holds WorkloadKey

record task_sys =
  ts_runtime :: taskRuntime
  ts_running :: "running_task list"
  ts_ending :: "running_task list"
  ts_units :: "unit_state list"

abbreviation ts_budget :: "task_sys \<Rightarrow> workloadBudget" where
  "ts_budget s \<equiv> tr_budget (ts_runtime s)"

definition put_budget :: "workloadBudget \<Rightarrow> task_sys \<Rightarrow> task_sys" where
  "put_budget b s = s\<lparr>ts_runtime := (ts_runtime s)\<lparr>tr_budget := b\<rparr>\<rparr>"

definition acquired :: "WorkloadKey \<Rightarrow> int \<Rightarrow> acquisition \<Rightarrow> unit_state" where
  "acquired workload limit a = (case a of Granted charged \<Rightarrow> Holds charged | Parks freed \<Rightarrow> Waits workload limit freed)"

inductive task_step :: "task_sys \<Rightarrow> task_sys \<Rightarrow> bool" where
  opens: "openStart i (ts_runtime s) = (ok, r) \<Longrightarrow> task_step s (s\<lparr>ts_runtime := r\<rparr>)"
| closes: "task_step s (s\<lparr>ts_runtime := closeStart i (ts_runtime s)\<rparr>)"
| refuses: "submit i fn critical (ts_runtime s) = (None, r) \<Longrightarrow> task_step s (s\<lparr>ts_runtime := r\<rparr>)"
| submits: "submit i fn critical (ts_runtime s) = (Some t, r) \<Longrightarrow>
    task_step s (s\<lparr>ts_runtime := r, ts_running := ts_running s @ [t]\<rparr>)"
| returns: "ts_running s = xs @ t # ys \<Longrightarrow>
    task_step s (s\<lparr>ts_runtime := task_return t (ts_runtime s), ts_running := xs @ ys, ts_ending := t # ts_ending s\<rparr>)"
| judges: "ts_ending s = xs @ t # ys \<Longrightarrow>
    task_step s (s\<lparr>ts_runtime := task_judge t outcome (ts_runtime s), ts_ending := xs @ ys\<rparr>)"
| announces: "task_step s (s\<lparr>ts_runtime := announceShutdown (ts_runtime s)\<rparr>)"
| shuts: "task_step s (s\<lparr>ts_runtime := closeAdmission (ts_runtime s)\<rparr>)"
| detaches: "task_step s (s\<lparr>ts_runtime := (ts_runtime s)\<lparr>tr_groups := gm_del i (tr_groups (ts_runtime s))\<rparr>\<rparr>)"
| cancels: "task_step s (s\<lparr>ts_runtime := group_cancel g (ts_runtime s)\<rparr>)"
| enters: "acquire_enter w (ts_budget s) = (a, b) \<Longrightarrow>
    task_step s ((put_budget b s)\<lparr>ts_units := ts_units s @ [acquired w (gm_int (bg_limits b) w) a]\<rparr>)"
| resumes: "ts_units s = us @ Waits w limit c # vs \<Longrightarrow> c \<in> set (bg_closed (ts_budget s)) \<Longrightarrow>
    acquire_resume w limit (ts_budget s) = (a, b) \<Longrightarrow>
    task_step s ((put_budget b s)\<lparr>ts_units := us @ acquired w limit a # vs\<rparr>)"
| gives_up: "ts_units s = us @ Waits w limit c # vs \<Longrightarrow>
    task_step s ((put_budget (acquire_cancel (ts_budget s)) s)\<lparr>ts_units := us @ vs\<rparr>)"
| gives_back: "ts_units s = us @ Holds charged # vs \<Longrightarrow>
    task_step s ((put_budget (budget_release charged (ts_budget s)) s)\<lparr>ts_units := us @ vs\<rparr>)"

text \<open>The work of a workload that is in flight, and the units that wait.\<close>

definition in_flight :: "task_sys \<Rightarrow> WorkloadKey \<Rightarrow> nat" where
  "in_flight s w = length (filter (\<lambda>t. rt_charged t = w) (ts_running s)) + length (filter (\<lambda>u. u = Holds w) (ts_units s))"

fun is_waiting :: "unit_state \<Rightarrow> bool" where
  "is_waiting (Waits w limit c) = True"
| "is_waiting (Holds w) = False"

text \<open>
  The invariant of the budget: it counts exactly what is in flight, within the limits; it counts the
  waiting units; and a unit that waits on a channel that is still open waits for a workload that is full.
\<close>

definition budget_inv :: "workloadBudget \<Rightarrow> (WorkloadKey \<Rightarrow> nat) \<Rightarrow> unit_state list \<Rightarrow> bool" where
  "budget_inv b flight waits \<longleftrightarrow>
     (\<forall>w. w \<noteq> [] \<longrightarrow> gm_int (bg_running b) w = int (flight w)) \<and>
     (\<forall>w. w \<noteq> [] \<longrightarrow> 0 < flight w \<longrightarrow> (\<exists>limit. gm_get (bg_limits b) w = Some limit \<and> int (flight w) \<le> limit)) \<and>
     bg_waiting b = int (length waits) \<and>
     (\<forall>w limit c. Waits w limit c \<in> set waits \<longrightarrow> w \<noteq> [] \<and> gm_get (bg_limits b) w = Some limit \<and>
        (c \<in> set (bg_closed b) \<or> bg_freed b = Some c \<and> limit \<le> int (flight w))) \<and>
     (\<forall>c. bg_freed b = Some c \<longrightarrow> c < bg_channels b \<and> c \<notin> set (bg_closed b)) \<and> (\<forall>c \<in> set (bg_closed b). c < bg_channels b)"

definition budget_ok :: "task_sys \<Rightarrow> bool" where
  "budget_ok s \<longleftrightarrow> budget_inv (ts_budget s) (in_flight s) (filter is_waiting (ts_units s))"

text \<open>The invariant of the groups: a group's counter is the number of its tasks that have not ended.\<close>

definition groups_ok :: "task_sys \<Rightarrow> bool" where
  "groups_ok s \<longleftrightarrow>
     (let r = ts_runtime s; live = ts_running s @ ts_ending s in
      (\<forall>t \<in> set live. rt_group t < length (tr_heap r)) \<and>
      (\<forall>i g. gm_get (tr_groups r) i = Some g \<longrightarrow> g < length (tr_heap r)) \<and>
      (\<forall>g < length (tr_heap r). pt_wg (tr_heap r ! g) = int (length (filter (\<lambda>t. rt_group t = g) live))) \<and>
      (tr_closed r \<longrightarrow> tr_shuttingDown r \<and> tr_admitting r = []))"

section \<open>The budget keeps its invariant\<close>

lemma gm_int_del [simp]: "gm_int (gm_del k m) j = (if j = k then 0 else gm_int m j)"
  by (simp add: gm_int_def)

lemma budget_inv_cong:
  assumes "budget_inv b flight waits" and "\<And>w. w \<noteq> [] \<Longrightarrow> flight' w = flight w" and "set waits' = set waits" and "length waits' = length waits"
  shows "budget_inv b flight' waits'"
  using assms(1) unfolding budget_inv_def assms(3,4) by (auto simp: assms(2))

lemma budget_invD:
  assumes "budget_inv b flight waits"
  shows "w \<noteq> [] \<Longrightarrow> gm_int (bg_running b) w = int (flight w)"
    and "w \<noteq> [] \<Longrightarrow> 0 < flight w \<Longrightarrow> \<exists>limit. gm_get (bg_limits b) w = Some limit \<and> int (flight w) \<le> limit"
    and "bg_waiting b = int (length waits)"
    and "Waits w limit c \<in> set waits \<Longrightarrow> w \<noteq> [] \<and> gm_get (bg_limits b) w = Some limit \<and>
        (c \<in> set (bg_closed b) \<or> bg_freed b = Some c \<and> limit \<le> int (flight w))"
    and "bg_freed b = Some c \<Longrightarrow> c < bg_channels b \<and> c \<notin> set (bg_closed b)" and "c \<in> set (bg_closed b) \<Longrightarrow> c < bg_channels b"
  using assms unfolding budget_inv_def by blast+

text \<open>One more unit of a workload below its limit.\<close>

lemma budget_inv_take:
  assumes inv: "budget_inv b flight waits" and w: "w \<noteq> []" "gm_get (bg_limits b) w = Some limit" "gm_int (bg_running b) w < limit"
  shows "budget_inv (b\<lparr>bg_running := gm_put w (gm_int (bg_running b) w + 1) (bg_running b)\<rparr>) (flight(w := flight w + 1)) waits"
  unfolding budget_inv_def
proof (intro conjI allI impI ballI)
  note now = budget_invD(1) [OF inv w(1)]
  show "\<exists>limit. gm_get (bg_limits (b\<lparr>bg_running := gm_put w (gm_int (bg_running b) w + 1) (bg_running b)\<rparr>)) v = Some limit \<and>
      int ((flight(w := flight w + 1)) v) \<le> limit" if "v \<noteq> []" "0 < (flight(w := flight w + 1)) v" for v
    using that w now budget_invD(2) [OF inv, of v] by (cases "v = w") auto
  fix v limit' c assume "Waits v limit' c \<in> set waits"
  from budget_invD(4) [OF inv this] show "v \<noteq> []"
    "gm_get (bg_limits (b\<lparr>bg_running := gm_put w (gm_int (bg_running b) w + 1) (bg_running b)\<rparr>)) v = Some limit'"
    "c \<in> set (bg_closed (b\<lparr>bg_running := gm_put w (gm_int (bg_running b) w + 1) (bg_running b)\<rparr>)) \<or>
     bg_freed (b\<lparr>bg_running := gm_put w (gm_int (bg_running b) w + 1) (bg_running b)\<rparr>) = Some c \<and> limit' \<le> int ((flight(w := flight w + 1)) v)"
    by auto
qed (use budget_invD(1,3,5,6) [OF inv] w(1) in auto)

lemma charge_inv:
  assumes inv: "budget_inv b flight waits" and run: "charge w b = ((charged, refusal), b')"
  shows "budget_inv b' (if refusal = None then flight(charged := flight charged + 1) else flight) waits"
proof (cases "bg_bounded b \<and> w \<noteq> [] \<and> gm_get (bg_limits b) w \<noteq> None")
  case False
  with run have "charged = []" "b' = b" "refusal = None" by (auto simp: charge_def split: if_splits option.splits)
  then show ?thesis using budget_inv_cong [OF inv] by simp
next
  case True
  then obtain limit where limit: "gm_get (bg_limits b) w = Some limit" by blast
  show ?thesis
  proof (cases "gm_int (bg_running b) w \<ge> limit")
    case True
    with run \<open>bg_bounded b \<and> _\<close> limit obtain y where "refusal = Some y"
        "b' = b\<lparr>bg_rejected := gm_put w ((gm_int (bg_rejected b) w + 1) mod 2 ^ 64) (bg_rejected b)\<rparr>"
      by (auto simp: charge_def Let_def)
    then show ?thesis using inv by (simp add: budget_inv_def)
  next
    case False
    with run \<open>bg_bounded b \<and> _\<close> limit have "charged = w" "refusal = None"
        "b' = b\<lparr>bg_running := gm_put w (gm_int (bg_running b) w + 1) (bg_running b)\<rparr>"
      by (auto simp: charge_def Let_def)
    with budget_inv_take [OF inv _ limit] False True show ?thesis by simp
  qed
qed

text \<open>A release wakes every unit that waits, so that none is left waiting for a workload that has room.\<close>

lemma release_inv:
  assumes inv: "budget_inv b flight waits" and c: "charged \<noteq> [] \<Longrightarrow> 0 < flight charged"
  shows "budget_inv (budget_release charged b) (flight(charged := flight charged - 1)) waits"
proof (cases "charged = []")
  case True
  then show ?thesis using budget_inv_cong [OF inv] by (simp add: budget_release_def)
next
  case False
  let ?r = "gm_int (bg_running b) charged" and ?flight = "flight(charged := flight charged - 1)"
  define running where "running = (if ?r > 1 then gm_put charged (?r - 1) (bg_running b) else gm_del charged (bg_running b))"
  have r: "?r = int (flight charged)" by (rule budget_invD(1) [OF inv False])
  have run: "w \<noteq> [] \<Longrightarrow> gm_int running w = int (?flight w)" for w
    using budget_invD(1) [OF inv, of w] r c [OF False] unfolding running_def by auto
  have small: "\<exists>limit. gm_get (bg_limits b) w = Some limit \<and> int (?flight w) \<le> limit" if "w \<noteq> []" "0 < ?flight w" for w
    using budget_invD(2) [OF inv, of w] that by (auto split: if_splits)
  have "budget_release charged b = b\<lparr>bg_running := running\<rparr>" if "bg_freed b = None \<or> waits = []"
    using that False budget_invD(3) [OF inv] by (cases "bg_freed b") (simp_all add: budget_release_def Let_def running_def)
  moreover have "budget_release charged b = b\<lparr>bg_running := running, bg_closed := x # bg_closed b, bg_freed := None\<rparr>"
    if "bg_freed b = Some x" "waits \<noteq> []" for x
    using that False budget_invD(3) [OF inv] by (simp add: budget_release_def Let_def running_def)
  moreover have "budget_inv (b\<lparr>bg_running := running\<rparr>) ?flight waits" if "bg_freed b = None \<or> waits = []"
    unfolding budget_inv_def using run small budget_invD(3,5,6) [OF inv] budget_invD(4) [OF inv] that by auto
  moreover have "budget_inv (b\<lparr>bg_running := running, bg_closed := x # bg_closed b, bg_freed := None\<rparr>) ?flight waits" if "bg_freed b = Some x" for x
    unfolding budget_inv_def using run small budget_invD(3,5,6) [OF inv] that by (auto dest: budget_invD(4) [OF inv])
  ultimately show ?thesis by (cases "bg_freed b") (simp_all, metis)
qed

lemma acquire_check_inv:
  assumes inv: "budget_inv b flight waits" and run: "acquire_check w limit b = (a, b')"
    and w: "w \<noteq> []" "gm_get (bg_limits b) w = Some limit"
  shows "case a of Granted charged \<Rightarrow> charged = w \<and> budget_inv b' (flight(w := flight w + 1)) waits
    | Parks c \<Rightarrow> budget_inv b' flight (Waits w limit c # waits)"
proof (cases "gm_int (bg_running b) w \<ge> limit")
  case False
  with run have "a = Granted w" "b' = b\<lparr>bg_running := gm_put w (gm_int (bg_running b) w + 1) (bg_running b)\<rparr>"
    by (auto simp: acquire_check_def)
  with budget_inv_take [OF inv w] False show ?thesis by simp
next
  case True
  then have full: "limit \<le> int (flight w)" using budget_invD(1) [OF inv w(1)] by simp
  show ?thesis
  proof (cases "bg_freed b")
    case None
    with run True have "a = Parks (bg_channels b)"
        "b' = b\<lparr>bg_freed := Some (bg_channels b), bg_channels := bg_channels b + 1, bg_waiting := bg_waiting b + 1\<rparr>"
      by (auto simp: acquire_check_def)
    then show ?thesis unfolding budget_inv_def
      using budget_invD(1-3) [OF inv] budget_invD(4) [OF inv] budget_invD(6) [OF inv] budget_invD(6) [OF inv, of "bg_channels b"] None w full
      by (auto simp: less_Suc_eq)
  next
    case (Some x)
    with run True have "a = Parks x" "b' = b\<lparr>bg_waiting := bg_waiting b + 1\<rparr>" by (auto simp: acquire_check_def)
    then show ?thesis unfolding budget_inv_def
      using budget_invD(1-3) [OF inv] budget_invD(4,5,6) [OF inv] Some w full by auto
  qed
qed

lemma unpark_inv:
  assumes "budget_inv b flight (Waits w limit c # waits)"
  shows "budget_inv (b\<lparr>bg_waiting := bg_waiting b - 1\<rparr>) flight waits"
  using assms unfolding budget_inv_def by auto

lemma acquire_enter_inv:
  assumes inv: "budget_inv b flight waits" and run: "acquire_enter w b = (a, b')"
  shows "case a of Granted charged \<Rightarrow> budget_inv b' (flight(charged := flight charged + 1)) waits
    | Parks c \<Rightarrow> budget_inv b' flight (Waits w (gm_int (bg_limits b') w) c # waits)"
proof (cases "bg_bounded b \<and> w \<noteq> [] \<and> gm_get (bg_limits b) w \<noteq> None")
  case False
  with run have "a = Granted []" "b' = b" by (auto simp: acquire_enter_def split: if_splits option.splits)
  then show ?thesis using budget_inv_cong [OF inv] by simp
next
  case True
  then obtain limit where limit: "gm_get (bg_limits b) w = Some limit" by blast
  with True run have check: "acquire_check w limit b = (a, b')" by (simp add: acquire_enter_def)
  have "bg_limits b' = bg_limits b" using check by (auto simp: acquire_check_def split: if_splits option.splits)
  with acquire_check_inv [OF inv check] True limit show ?thesis by (auto simp: gm_int_def split: acquisition.splits)
qed

section \<open>Steps keep the invariants\<close>

lemma submit_budget:
  assumes "submit i fn critical r = (out, r')"
  shows "(case out of
      Some t \<Rightarrow> (\<exists>w. charge w (tr_budget r) = ((rt_charged t, None), tr_budget r'))
    | None \<Rightarrow> tr_budget r' = tr_budget r \<or> (\<exists>w c x. charge w (tr_budget r) = ((c, Some x), tr_budget r')))"
proof -
  let ?w = "task_workloadOf (Normalized i) r"
  obtain c x b where ch: "charge ?w (tr_budget r) = ((c, x), b)" by (metis prod.exhaust)
  show ?thesis
  proof (cases "\<not> fn \<or> tr_closed r \<or> \<not> gm_bool (tr_admitting r) (Normalized i)")
    case True
    with assms show ?thesis by (auto simp: submit_def Let_def split: if_splits)
  next
    case False
    show ?thesis
    proof (cases x)
      case None
      with assms False ch have "\<exists>t. out = Some t \<and> rt_charged t = c" "tr_budget r' = b"
        by (auto simp: submit_def Let_def split: option.splits if_splits)
      with ch None show ?thesis by auto
    next
      case (Some y)
      with assms False ch have "out = None" "tr_budget r' = b" by (auto simp: submit_def Let_def)
      with ch Some show ?thesis by auto
    qed
  qed
qed

lemma budget_kept:
  "tr_budget (snd (openStart i r)) = tr_budget r" "tr_budget (closeStart i r) = tr_budget r"
  "tr_budget (announceShutdown r) = tr_budget r" "tr_budget (closeAdmission r) = tr_budget r" "tr_budget (group_cancel g r) = tr_budget r" "tr_budget (task_judge t outcome r) = tr_budget r"
  by (auto simp: openStart_def closeStart_def announceShutdown_def closeAdmission_def group_cancel_def task_judge_def group_record_def onCritical_def
      Let_def split: option.splits)

lemma in_flight_upd:
  "in_flight (s\<lparr>ts_runtime := r\<rparr>) = in_flight s"
  "in_flight (s\<lparr>ts_runtime := r, ts_running := ts_running s @ [t]\<rparr>) = (in_flight s)(rt_charged t := in_flight s (rt_charged t) + 1)"
  "in_flight (put_budget b s) = in_flight s" "in_flight (s\<lparr>ts_runtime := r, ts_ending := ending\<rparr>) = in_flight s"
  by (auto simp: in_flight_def put_budget_def)

lemma budget_step:
  assumes "task_step s s'" and ok: "budget_ok s"
  shows "budget_ok s'"
  using assms(1)
proof (cases rule: task_step.cases)
  case (opens i okay r)
  then have "tr_budget r = ts_budget s" using budget_kept(1) [of i "ts_runtime s"] by simp
  with ok opens show ?thesis by (simp add: budget_ok_def in_flight_upd)
next
  case (refuses i fn critical r)
  from submit_budget [OF refuses(2)] have "budget_inv (tr_budget r) (in_flight s) (filter is_waiting (ts_units s))"
    using ok charge_inv [of "ts_budget s" "in_flight s" "filter is_waiting (ts_units s)"] unfolding budget_ok_def by fastforce
  with refuses(1) show ?thesis by (simp add: budget_ok_def in_flight_upd)
next
  case (submits i fn critical t r)
  from submit_budget [OF submits(2)] obtain w where "charge w (ts_budget s) = ((rt_charged t, None), tr_budget r)" by auto
  from charge_inv [OF ok [unfolded budget_ok_def] this] submits(1) show ?thesis by (simp add: budget_ok_def in_flight_upd)
next
  case (returns xs t ys)
  have "0 < in_flight s (rt_charged t)" using returns(2) by (simp add: in_flight_def)
  from release_inv [OF ok [unfolded budget_ok_def] this]
  have "budget_inv (budget_release (rt_charged t) (ts_budget s)) (in_flight s') (filter is_waiting (ts_units s'))"
    by (rule budget_inv_cong) (auto simp: returns in_flight_def)
  with returns(1) show ?thesis by (simp add: budget_ok_def task_return_def)
next
  case (enters w a b)
  from acquire_enter_inv [OF ok [unfolded budget_ok_def] enters(2)]
  have "budget_inv b (in_flight s') (filter is_waiting (ts_units s'))"
    by (cases a; simp) (erule budget_inv_cong; auto simp: enters(1) in_flight_def put_budget_def acquired_def)+
  with enters(1) show ?thesis by (simp add: budget_ok_def put_budget_def)
next
  case (resumes us w limit c vs a b)
  have "budget_inv (ts_budget s) (in_flight s) (Waits w limit c # filter is_waiting (us @ vs))"
    by (rule budget_inv_cong [OF ok [unfolded budget_ok_def]]) (auto simp: resumes(2))
  note off = unpark_inv [OF this]
  have w: "w \<noteq> []" "gm_get (bg_limits (ts_budget s)) w = Some limit"
    using budget_invD(4) [OF \<open>budget_inv (ts_budget s) (in_flight s) (Waits w limit c # _)\<close>, of w limit c] by simp_all
  from acquire_check_inv [OF off resumes(4) [unfolded acquire_resume_def]] w
  have "budget_inv b (in_flight s') (filter is_waiting (ts_units s'))"
    by (cases a; simp) (((elim conjE)?, erule budget_inv_cong); auto simp: resumes(1,2) in_flight_def put_budget_def acquired_def)+
  with resumes(1) show ?thesis by (simp add: budget_ok_def put_budget_def)
next
  case (gives_up us w limit c vs)
  have "budget_inv (ts_budget s) (in_flight s) (Waits w limit c # filter is_waiting (us @ vs))"
    by (rule budget_inv_cong [OF ok [unfolded budget_ok_def]]) (auto simp: gives_up(2))
  from unpark_inv [OF this] have "budget_inv (acquire_cancel (ts_budget s)) (in_flight s') (filter is_waiting (ts_units s'))"
    unfolding acquire_cancel_def by (rule budget_inv_cong) (auto simp: gives_up in_flight_def put_budget_def)
  with gives_up(1) show ?thesis by (simp add: budget_ok_def put_budget_def)
next
  case (gives_back us charged vs)
  have "0 < in_flight s charged" using gives_back(2) by (simp add: in_flight_def)
  from release_inv [OF ok [unfolded budget_ok_def] this]
  have "budget_inv (budget_release charged (ts_budget s)) (in_flight s') (filter is_waiting (ts_units s'))"
    by (rule budget_inv_cong) (auto simp: gives_back in_flight_def put_budget_def)
  with gives_back(1) show ?thesis by (simp add: budget_ok_def put_budget_def)
qed (use ok in \<open>simp_all add: budget_ok_def budget_kept in_flight_upd in_flight_def\<close>)

text \<open>What an accepted submission does to the groups.\<close>

lemma submit_groups:
  assumes "submit i fn critical r = (Some t, r')" and "\<forall>i g. gm_get (tr_groups r) i = Some g \<longrightarrow> g < length (tr_heap r)"
  shows "\<not> tr_closed r" and "tr_closed r' = tr_closed r" and "rt_group t < length (tr_heap r')" and "length (tr_heap r) \<le> length (tr_heap r')"
    and "gm_get (tr_groups r') j = Some g \<Longrightarrow> g < length (tr_heap r')"
    and "g < length (tr_heap r') \<Longrightarrow> pt_wg (tr_heap r' ! g) =
      (if g < length (tr_heap r) then pt_wg (tr_heap r ! g) else 0) + (if g = rt_group t then 1 else 0)"
    and "g < length (tr_heap r') \<Longrightarrow> \<not> g < length (tr_heap r) \<Longrightarrow> g = rt_group t"
proof -
  obtain c b where open': "\<not> tr_closed r" and ch: "charge (task_workloadOf (Normalized i) r) (tr_budget r) = ((c, None), b)"
    using assms(1) by (auto simp: submit_def Let_def split: if_splits prod.splits option.splits)
  show "\<not> tr_closed r" by (rule open')
  consider (old) "rt_group t < length (tr_heap r)" "tr_groups r' = tr_groups r" "tr_closed r' = tr_closed r"
      "tr_heap r' = (tr_heap r)[rt_group t := (tr_heap r ! rt_group t)\<lparr>pt_wg := pt_wg (tr_heap r ! rt_group t) + 1\<rparr>]"
    | (fresh) "rt_group t = length (tr_heap r)" "tr_groups r' = gm_put (Normalized i) (rt_group t) (tr_groups r)" "tr_closed r' = tr_closed r"
      "tr_heap r' = tr_heap r @ [\<lparr>pt_cancelled = False, pt_wg = 1, pt_errs = []\<rparr>]"
    using assms
    by (cases "gm_get (tr_groups r) (Normalized i)") (auto simp: submit_def Let_def ch split: if_splits)
  note cases = this
  show "tr_closed r' = tr_closed r" "rt_group t < length (tr_heap r')" "length (tr_heap r) \<le> length (tr_heap r')"
    by (rule cases; simp)+
  show "gm_get (tr_groups r') j = Some g \<Longrightarrow> g < length (tr_heap r')"
    by (rule cases) (use assms(2) in \<open>auto split: if_splits intro: less_SucI\<close>)
  show "g < length (tr_heap r') \<Longrightarrow> pt_wg (tr_heap r' ! g) =
      (if g < length (tr_heap r) then pt_wg (tr_heap r ! g) else 0) + (if g = rt_group t then 1 else 0)"
    by (rule cases) (auto simp: nth_append nth_list_update less_Suc_eq)
  show "g < length (tr_heap r') \<Longrightarrow> \<not> g < length (tr_heap r) \<Longrightarrow> g = rt_group t"
    by (rule cases) auto
qed

lemma submit_None: "submit i fn critical r = (None, r') \<Longrightarrow> \<exists>b. r' = r\<lparr>tr_budget := b\<rparr>"
proof -
  have "\<exists>b. r = r\<lparr>tr_budget := b\<rparr>" by (rule exI [of _ "tr_budget r"]) simp
  then show "submit i fn critical r = (None, r') \<Longrightarrow> \<exists>b. r' = r\<lparr>tr_budget := b\<rparr>"
    by (auto simp: submit_def Let_def split: if_splits prod.splits option.splits)
qed

lemma task_judge_heap:
  "length (tr_heap (task_judge t outcome r)) = length (tr_heap r)" "tr_groups (task_judge t outcome r) = tr_groups r"
  "tr_closed (task_judge t outcome r) = tr_closed r" "tr_shuttingDown (task_judge t outcome r) = tr_shuttingDown r"
  "tr_admitting (task_judge t outcome r) = tr_admitting r"
  "g < length (tr_heap r) \<Longrightarrow> pt_wg (tr_heap (task_judge t outcome r) ! g) = pt_wg (tr_heap r ! g) - (if g = rt_group t then 1 else 0)"
  by (auto simp: task_judge_def group_record_def onCritical_def Let_def nth_list_update split: option.splits)

lemma groups_okD:
  assumes "groups_ok s"
  shows "t \<in> set (ts_running s @ ts_ending s) \<Longrightarrow> rt_group t < length (tr_heap (ts_runtime s))"
    and "gm_get (tr_groups (ts_runtime s)) i = Some g \<Longrightarrow> g < length (tr_heap (ts_runtime s))"
    and "g < length (tr_heap (ts_runtime s)) \<Longrightarrow>
      pt_wg (tr_heap (ts_runtime s) ! g) = int (length (filter (\<lambda>t. rt_group t = g) (ts_running s @ ts_ending s)))"
    and "tr_closed (ts_runtime s) \<Longrightarrow> tr_shuttingDown (ts_runtime s) \<and> tr_admitting (ts_runtime s) = []"
  using assms unfolding groups_ok_def Let_def by blast+

text \<open>A step that leaves the heap and the tasks of every group as they are.\<close>

lemma groups_ok_same:
  assumes "groups_ok s" and "tr_heap (ts_runtime s') = tr_heap (ts_runtime s)"
    and "\<And>i g. gm_get (tr_groups (ts_runtime s')) i = Some g \<Longrightarrow> gm_get (tr_groups (ts_runtime s)) i = Some g"
    and "\<And>g. length (filter (\<lambda>t. rt_group t = g) (ts_running s' @ ts_ending s')) = length (filter (\<lambda>t. rt_group t = g) (ts_running s @ ts_ending s))"
    and "set (ts_running s' @ ts_ending s') = set (ts_running s @ ts_ending s)"
    and "tr_closed (ts_runtime s') \<Longrightarrow> tr_shuttingDown (ts_runtime s') \<and> tr_admitting (ts_runtime s') = []"
  shows "groups_ok s'"
  unfolding groups_ok_def Let_def assms(2,4,5)
proof (intro conjI ballI allI impI)
  show "rt_group t < length (tr_heap (ts_runtime s))" if "t \<in> set (ts_running s @ ts_ending s)" for t
    by (rule groups_okD(1) [OF assms(1) that])
  show "g < length (tr_heap (ts_runtime s))" if "gm_get (tr_groups (ts_runtime s')) i = Some g" for i g
    by (rule groups_okD(2) [OF assms(1) assms(3) [OF that]])
  show "pt_wg (tr_heap (ts_runtime s) ! g) = int (length (filter (\<lambda>t. rt_group t = g) (ts_running s @ ts_ending s)))"
    if "g < length (tr_heap (ts_runtime s))" for g by (rule groups_okD(3) [OF assms(1) that])
qed (use assms(6) in simp_all)

lemma groups_step:
  assumes "task_step s s'" and ok: "groups_ok s"
  shows "groups_ok s'"
  using assms(1)
proof (cases rule: task_step.cases)
  case (submits i fn critical t r)
  have refs: "\<forall>j k. gm_get (tr_groups (ts_runtime s)) j = Some k \<longrightarrow> k < length (tr_heap (ts_runtime s))"
    using groups_okD(2) [OF ok] by blast
  note g = submit_groups [OF submits(2) refs]
  show ?thesis unfolding groups_ok_def Let_def
  proof (intro conjI ballI allI impI)
    show "rt_group x < length (tr_heap (ts_runtime s'))" if "x \<in> set (ts_running s' @ ts_ending s')" for x
      using that submits(1) g(3,4) groups_okD(1) [OF ok, of x] by auto
    show "k < length (tr_heap (ts_runtime s'))" if "gm_get (tr_groups (ts_runtime s')) j = Some k" for j k
      using that submits(1) g(5) by simp
    show "pt_wg (tr_heap (ts_runtime s') ! k) = int (length (filter (\<lambda>t. rt_group t = k) (ts_running s' @ ts_ending s')))"
      if "k < length (tr_heap (ts_runtime s'))" for k
    proof (cases "k < length (tr_heap (ts_runtime s))")
      case True
      then show ?thesis using g(6) [of k] that submits(1) groups_okD(3) [OF ok True] by auto
    next
      case False
      then have "filter (\<lambda>t. rt_group t = k) (ts_running s @ ts_ending s) = []"
        using groups_okD(1) [OF ok] by (auto simp: filter_empty_conv)
      then show ?thesis using False g(6,7) [of k] that submits(1) by auto
    qed
  qed (use g(1,2) submits(1) in simp_all)
next
  case (judges xs t ys outcome)
  note heap = task_judge_heap [where t = t and outcome = outcome and r = "ts_runtime s"]
  show ?thesis unfolding groups_ok_def Let_def
  proof (intro conjI ballI allI impI)
    show "rt_group x < length (tr_heap (ts_runtime s'))" if "x \<in> set (ts_running s' @ ts_ending s')" for x
      using that judges heap(1) groups_okD(1) [OF ok, of x] by auto
    show "k < length (tr_heap (ts_runtime s'))" if "gm_get (tr_groups (ts_runtime s')) j = Some k" for j k
      using that judges(1) heap(1,2) groups_okD(2) [OF ok, of j k] by simp
    show "pt_wg (tr_heap (ts_runtime s') ! k) = int (length (filter (\<lambda>t. rt_group t = k) (ts_running s' @ ts_ending s')))"
      if "k < length (tr_heap (ts_runtime s'))" for k
      using that judges heap(1) heap(6) [of k] groups_okD(3) [OF ok, of k] by auto
  qed (use judges(1) heap(3-5) groups_okD(4) [OF ok] in simp_all)
next
  case (cancels g)
  have heap: "length (tr_heap (group_cancel g (ts_runtime s))) = length (tr_heap (ts_runtime s))"
    "pt_wg (tr_heap (group_cancel g (ts_runtime s)) ! k) = pt_wg (tr_heap (ts_runtime s) ! k)" for k
    by (simp_all add: group_cancel_def nth_list_update) (cases "g < length (tr_heap (ts_runtime s))"; cases "g = k"; simp add: list_update_beyond)
  show ?thesis using ok cancels unfolding groups_ok_def Let_def by (simp add: heap) (simp add: group_cancel_def)
next
  case (opens i okay r)
  then have "r = ts_runtime s \<or> \<not> tr_closed r" "tr_heap r = tr_heap (ts_runtime s)" "tr_groups r = tr_groups (ts_runtime s)"
    by (auto simp: openStart_def Let_def split: if_splits)
  with opens groups_okD(4) [OF ok] show ?thesis by (intro groups_ok_same [OF ok]) auto
next
  case (refuses i fn critical r)
  with submit_None [OF refuses(2)] groups_okD(4) [OF ok] show ?thesis by (intro groups_ok_same [OF ok]) auto
next
  case (returns xs t ys)
  then show ?thesis using groups_okD(4) [OF ok] by (intro groups_ok_same [OF ok]) (auto simp: task_return_def)
qed (use groups_okD(4) [OF ok] in \<open>(intro groups_ok_same [OF ok];
    auto simp: closeStart_def announceShutdown_def closeAdmission_def put_budget_def gm_del_def delete_conv' split: if_splits)+\<close>)

lemma submit_closed: "tr_closed r \<Longrightarrow> submit i fn critical r = (None, r)"
  by (simp add: submit_def Let_def)

lemma charge_limits: "charge w b = (out, b') \<Longrightarrow> bg_limits b' = bg_limits b"
  by (auto simp: charge_def Let_def split: if_splits option.splits)

lemma closed_stays: "task_step s s' \<Longrightarrow> tr_closed (ts_runtime s) \<Longrightarrow> tr_closed (ts_runtime s')"
proof (erule task_step.cases)
  fix i fn critical t r x
  assume "tr_closed (ts_runtime s)" "s = x" "submit i fn critical (ts_runtime x) = (Some t, r)"
  then show "tr_closed (ts_runtime s')" by (simp add: submit_closed)
next
  fix i fn critical r x
  assume "tr_closed (ts_runtime s)" "s = x" "s' = x\<lparr>ts_runtime := r\<rparr>" "submit i fn critical (ts_runtime x) = (None, r)"
  then show "tr_closed (ts_runtime s')" using submit_None by fastforce
qed (auto simp: openStart_def closeStart_def announceShutdown_def closeAdmission_def group_cancel_def task_return_def task_judge_heap put_budget_def Let_def
    split: if_splits)

lemma steps_keep_tasks:
  assumes "task_step\<^sup>*\<^sup>* s s'" and "budget_ok s" and "groups_ok s"
  shows "budget_ok s' \<and> groups_ok s' \<and> bg_limits (ts_budget s') = bg_limits (ts_budget s) \<and>
    (tr_closed (ts_runtime s) \<longrightarrow> tr_closed (ts_runtime s'))"
  using assms
proof (induction rule: rtranclp_induct)
  case (step s' s'')
  have "bg_limits (ts_budget s'') = bg_limits (ts_budget s')" using step.hyps(2)
  proof (cases rule: task_step.cases)
    case (submits i fn critical t r)
    then show ?thesis using submit_budget [OF submits(2)] by (auto dest: charge_limits)
  next
    case (refuses i fn critical r)
    then show ?thesis using submit_budget [OF refuses(2)] by (auto dest: charge_limits)
  qed (auto simp: budget_kept openStart_def task_return_def budget_release_def acquire_enter_def acquire_resume_def acquire_check_def
      acquire_cancel_def put_budget_def Let_def split: if_splits option.splits)
  with step budget_step [OF step.hyps(2)] groups_step [OF step.hyps(2)] closed_stays [OF step.hyps(2)] show ?case by simp
qed simp

section \<open>The task runtime is safe\<close>

definition task_start :: "(WorkloadKey, int) gomap \<Rightarrow> (identity \<Rightarrow> WorkloadKey \<times> bool) option \<Rightarrow> (WorkloadKey \<Rightarrow> bool) option \<Rightarrow> task_sys" where
  "task_start limits attribute hosted =
     \<lparr>ts_runtime = configureWorkloadBudget limits attribute hosted newTaskRuntime, ts_running = [], ts_ending = [], ts_units = []\<rparr>"

lemma task_start_ok: "budget_ok (task_start limits attribute hosted)" "groups_ok (task_start limits attribute hosted)"
  by (simp_all add: task_start_def budget_ok_def budget_inv_def groups_ok_def in_flight_def configureWorkloadBudget_def
      newTaskRuntime_def zero_budget_def gm_int_def)

text \<open>
  C6. However the goroutines of a process interleave: the work of a workload in flight, managed tasks
  and admitted units together, never exceeds the workload's limit, and the budget counts exactly this
  work, so that no unit is lost or given back twice. No wake-up is lost: a unit that waits while its workload has room has been
  signalled and gets its unit when it looks again. A group's counter is the number of its tasks that
  have not ended, so that a wait for an empty counter is a wait for all of them. And once admission
  has closed, no submission is accepted any more.
\<close>

theorem task_runtime_safety:
  assumes reach: "task_step\<^sup>*\<^sup>* (task_start limits attribute hosted) s"
  shows "(\<forall>w limit. w \<noteq> [] \<and> gm_get limits w = Some limit \<longrightarrow>
      int (in_flight s w) \<le> max 0 limit \<and> gm_int (bg_running (ts_budget s)) w = int (in_flight s w)) \<and>
    (\<forall>w limit c. Waits w limit c \<in> set (ts_units s) \<and> int (in_flight s w) < limit \<longrightarrow>
      gm_get limits w = Some limit \<and> c \<in> set (bg_closed (ts_budget s)) \<and> fst (acquire_resume w limit (ts_budget s)) = Granted w) \<and>
    (\<forall>g < length (tr_heap (ts_runtime s)). pt_wg (tr_heap (ts_runtime s) ! g) =
      int (length (filter (\<lambda>t. rt_group t = g) (ts_running s @ ts_ending s)))) \<and>
    (tr_closed (ts_runtime s) \<longrightarrow>
      (\<forall>s' i fn critical. task_step\<^sup>*\<^sup>* s s' \<longrightarrow> fst (submit i fn critical (ts_runtime s')) = None))"
proof (intro conjI allI impI)
  have all: "budget_ok s" "groups_ok s" "bg_limits (ts_budget s) = limits"
    using steps_keep_tasks [OF reach task_start_ok]
    by (simp_all add: task_start_def configureWorkloadBudget_def newTaskRuntime_def zero_budget_def)
  note inv = budget_invD [OF all(1) [unfolded budget_ok_def]]
  fix w limit
  show "int (in_flight s w) \<le> max 0 limit" "gm_int (bg_running (ts_budget s)) w = int (in_flight s w)"
    if "w \<noteq> [] \<and> gm_get limits w = Some limit"
    using inv(1) [of w] inv(2) [of w] that all(3) by (cases "0 < in_flight s w"; simp)+
  fix c
  assume "Waits w limit c \<in> set (ts_units s) \<and> int (in_flight s w) < limit"
  moreover from this have "Waits w limit c \<in> set (filter is_waiting (ts_units s))" by simp
  ultimately show "gm_get limits w = Some limit" "c \<in> set (bg_closed (ts_budget s))"
      "fst (acquire_resume w limit (ts_budget s)) = Granted w"
    using inv(4) [of w limit c] inv(1) [of w] all(3) by (auto simp: acquire_resume_def acquire_check_def)
next
  fix g assume "g < length (tr_heap (ts_runtime s))"
  then show "pt_wg (tr_heap (ts_runtime s) ! g) = int (length (filter (\<lambda>t. rt_group t = g) (ts_running s @ ts_ending s)))"
    using steps_keep_tasks [OF reach task_start_ok] groups_okD(3) by blast
next
  fix s' i fn critical
  assume "tr_closed (ts_runtime s)" "task_step\<^sup>*\<^sup>* s s'"
  then have "tr_closed (ts_runtime s')"
    using steps_keep_tasks [of s s'] steps_keep_tasks [OF reach task_start_ok] by blast
  then show "fst (submit i fn critical (ts_runtime s')) = None" by (simp add: submit_closed)
qed

text \<open>One unit of a workload with one place: a task has it, a worker waits for it, and gets it when the task returns.\<close>

definition sample_wait :: task_sys where
  "sample_wait = (let s = task_start [(''sast'', 1)] (Some (\<lambda>_. (''sast'', True))) None;
     i = Identity ''scan'' ''default'';
     r = snd (openStart i (ts_runtime s));
     (t, r) = submit i True True r;
     (a, b) = acquire_enter ''sast'' (tr_budget r)
   in \<lparr>ts_runtime = r\<lparr>tr_budget := b\<rparr>, ts_running = [the t], ts_ending = [], ts_units = [acquired ''sast'' 1 a]\<rparr>)"

theorem task_runtime_safety_witness:
  "in_flight sample_wait ''sast'' = 1 \<and> filter is_waiting (ts_units sample_wait) = [Waits ''sast'' 1 0] \<and>
   pt_wg (tr_heap (ts_runtime sample_wait) ! 0) = 1 \<and> int (in_flight sample_wait ''sast'') \<le> max 0 1"
proof -
  let ?s0 = "task_start [(''sast'', 1)] (Some (\<lambda>_. (''sast'', True))) None"
  let ?i = "Identity ''scan'' ''default''"
  define r1 where "r1 = snd (openStart ?i (ts_runtime ?s0))"
  define s1 where "s1 = ?s0\<lparr>ts_runtime := r1\<rparr>"
  define out where "out = submit ?i True True r1"
  define s2 where "s2 = s1\<lparr>ts_runtime := snd out, ts_running := ts_running s1 @ [the (fst out)]\<rparr>"
  define ent where "ent = acquire_enter ''sast'' (ts_budget s2)"
  have st1: "task_step ?s0 s1" unfolding s1_def r1_def by (rule task_step.opens) (rule prod.collapse [symmetric])
  have st2: "task_step s1 s2"
  proof -
    have "map_option (\<lambda>_. ()) (fst (submit ?i True True (snd (openStart ?i (ts_runtime ?s0))))) = Some ()" by code_simp
    then have "out = (Some (the (fst out)), snd out)" unfolding out_def r1_def by (cases "submit ?i True True (snd (openStart ?i (ts_runtime ?s0)))") auto
    then show ?thesis unfolding s2_def by (intro task_step.submits [of ?i True True]) (simp add: out_def s1_def)
  qed
  have st3: "task_step s2 ((put_budget (snd ent) s2)\<lparr>ts_units := ts_units s2 @ [acquired ''sast'' (gm_int (bg_limits (snd ent)) ''sast'') (fst ent)]\<rparr>)"
    by (rule task_step.enters) (simp add: ent_def)
  have eq: "(put_budget (snd ent) s2)\<lparr>ts_units := ts_units s2 @ [acquired ''sast'' (gm_int (bg_limits (snd ent)) ''sast'') (fst ent)]\<rparr> = sample_wait"
  proof -
    have "gm_int (bg_limits (snd ent)) ''sast'' = 1" unfolding ent_def s2_def out_def s1_def r1_def by code_simp
    then show ?thesis
      by (simp add: sample_wait_def Let_def ent_def s2_def out_def s1_def r1_def put_budget_def task_start_def case_prod_beta)
  qed
  note reach = converse_rtranclp_into_rtranclp [of task_step, OF st1 converse_rtranclp_into_rtranclp [of task_step, OF st2
      r_into_rtranclp [of task_step, OF st3 [unfolded eq]]]]
  have vals: "in_flight sample_wait ''sast'' = 1" "filter is_waiting (ts_units sample_wait) = [Waits ''sast'' 1 0]"
    "pt_wg (tr_heap (ts_runtime sample_wait) ! 0) = 1" by code_simp+
  have "gm_get [(''sast'', 1 :: int)] ''sast'' = Some 1" by simp
  then have "int (in_flight sample_wait ''sast'') \<le> max 0 1"
    using conjunct1 [OF task_runtime_safety [OF reach], THEN spec, THEN spec, of "''sast''" 1] by blast
  with vals show ?thesis by blast
qed

end
