(* ===== verification/Execute.thy ===== *)
theory Execute
  imports Command Settings Construct PlacementDecision Tasks
begin

text \<open>
  One run of an application: \<^verbatim>\<open>runtime/execute.go\<close>, \<^verbatim>\<open>runtime/lifecycle.go\<close>, \<^verbatim>\<open>runtime/shutdown.go\<close> and
  the admission of \<^verbatim>\<open>runtime/bootstrap.go\<close>, which put the other components together: placement, plan,
  construction, the startup stages, the traffic gate, and the shutdown with its pre-stop phase,
  reverse walk and task scopes.
  \<^item> \<open>App\<close> is the record of the same name; the world of hooks and events is part of it.
  \<^item> Stop requests come from other goroutines (signals, the parent context, critical tasks, plugins) at any
    moment. Whenever the run takes the state mutex, the requests that arrived since are there first:
    \<open>look\<close> applies those that \<open>ho_stops\<close> has for the next look.
  \<^item> An operation that does not return is \<open>None\<close>: it waits forever, or the application code it calls on its own goroutine
    (factories, startup hooks, commands, the placement source) or the loading of the configuration does not return. Planners are functions
    that return.
\<close>

section \<open>The application and its surroundings\<close>

datatype app_error =
    NilExecuteContext
  | ExecutedTwice
  | CancelledBefore string
  | Usage usage_error
  | LoadFailed string
  | SettingsFailed settings_error
  | LoggingFailed string
  | TaskLimitsFailed sections_error
  | StopDuringStartup string string
  | CommandFailed string string
  | PlacementFailed placement_error
  | PlanFailed plan_error
  | NothingDeclared
  | NothingCarried "WorkloadKey list"
  | NothingEnabled nat "Key list"
  | ConstructionFailed "stage_error list"
  | NoTaskRuntime
  | HookError stage_error
  | NotLive "identity list"
  | UnwindFailed "stage_error list" "task_failure list"
  | StoppedAfter string

record preStopPhase =
  pp_ran :: bool
  pp_budget :: time
  pp_elapsed :: time
  pp_report :: PreStopReport

record App =
  xa_settings :: settings
  xa_env :: "environment option"
  xa_plan :: "Plan option"
  xa_owned :: "Constructed option"
  xa_tasks :: "taskRuntime option"
  xa_executed :: bool
  xa_stopRequested :: bool
  xa_stopReason :: string
  xa_cancelExec :: bool
  xa_stopCause :: "(string \<times> string option) option"
  xa_trafficOpen :: bool
  xa_unwound :: bool
  xa_unwindErr :: "stage_error list \<times> task_failure list"
  xa_shutdownReport :: ShutdownReport
  xa_drainReport :: DrainReport
  xa_preStop :: preStopPhase
  xa_process :: process_values
  xa_world :: world
  xa_looks :: nat

text \<open>
  What surrounds a run: application code, the stop requests, the tasks that Start hooks submit
  (whether a function is given, whether critical), what tasks do while the run waits for them and how long they take, the
  composition and the configuration, the placement source, in which of its states it answers and releases, what the run does to its state, and the last stop
  request if the process waits for one.
\<close>

record 'st host =
  ho_app :: app
  ho_stops :: "nat \<Rightarrow> (string \<times> string option) list"
  ho_final :: "(string \<times> string option) option"
  ho_submits :: "identity \<Rightarrow> (bool \<times> bool) list"
  ho_meanwhile :: "taskRuntime \<Rightarrow> taskRuntime"
  ho_joining :: "world \<Rightarrow> identity \<Rightarrow> nat"
  ho_draining :: "world \<Rightarrow> nat"
  ho_text :: "task_failure list \<Rightarrow> string"
  ho_ops :: config_ops
  ho_heap :: def_heap
  ho_logger :: Logger
  ho_bundles :: "Bundle list"
  ho_load :: "command \<Rightarrow> (string, environment) result option"
  ho_bind :: settings_binder
  ho_machine :: machine
  ho_logInit :: "ServiceIdentity \<Rightarrow> string option"
  ho_source :: "'st PlacementSource option"
  ho_resolves :: "'st \<Rightarrow> bool"
  ho_releases :: "'st \<Rightarrow> bool"
  ho_running :: "'st \<Rightarrow> 'st"
  ho_getenv :: "string \<Rightarrow> string"
  ho_commands :: "customCommand list"
  ho_run :: "string \<Rightarrow> string list \<Rightarrow> string option option"

definition stopReasonCritical :: string where "stopReasonCritical = ''critical''"

definition stopReasonCompleted :: string where "stopReasonCompleted = ''completed''"

definition stopReasonStartupFailed :: string where "stopReasonStartupFailed = ''startup-failed''"

definition no_phase :: preStopPhase where
  "no_phase = \<lparr>pp_ran = False, pp_budget = 0, pp_elapsed = 0, pp_report = \<lparr>psr_Records = []\<rparr>\<rparr>"

definition newApp :: "process_values \<Rightarrow> world \<Rightarrow> App" where
  "newApp v w =
     \<lparr>xa_settings = zero_settings, xa_env = None, xa_plan = None, xa_owned = None, xa_tasks = None, xa_executed = False, xa_stopRequested = False, xa_stopReason = [],
      xa_cancelExec = False, xa_stopCause = None, xa_trafficOpen = False, xa_unwound = False, xa_unwindErr = ([], []),
      xa_shutdownReport = \<lparr>sh_Attempted = [], sh_Completed = [], sh_Records = []\<rparr>, xa_drainReport = \<lparr>dp_Records = []\<rparr>,
      xa_preStop = no_phase, xa_process = v, xa_world = w, xa_looks = 0\<rparr>"

section \<open>Stop requests and the traffic gate\<close>

definition requestStopWithCause :: "string \<Rightarrow> string option \<Rightarrow> App \<Rightarrow> bool \<times> App" where
  "requestStopWithCause reason parentCause a =
     (if xa_stopRequested a then (False, a)
      else (True, a\<lparr>xa_stopRequested := True, xa_stopReason := reason, xa_tasks := map_option closeAdmission (xa_tasks a),
              xa_stopCause := (if xa_cancelExec a then Some (reason, parentCause) else None)\<rparr>))"

definition requestStop :: "string \<Rightarrow> App \<Rightarrow> bool \<times> App" where
  "requestStop reason a = requestStopWithCause reason None a"

text \<open>The reason a plugin gives, with its white space collapsed (\<^verbatim>\<open>strings.Fields\<close>) by \<open>fields_of\<close>.\<close>

definition RequestShutdown :: "(string \<Rightarrow> string list) \<Rightarrow> identity \<Rightarrow> string \<Rightarrow> App \<Rightarrow> bool \<times> App" where
  "RequestShutdown fields_of i reason a =
     (let reason = join '' '' (fields_of reason);
          reason = (if reason = [] then ''requested'' else reason)
      in requestStop (''plugin:'' @ identity_string (Normalized i) @ '':'' @ reason) a)"

definition look :: "'st host \<Rightarrow> App \<Rightarrow> App" where
  "look h a = (fold (\<lambda>(reason, cause) a. snd (requestStopWithCause reason cause a)) (ho_stops h (xa_looks a)) a)
     \<lparr>xa_looks := xa_looks a + 1\<rparr>"

definition stopRequested :: "'st host \<Rightarrow> App \<Rightarrow> bool \<times> App" where
  "stopRequested h a = (let a = look h a in (xa_stopRequested a, a))"

definition releaseTraffic :: "'st host \<Rightarrow> App \<Rightarrow> bool \<times> App" where
  "releaseTraffic h a =
     (let a = look h a in
      if xa_stopRequested a then (False, a) else (True, a\<lparr>xa_trafficOpen := True\<rparr>))"

definition errStopDuringStartup :: "string \<Rightarrow> App \<Rightarrow> app_error" where
  "errStopDuringStartup stage a = StopDuringStartup (xa_stopReason a) stage"

definition ensureStarting :: "'st host \<Rightarrow> string \<Rightarrow> App \<Rightarrow> app_error option \<times> App" where
  "ensureStarting h stage a =
     (case stopRequested h a of (stop, a) \<Rightarrow> (if stop then Some (errStopDuringStartup stage a) else None, a))"

section \<open>Startup stages\<close>

type_synonym invoker = "app \<Rightarrow> Instance_data \<Rightarrow> world \<Rightarrow> staged"

definition invoke_at :: "'st host \<Rightarrow> invoker \<Rightarrow> nat \<Rightarrow> App \<Rightarrow> (stage_error option \<times> App) option" where
  "invoke_at h invokes p a =
     map_option (\<lambda>(err, x, w). (err, a\<lparr>xa_owned := map_option (put_instance p x) (xa_owned a), xa_world := w\<rparr>))
       (invokes (ho_app h) (Instances (xa_owned a) ! p) (xa_world a))"

text \<open>The loop that the migration, preflight and traffic preparation stages share.\<close>

type_synonym startup = "(app_error option \<times> App) option"

fun stage_loop :: "'st host \<Rightarrow> string \<Rightarrow> (Instance_data \<Rightarrow> bool) \<Rightarrow> invoker \<Rightarrow> nat list \<Rightarrow> App \<Rightarrow> startup" where
  "stage_loop h stage has invokes [] a = Some (None, a)"
| "stage_loop h stage has invokes (p # ps) a =
     (case stopRequested h a of
        (True, a) \<Rightarrow> Some (Some (errStopDuringStartup stage a), a)
      | (False, a) \<Rightarrow>
          if \<not> has (Instances (xa_owned a) ! p) then stage_loop h stage has invokes ps a
          else
            (case invoke_at h invokes p a of
               None \<Rightarrow> None
             | Some (Some e, a) \<Rightarrow> Some (Some (HookError e), a)
             | Some (None, a) \<Rightarrow> stage_loop h stage has invokes ps a))"

definition positions :: "App \<Rightarrow> nat list" where
  "positions a = [0..<length (Instances (xa_owned a))]"

definition migrateAll :: "'st host \<Rightarrow> App \<Rightarrow> startup" where
  "migrateAll h a = stage_loop h ''migration'' HasMigration InvokeMigration (positions a) a"

definition preflightAll :: "'st host \<Rightarrow> App \<Rightarrow> startup" where
  "preflightAll h a = stage_loop h ''validation'' HasPreflight InvokePreflight (positions a) a"

definition prepareTraffic :: "'st host \<Rightarrow> App \<Rightarrow> startup" where
  "prepareTraffic h a = stage_loop h ''traffic preparation'' HasTrafficPreparation InvokeTrafficPreparation (positions a) a"

text \<open>A Start hook submits tasks while it runs; stop requests may land before each.\<close>

fun submit_all :: "'st host \<Rightarrow> identity \<Rightarrow> (bool \<times> bool) list \<Rightarrow> App \<Rightarrow> App" where
  "submit_all h i [] a = look h a"
| "submit_all h i ((fn, critical) # xs) a =
     (let a = look h a in
      submit_all h i xs (a\<lparr>xa_tasks := map_option (\<lambda>r. snd (submit i fn critical r)) (xa_tasks a)\<rparr>))"

fun start_loop :: "'st host \<Rightarrow> nat list \<Rightarrow> App \<Rightarrow> startup" where
  "start_loop h [] a = Some (None, a)"
| "start_loop h (p # ps) a =
     (case stopRequested h a of
        (True, a) \<Rightarrow> Some (Some (errStopDuringStartup ''startup'' a), a)
      | (False, a) \<Rightarrow>
          let x = Instances (xa_owned a) ! p; i = in_identity x in
          if \<not> HasStart x then start_loop h ps a
          else
            (case xa_tasks a of
               None \<Rightarrow> Some (Some NoTaskRuntime, a)
             | Some r \<Rightarrow>
                 (case openStart i r of
                    (False, r) \<Rightarrow> Some (Some (errStopDuringStartup ''startup'' a), a\<lparr>xa_tasks := Some r\<rparr>)
                  | (True, r) \<Rightarrow>
                      (case invoke_at h InvokeStart p (submit_all h i (ho_submits h i) (a\<lparr>xa_tasks := Some r\<rparr>)) of
                         None \<Rightarrow> None
                       | Some (err, a) \<Rightarrow>
                        let a = a\<lparr>xa_tasks := map_option (closeStart i) (xa_tasks a)\<rparr> in
                        case err of
                          Some e \<Rightarrow> Some (Some (HookError e), a)
                        | None \<Rightarrow>
                            (case stopRequested h a of
                               (True, a) \<Rightarrow> Some (Some (errStopDuringStartup ''startup'' a), a)
                             | (False, a) \<Rightarrow> start_loop h ps a)))))"

definition startAll :: "'st host \<Rightarrow> App \<Rightarrow> startup" where
  "startAll h a = start_loop h (positions a) a"

definition criticalTaskCount :: "taskRuntime \<Rightarrow> int" where
  "criticalTaskCount r = tr_criticalTasks r"

definition assertLiveness :: "App \<Rightarrow> app_error option" where
  "assertLiveness a =
     (if (case xa_tasks a of None \<Rightarrow> False | Some r \<Rightarrow> criticalTaskCount r > 0) then None
      else if list_ex HasTrafficPreparation (Instances (xa_owned a)) then None
      else Some (NotLive (map in_identity (Instances (xa_owned a)))))"

definition unhostedWorkloads :: "PlanWorkload list \<Rightarrow> WorkloadKey list" where
  "unhostedWorkloads workloads = map (\<lambda>w. wl_Key (pw_Workload w)) (filter (\<lambda>w. \<not> pw_Hosted w) workloads)"

definition errNothingEnabled :: "Plan \<Rightarrow> app_error" where
  "errNothingEnabled plan =
     (if DefinitionCount (Some plan) = 0 then
        let unhosted = unhostedWorkloads (Workloads (Some plan))
        in if unhosted \<noteq> [] then NothingCarried unhosted else NothingDeclared
      else NothingEnabled (DefinitionCount (Some plan)) (Disabled (Some plan)))"

section \<open>Shutdown\<close>

definition runPreStopPhase :: "'st host \<Rightarrow> App \<Rightarrow> (preStopPhase \<times> App) option" where
  "runPreStopPhase h a =
     (if \<not> xa_trafficOpen a \<or> xa_owned a = None then Some (no_phase, a)
      else
        let budget = se_PreStopTimeout (xa_settings a) in
        if budget \<le> 0 then Some (no_phase, a)
        else
          let deadline = WithTimeout (w_now (xa_world a)) Background budget; started = w_now (xa_world a) in
          map_option (\<lambda>((report, _), w).
              (\<lparr>pp_ran = True, pp_budget = budget, pp_elapsed = w_now w - started, pp_report = report\<rparr>, a\<lparr>xa_world := w\<rparr>))
            (Constructed_PreStop (ho_app h) (xa_owned a) deadline budget (xa_world a)))"

text \<open>
  The callback after a Stop joins the tasks of the plugin. Its state is what the callbacks before it
  left of the task runtime \<open>r\<close>; they are the events after the first \<open>n\<close>. It waits until the tasks have ended, and not past the
  end \<open>e\<close> of the walk's context.
\<close>

fun after_call :: "event \<Rightarrow> identity option" where
  "after_call (AfterStopCalled i) = Some i"
| "after_call e = None"

definition after_calls :: "nat \<Rightarrow> world \<Rightarrow> identity list" where
  "after_calls n w = List.map_filter after_call (drop n (w_events w))"

definition join_scopes :: "'st host \<Rightarrow> identity list \<Rightarrow> taskRuntime \<Rightarrow> taskRuntime" where
  "join_scopes h is r = fold (\<lambda>i r. snd (stopPlugin i (ho_meanwhile h) r)) is r"

definition joining :: "'st host \<Rightarrow> time \<Rightarrow> world \<Rightarrow> identity \<Rightarrow> nat" where
  "joining h e w i = nat (min (int (ho_joining h w i)) (e - w_now w))"

definition afterStop_of :: "'st host \<Rightarrow> taskRuntime option \<Rightarrow> nat \<Rightarrow> time \<Rightarrow> after_stop" where
  "afterStop_of h tasks n e =
     Some (\<lambda>w i.
       case tasks of
         None \<Rightarrow> (0, None)
       | Some r \<Rightarrow>
           (joining h e w i,
            case fst (stopPlugin i (ho_meanwhile h) (join_scopes h (butlast (after_calls n w)) r)) of
              [] \<Rightarrow> None
            | errs \<Rightarrow> Some (ho_text h errs)))"

text \<open>The wait for the tasks that are left when the walk is over has the same end.\<close>

definition drained :: "'st host \<Rightarrow> time \<Rightarrow> world \<Rightarrow> world" where
  "drained h e w = advance (w_now w + max 0 (min (int (ho_draining h w)) (e - w_now w))) w"

definition shutdown_budget :: "App \<Rightarrow> time" where
  "shutdown_budget a = (if se_ShutdownTimeout (xa_settings a) \<le> 0 then 25 * 1000000000 else se_ShutdownTimeout (xa_settings a))"

definition unwind_once :: "'st host \<Rightarrow> App \<Rightarrow> App option" where
  "unwind_once h a =
     (let a = a\<lparr>xa_unwound := True, xa_tasks := map_option closeAdmission (xa_tasks a)\<rparr> in
      case runPreStopPhase h a of
        None \<Rightarrow> None
      | Some (phase, a) \<Rightarrow>
          let budget = shutdown_budget a;
              deadline = WithTimeout (w_now (xa_world a)) Background budget;
              e = w_now (xa_world a) + budget;
              n = length (w_events (xa_world a));
              a = a\<lparr>xa_preStop := phase\<rparr>
          in case (case xa_owned a of
                     None \<Rightarrow> Some ([], a)
                   | Some con \<Rightarrow>
                       map_option (\<lambda>s. (wk_errs s,
                           a\<lparr>xa_owned := Some (wk_con s), xa_world := wk_world s, xa_shutdownReport := wk_report s, xa_drainReport := wk_drain s,
                             xa_tasks := map_option (join_scopes h (after_calls n (wk_world s))) (xa_tasks a)\<rparr>))
                         (UnwindWithDrain (ho_app h) (Some con) deadline budget (se_DrainTimeout (xa_settings a)) (se_StopReserve (xa_settings a))
                           (afterStop_of h (xa_tasks a) n e) (xa_world a))) of
               None \<Rightarrow> None
             | Some (errs, a) \<Rightarrow>
                 (case xa_tasks a of
                    None \<Rightarrow> Some (a\<lparr>xa_unwindErr := (errs, [])\<rparr>)
                  | Some r \<Rightarrow>
                      (case drainRemaining (ho_meanwhile h) r of (left, r) \<Rightarrow>
                        Some (a\<lparr>xa_tasks := Some r, xa_unwindErr := (errs, left), xa_world := drained h e (xa_world a)\<rparr>))))"

definition unwind :: "'st host \<Rightarrow> string \<Rightarrow> App \<Rightarrow> App option" where
  "unwind h reason a =
     (let a = snd (requestStop reason (look h a)) in
      if xa_unwound a then Some a else unwind_once h a)"

definition unwind_errors :: "App \<Rightarrow> app_error list" where
  "unwind_errors a = (case xa_unwindErr a of (errs, left) \<Rightarrow> if errs = [] \<and> left = [] then [] else [UnwindFailed errs left])"

definition abort :: "'st host \<Rightarrow> app_error \<Rightarrow> App \<Rightarrow> (app_error list \<times> App) option" where
  "abort h cause a = map_option (\<lambda>a. (cause # unwind_errors a, a)) (unwind h stopReasonStartupFailed a)"

type_synonym outcome = "(int \<times> app_error list) \<times> App"

definition aborted :: "'st host \<Rightarrow> app_error \<Rightarrow> App \<Rightarrow> outcome option" where
  "aborted h cause a = map_option (\<lambda>(errs, a). ((1, errs), a)) (abort h cause a)"

text \<open>The end of a command that is complete: it unwinds, and its exit code is that of the unwind.\<close>

definition complete :: "'st host \<Rightarrow> string \<Rightarrow> App \<Rightarrow> outcome option" where
  "complete h stage a =
     (case requestStop stopReasonCompleted (look h a) of (won, a) \<Rightarrow>
       let a = look h a in
       if \<not> won \<and> xa_stopReason a \<noteq> stopReasonCompleted then aborted h (errStopDuringStartup stage a) a
       else map_option (\<lambda>a. ((if unwind_errors a = [] then 0 else 1, unwind_errors a), a)) (unwind h stopReasonCompleted a))"

definition validate :: "'st host \<Rightarrow> App \<Rightarrow> outcome option" where
  "validate h a =
     (case preflightAll h a of
        None \<Rightarrow> None
      | Some (Some e, a) \<Rightarrow> aborted h e a
      | Some (None, a) \<Rightarrow> complete h ''validation'' a)"

definition wait :: "'st host \<Rightarrow> App \<Rightarrow> outcome option" where
  "wait h a =
     (let a = look h a in
      case (if xa_stopRequested a then Some a
            else map_option (\<lambda>(reason, cause). snd (requestStopWithCause reason cause a)) (ho_final h)) of
        None \<Rightarrow> None
      | Some a \<Rightarrow>
          let reason = xa_stopReason a in
          map_option (\<lambda>a.
              (if unwind_errors a \<noteq> [] then (1, unwind_errors a)
               else if reason = stopReasonCritical \<or> reason = stopReasonStartupFailed then (1, [StoppedAfter reason])
               else (0, []), a))
            (unwind h reason a))"

section \<open>Execution\<close>

text \<open>From a constructed graph on.\<close>

definition serve :: "'st host \<Rightarrow> App \<Rightarrow> outcome option" where
  "serve h a =
     (case startAll h a of
        None \<Rightarrow> None
      | Some (Some e, a) \<Rightarrow> aborted h e a
      | Some (None, a) \<Rightarrow>
     (case prepareTraffic h a of
        None \<Rightarrow> None
      | Some (Some e, a) \<Rightarrow> aborted h e a
      | Some (None, a) \<Rightarrow>
     (case releaseTraffic h a of
        (False, a) \<Rightarrow> aborted h (errStopDuringStartup ''traffic gate release'' a) a
      | (True, a) \<Rightarrow>
     (case assertLiveness a of
        Some e \<Rightarrow> aborted h e a
      | None \<Rightarrow> wait h a))))"

definition run_constructed :: "'st host \<Rightarrow> command \<Rightarrow> App \<Rightarrow> outcome option" where
  "run_constructed h cmd a =
     (case ensureStarting h ''construction'' a of
        (Some e, a) \<Rightarrow> aborted h e a
      | (None, a) \<Rightarrow>
          if cmd_subcommand cmd = validateSubcommand then validate h a
          else
            (case (if wantsMigration cmd (se_AutoMigrate (xa_settings a)) then migrateAll h a else Some (None, a)) of
               None \<Rightarrow> None
             | Some (Some e, a) \<Rightarrow> aborted h e a
             | Some (None, a) \<Rightarrow>
                 if cmd_subcommand cmd = migrateSubcommand then complete h ''migration'' a
                 else serve h a))"

text \<open>The closures that \<^verbatim>\<open>bootstrap\<close> installed read the plan once it is there.\<close>

definition set_plan :: "Plan \<Rightarrow> App \<Rightarrow> App" where
  "set_plan plan a = a\<lparr>xa_plan := Some plan,
     xa_tasks := map_option (\<lambda>r. r\<lparr>tr_attribute := Some (app_workloadOf (Some plan)), tr_hosted := Some (hostsWorkload (Some plan))\<rparr>) (xa_tasks a)\<rparr>"

definition construct_options :: "App \<Rightarrow> ConstructOptions" where
  "construct_options a = \<lparr>co_ContextFactory = Some (\<lambda>_ _. Some 0), co_ShutdownTimeout = se_ShutdownTimeout (xa_settings a),
     co_Service = settings_ServiceIdentity (xa_settings a), co_OnStageBegin = True\<rparr>"

text \<open>
  A placement source may block when it is asked, which needs the workload sections, and when it releases; the static source
  answers and has nothing to release.
\<close>

definition resolve_blocks :: "'st host \<Rightarrow> App \<Rightarrow> 'st \<Rightarrow> bool" where
  "resolve_blocks h a st \<longleftrightarrow> ho_source h \<noteq> None \<and> \<not> isl (ReadWorkloadSections (ho_ops h) (ho_heap h) (ho_bundles h) (xa_env a)) \<and>
     \<not> ho_resolves h st"

definition release_blocks :: "'st host \<Rightarrow> 'st \<Rightarrow> bool" where
  "release_blocks h st \<longleftrightarrow> ps_Release (app_placement (ho_source h)) \<noteq> None \<and> \<not> ho_releases h st"

definition run_placed :: "'st host \<Rightarrow> command \<Rightarrow> 'st \<Rightarrow> App \<Rightarrow> (outcome \<times> 'st) option" where
  "run_placed h cmd st a =
     (if resolve_blocks h a st then None
      else case resolvePlacement (ho_ops h) (ho_heap h) (ho_bundles h) (xa_env a) (settings_Instance (xa_settings a)) (ho_source h) st of
        (Inl e, st) \<Rightarrow> Some (((1, [PlacementFailed e]), a), st)
      | (Inr placement, st) \<Rightarrow>
     (case BuildPlan (ho_ops h) (ho_logger h) (ho_heap h)
             \<lparr>po_Bundles = ho_bundles h, po_Env = xa_env a, po_Logger = Some (ho_logger h), po_Placement = placement\<rparr> of
        None \<Rightarrow> None
      | Some (Inl e) \<Rightarrow> Some (((1, [PlanFailed e]), a), st)
      | Some (Inr plan) \<Rightarrow>
          let a = set_plan plan a in
          if cmd_subcommand cmd = doctorSubcommand then Some (((0, []), a), st)
          else if Order (Some plan) = [] then Some (((1, [errNothingEnabled plan]), a), st)
          else
            (case ensureStarting h ''planning'' a of
               (Some e, a) \<Rightarrow> Some (((1, [e]), a), st)
             | (None, a) \<Rightarrow>
                 (case Construct (ho_app h) (xa_plan a) (construct_options a) (xa_world a) of
                    None \<Rightarrow> None
                  | Some (Inl errs, w) \<Rightarrow> Some (((1, [ConstructionFailed errs]), a\<lparr>xa_world := w\<rparr>), st)
                  | Some (Inr con, w) \<Rightarrow>
                      map_option (\<lambda>out. (out, ho_running h st)) (run_constructed h cmd (a\<lparr>xa_owned := Some con, xa_world := w\<rparr>))))))"

definition bootstrap_with :: "'st host \<Rightarrow> command \<Rightarrow> App \<Rightarrow> (string, environment) result \<Rightarrow> app_error option \<times> App" where
  "bootstrap_with h cmd a loaded =
     (case loaded of
        Inl e \<Rightarrow> (Some (LoadFailed e), a)
      | Inr env \<Rightarrow>
     (case loadSettings (ho_machine h) (ho_bind h) env of
        Inl e \<Rightarrow> (Some (SettingsFailed e), a)
      | Inr (settings, env) \<Rightarrow>
     (case (if cmd_subcommand cmd = doctorSubcommand then None else ho_logInit h (settings_ServiceIdentity settings)) of
        Some e \<Rightarrow> (Some (LoggingFailed e), a)
      | None \<Rightarrow>
     (case resolveRuntimeKnobs (ho_machine h) (se_Runtime settings) defaultCgroupRoot of
        Inl e \<Rightarrow> (Some (SettingsFailed e), a)
      | Inr knobs \<Rightarrow>
          let a = (if cmd_subcommand cmd \<noteq> doctorSubcommand then a\<lparr>xa_process := applyRuntimeKnobs knobs (xa_process a)\<rparr> else a) in
          (case workloadTaskLimits (ho_ops h) (ho_heap h) (ho_bundles h) (Some env) of
             Inl e \<Rightarrow> (Some (TaskLimitsFailed e), a)
           | Inr limits \<Rightarrow>
               let tasks = configureWorkloadBudget limits (Some (app_workloadOf None)) (Some (hostsWorkload None)) newTaskRuntime;
                   a = look h (a\<lparr>xa_env := Some env, xa_settings := settings\<rparr>)
               in (None, a\<lparr>xa_tasks := Some tasks\<rparr>))))))"

definition bootstrap :: "'st host \<Rightarrow> command \<Rightarrow> App \<Rightarrow> startup" where
  "bootstrap h cmd a = map_option (bootstrap_with h cmd a) (ho_load h cmd)"

text \<open>
  The parent context is \<open>None\<close> when nil and otherwise carries its error. The last component is the
  state of the placement source and whether the run released it.
\<close>

definition execute :: "'st host \<Rightarrow> string option option \<Rightarrow> string list \<Rightarrow> 'st \<Rightarrow> App \<Rightarrow> (outcome \<times> 'st \<times> bool) option" where
  "execute h parent args st a =
     (case parent of
        None \<Rightarrow> Some (((1, [NilExecuteContext]), a), st, False)
      | Some perr \<Rightarrow>
          if xa_executed a then Some (((1, [ExecutedTwice]), a), st, False)
          else
            let a = a\<lparr>xa_executed := True\<rparr> in
            case perr of
              Some e \<Rightarrow> Some (((1, [CancelledBefore e]), a), st, False)
            | None \<Rightarrow>
                let a = a\<lparr>xa_cancelExec := True\<rparr> in
                (case parseArgs (ho_getenv h) args ''XBC_'' (ho_commands h) of
                   Inl e \<Rightarrow> Some (((2, [Usage e]), a), st, False)
                 | Inr cmd \<Rightarrow>
                (case ensureStarting h ''command parsing'' a of
                   (Some e, a) \<Rightarrow> Some (((1, [e]), a), st, False)
                 | (None, a) \<Rightarrow>
                (case bootstrap h cmd a of
                   None \<Rightarrow> None
                 | Some (Some e, a) \<Rightarrow> Some (((1, [e]), a), st, False)
                 | Some (None, a) \<Rightarrow>
                (case ensureStarting h ''bootstrapping'' a of
                   (Some e, a) \<Rightarrow> Some (((1, [e]), a), st, False)
                 | (None, a) \<Rightarrow>
                (case lookupCommand (ho_commands h) (cmd_subcommand cmd) of
                   Some c \<Rightarrow>
                     (case ho_run h (cc_name c) (cmd_args cmd) of
                        None \<Rightarrow> None
                      | Some (Some e) \<Rightarrow> Some (((1, [CommandFailed (cc_name c) e]), a), st, False)
                      | Some None \<Rightarrow> Some (((0, []), a), st, False))
                 | None \<Rightarrow>
                     (case run_placed h cmd st a of
                        None \<Rightarrow> None
                      | Some (out, st) \<Rightarrow>
                          if release_blocks h st then None
                          else Some (out, fst (snd (releasePlacement (ho_source h) st)), True))))))))"

end
