(* ===== verification/Scopes.thy ===== *)
theory Scopes
  imports Tasks
begin

text \<open>
  Joining the task scopes of a process that shuts down (\<^verbatim>\<open>stopPlugin\<close> and \<^verbatim>\<open>drainRemaining\<close> of \<^verbatim>\<open>runtime/task.go\<close>): a scope is
  forgotten when it is joined, whether or not its tasks have ended, so that a task can be left behind; but then the join
  reports it. \<open>tracks\<close> is the invariant that every group with a task that has not ended can still be joined.
\<close>

section \<open>What tasks do while a scope is joined\<close>

text \<open>Steps of the goroutines other than the one that joins: they detach no group.\<close>

definition own_step :: "task_sys \<Rightarrow> task_sys \<Rightarrow> bool" where
  "own_step s s' \<longleftrightarrow> task_step s s' \<and>
     (\<forall>i g. gm_get (tr_groups (ts_runtime s)) i = Some g \<longrightarrow> gm_get (tr_groups (ts_runtime s')) i = Some g)"

text \<open>Whenever the counters are those of some tasks, \<open>during\<close> is what such tasks may do.\<close>

definition tasks_only :: "(taskRuntime \<Rightarrow> taskRuntime) \<Rightarrow> bool" where
  "tasks_only during \<longleftrightarrow> (\<forall>r. (\<exists>s. ts_runtime s = r \<and> groups_ok s) \<longrightarrow>
     (\<exists>s s'. ts_runtime s = r \<and> groups_ok s \<and> own_step\<^sup>*\<^sup>* s s' \<and> ts_runtime s' = during r))"

definition settled :: "taskRuntime \<Rightarrow> bool" where
  "settled r \<longleftrightarrow> tr_closed r \<and> tr_shuttingDown r \<and> tr_admitting r = []"

definition consistent :: "taskRuntime \<Rightarrow> bool" where
  "consistent r \<longleftrightarrow> (\<forall>i g. gm_get (tr_groups r) i = Some g \<longrightarrow> g < length (tr_heap r)) \<and>
     (\<forall>g < length (tr_heap r). 0 \<le> pt_wg (tr_heap r ! g))"

definition tracks :: "taskRuntime \<Rightarrow> bool" where
  "tracks r \<longleftrightarrow> consistent r \<and>
     (\<forall>g < length (tr_heap r). pt_wg (tr_heap r ! g) \<noteq> 0 \<longrightarrow> (\<exists>i. gm_get (tr_groups r) i = Some g))"

definition no_task_left :: "taskRuntime \<Rightarrow> bool" where
  "no_task_left r \<longleftrightarrow> (\<forall>g \<in> set (tr_heap r). pt_wg g = 0)"

section \<open>Steps of a runtime whose admission is closed\<close>

lemma closed_step:
  assumes "task_step s s'" and closed: "tr_closed (ts_runtime s)"
  shows "length (tr_heap (ts_runtime s')) = length (tr_heap (ts_runtime s)) \<and>
    set (ts_running s' @ ts_ending s') \<subseteq> set (ts_running s @ ts_ending s) \<and>
    (\<forall>i g. gm_get (tr_groups (ts_runtime s')) i = Some g \<longrightarrow> gm_get (tr_groups (ts_runtime s)) i = Some g) \<and>
    (tr_groups (ts_runtime s) = [] \<longrightarrow> tr_groups (ts_runtime s') = [])"
  using assms(1)
proof (cases rule: task_step.cases)
  case (submits i fn critical t r)
  with closed show ?thesis by (simp add: submit_closed)
next
  case (refuses i fn critical r)
  with submit_None [OF refuses(2)] show ?thesis by auto
next
  case (opens i okay r)
  then show ?thesis by (auto simp: openStart_def Let_def split: if_splits)
next
  case (judges xs t ys outcome)
  then show ?thesis by (auto simp: task_judge_heap)
qed (auto simp: closeStart_def announceShutdown_def closeAdmission_def group_cancel_def task_return_def put_budget_def gm_del_def
    delete_conv' split: if_splits)

lemma own_steps:
  assumes "own_step\<^sup>*\<^sup>* s s'" "groups_ok s" "tr_closed (ts_runtime s)"
  shows "groups_ok s' \<and> tr_closed (ts_runtime s') \<and> length (tr_heap (ts_runtime s')) = length (tr_heap (ts_runtime s)) \<and>
    set (ts_running s' @ ts_ending s') \<subseteq> set (ts_running s @ ts_ending s) \<and>
    (\<forall>i. gm_get (tr_groups (ts_runtime s')) i = gm_get (tr_groups (ts_runtime s)) i) \<and>
    (tr_groups (ts_runtime s) = [] \<longrightarrow> tr_groups (ts_runtime s') = [])"
  using assms
proof (induction rule: rtranclp_induct)
  case (step t u)
  have tu: "task_step t u" and keep: "\<And>i g. gm_get (tr_groups (ts_runtime t)) i = Some g \<Longrightarrow> gm_get (tr_groups (ts_runtime u)) i = Some g"
    using step.hyps(2) by (auto simp: own_step_def)
  have t: "tr_closed (ts_runtime t)" using step by blast
  note c = closed_step [OF tu t]
  have "gm_get (tr_groups (ts_runtime u)) i = gm_get (tr_groups (ts_runtime t)) i" for i
    using c keep [of i] by (cases "gm_get (tr_groups (ts_runtime u)) i"; cases "gm_get (tr_groups (ts_runtime t)) i") auto
  moreover have "groups_ok u" "tr_closed (ts_runtime u)" using step groups_step [OF tu] closed_stays [OF tu t] by blast+
  moreover have "set (ts_running u @ ts_ending u) \<subseteq> set (ts_running s @ ts_ending s)" using step c by (meson subset_trans)
  moreover have "tr_groups (ts_runtime s) = [] \<longrightarrow> tr_groups (ts_runtime u) = []" using step c by blast
  ultimately show ?case using step c by metis
qed simp

text \<open>A consistent runtime is that of some tasks.\<close>

definition fabricated :: "taskRuntime \<Rightarrow> running_task list" where
  "fabricated r = concat (map (\<lambda>g. replicate (nat (pt_wg (tr_heap r ! g)))
     \<lparr>rt_identity = Identity [] [], rt_group = g, rt_critical = False, rt_charged = [], rt_workload = []\<rparr>) [0..<length (tr_heap r)])"

lemma fabricated_count:
  "length (filter (\<lambda>t. rt_group t = g) (fabricated r)) = (if g < length (tr_heap r) then nat (pt_wg (tr_heap r ! g)) else 0)"
proof -
  have "length (filter (\<lambda>t. rt_group t = g) (concat (map (\<lambda>g. replicate (f g)
      \<lparr>rt_identity = Identity [] [], rt_group = g, rt_critical = False, rt_charged = [], rt_workload = []\<rparr>) [0..<n]))) =
      (if g < n then f g else 0)" for f n
    by (induction n) (auto simp: filter_replicate less_Suc_eq)
  then show ?thesis by (simp add: fabricated_def)
qed

lemma consistent_sys:
  assumes "consistent r" "tr_closed r \<longrightarrow> settled r"
  shows "\<exists>s. ts_runtime s = r \<and> groups_ok s"
proof -
  let ?s = "\<lparr>ts_runtime = r, ts_running = fabricated r, ts_ending = [], ts_units = []\<rparr>"
  have "rt_group t < length (tr_heap r)" if "t \<in> set (fabricated r)" for t using that by (auto simp: fabricated_def)
  then have "groups_ok ?s" using assms unfolding groups_ok_def Let_def
    by (auto simp: fabricated_count consistent_def settled_def)
  then show ?thesis by (intro exI [of _ ?s]) simp
qed

lemma during_result:
  assumes during: "tasks_only during" and r: "settled r" "consistent r"
  shows "settled (during r)" and "consistent (during r)" and "length (tr_heap (during r)) = length (tr_heap r)"
    and "gm_get (tr_groups (during r)) i = gm_get (tr_groups r) i"
    and "g < length (tr_heap r) \<Longrightarrow> pt_wg (tr_heap r ! g) = 0 \<Longrightarrow> pt_wg (tr_heap (during r) ! g) = 0"
    and "tr_groups r = [] \<Longrightarrow> tr_groups (during r) = []"
proof -
  obtain s s' where s: "ts_runtime s = r" "groups_ok s" "own_step\<^sup>*\<^sup>* s s'" "ts_runtime s' = during r"
    using during consistent_sys [OF r(2)] r(1) unfolding tasks_only_def by blast
  note o = own_steps [OF s(3,2), unfolded s(1,4)]
  have closed: "tr_closed r" using r(1) by (simp add: settled_def)
  have ok: "groups_ok s'" using o closed by blast
  note d = groups_okD [OF ok, unfolded s(4)]
  show "settled (during r)" using o closed d(4) by (simp add: settled_def)
  show "consistent (during r)" using d(2,3) by (simp add: consistent_def)
  show "length (tr_heap (during r)) = length (tr_heap r)" "gm_get (tr_groups (during r)) i = gm_get (tr_groups r) i"
    "tr_groups r = [] \<Longrightarrow> tr_groups (during r) = []" using o closed by simp_all
  assume g: "g < length (tr_heap r)" "pt_wg (tr_heap r ! g) = 0"
  then have "int (length (filter (\<lambda>t. rt_group t = g) (ts_running s @ ts_ending s))) = 0"
    using groups_okD(3) [OF s(2), of g] s(1) by simp
  then have "length (filter (\<lambda>t. rt_group t = g) (ts_running s @ ts_ending s)) = 0" by (rule of_nat_eq_0_iff [THEN iffD1])
  then have none: "\<forall>t \<in> set (ts_running s @ ts_ending s). rt_group t \<noteq> g"
    unfolding length_0_conv filter_empty_conv .
  have "set (ts_running s' @ ts_ending s') \<subseteq> set (ts_running s @ ts_ending s)" using o closed by blast
  with none have "\<forall>t \<in> set (ts_running s' @ ts_ending s'). rt_group t \<noteq> g" by (meson subsetD)
  then have empty: "filter (\<lambda>t. rt_group t = g) (ts_running s' @ ts_ending s') = []" unfolding filter_empty_conv .
  have "g < length (tr_heap (during r))" using o closed g(1) by simp
  from d(3) [OF this] show "pt_wg (tr_heap (during r) ! g) = 0" unfolding empty by simp
qed

section \<open>Joining scopes\<close>

lemma group_cancel_simps [simp]:
  "tr_closed (group_cancel g r) = tr_closed r" "tr_groups (group_cancel g r) = tr_groups r" "settled (group_cancel g r) = settled r"
  "length (tr_heap (group_cancel g r)) = length (tr_heap r)" "pt_wg (tr_heap (group_cancel g r) ! k) = pt_wg (tr_heap r ! k)"
  by (simp_all add: group_cancel_def settled_def nth_list_update) (cases "g < length (tr_heap r)"; cases "g = k"; simp add: list_update_beyond)

lemma consistent_cancel [simp]: "consistent (group_cancel g r) = consistent r"
  by (simp add: consistent_def)

lemma consistent_fewer:
  "consistent r \<Longrightarrow> (\<And>i g. gm_get gs i = Some g \<Longrightarrow> gm_get (tr_groups r) i = Some g) \<Longrightarrow> consistent (r\<lparr>tr_groups := gs\<rparr>)"
  by (auto simp: consistent_def)

lemma waitTasks_empty: "waitTasks g owner = [] \<Longrightarrow> pt_wg g = 0"
  by (auto simp: waitTasks_def split: if_splits)

lemma stopPlugin_result:
  assumes m: "tasks_only during" and r: "settled r" "consistent r" and run: "stopPlugin i during r = (errs, r')"
  shows "settled r'" and "consistent r'" and "tracks r \<Longrightarrow> errs = [] \<Longrightarrow> tracks r'"
proof -
  let ?i = "Normalized i"
  let ?r = "r\<lparr>tr_groups := gm_del ?i (tr_groups r)\<rparr>"
  have base: "settled ?r" "consistent ?r" using r by (auto simp: settled_def intro!: consistent_fewer split: if_splits)
  have "settled r' \<and> consistent r' \<and> (tracks r \<and> errs = [] \<longrightarrow> tracks r')"
  proof (cases "gm_get (tr_groups r) ?i")
    case None
    with run have "r' = ?r" by (simp add: stopPlugin_def Let_def)
    moreover have "gm_get (gm_del ?i (tr_groups r)) j = gm_get (tr_groups r) j" for j using None by simp
    ultimately show ?thesis using base by (auto simp: tracks_def)
  next
    case (Some g)
    let ?c = "group_cancel g ?r"
    have r': "r' = during ?c" "errs = waitTasks (tr_heap r' ! g) ?i"
      using run Some by (auto simp: stopPlugin_def Let_def)
    have c: "settled ?c" "consistent ?c" using base by simp_all
    note d = during_result [OF m c, folded r'(1)]
    have "tracks r'" if t: "tracks r" "errs = []"
      unfolding tracks_def
    proof (intro conjI allI impI)
      fix k assume k: "k < length (tr_heap r')" "pt_wg (tr_heap r' ! k) \<noteq> 0"
      have kr: "k < length (tr_heap r)" "pt_wg (tr_heap r ! k) \<noteq> 0" using k d(3) d(5) [of k] by auto
      then obtain j where j: "gm_get (tr_groups r) j = Some k" using t(1) by (auto simp: tracks_def)
      have "k \<noteq> g" using k(2) waitTasks_empty r'(2) t(2) by metis
      then have "j \<noteq> ?i" using j Some by auto
      then show "\<exists>j. gm_get (tr_groups r') j = Some k" using j by (intro exI [of _ j]) (simp add: d(4))
    qed (rule d(2))
    then show ?thesis using d(1,2) by blast
  qed
  then show "settled r'" "consistent r'" "tracks r \<Longrightarrow> errs = [] \<Longrightarrow> tracks r'" by blast+
qed

lemma drain_groups_result:
  assumes m: "tasks_only during"
  shows "settled r \<Longrightarrow> consistent r \<Longrightarrow> tr_groups r = [] \<Longrightarrow> drain_groups gs during r = (errs, r') \<Longrightarrow>
    settled r' \<and> tr_groups r' = [] \<and> length (tr_heap r') = length (tr_heap r) \<and>
    ((\<forall>g < length (tr_heap r). pt_wg (tr_heap r ! g) \<noteq> 0 \<longrightarrow> g \<in> snd ` set gs) \<and> errs = [] \<longrightarrow> no_task_left r')"
proof (induction gs arbitrary: r errs)
  case Nil
  then show ?case by (auto simp: no_task_left_def in_set_conv_nth)
next
  case (Cons ig gs)
  obtain i g where ig: "ig = (i, g)" by (cases ig)
  let ?c = "group_cancel g r"
  have c: "settled ?c" "consistent ?c" "tr_groups ?c = []" using Cons.prems by simp_all
  note d = during_result [OF m c(1,2)]
  obtain rest where rest: "drain_groups gs during (during ?c) = (rest, r')" "errs = waitTasks (tr_heap (during ?c) ! g) i @ rest"
    using Cons.prems(4) by (auto simp: ig Let_def split: prod.splits)
  note IH = Cons.IH [OF d(1,2) d(6) [OF c(3)] rest(1)]
  have "no_task_left r'" if h: "\<forall>k < length (tr_heap r). pt_wg (tr_heap r ! k) \<noteq> 0 \<longrightarrow> k \<in> snd ` set (ig # gs)" "errs = []"
  proof -
    have "k \<in> snd ` set gs" if k: "k < length (tr_heap (during ?c))" "pt_wg (tr_heap (during ?c) ! k) \<noteq> 0" for k
    proof -
      have "k < length (tr_heap r)" "pt_wg (tr_heap r ! k) \<noteq> 0" using k d(3) d(5) [of k] by auto
      then have "k \<in> snd ` set (ig # gs)" using h(1) by blast
      moreover have "k \<noteq> g" using k(2) rest(2) h(2) waitTasks_empty [of "tr_heap (during ?c) ! g" i] by auto
      ultimately show ?thesis by (simp add: ig)
    qed
    with IH rest(2) h(2) show ?thesis by blast
  qed
  with IH d(3) show ?case by simp
qed

text \<open>When no join reports anything, no task is left.\<close>

lemma drainRemaining_result:
  assumes m: "tasks_only during" and r: "settled r" "consistent r" and run: "drainRemaining during r = (left, r')"
  shows "settled r' \<and> tr_groups r' = [] \<and> (tracks r \<and> left = [] \<longrightarrow> no_task_left r')"
proof -
  have b: "settled (r\<lparr>tr_groups := []\<rparr>)" "consistent (r\<lparr>tr_groups := []\<rparr>)"
    using r by (auto simp: settled_def intro!: consistent_fewer)
  have "g \<in> snd ` set (tr_groups r)" if "gm_get (tr_groups r) i = Some g" for i g using map_of_SomeD [OF that] by force
  then have "tracks r \<Longrightarrow> \<forall>g < length (tr_heap r). pt_wg (tr_heap r ! g) \<noteq> 0 \<longrightarrow> g \<in> snd ` set (tr_groups r)"
    unfolding tracks_def by blast
  with drain_groups_result [OF m b _ run [unfolded drainRemaining_def]] show ?thesis by auto
qed

section \<open>Startup keeps every group in reach\<close>

lemma tracks_same: "tr_heap r' = tr_heap r \<Longrightarrow> tr_groups r' = tr_groups r \<Longrightarrow> tracks r' = tracks r"
  by (simp add: tracks_def consistent_def)

lemma tracks_simps [simp]:
  "tracks (closeAdmission r) = tracks r" "tracks (closeStart i r) = tracks r"
  "tracks (r\<lparr>tr_attribute := x, tr_hosted := y\<rparr>) = tracks r" "tracks (r\<lparr>tr_budget := b\<rparr>) = tracks r"
  by (rule tracks_same; simp add: closeAdmission_def announceShutdown_def closeStart_def)+

lemma settled_closeAdmission [simp]: "settled (closeAdmission r)"
  by (simp add: settled_def closeAdmission_def announceShutdown_def)

lemma tracks_open: "openStart i r = (okay, r') \<Longrightarrow> tracks r' = tracks r"
  by (rule tracks_same) (auto simp: openStart_def Let_def split: if_splits)

lemma tracks_start: "tracks (configureWorkloadBudget limits attribute hosted newTaskRuntime)"
  by (simp add: tracks_def consistent_def configureWorkloadBudget_def newTaskRuntime_def)

text \<open>An accepted task is in a group that can be joined, and no other group goes out of reach.\<close>

lemma submit_reach:
  assumes "submit i fn critical r = (Some t, r')"
  shows "(\<exists>j. gm_get (tr_groups r') j = Some (rt_group t)) \<and> (\<forall>k g. gm_get (tr_groups r) k = Some g \<longrightarrow> gm_get (tr_groups r') k = Some g)"
proof -
  obtain c b where ch: "charge (task_workloadOf (Normalized i) r) (tr_budget r) = ((c, None), b)"
    using assms by (auto simp: submit_def Let_def split: if_splits prod.splits option.splits)
  show ?thesis
  proof (cases "gm_get (tr_groups r) (Normalized i)")
    case None
    with assms show ?thesis by (auto simp: submit_def Let_def ch split: if_splits)
  next
    case (Some g)
    with assms show ?thesis by (auto simp: submit_def Let_def ch split: if_splits)
  qed
qed

lemma tracks_submit:
  assumes "tracks r"
  shows "tracks (snd (submit i fn critical r))"
proof (cases "submit i fn critical r")
  case (Pair out r')
  show ?thesis
  proof (cases out)
    case None
    with Pair submit_None [of i fn critical r r'] assms show ?thesis by auto
  next
    case (Some t)
    have refs: "\<forall>i g. gm_get (tr_groups r) i = Some g \<longrightarrow> g < length (tr_heap r)" using assms by (simp add: tracks_def consistent_def)
    note s = submit_groups [OF Pair [unfolded Some] refs]
    obtain j where j: "gm_get (tr_groups r') j = Some (rt_group t)"
      and keep: "\<And>i g. gm_get (tr_groups r) i = Some g \<Longrightarrow> \<exists>i. gm_get (tr_groups r') i = Some g"
      using submit_reach [OF Pair [unfolded Some]] by metis
    have nonneg: "0 \<le> pt_wg (tr_heap r' ! g)" if "g < length (tr_heap r')" for g
      using s(6) [OF that] assms by (auto simp: tracks_def consistent_def)
    have "\<exists>i. gm_get (tr_groups r') i = Some g" if g: "g < length (tr_heap r')" "pt_wg (tr_heap r' ! g) \<noteq> 0" for g
    proof (cases "g = rt_group t")
      case False
      with s(6,7) [OF g(1)] g(2) have "g < length (tr_heap r)" "pt_wg (tr_heap r ! g) \<noteq> 0" by (auto split: if_splits)
      with assms keep show ?thesis by (auto simp: tracks_def)
    qed (use j in blast)
    with s(5) nonneg Pair show ?thesis by (simp add: tracks_def consistent_def)
  qed
qed

end
