(* ===== verification/RunSafety.thy ===== *)
theory RunSafety
  imports Execute Scopes
begin

text \<open>
  What a run of the application guarantees: the invariant of the startup stages, what the unwind leaves, exit
  codes, and that a run returns when the application code it waits for does.
\<close>

section \<open>What stop requests leave alone\<close>

text \<open>The task runtime is there, and every task that has not ended is in a group it can join.\<close>

definition tracked :: "App \<Rightarrow> bool" where
  "tracked a \<longleftrightarrow> (\<exists>r. xa_tasks a = Some r \<and> tracks r)"

lemma tracked_tasks [simp]: "tracked (a\<lparr>xa_tasks := Some r\<rparr>) = tracks r"
  by (simp add: tracked_def)

lemma requestStop_simps [simp]:
  "xa_owned (snd (requestStopWithCause r c a)) = xa_owned a" "xa_world (snd (requestStopWithCause r c a)) = xa_world a"
  "xa_settings (snd (requestStopWithCause r c a)) = xa_settings a" "xa_trafficOpen (snd (requestStopWithCause r c a)) = xa_trafficOpen a"
  "xa_unwound (snd (requestStopWithCause r c a)) = xa_unwound a" "xa_executed (snd (requestStopWithCause r c a)) = xa_executed a"
  "xa_looks (snd (requestStopWithCause r c a)) = xa_looks a" "xa_stopRequested (snd (requestStopWithCause r c a))"
  "xa_env (snd (requestStopWithCause r c a)) = xa_env a" "xa_plan (snd (requestStopWithCause r c a)) = xa_plan a"
  "(xa_tasks (snd (requestStopWithCause r c a)) = None) = (xa_tasks a = None)"
  "xa_cancelExec (snd (requestStopWithCause r c a)) = xa_cancelExec a" "tracked (snd (requestStopWithCause r c a)) = tracked a"
  by (auto simp: requestStopWithCause_def tracked_def)

lemma requestStop_first:
  "xa_stopRequested a \<Longrightarrow> snd (requestStopWithCause r c a) = a"
  by (simp add: requestStopWithCause_def)

abbreviation arrivals :: "(string \<times> string option) list \<Rightarrow> App \<Rightarrow> App" where
  "arrivals rs a \<equiv> fold (\<lambda>(reason, cause) a. snd (requestStopWithCause reason cause a)) rs a"

lemma arrivals_simps:
  "xa_owned (arrivals rs a) = xa_owned a \<and> xa_world (arrivals rs a) = xa_world a \<and> xa_settings (arrivals rs a) = xa_settings a \<and>
   xa_trafficOpen (arrivals rs a) = xa_trafficOpen a \<and> xa_unwound (arrivals rs a) = xa_unwound a \<and> xa_executed (arrivals rs a) = xa_executed a \<and>
   xa_env (arrivals rs a) = xa_env a \<and> xa_plan (arrivals rs a) = xa_plan a \<and> (xa_tasks (arrivals rs a) = None) = (xa_tasks a = None) \<and>
   xa_cancelExec (arrivals rs a) = xa_cancelExec a \<and> tracked (arrivals rs a) = tracked a \<and>
   (xa_stopRequested a \<longrightarrow> xa_stopRequested (arrivals rs a) \<and> xa_stopReason (arrivals rs a) = xa_stopReason a)"
proof (induction rs arbitrary: a)
  case (Cons r rs)
  obtain reason cause where r: "r = (reason, cause)" by (cases r)
  show ?case using Cons.IH [of "snd (requestStopWithCause reason cause a)"] by (cases "xa_stopRequested a") (simp_all add: r requestStop_first)
qed simp

lemma look_simps [simp]:
  "xa_owned (look h a) = xa_owned a" "xa_world (look h a) = xa_world a" "xa_settings (look h a) = xa_settings a"
  "xa_trafficOpen (look h a) = xa_trafficOpen a" "xa_unwound (look h a) = xa_unwound a" "xa_executed (look h a) = xa_executed a"
  "xa_env (look h a) = xa_env a" "xa_plan (look h a) = xa_plan a" "(xa_tasks (look h a) = None) = (xa_tasks a = None)"
  "tracked (look h a) = tracked a"
  using arrivals_simps [of "ho_stops h (xa_looks a)" a] by (simp_all add: look_def tracked_def)

lemma look_stop: "xa_stopRequested a \<Longrightarrow> xa_stopRequested (look h a) \<and> xa_stopReason (look h a) = xa_stopReason a"
  using arrivals_simps [of "ho_stops h (xa_looks a)" a] by (simp add: look_def)

section \<open>Calls of hooks\<close>

fun hook_call :: "Stage \<Rightarrow> event \<Rightarrow> identity option" where
  "hook_call stage (HookCalled s i) = (if s = stage then Some i else None)"
| "hook_call stage e = None"

definition hook_calls :: "Stage \<Rightarrow> world \<Rightarrow> identity list" where
  "hook_calls stage w = List.map_filter (hook_call stage) (w_events w)"

lemma hook_calls_emit [simp]:
  "hook_calls stage (emit e w) = hook_calls stage w @ (case hook_call stage e of None \<Rightarrow> [] | Some i \<Rightarrow> [i])"
  by (simp add: hook_calls_def map_filter_simps List.map_filter_def split: option.splits)

lemma hook_calls_other [simp]:
  "hook_calls stage (advance t w) = hook_calls stage w" "hook_calls stage (w\<lparr>w_store := st\<rparr>) = hook_calls stage w"
  by (simp_all add: hook_calls_def)

lemma hook_calls_drained [simp]: "hook_calls stage (drained h e w) = hook_calls stage w"
  by (simp add: drained_def)

lemma stop_calls_hook: "stop_calls w = hook_calls StageStop w"
proof -
  have "stop_call e = hook_call StageStop e" for e
  proof (cases e)
    case (HookCalled s i)
    then show ?thesis by (cases s) auto
  qed auto
  then have "stop_call = hook_call StageStop" by (rule ext)
  then show ?thesis by (simp add: stop_calls_def hook_calls_def)
qed

text \<open>What identifies an instance through its startup: everything but its timings.\<close>

definition untimed :: "Instance_data \<Rightarrow> Instance_data" where
  "untimed x = x\<lparr>in_timings := []\<rparr>"

definition same_instances :: "Constructed \<Rightarrow> Constructed \<Rightarrow> bool" where
  "same_instances c d \<longleftrightarrow> map untimed (con_instances c) = map untimed (con_instances d) \<and> con_byIdentity c = con_byIdentity d"

lemma same_instances_refl [simp]: "same_instances c c"
  by (simp add: same_instances_def)

lemma same_instances_trans: "same_instances c d \<Longrightarrow> same_instances d e \<Longrightarrow> same_instances c e"
  by (simp add: same_instances_def)

lemma same_instances_map:
  assumes "same_instances c d" and "\<And>x. f (untimed x) = f x"
  shows "map f (con_instances c) = map f (con_instances d)"
proof -
  have "map f xs = map f (map untimed xs)" for xs using assms(2) by simp
  with assms(1) show ?thesis unfolding same_instances_def by metis
qed

lemma same_instances_ids: "same_instances c d \<Longrightarrow> con_identities c = con_identities d"
  by (rule same_instances_map) (simp_all add: untimed_def)

lemma same_instances_filter:
  assumes "same_instances c d" and "\<And>x. P (untimed x) = P x"
  shows "map in_identity (filter P (con_instances c)) = map in_identity (filter P (con_instances d))"
proof -
  have "map in_identity (filter P xs) = map in_identity (filter P (map untimed xs))" for xs
    using assms(2) by (induction xs) (auto simp: untimed_def)
  with assms(1) show ?thesis unfolding same_instances_def by metis
qed

lemma invoke_spec:
  assumes "invoke app stage hk x w = Some (err, x', w')"
  shows "untimed x' = untimed x"
    and "hook_calls s w' = hook_calls s w @ (if hk \<noteq> None \<and> s = stage then [in_identity x] else [])"
  using assms by (auto simp: invoke_def untimed_def Let_def split: option.splits prod.splits if_splits)

section \<open>A run that has not been unwound\<close>

text \<open>
  The invariant from construction to the unwind, for the instances \<open>con0\<close> that were constructed:
  no Stop and no PreStop hook has been called, the task runtime is there and can join every task, and once the gate is open every Start hook has
  been called, in order.
\<close>

definition start_order :: "Constructed \<Rightarrow> identity list" where
  "start_order con = map in_identity (filter HasStart (con_instances con))"

definition prestop_order :: "Constructed \<Rightarrow> identity list" where
  "prestop_order con = map in_identity (filter HasPreStop (con_instances con))"

definition built_from :: "Plan option \<Rightarrow> Constructed \<Rightarrow> bool" where
  "built_from plan con \<longleftrightarrow> (case plan of None \<Rightarrow> False | Some plan \<Rightarrow> owned_ok plan (plan_order plan) con)"

definition owns :: "Constructed \<Rightarrow> App \<Rightarrow> bool" where
  "owns con0 a \<longleftrightarrow> (\<exists>con. xa_owned a = Some con \<and> same_instances con0 con) \<and> tracked a \<and> \<not> xa_unwound a \<and>
     built_from (xa_plan a) con0 \<and> hook_calls StageStop (xa_world a) = [] \<and> hook_calls StagePreStop (xa_world a) = []"

definition alive :: "Constructed \<Rightarrow> App \<Rightarrow> bool" where
  "alive con0 a \<longleftrightarrow> owns con0 a \<and> (xa_trafficOpen a \<longrightarrow> hook_calls StageStart (xa_world a) = start_order con0)"

lemma owns_look [simp]: "owns con0 (look h a) = owns con0 a"
  by (simp add: owns_def)

lemma alive_look [simp]: "alive con0 (look h a) = alive con0 a"
  by (simp add: alive_def)

lemma put_same:
  assumes "untimed x = untimed (con_instances con ! p)"
  shows "same_instances con (put_instance p x con)"
proof (cases "p < length (con_instances con)")
  case True
  then show ?thesis using assms list_update_id [of "map untimed (con_instances con)" p]
    by (simp add: same_instances_def put_instance_def map_update)
qed (simp add: same_instances_def put_instance_def list_update_beyond)

lemma invoke_at_owns:
  assumes own: "owns con0 a" and run: "invoke_at h invokes p a = Some (err, a')"
    and inv: "\<And>app x w. invokes app x w = invoke app stage (sel (in_lifecycle x)) x w" and stage: "stage \<noteq> StageStop" "stage \<noteq> StagePreStop"
  shows "owns con0 a'" and "xa_trafficOpen a' = xa_trafficOpen a" and "xa_settings a' = xa_settings a"
    and "hook_calls s (xa_world a') = hook_calls s (xa_world a) @
      (if sel (in_lifecycle (Instances (xa_owned a) ! p)) \<noteq> None \<and> s = stage then [in_identity (Instances (xa_owned a) ! p)] else [])"
    and "xa_tasks a' = xa_tasks a"
proof -
  obtain con where con: "xa_owned a = Some con" "same_instances con0 con" using own by (auto simp: owns_def)
  obtain x w where i: "invoke (ho_app h) stage (sel (in_lifecycle (con_instances con ! p))) (con_instances con ! p) (xa_world a) = Some (err, x, w)"
    "a' = a\<lparr>xa_owned := Some (put_instance p x con), xa_world := w\<rparr>"
    using run con inv by (auto simp: invoke_at_def Instances_def split: prod.splits)
  note spec = invoke_spec [OF i(1)]
  show "owns con0 a'" using own con i(2) spec(2) [of StageStop] spec(2) [of StagePreStop] stage
      same_instances_trans [OF con(2) put_same [OF spec(1)]]
    by (auto simp: owns_def tracked_def)
  show "xa_trafficOpen a' = xa_trafficOpen a" "xa_settings a' = xa_settings a" "xa_tasks a' = xa_tasks a" using i(2) by simp_all
  show "hook_calls s (xa_world a') = hook_calls s (xa_world a) @
      (if sel (in_lifecycle (Instances (xa_owned a) ! p)) \<noteq> None \<and> s = stage then [in_identity (Instances (xa_owned a) ! p)] else [])"
    using i(2) spec(2) [of s] con(1) by (simp add: Instances_def)
qed

lemma stage_loop_owns:
  assumes "stage_loop h label has invokes ps a = Some (err, a')" "owns con0 a"
    and inv: "\<And>app x w. invokes app x w = invoke app stage (sel (in_lifecycle x)) x w" and stage: "stage \<noteq> StageStop" "stage \<noteq> StagePreStop"
  shows "owns con0 a' \<and> xa_trafficOpen a' = xa_trafficOpen a \<and> xa_settings a' = xa_settings a \<and>
    (s \<noteq> stage \<longrightarrow> hook_calls s (xa_world a') = hook_calls s (xa_world a))"
  using assms(1,2)
proof (induction ps arbitrary: a)
  case (Cons p ps)
  obtain stop a1 where look: "stopRequested h a = (stop, a1)" "a1 = look h a" by (auto simp: stopRequested_def Let_def)
  have own: "owns con0 a1" and eq: "xa_trafficOpen a1 = xa_trafficOpen a" "xa_settings a1 = xa_settings a" "xa_world a1 = xa_world a"
    using Cons.prems(2) look(2) by simp_all
  consider "stop" | "\<not> stop" "\<not> has (Instances (xa_owned a1) ! p)" | "\<not> stop" "has (Instances (xa_owned a1) ! p)" by blast
  then show ?case
  proof cases
    case 3
    obtain e a2 where a2: "invoke_at h invokes p a1 = Some (e, a2)"
      using Cons.prems(1) look(1) 3 by (auto split: option.splits)
    note k = invoke_at_owns [OF own a2 inv stage]
    show ?thesis
    proof (cases e)
      case None
      with Cons.prems(1) look(1) 3 a2 have "stage_loop h label has invokes ps a2 = Some (err, a')" by simp
      from Cons.IH [OF this k(1)] k(2-4) eq show ?thesis by simp
    next
      case (Some x)
      with Cons.prems(1) look(1) 3 a2 k eq show ?thesis by auto
    qed
  qed (use Cons look(1) own eq in auto)
qed auto

lemma same_instances_nth:
  assumes "same_instances c d" "p < length (con_instances c)" "\<And>x. f (untimed x) = f x"
  shows "f (con_instances d ! p) = f (con_instances c ! p)"
proof -
  have "length (con_instances d) = length (con_instances c)" using assms(1) unfolding same_instances_def by (metis length_map)
  moreover have "map f (con_instances c) = map f (con_instances d)" by (rule same_instances_map [OF assms(1)]) (rule assms(3))
  ultimately show ?thesis using assms(2) by (metis nth_map)
qed

lemma owns_nth:
  assumes "owns con0 a" "p < length (con_instances con0)"
  shows "HasStart (Instances (xa_owned a) ! p) = HasStart (con_instances con0 ! p)"
    "in_identity (Instances (xa_owned a) ! p) = in_identity (con_instances con0 ! p)"
proof -
  obtain con where con: "xa_owned a = Some con" "same_instances con0 con" using assms(1) by (auto simp: owns_def)
  have "HasStart (con_instances con ! p) = HasStart (con_instances con0 ! p)"
    "in_identity (con_instances con ! p) = in_identity (con_instances con0 ! p)"
    by (rule same_instances_nth [OF con(2) assms(2)]; simp add: HasStart_def untimed_def)+
  with con(1) show "HasStart (Instances (xa_owned a) ! p) = HasStart (con_instances con0 ! p)"
    "in_identity (Instances (xa_owned a) ! p) = in_identity (con_instances con0 ! p)" by (simp_all add: Instances_def)
qed

lemma owns_tasks: "owns con0 a \<Longrightarrow> tracks r \<Longrightarrow> owns con0 (a\<lparr>xa_tasks := Some r\<rparr>)"
  by (simp add: owns_def)

lemma submit_all_keeps:
  "owns con0 a \<Longrightarrow> owns con0 (submit_all h i xs a) \<and> xa_trafficOpen (submit_all h i xs a) = xa_trafficOpen a \<and>
    xa_settings (submit_all h i xs a) = xa_settings a \<and> xa_world (submit_all h i xs a) = xa_world a \<and> xa_owned (submit_all h i xs a) = xa_owned a"
proof (induction xs arbitrary: a)
  case (Cons y xs)
  obtain fn critical where y: "y = (fn, critical)" by (cases y)
  let ?b = "(look h a)\<lparr>xa_tasks := map_option (\<lambda>r. snd (submit i fn critical r)) (xa_tasks (look h a))\<rparr>"
  obtain r where r: "xa_tasks (look h a) = Some r" "tracks r" using Cons.prems owns_look [of con0 h a] by (auto simp: owns_def tracked_def)
  then have "owns con0 ?b" using owns_tasks [of con0 "look h a"] tracks_submit Cons.prems by simp
  from Cons.IH [OF this] show ?case by (simp add: y Let_def)
qed simp

lemma start_loop_owns:
  assumes "start_loop h ps a = Some (err, a')" "owns con0 a" "\<forall>p \<in> set ps. p < length (con_instances con0)"
  shows "owns con0 a' \<and> xa_trafficOpen a' = xa_trafficOpen a \<and> xa_settings a' = xa_settings a \<and>
    (err = None \<longrightarrow> hook_calls StageStart (xa_world a') = hook_calls StageStart (xa_world a) @
      map in_identity (filter HasStart (map (\<lambda>p. con_instances con0 ! p) ps)))"
  using assms
proof (induction ps arbitrary: a)
  case (Cons p ps)
  obtain stop a1 where look: "stopRequested h a = (stop, a1)" "a1 = look h a" by (auto simp: stopRequested_def Let_def)
  have own: "owns con0 a1" and eq: "xa_trafficOpen a1 = xa_trafficOpen a" "xa_settings a1 = xa_settings a" "xa_world a1 = xa_world a"
    using Cons.prems(2) look(2) by simp_all
  let ?x = "Instances (xa_owned a1) ! p"
  have x: "HasStart ?x = HasStart (con_instances con0 ! p)" "in_identity ?x = in_identity (con_instances con0 ! p)"
    using owns_nth [OF own, of p] Cons.prems(3) by simp_all
  obtain r where r: "xa_tasks a1 = Some r" "tracks r" using own by (auto simp: owns_def tracked_def)
  obtain okay r1 where open1: "openStart (in_identity ?x) r = (okay, r1)" by fastforce
  have r1: "tracks r1" using tracks_open [OF open1] r(2) by simp
  consider (stopped) stop | (none) "\<not> stop" "\<not> HasStart ?x" | (shut) "\<not> stop" "HasStart ?x" "\<not> okay" | (starts) "\<not> stop" "HasStart ?x" okay by blast
  then show ?case
  proof cases
    case starts
    let ?b = "submit_all h (in_identity ?x) (ho_submits h (in_identity ?x)) (a1\<lparr>xa_tasks := Some r1\<rparr>)"
    obtain e a2 where a2: "invoke_at h InvokeStart p ?b = Some (e, a2)"
      using Cons.prems(1) look(1) starts r(1) open1 by (auto simp: Let_def split: option.splits)
    note b = submit_all_keeps [OF owns_tasks [OF own r1], of h "in_identity ?x" "ho_submits h (in_identity ?x)"]
    have "owns con0 ?b" using b by blast
    note k = invoke_at_owns [OF this a2, where stage = StageStart and sel = ld_start, unfolded InvokeStart_def, OF refl]
    define a3 where "a3 = a2\<lparr>xa_tasks := map_option (closeStart (in_identity ?x)) (xa_tasks a2)\<rparr>"
    have a3: "owns con0 a3" "xa_trafficOpen a3 = xa_trafficOpen a" "xa_settings a3 = xa_settings a"
      "hook_calls StageStart (xa_world a3) = hook_calls StageStart (xa_world a) @ [in_identity (con_instances con0 ! p)]"
      using k(1-3) k(4) [of StageStart] b eq x starts(2) by (auto simp: a3_def owns_def tracked_def HasStart_def)
    show ?thesis
    proof (cases e)
      case (Some y)
      with Cons.prems(1) look(1) starts r open1 a2 have "err = Some (HookError y)" "a' = a3" by (simp_all add: Let_def a3_def)
      with a3 show ?thesis by simp
    next
      case None
      obtain stop2 a4 where look2: "stopRequested h a3 = (stop2, a4)" "a4 = look h a3" by (auto simp: stopRequested_def Let_def)
      have a4: "owns con0 a4" "xa_trafficOpen a4 = xa_trafficOpen a" "xa_settings a4 = xa_settings a" "xa_world a4 = xa_world a3"
        using a3 look2(2) by simp_all
      show ?thesis
      proof (cases stop2)
        case True
        with Cons.prems(1) look(1) starts r open1 a2 None look2(1) have "err \<noteq> None" "a' = a4" by (auto simp: Let_def a3_def)
        with a4 show ?thesis by blast
      next
        case False
        with Cons.prems(1) look(1) starts r open1 a2 None look2(1) have "start_loop h ps a4 = Some (err, a')" by (simp add: Let_def a3_def)
        from Cons.IH [OF this a4(1)] Cons.prems(3) a4 a3 x starts(2) show ?thesis by simp
      qed
    qed
  next
    case none
    with Cons.prems(1) look(1) have "start_loop h ps a1 = Some (err, a')" by (simp add: Let_def)
    from Cons.IH [OF this own] Cons.prems(3) eq x none show ?thesis by simp
  next
    case shut
    with Cons.prems(1) look(1) r open1 have "err \<noteq> None" "a' = a1\<lparr>xa_tasks := Some r1\<rparr>" by (auto simp: Let_def)
    with owns_tasks [OF own r1] eq show ?thesis by auto
  qed (use Cons.prems look(1) own eq in auto)
qed auto

section \<open>The unwind\<close>

lemma stopOne_hooks:
  assumes "stopOne app p deadline settledCtx budget afterStop s = Some (out, s')" and stage: "stage \<noteq> StageStop"
  shows "hook_calls stage (wk_world s') = hook_calls stage (wk_world s)"
proof (cases "ctx_Err (w_now (wk_world s)) deadline")
  case True
  with assms show ?thesis by (auto simp: stopOne_def Let_def)
next
  case False
  with assms(1) obtain outcome elapsed err x' w where
    st: "stopBounded app (con_instances (wk_con s) ! p) deadline settledCtx budget (wk_world s) = Some ((outcome, elapsed, err), x', w)"
    by (auto simp: stopOne_def Let_def)
  have w: "hook_calls stage w = hook_calls stage (wk_world s)" using stopBounded_cases [OF st] stage by auto
  obtain e w2 where after: "run_afterStop afterStop (in_identity (con_instances (wk_con s) ! p)) w = (e, w2)" by fastforce
  then have "hook_calls stage w2 = hook_calls stage w"
    by (auto simp: run_afterStop_def Let_def split: option.splits prod.splits)
  with assms(1) False st after w show ?thesis by (auto simp: stopOne_def Let_def split: if_splits)
qed

lemma unwindPhases_hooks:
  assumes run: "unwindPhases app (Some con) deadline budget drainBudget stopReserve afterStop w = Some s"
    and stage: "stage \<noteq> StageStop" "stage \<noteq> StageDrain"
  shows "hook_calls stage (wk_world s) = hook_calls stage w"
proof -
  obtain s1 s2 where A: "phase_A app con deadline budget stopReserve afterStop (start_walk con w) = Some s1"
    and B: "phase_B app con deadline budget drainBudget stopReserve s1 = Some s2"
    and C: "phase_C app con deadline budget afterStop s2 = Some s"
    by (rule unwindPhases_Some [OF run])
  have stop: "hook_calls stage (wk_world u') = hook_calls stage (wk_world u)"
    if "stop_visit app chosen c d b afterStop p u = Some u'" for chosen c d b p u u'
    using that stopOne_hooks [OF _ stage(1)] by (auto simp: stop_visit_def Let_def split: if_splits)
  have drain: "hook_calls stage (wk_world u') = hook_calls stage (wk_world u)"
    if "drain_visit app ingress c b p u = Some u'" for ingress c b p u u'
  proof -
    have "hook_calls stage w' = hook_calls stage v" if "drainBounded app x c b v = Some (out, w')" for x v out w'
      using that drainBounded_cases stage by (cases out) fastforce
    with that show ?thesis by (auto simp: drain_visit_def Let_def split: if_splits)
  qed
  have "hook_calls stage (wk_world s1) = hook_calls stage w"
    using A unfolding phase_A_def
    by (auto simp: start_walk_def split: prod.splits elim!: fold_opt_invariant [where P = "\<lambda>u. hook_calls stage (wk_world u) = hook_calls stage w"] dest: stop)
  moreover have "hook_calls stage (wk_world s2) = hook_calls stage (wk_world s1)"
    using B unfolding phase_B_def Let_def
    by (auto split: prod.splits if_splits elim!: fold_opt_invariant [where P = "\<lambda>u. hook_calls stage (wk_world u) = hook_calls stage (wk_world s1)"] dest: drain)
  moreover have "hook_calls stage (wk_world s) = hook_calls stage (wk_world s2)"
    using C unfolding phase_C_def
    by (rule fold_opt_invariant [where P = "\<lambda>u. hook_calls stage (wk_world u) = hook_calls stage (wk_world s2)"]) (auto dest: stop)
  ultimately show ?thesis by simp
qed

lemma PreStop_hooks:
  assumes "Constructed_PreStop app (Some con) deadline budget w = Some (r, w')"
  shows "hook_calls stage w' = hook_calls stage w @ (if stage = StagePreStop then prestop_order con else [])"
proof -
  obtain pending w1 where l: "launch_all app deadline (con_instances con) w = (pending, w1)" by fastforce
  have "w_events w1 = w_events w @ map (\<lambda>x. HookCalled StagePreStop (in_identity x)) (filter HasPreStop (con_instances con))"
    using launch_all_spec [OF l] by blast
  then have "hook_calls stage w1 = hook_calls stage w @ (if stage = StagePreStop then prestop_order con else [])"
    by (induction "filter HasPreStop (con_instances con)") (auto simp: hook_calls_def List.map_filter_def prestop_order_def o_def)
  moreover have "hook_calls stage w' = hook_calls stage w1"
    using assms l by (auto simp: Constructed_PreStop_def split: if_splits option.splits prod.splits)
  ultimately show ?thesis by simp
qed

text \<open>
  The scopes that the walk has joined: when it has no error, no join reported one, and then every task that is left is in a
  group that can still be joined.
\<close>

fun joins_quiet :: "'st host \<Rightarrow> identity list \<Rightarrow> taskRuntime \<Rightarrow> bool" where
  "joins_quiet h [] r = True"
| "joins_quiet h (i # is) r = (case stopPlugin i (ho_meanwhile h) r of (errs, r') \<Rightarrow> errs = [] \<and> joins_quiet h is r')"

lemma join_scopes_simps [simp]:
  "join_scopes h [] r = r" "join_scopes h (i # is) r = join_scopes h is (snd (stopPlugin i (ho_meanwhile h) r))"
  by (simp_all add: join_scopes_def)

lemma joins_quiet_snoc:
  "joins_quiet h (is @ [i]) r \<longleftrightarrow> joins_quiet h is r \<and> fst (stopPlugin i (ho_meanwhile h) (join_scopes h is r)) = []"
  by (induction "is" arbitrary: r) (auto split: prod.splits)

lemma join_scopes_result:
  assumes m: "tasks_only (ho_meanwhile h)"
  shows "settled r \<Longrightarrow> consistent r \<Longrightarrow> settled (join_scopes h is r) \<and> consistent (join_scopes h is r) \<and>
    (tracks r \<and> joins_quiet h is r \<longrightarrow> tracks (join_scopes h is r))"
proof (induction "is" arbitrary: r)
  case (Cons i "is")
  obtain errs r' where s: "stopPlugin i (ho_meanwhile h) r = (errs, r')" by fastforce
  note k = stopPlugin_result [OF m Cons.prems s]
  from Cons.IH [OF k(1,2)] k(3) s show ?case by auto
qed simp

lemma after_calls_emit: "n \<le> length (w_events w) \<Longrightarrow> after_calls n (emit e w) = after_calls n w @ (case after_call e of None \<Rightarrow> [] | Some i \<Rightarrow> [i])"
  by (simp add: after_calls_def List.map_filter_def split: option.splits)

lemma after_calls_advance [simp]: "after_calls n (advance t w) = after_calls n w"
  by (simp add: after_calls_def)

text \<open>The invariant of the walk.\<close>

definition walk_quiet :: "'st host \<Rightarrow> taskRuntime \<Rightarrow> nat \<Rightarrow> walk \<Rightarrow> bool" where
  "walk_quiet h r n s \<longleftrightarrow> n \<le> length (w_events (wk_world s)) \<and> (wk_errs s = [] \<longrightarrow> joins_quiet h (after_calls n (wk_world s)) r)"

lemma stop_visit_quiet:
  assumes v: "stop_visit app chosen deadline settledCtx budget (afterStop_of h (Some r) n e) p s = Some s'" and q: "walk_quiet h r n s"
  shows "walk_quiet h r n s'"
proof (cases "chosen (in_identity (con_instances (wk_con s) ! p)) \<and> \<not> ctx_Err (w_now (wk_world s)) deadline")
  case False
  with v q show ?thesis by (auto simp: stop_visit_def stopOne_def Let_def walk_quiet_def split: if_splits)
next
  case True
  let ?x = "con_instances (wk_con s) ! p"
  let ?i = "in_identity ?x"
  obtain outcome elapsed err x' w where
    st: "stopBounded app ?x deadline settledCtx budget (wk_world s) = Some ((outcome, elapsed, err), x', w)"
    using v True by (auto simp: stop_visit_def stopOne_def Let_def)
  have n: "n \<le> length (w_events w)" and w: "after_calls n w = after_calls n (wk_world s)"
    using stopBounded_cases [OF st] q by (auto simp: walk_quiet_def after_calls_emit)
  show ?thesis
  proof (cases "outcome = StopAbandoned")
    case ab: True
    with v True st have "wk_world s' = w" "wk_errs s = [] \<or> wk_errs s' \<noteq> []"
      by (auto simp: stop_visit_def stopOne_def Let_def)
    with n w q show ?thesis by (auto simp: walk_quiet_def)
  next
    case False
    let ?w = "emit (AfterStopCalled ?i) w"
    obtain elapsed2 taskErr where f: "the (afterStop_of h (Some r) n e) ?w ?i = (elapsed2, taskErr)" by fastforce
    have run: "run_afterStop (afterStop_of h (Some r) n e) ?i w = (taskErr, advance (w_now w + int elapsed2) ?w)"
      using f by (simp add: run_afterStop_def afterStop_of_def Let_def)
    have s': "wk_world s' = advance (w_now w + int elapsed2) ?w"
      "wk_errs s' = wk_errs s @ (case err of None \<Rightarrow> [] | Some e \<Rightarrow> [e]) @ (case taskErr of None \<Rightarrow> [] | Some m \<Rightarrow> [TaskError ?i m])"
      using v True st run False by (auto simp: stop_visit_def stopOne_def Let_def)
    have calls: "after_calls n ?w = after_calls n (wk_world s) @ [?i]" using n w by (simp add: after_calls_emit)
    have "fst (stopPlugin ?i (ho_meanwhile h) (join_scopes h (after_calls n (wk_world s)) r)) = []" if "taskErr = None"
      using f that calls by (auto simp: afterStop_of_def split: list.splits)
    with s' calls n q show ?thesis by (auto simp: walk_quiet_def joins_quiet_snoc split: option.splits)
  qed
qed

lemma drain_visit_quiet:
  assumes v: "drain_visit app ingress c b p s = Some s'" and q: "walk_quiet h r n s"
  shows "walk_quiet h r n s'"
proof -
  have "after_calls n w' = after_calls n w \<and> n \<le> length (w_events w')"
    if "drainBounded app x c b w = Some (out, w')" "n \<le> length (w_events w)" for x w out w'
    using that drainBounded_cases by (cases out) (fastforce simp: after_calls_emit)
  with v q show ?thesis by (fastforce simp: drain_visit_def Let_def walk_quiet_def split: if_splits)
qed

lemma unwindPhases_quiet:
  assumes "unwindPhases app (Some con) deadline budget drainBudget stopReserve (afterStop_of h (Some r) (length (w_events w)) e) w = Some s"
  shows "wk_errs s = [] \<longrightarrow> joins_quiet h (after_calls (length (w_events w)) (wk_world s)) r"
proof -
  let ?n = "length (w_events w)"
  let ?f = "afterStop_of h (Some r) ?n e"
  obtain s1 s2 where A: "phase_A app con deadline budget stopReserve ?f (start_walk con w) = Some s1"
    and B: "phase_B app con deadline budget drainBudget stopReserve s1 = Some s2"
    and C: "phase_C app con deadline budget ?f s2 = Some s"
    by (rule unwindPhases_Some [OF assms])
  have "walk_quiet h r ?n (start_walk con w)" by (simp add: walk_quiet_def start_walk_def after_calls_def List.map_filter_def)
  then have s1: "walk_quiet h r ?n s1" using A unfolding phase_A_def
    by (auto split: prod.splits elim!: fold_opt_invariant [where P = "walk_quiet h r ?n"] dest: stop_visit_quiet)
  have s2: "walk_quiet h r ?n s2" using B s1 unfolding phase_B_def Let_def
    by (auto split: prod.splits if_splits elim!: fold_opt_invariant [where P = "walk_quiet h r ?n"] dest: drain_visit_quiet)
  have "walk_quiet h r ?n s" using C s2 unfolding phase_C_def
    by (rule fold_opt_invariant [where P = "walk_quiet h r ?n"]) (auto dest: stop_visit_quiet)
  then show ?thesis by (simp add: walk_quiet_def)
qed

lemma dependents_untimed: "dependents (map untimed xs) = dependents xs"
  unfolding dependents_def by (simp add: fold_map o_def untimed_def)

lemma same_instances_order:
  assumes "same_instances c d"
  shows "unwind_order c = unwind_order d"
proof -
  have "dependents (con_instances c) = dependents (con_instances d)"
    using assms dependents_untimed unfolding same_instances_def by metis
  moreover have "map in_identity (filter IsIngress (con_instances c)) = map in_identity (filter IsIngress (con_instances d))"
    by (rule same_instances_filter [OF assms]) (simp add: IsIngress_def untimed_def)
  ultimately show ?thesis using same_instances_ids [OF assms] unfolding unwind_order_def ingressClosure_def by (simp only:)
qed

text \<open>After the unwind.\<close>

definition ended :: "Constructed \<Rightarrow> App \<Rightarrow> bool" where
  "ended con0 a \<longleftrightarrow> xa_unwound a \<and> xa_stopRequested a \<and> xa_owned a \<noteq> None \<and>
     built_from (xa_plan a) con0 \<and>
     map sr_Identity (sh_Records (xa_shutdownReport a)) = unwind_order con0 \<and> distinct (hook_calls StageStop (xa_world a)) \<and>
     set (hook_calls StageStop (xa_world a)) \<subseteq> set (con_identities con0) \<and>
     (\<exists>r. xa_tasks a = Some r \<and> tr_closed r \<and> tr_groups r = [] \<and> (unwind_errors a = [] \<longrightarrow> no_task_left r)) \<and>
     (xa_trafficOpen a \<longrightarrow> hook_calls StageStart (xa_world a) = start_order con0) \<and>
     hook_calls StagePreStop (xa_world a) = (if xa_trafficOpen a \<and> 0 < se_PreStopTimeout (xa_settings a) then prestop_order con0 else [])"

lemma runPreStopPhase_result:
  assumes al: "alive con0 a" and run: "runPreStopPhase h a = Some (phase, b)"
  shows "(\<exists>con. xa_owned b = Some con \<and> same_instances con0 con) \<and> xa_tasks b = xa_tasks a \<and> xa_settings b = xa_settings a \<and>
    xa_plan b = xa_plan a \<and> xa_unwound b = xa_unwound a \<and> xa_stopRequested b = xa_stopRequested a \<and> xa_trafficOpen b = xa_trafficOpen a \<and>
    hook_calls StageStop (xa_world b) = [] \<and> (xa_trafficOpen a \<longrightarrow> hook_calls StageStart (xa_world b) = start_order con0) \<and>
    hook_calls StagePreStop (xa_world b) = (if xa_trafficOpen a \<and> 0 < se_PreStopTimeout (xa_settings a) then prestop_order con0 else [])"
proof -
  obtain con where con: "xa_owned a = Some con" "same_instances con0 con" using al by (auto simp: alive_def owns_def)
  have pre: "prestop_order con = prestop_order con0"
    unfolding prestop_order_def by (rule same_instances_filter [OF con(2), symmetric]) (simp add: HasPreStop_def untimed_def)
  show ?thesis
  proof (cases "xa_trafficOpen a \<and> 0 < se_PreStopTimeout (xa_settings a)")
    case True
    with run con(1) obtain r w where
      w: "Constructed_PreStop (ho_app h) (Some con) (WithTimeout (w_now (xa_world a)) Background (se_PreStopTimeout (xa_settings a)))
        (se_PreStopTimeout (xa_settings a)) (xa_world a) = Some (r, w)" "b = a\<lparr>xa_world := w\<rparr>"
      by (auto simp: runPreStopPhase_def Let_def)
    note k = PreStop_hooks [OF w(1)]
    show ?thesis using al con pre True w(2) k [of StageStop] k [of StageStart] k [of StagePreStop] by (auto simp: alive_def owns_def)
  next
    case False
    with run con have "b = a" by (auto simp: runPreStopPhase_def Let_def split: if_splits)
    with al con False show ?thesis by (auto simp: alive_def owns_def)
  qed
qed

lemma unwind_once_result:
  assumes al: "alive con0 a" and dist: "distinct (con_identities con0)" and m: "tasks_only (ho_meanwhile h)"
    and st: "xa_stopRequested a" and run: "unwind_once h a = Some b"
  shows "ended con0 b"
proof -
  let ?a = "a\<lparr>xa_unwound := True, xa_tasks := map_option closeAdmission (xa_tasks a)\<rparr>"
  obtain phase a1 where pre: "runPreStopPhase h ?a = Some (phase, a1)"
    using run by (auto simp: unwind_once_def Let_def split: option.splits)
  have al': "alive con0 (?a\<lparr>xa_unwound := False\<rparr>)" using al by (auto simp: alive_def owns_def tracked_def)
  have pre': "runPreStopPhase h (?a\<lparr>xa_unwound := False\<rparr>) = Some (phase, a1\<lparr>xa_unwound := False\<rparr>)"
    using pre by (auto simp: runPreStopPhase_def Let_def split: if_splits)
  have a1': "xa_unwound a1" using pre by (auto simp: runPreStopPhase_def Let_def split: if_splits)
  obtain r where r: "xa_tasks a1 = Some r" "settled r" "tracks r"
    using runPreStopPhase_result [OF al' pre'] al by (fastforce simp: alive_def owns_def tracked_def)
  have cons: "consistent r" using r(3) by (simp add: tracks_def)
  obtain con where con: "xa_owned a1 = Some con" "same_instances con0 con"
    and a1: "built_from (xa_plan a1) con0" "xa_settings a1 = xa_settings a" "xa_stopRequested a1" "xa_trafficOpen a1 = xa_trafficOpen a" "hook_calls StageStop (xa_world a1) = []"
      "xa_trafficOpen a \<longrightarrow> hook_calls StageStart (xa_world a1) = start_order con0"
      "hook_calls StagePreStop (xa_world a1) = (if xa_trafficOpen a \<and> 0 < se_PreStopTimeout (xa_settings a) then prestop_order con0 else [])"
    using runPreStopPhase_result [OF al' pre'] st al by (auto simp: alive_def owns_def)
  let ?n = "length (w_events (xa_world a1))"
  obtain s where walk: "unwindPhases (ho_app h) (Some con) (WithTimeout (w_now (xa_world a1)) Background (shutdown_budget a1)) (shutdown_budget a1)
      (se_DrainTimeout (xa_settings a1)) (se_StopReserve (xa_settings a1)) (afterStop_of h (Some r) ?n (w_now (xa_world a1) + shutdown_budget a1)) (xa_world a1) = Some s"
    and b: "b = (case drainRemaining (ho_meanwhile h) (join_scopes h (after_calls ?n (wk_world s)) r) of (left, r') \<Rightarrow>
      a1\<lparr>xa_preStop := phase, xa_owned := Some (wk_con s), xa_world := drained h (w_now (xa_world a1) + shutdown_budget a1) (wk_world s),
        xa_shutdownReport := wk_report s, xa_drainReport := wk_drain s,
        xa_tasks := Some r', xa_unwindErr := (wk_errs s, left)\<rparr>)"
    using run pre con(1) r(1)
    by (auto simp: unwind_once_def Let_def UnwindWithDrain_def shutdown_budget_def split: option.splits prod.splits)
  obtain left r' where dr: "drainRemaining (ho_meanwhile h) (join_scopes h (after_calls ?n (wk_world s)) r) = (left, r')" by fastforce
  note joined = join_scopes_result [OF m r(2) cons, of "after_calls ?n (wk_world s)"]
  have tasks: "tr_closed r'" "tr_groups r' = []" "wk_errs s = [] \<and> left = [] \<longrightarrow> no_task_left r'"
    using drainRemaining_result [OF m _ _ dr] joined r(3) unwindPhases_quiet [OF walk] by (auto simp: settled_def)
  have ids: "con_identities con = con_identities con0" using same_instances_ids [OF con(2)] by simp
  have "stop_inv con (xa_world a1)" using dist ids a1(5) by (simp add: stop_inv_def stop_calls_hook)
  from unwind_inv [OF walk this] have stops: "distinct (hook_calls StageStop (wk_world s))" by (simp add: stop_inv_def stop_calls_hook)
  have rec: "map sr_Identity (sh_Records (wk_report s)) = unwind_order con" "hook_calls StageStop (wk_world s) = ran s"
    using unwind_result [OF walk] a1(5) by (auto simp: stop_calls_hook)
  have "set (ran s) \<subseteq> set (map sr_Identity (sh_Records (wk_report s)))" by auto
  then have sub: "set (hook_calls StageStop (wk_world s)) \<subseteq> set (con_identities con0)"
    unfolding rec ids [symmetric] by (auto simp: unwind_order_def)
  show ?thesis
    using a1 a1' tasks stops sub rec(1) same_instances_order [OF con(2)]
      unwindPhases_hooks [OF walk, of StageStart] unwindPhases_hooks [OF walk, of StagePreStop]
    unfolding ended_def b dr by (auto simp: unwind_errors_def)
qed

lemma alive_stop [simp]: "alive con0 (snd (requestStopWithCause r c a)) = alive con0 a"
  by (simp add: alive_def owns_def)

lemma owns_gate [simp]: "owns con0 (a\<lparr>xa_trafficOpen := b\<rparr>) = owns con0 a"
  by (simp add: owns_def tracked_def)

lemma unwind_ended:
  assumes "distinct (con_identities con0)" "tasks_only (ho_meanwhile h)" "alive con0 a" "unwind h reason a = Some b"
  shows "ended con0 b"
proof -
  have "\<not> xa_unwound a" using assms(3) by (simp add: alive_def owns_def)
  with assms(4) have "unwind_once h (snd (requestStop reason (look h a))) = Some b"
    by (simp add: unwind_def requestStop_def)
  then show ?thesis using unwind_once_result [of con0 "snd (requestStop reason (look h a))"] assms(1-3) by (simp add: requestStop_def)
qed

text \<open>The exit code of a run that constructed its instances: 0 exactly without an error, and 1 otherwise.\<close>

definition outcome_ok :: "Constructed \<Rightarrow> outcome \<Rightarrow> bool" where
  "outcome_ok con0 out \<longleftrightarrow> ended con0 (snd out) \<and> fst (fst out) = (if snd (fst out) = [] then 0 else 1) \<and>
     set (unwind_errors (snd out)) \<subseteq> set (snd (fst out))"

lemma aborted_ok:
  assumes "distinct (con_identities con0)" "tasks_only (ho_meanwhile h)" "alive con0 a" "aborted h e a = Some out"
  shows "outcome_ok con0 out"
  using assms(4) unwind_ended [OF assms(1-3)] by (auto simp: aborted_def abort_def outcome_ok_def)

lemma complete_ok:
  assumes "distinct (con_identities con0)" "tasks_only (ho_meanwhile h)" "alive con0 a" "complete h stage a = Some out"
  shows "outcome_ok con0 out"
proof -
  obtain won a1 where r: "requestStop stopReasonCompleted (look h a) = (won, a1)" by fastforce
  then have "a1 = snd (requestStopWithCause stopReasonCompleted None (look h a))" by (simp add: requestStop_def)
  with assms(3) have al: "alive con0 (look h a1)" by simp
  show ?thesis
  proof (cases "\<not> won \<and> xa_stopReason (look h a1) \<noteq> stopReasonCompleted")
    case True
    then show ?thesis using assms(4) r aborted_ok [OF assms(1,2) al] by (simp add: complete_def Let_def)
  next
    case False
    then show ?thesis using assms(4) r unwind_ended [OF assms(1,2) al]
      by (auto simp: complete_def outcome_ok_def Let_def split: if_splits)
  qed
qed

lemma wait_ok:
  assumes "distinct (con_identities con0)" "tasks_only (ho_meanwhile h)" "alive con0 a" "wait h a = Some out"
  shows "outcome_ok con0 out"
proof -
  have al: "alive con0 (look h a)" using assms(3) by simp
  have al': "alive con0 (snd (requestStopWithCause reason cause (look h a)))" for reason cause using assms(3) by simp
  show ?thesis
    using assms(4) unwind_ended [OF assms(1,2) al] unwind_ended [OF assms(1,2) al']
    by (auto simp: wait_def outcome_ok_def Let_def split: option.splits if_splits)
qed

lemma validate_ok:
  assumes "distinct (con_identities con0)" "tasks_only (ho_meanwhile h)" "owns con0 a" "\<not> xa_trafficOpen a" "validate h a = Some out"
  shows "outcome_ok con0 out"
proof -
  obtain e b where pre: "preflightAll h a = Some (e, b)" using assms(5) by (auto simp: validate_def split: option.splits)
  have "owns con0 b \<and> xa_trafficOpen b = xa_trafficOpen a"
    using stage_loop_owns [OF pre [unfolded preflightAll_def] assms(3), where stage = StagePreflight and sel = ld_preflight]
    by (auto simp: InvokePreflight_def)
  with assms(4) have "alive con0 b" by (simp add: alive_def)
  with assms(5) pre aborted_ok [OF assms(1,2)] complete_ok [OF assms(1,2)] show ?thesis
    by (cases e) (auto simp: validate_def)
qed

lemma owns_positions:
  assumes "owns con0 a"
  shows "positions a = [0..<length (con_instances con0)]"
proof -
  obtain con where "xa_owned a = Some con" "same_instances con0 con" using assms by (auto simp: owns_def)
  moreover from this(2) have "length (con_instances con) = length (con_instances con0)" unfolding same_instances_def by (metis length_map)
  ultimately show ?thesis by (simp add: positions_def Instances_def)
qed

lemma startAll_owns:
  assumes own: "owns con0 a" and run: "startAll h a = Some (err, b)"
  shows "owns con0 b \<and> xa_trafficOpen b = xa_trafficOpen a \<and>
    (err = None \<longrightarrow> hook_calls StageStart (xa_world b) = hook_calls StageStart (xa_world a) @ start_order con0)"
  using start_loop_owns [OF run [unfolded startAll_def owns_positions [OF own]] own]
  by (simp add: start_order_def map_nth)

lemma serve_ok:
  assumes d: "distinct (con_identities con0)" and m: "tasks_only (ho_meanwhile h)" and own: "owns con0 a"
    and gate: "\<not> xa_trafficOpen a" and fresh: "hook_calls StageStart (xa_world a) = []" and run: "serve h a = Some out"
  shows "outcome_ok con0 out"
proof -
  note ab = aborted_ok [OF d m]
  obtain e b where s: "startAll h a = Some (e, b)" using run by (auto simp: serve_def split: option.splits)
  note k = startAll_owns [OF own s]
  show ?thesis
  proof (cases e)
    case (Some x)
    with run s k gate ab [of b x out] show ?thesis by (simp add: serve_def alive_def)
  next
    case None
    then have b: "owns con0 b" "\<not> xa_trafficOpen b" "hook_calls StageStart (xa_world b) = start_order con0" using k gate fresh by simp_all
    obtain e2 c where t: "prepareTraffic h b = Some (e2, c)" using run s None by (auto simp: serve_def split: option.splits)
    have c: "owns con0 c" "\<not> xa_trafficOpen c" "hook_calls StageStart (xa_world c) = start_order con0"
      using stage_loop_owns [OF t [unfolded prepareTraffic_def] b(1), where stage = StageOpenTraffic and sel = ld_openTraffic and s = StageStart] b(2,3)
      by (auto simp: InvokeTrafficPreparation_def)
    show ?thesis
    proof (cases e2)
      case (Some x)
      with run s None t c ab [of c x out] show ?thesis by (simp add: serve_def alive_def)
    next
      case e2: None
      obtain won dd where g: "releaseTraffic h c = (won, dd)" by fastforce
      have "alive con0 dd" using g c by (auto simp: releaseTraffic_def Let_def alive_def split: if_splits)
      with run s None t e2 g ab wait_ok [OF d m, of dd out] show ?thesis
        by (cases won) (auto simp: serve_def split: option.splits)
    qed
  qed
qed

lemma run_constructed_ok:
  assumes d: "distinct (con_identities con0)" and m: "tasks_only (ho_meanwhile h)" and own: "owns con0 a"
    and gate: "\<not> xa_trafficOpen a" and fresh: "hook_calls StageStart (xa_world a) = []" and run: "run_constructed h cmd a = Some out"
  shows "outcome_ok con0 out"
proof -
  obtain e b where s: "ensureStarting h ''construction'' a = (e, b)" by fastforce
  then have b: "b = look h a" by (simp add: ensureStarting_def stopRequested_def Let_def)
  have bo: "owns con0 b" "\<not> xa_trafficOpen b" "hook_calls StageStart (xa_world b) = []" "alive con0 b"
    using own gate fresh b by (simp_all add: alive_def)
  let ?mig = "if wantsMigration cmd (se_AutoMigrate (xa_settings b)) then migrateAll h b else Some (None, b)"
  have c: "owns con0 c" "\<not> xa_trafficOpen c" "hook_calls StageStart (xa_world c) = []" if t: "?mig = Some (e2, c)" for e2 c
  proof -
    have "owns con0 c \<and> \<not> xa_trafficOpen c \<and> hook_calls StageStart (xa_world c) = []"
    proof (cases "wantsMigration cmd (se_AutoMigrate (xa_settings b))")
      case True
      with t have "stage_loop h ''migration'' HasMigration InvokeMigration (positions b) b = Some (e2, c)" by (simp add: migrateAll_def)
      from stage_loop_owns [OF this bo(1), where stage = StageMigrate and sel = ld_migrate and s = StageStart] bo(2,3)
      show ?thesis by (auto simp: InvokeMigration_def)
    qed (use t bo in simp)
    then show "owns con0 c" "\<not> xa_trafficOpen c" "hook_calls StageStart (xa_world c) = []" by simp_all
  qed
  show ?thesis
  proof (cases e)
    case (Some x)
    with run s bo(4) aborted_ok [OF d m] show ?thesis by (simp add: run_constructed_def)
  next
    case None
    show ?thesis
    proof (cases "cmd_subcommand cmd = validateSubcommand")
      case True
      with run s None validate_ok [OF d m bo(1,2)] show ?thesis by (simp add: run_constructed_def)
    next
      case False
      with run s None obtain e2 c where t: "?mig = Some (e2, c)"
        and out: "(case (e2, c) of (Some e, a) \<Rightarrow> aborted h e a
          | (None, a) \<Rightarrow> if cmd_subcommand cmd = migrateSubcommand then complete h ''migration'' a else serve h a) = Some out"
        by (cases ?mig) (auto simp: run_constructed_def split: option.splits)
      note k = c [OF t]
      have "alive con0 c" using k by (simp add: alive_def)
      with out show ?thesis
        using aborted_ok [OF d m] complete_ok [OF d m] serve_ok [OF d m k]
        by (cases e2) (auto split: if_splits)
    qed
  qed
qed

section \<open>From the command line to the exit code\<close>

lemma call_factory_hooks:
  "call_factory app options planned i slots w = Some (result, elapsed, w') \<Longrightarrow> hook_calls s w' = hook_calls s w"
  by (auto simp: call_factory_def Let_def NewBuildContext_def split: if_splits)

lemma construct_one_hooks:
  assumes "construct_one app options planned i con w = Some (err, con', w')" and "s \<noteq> StageInit"
  shows "hook_calls s w' = hook_calls s w"
  using assms call_factory_hooks [of app options planned i _ w]
  by (auto simp: construct_one_def Let_def split: sum.splits prod.splits option.splits if_splits dest!: invoke_spec(2) [where s = s])

lemma joinConstructionFailure_fails: "joinConstructionFailure app cause con timeout w \<noteq> Some (Inr con', w')"
  by (auto simp: joinConstructionFailure_def)

lemma construct_loop_hooks:
  assumes "construct_loop app options plan ids con w = Some (Inr con', w')" and "s \<noteq> StageInit"
  shows "hook_calls s w' = hook_calls s w"
  using assms(1)
proof (induction ids arbitrary: con w)
  case (Cons i ids)
  obtain planned where planned: "gm_get (plan_instances plan) i = Some planned"
    using Cons.prems by (auto split: option.splits)
  obtain err con1 w1 where one: "construct_one app options planned i con w = Some (err, con1, w1)"
    using Cons.prems planned by (auto split: option.splits)
  have "err = None" using Cons.prems planned one by (cases err) (auto simp: joinConstructionFailure_fails)
  with Cons planned one construct_one_hooks [OF one assms(2)] show ?case by simp
qed simp

lemma constructed_fresh:
  assumes plan: "BuildPlan ops dl hp popts = Some (Inr plan)"
    and run: "Construct app (Some plan) options w = Some (Inr con, w')" and quiet: "w_events w = []"
  shows "built_from (Some plan) con" and "distinct (con_identities con)"
    and "s \<noteq> StageInit \<Longrightarrow> hook_calls s w' = []"
proof -
  note sound = BuildPlan_sound [OF plan]
  have own: "owned_ok plan (plan_order plan) con"
    using Construct_result [OF sound, of app options w] run joinConstructionFailure_fails
    by (elim disjE exE conjE) simp_all
  then show "built_from (Some plan) con" by (simp add: built_from_def)
  show "distinct (con_identities con)" using sound own by (simp add: plan_sound_def owned_ok_def)
  show "hook_calls s w' = []" if "s \<noteq> StageInit"
  proof -
    obtain o' where "construct_loop app o' plan (plan_order plan) nothing_owned w = Some (Inr con, w')"
      using run unfolding Construct_def Let_def option.case by blast
    from construct_loop_hooks [OF this that] quiet show ?thesis by (simp add: hook_calls_def List.map_filter_def)
  qed
qed

text \<open>A run that has constructed nothing yet.\<close>

definition unbuilt :: "App \<Rightarrow> bool" where
  "unbuilt a \<longleftrightarrow> xa_owned a = None \<and> \<not> xa_trafficOpen a \<and> \<not> xa_unwound a \<and> w_events (xa_world a) = []"

lemma unbuilt_look [simp]: "unbuilt (look h a) = unbuilt a"
  by (simp add: unbuilt_def)

definition run_ok :: "outcome \<Rightarrow> bool" where
  "run_ok out \<longleftrightarrow> fst (fst out) = (if snd (fst out) = [] then 0 else 1) \<and>
     (if xa_owned (snd out) = None then \<not> xa_trafficOpen (snd out)
      else (\<exists>con. ended con (snd out)) \<and> set (unwind_errors (snd out)) \<subseteq> set (snd (fst out)))"

lemma ensureStarting_eq: "ensureStarting h stage a = (e, b) \<Longrightarrow> b = look h a"
  by (auto simp: ensureStarting_def stopRequested_def Let_def)

lemma run_placed_ok:
  assumes m: "tasks_only (ho_meanwhile h)" and un: "unbuilt a" and tasks: "tracked a"
    and run: "run_placed h cmd st a = Some (out, st')"
  shows "run_ok out"
proof -
  obtain placement st1 where pl: "resolvePlacement (ho_ops h) (ho_heap h) (ho_bundles h) (xa_env a) (settings_Instance (xa_settings a)) (ho_source h) st
      = (placement, st1)" by fastforce
  have resolves: "\<not> resolve_blocks h a st" using run by (auto simp: run_placed_def)
  note run = run resolves
  show ?thesis
  proof (cases placement)
    case (Inl e)
    with run pl un show ?thesis by (auto simp: run_placed_def run_ok_def unbuilt_def)
  next
    case (Inr p)
    let ?popts = "\<lparr>po_Bundles = ho_bundles h, po_Env = xa_env a, po_Logger = Some (ho_logger h), po_Placement = p\<rparr>"
    show ?thesis
    proof (cases "\<exists>plan. BuildPlan (ho_ops h) (ho_logger h) (ho_heap h) ?popts = Some (Inr plan)")
      case False
      with run pl Inr un show ?thesis by (auto simp: run_placed_def run_ok_def unbuilt_def split: option.splits sum.splits)
    next
      case True
      then obtain plan where plan: "BuildPlan (ho_ops h) (ho_logger h) (ho_heap h) ?popts = Some (Inr plan)" by blast
      let ?a = "set_plan plan a"
      have un': "unbuilt ?a" "tracked ?a" "xa_plan ?a = Some plan" using un tasks by (auto simp: unbuilt_def set_plan_def tracked_def)
      obtain e b where es: "ensureStarting h ''planning'' ?a = (e, b)" by fastforce
      have b: "unbuilt b" "tracked b" "xa_plan b = Some plan" using un' ensureStarting_eq [OF es] by simp_all
      show ?thesis
      proof (cases "\<exists>con w. cmd_subcommand cmd \<noteq> doctorSubcommand \<and> Order (Some plan) \<noteq> [] \<and> e = None \<and>
          Construct (ho_app h) (Some plan) (construct_options b) (xa_world b) = Some (Inr con, w)")
        case True
        then obtain con w where c: "cmd_subcommand cmd \<noteq> doctorSubcommand" "Order (Some plan) \<noteq> []" "e = None"
          "Construct (ho_app h) (Some plan) (construct_options b) (xa_world b) = Some (Inr con, w)" by blast
        let ?c = "b\<lparr>xa_owned := Some con, xa_world := w\<rparr>"
        have out: "run_constructed h cmd ?c = Some out" using run pl Inr plan es c b(3) by (auto simp: run_placed_def Let_def)
        have quiet: "w_events (xa_world b) = []" using b(1) by (simp add: unbuilt_def)
        note f = constructed_fresh [OF plan c(4) quiet]
        have "owns con ?c" using b f(1) f(3) [of StageStop] f(3) [of StagePreStop] by (simp add: owns_def unbuilt_def tracked_def)
        from run_constructed_ok [OF f(2) m this _ _ out] b(1) f(3) [of StageStart] have "outcome_ok con out" by (simp add: unbuilt_def)
        then show ?thesis unfolding outcome_ok_def run_ok_def ended_def by auto
      next
        case False
        with run pl Inr plan es un' b show ?thesis
          by (auto simp: run_placed_def run_ok_def unbuilt_def Let_def split: option.splits sum.splits if_splits prod.splits)
      qed
    qed
  qed
qed

lemma bootstrap_ok:
  assumes "bootstrap h cmd a = Some (e, b)" "unbuilt a"
  shows "unbuilt b" and "e = None \<Longrightarrow> tracked b"
proof -
  obtain loaded where "bootstrap_with h cmd a loaded = (e, b)" using assms(1) by (auto simp: bootstrap_def)
  then have "xa_owned b = xa_owned a \<and> xa_trafficOpen b = xa_trafficOpen a \<and> xa_unwound b = xa_unwound a \<and>
    xa_world b = xa_world a \<and> (e = None \<longrightarrow> tracked b)"
    by (auto simp: bootstrap_with_def Let_def tracks_start split: sum.splits option.splits if_splits)
  with assms(2) show "unbuilt b" "e = None \<Longrightarrow> tracked b" by (simp_all add: unbuilt_def)
qed

lemma run_ok_early: "unbuilt a \<Longrightarrow> code = (if errs = [] then 0 else 1) \<Longrightarrow> run_ok ((code, errs), a)"
  by (simp add: run_ok_def unbuilt_def)

text \<open>What \<^verbatim>\<open>execute\<close> returns is a usage error or a run.\<close>

lemma execute_run_ok:
  assumes m: "tasks_only (ho_meanwhile h)" and un: "unbuilt a"
    and run: "execute h parent args st a = Some (((code, errs), b), st', released)"
  shows "(\<not> released \<longrightarrow> st' = st) \<and>
    (if parent = Some None \<and> \<not> xa_executed a \<and> (\<exists>e. parseArgs (ho_getenv h) args ''XBC_'' (ho_commands h) = Inl e)
     then code = 2 \<and> errs \<noteq> [] \<and> xa_owned b = None \<and> \<not> xa_trafficOpen b \<and> \<not> released
     else run_ok ((code, errs), b))"
proof (cases "parent = Some None \<and> \<not> xa_executed a")
  case False
  have "unbuilt (a\<lparr>xa_executed := True\<rparr>)" using un by (simp add: unbuilt_def)
  with False run un show ?thesis
    by (auto simp: execute_def Let_def run_ok_early split: option.splits if_splits)
next
  case True
  let ?a = "a\<lparr>xa_executed := True, xa_cancelExec := True\<rparr>"
  have a: "unbuilt ?a" using un by (simp add: unbuilt_def)
  show ?thesis
  proof (cases "parseArgs (ho_getenv h) args ''XBC_'' (ho_commands h)")
    case (Inl e)
    with run True a show ?thesis by (auto simp: execute_def Let_def unbuilt_def)
  next
    case (Inr cmd)
    obtain e1 a1 where s1: "ensureStarting h ''command parsing'' ?a = (e1, a1)" by fastforce
    have u1: "unbuilt a1" using a ensureStarting_eq [OF s1] by simp
    show ?thesis
    proof (cases "\<exists>e2 a2. e1 = None \<and> bootstrap h cmd a1 = Some (e2, a2)")
      case False
      with run True Inr s1 u1 show ?thesis by (auto simp: execute_def Let_def run_ok_early split: option.splits)
    next
      case boot: True
      then obtain e2 a2 where s2: "e1 = None" "bootstrap h cmd a1 = Some (e2, a2)" by blast
      note u2 = bootstrap_ok [OF s2(2) u1]
      obtain e3 a3 where s3: "ensureStarting h ''bootstrapping'' a2 = (e3, a3)" by fastforce
      have u3: "unbuilt a3" "e2 = None \<Longrightarrow> tracked a3" using u2 ensureStarting_eq [OF s3] by simp_all
      show ?thesis
      proof (cases "e2 = None \<and> e3 = None \<and> lookupCommand (ho_commands h) (cmd_subcommand cmd) = None")
        case ok: True
        with run True Inr s1 s2 s3 obtain st1 where "run_placed h cmd st a3 = Some (((code, errs), b), st1)" "released"
          by (auto simp: execute_def Let_def split: option.splits if_splits)
        with run_placed_ok [OF m u3(1) _ this(1)] u3(2) ok Inr show ?thesis by simp
      next
        case False
        with run True Inr s1 s2 s3 u1 u2(1) u3(1) show ?thesis
          by (auto simp: execute_def Let_def run_ok_early split: option.splits)
      qed
    qed
  qed
qed

lemma unwind_errors_left: "e \<in> set (unwind_errors a) \<Longrightarrow> \<exists>es left. e = UnwindFailed es left"
  by (auto simp: unwind_errors_def split: prod.splits if_splits)

text \<open>
  C21. A run that returns. It exits with 0 exactly when it has no error, with 2 exactly when its arguments are
  refused, and otherwise with 1. It opens its traffic only when it owns the instances of its plan. When
  it owns them, they have been unwound when it returns: every instance of the plan is in the
  shutdown report once, in the order of the reverse walk, no Stop hook was called twice or for anything else, and no task can
  be submitted any more; when traffic was opened, every Start hook had been called in the order of the plan, and
  the PreStop hooks were called once, in that order, exactly when traffic was opened and has a pre-stop budget. A task may
  outlive the shutdown budget, but never in silence: a run that leaves one behind has an unwind error and does not exit
  with 0, so that after a run that exits with 0 every task has ended. The placement source keeps its
  state when the run ends before it is asked.
\<close>

theorem execute_safe:
  assumes "tasks_only (ho_meanwhile h)" and "w_events w = []"
    and "execute h parent args st (newApp v w) = Some (((code, errs), a), st', released)"
  shows "(code = 0 \<longleftrightarrow> errs = []) \<and> code \<in> {0, 1, 2} \<and>
    (code = 2 \<longleftrightarrow> parent = Some None \<and> (\<exists>e. parseArgs (ho_getenv h) args ''XBC_'' (ho_commands h) = Inl e)) \<and>
    (xa_trafficOpen a \<longrightarrow> xa_owned a \<noteq> None) \<and> (xa_owned a \<noteq> None \<longrightarrow> (\<exists>con. ended con a)) \<and>
    (\<forall>r. xa_owned a \<noteq> None \<and> xa_tasks a = Some r \<and> \<not> no_task_left r \<longrightarrow> (\<exists>es left. UnwindFailed es left \<in> set errs)) \<and>
    (\<not> released \<longrightarrow> st' = st)"
proof -
  have "unbuilt (newApp v w)" "\<not> xa_executed (newApp v w)" using assms(2) by (simp_all add: unbuilt_def newApp_def)
  note ok = execute_run_ok [OF assms(1) this(1) assms(3)]
  have "\<exists>es left. UnwindFailed es left \<in> set errs" if r: "xa_owned a \<noteq> None" "xa_tasks a = Some r" "\<not> no_task_left r" for r
  proof -
    have "(\<exists>con. ended con a) \<and> set (unwind_errors a) \<subseteq> set errs" using ok r(1) by (auto simp: run_ok_def split: if_splits)
    moreover from this r(2,3) have "unwind_errors a \<noteq> []" by (auto simp: ended_def)
    ultimately show ?thesis using unwind_errors_left [of "hd (unwind_errors a)" a] by (metis hd_in_set subsetD)
  qed
  with ok \<open>\<not> xa_executed (newApp v w)\<close> show ?thesis by (auto simp: run_ok_def split: if_splits)
qed

section \<open>A run returns\<close>

lemma runPreStopPhase_returns:
  obtains phase b where "runPreStopPhase h a = Some (phase, b)" "xa_owned b = xa_owned a" "xa_settings b = xa_settings a"
    "w_now (xa_world b) \<le> w_now (xa_world a) + max 0 (se_PreStopTimeout (xa_settings a))"
proof (cases "xa_trafficOpen a \<and> xa_owned a \<noteq> None \<and> 0 < se_PreStopTimeout (xa_settings a)")
  case True
  then obtain con where con: "xa_owned a = Some con" by blast
  let ?t = "se_PreStopTimeout (xa_settings a)"
  have "ctx_done (WithTimeout (w_now (xa_world a)) Background ?t) = Some (w_now (xa_world a) + ?t)"
    by (simp add: WithTimeout_def WithDeadline_def Background_def)
  from PreStop_result [OF this, of "ho_app h" con "xa_world a" ?t] obtain r w where
    "Constructed_PreStop (ho_app h) (Some con) (WithTimeout (w_now (xa_world a)) Background ?t) ?t (xa_world a) = Some (r, w)"
    "w_now w \<le> max (w_now (xa_world a)) (w_now (xa_world a) + ?t)"
    by (auto simp: Let_def split: prod.splits)
  with True con that show thesis by (cases r) (auto simp: runPreStopPhase_def Let_def)
next
  case False
  then have "runPreStopPhase h a = Some (no_phase, a)" by (auto simp: runPreStopPhase_def Let_def)
  with that show thesis by simp
qed

lemma afterStop_within: "after_within (afterStop_of h tasks n e) e"
  by (auto simp: after_within_def afterStop_of_def joining_def split: option.splits)

lemma drained_now: "w_now (drained h e w) \<le> max (w_now w) e"
  by (auto simp: drained_def)

text \<open>The unwind ends within the budgets of its phases.\<close>

lemma unwind_once_returns:
  obtains b where "unwind_once h a = Some b"
    "w_now (xa_world b) \<le> w_now (xa_world a) + max 0 (se_PreStopTimeout (xa_settings a)) + shutdown_budget a"
proof -
  let ?a = "a\<lparr>xa_unwound := True, xa_tasks := map_option closeAdmission (xa_tasks a)\<rparr>"
  obtain phase a1 where pre: "runPreStopPhase h ?a = Some (phase, a1)" "xa_owned a1 = xa_owned a" "xa_settings a1 = xa_settings a"
    "w_now (xa_world a1) \<le> w_now (xa_world a) + max 0 (se_PreStopTimeout (xa_settings a))"
    using runPreStopPhase_returns [of h ?a] by auto
  have b: "shutdown_budget a1 = shutdown_budget a" "0 < shutdown_budget a" using pre(3) by (simp_all add: shutdown_budget_def)
  let ?n = "length (w_events (xa_world a1))"
  let ?e = "w_now (xa_world a1) + shutdown_budget a"
  let ?d = "WithTimeout (w_now (xa_world a1)) Background (shutdown_budget a)"
  show thesis
  proof (cases "xa_owned a")
    case None
    with pre b that drained_now [of h ?e "xa_world a1"] show thesis
      by (cases "xa_tasks a1") (auto simp: unwind_once_def Let_def case_prod_beta)
  next
    case (Some con)
    have dl: "ctx_Deadline ?d = Some ?e" "ctx_done ?d = Some ?e"
      by (simp_all add: WithTimeout_def WithDeadline_def Background_def)
    from unwind_budget [OF dl afterStop_within] obtain s where
      "unwindPhases (ho_app h) (Some con) ?d (shutdown_budget a) (se_DrainTimeout (xa_settings a)) (se_StopReserve (xa_settings a))
        (afterStop_of h (xa_tasks a1) ?n ?e) (xa_world a1) = Some s"
      "walk_clock s \<le> max (w_now (xa_world a1)) ?e"
      by metis
    with pre b Some that drained_now [of h ?e "wk_world s"] show thesis
      by (cases "xa_tasks a1") (auto simp: unwind_once_def UnwindWithDrain_def Let_def case_prod_beta)
  qed
qed

lemma unwind_returns: "unwind h reason a \<noteq> None"
  using unwind_once_returns [of h "snd (requestStop reason (look h a))"] by (auto simp: unwind_def Let_def)

lemma endings_return: "aborted h e a \<noteq> None" "complete h stage a \<noteq> None"
proof -
  show ab: "aborted h e a \<noteq> None" for e a using unwind_returns [of h stopReasonStartupFailed a] by (auto simp: aborted_def abort_def)
  show "complete h stage a \<noteq> None"
    using ab unwind_returns [of h stopReasonCompleted] by (auto simp: complete_def Let_def split: prod.splits)
qed

text \<open>The code that a run waits for without a deadline returns, and a process that serves is asked to stop some time.\<close>

definition startup_returns :: "'st host \<Rightarrow> bool" where
  "startup_returns h \<longleftrightarrow> (\<forall>w i. ap_factory_time (ho_app h) w i \<noteq> None) \<and> (\<forall>w stage x. ap_hook (ho_app h) w stage x \<noteq> None) \<and>
     (\<forall>cmd. ho_load h cmd \<noteq> None) \<and> (\<forall>name args. ho_run h name args \<noteq> None) \<and> (\<forall>st. ho_resolves h st \<and> ho_releases h st) \<and>
     ho_final h \<noteq> None"

lemma wait_returns:
  assumes "ho_final h \<noteq> None"
  shows "wait h a \<noteq> None"
proof -
  obtain reason cause where "ho_final h = Some (reason, cause)" using assms by auto
  then show ?thesis using unwind_returns [of h]
    by (cases "xa_stopRequested (look h a)") (simp_all add: wait_def Let_def del: not_None_eq split del: if_split)
qed

lemma invoke_at_returns:
  assumes "startup_returns h" and "\<And>app x w. invokes app x w = invoke app stage (sel (in_lifecycle x)) x w"
  shows "invoke_at h invokes p a \<noteq> None"
proof -
  have "\<forall>w x. ap_hook (ho_app h) w stage x \<noteq> None" using assms(1) by (simp add: startup_returns_def)
  then have "invoke (ho_app h) stage hook x w \<noteq> None" for hook x w using invoke_None [of "ho_app h" stage hook x w] by metis
  then show ?thesis by (simp add: invoke_at_def assms(2) del: not_None_eq)
qed

lemma stage_loop_returns:
  assumes "\<And>p a. invoke_at h invokes p a \<noteq> None"
  shows "stage_loop h label has invokes ps a \<noteq> None"
proof (induction ps arbitrary: a)
  case (Cons p ps)
  obtain stop b where st: "stopRequested h a = (stop, b)" by fastforce
  obtain e c where "invoke_at h invokes p b = Some (e, c)" using assms [of p b] by auto
  with st Cons.IH show ?case by (cases stop; cases e) auto
qed simp

lemma start_loop_returns:
  assumes "\<And>p a. invoke_at h InvokeStart p a \<noteq> None"
  shows "start_loop h ps a \<noteq> None"
proof (induction ps arbitrary: a)
  case (Cons p ps)
  obtain out where "start_loop h (p # ps) a = Some out"
  proof -
    have "invoke_at h InvokeStart p b \<noteq> None" for b by (rule assms)
    with Cons.IH have "start_loop h (p # ps) a \<noteq> None"
      by (auto simp: Let_def simp del: not_None_eq split: prod.splits bool.splits option.splits)
    then show thesis using that by blast
  qed
  then show ?case by simp
qed simp

lemma stages_return:
  assumes "startup_returns h"
  shows "migrateAll h a \<noteq> None" "preflightAll h a \<noteq> None" "prepareTraffic h a \<noteq> None" "startAll h a \<noteq> None"
  unfolding migrateAll_def preflightAll_def prepareTraffic_def startAll_def
  by (intro stage_loop_returns start_loop_returns invoke_at_returns [OF assms]; (rule InvokeMigration_def InvokePreflight_def
      InvokeTrafficPreparation_def InvokeStart_def))+

lemma run_constructed_returns:
  assumes h: "startup_returns h"
  shows "run_constructed h cmd a \<noteq> None"
proof -
  note e = endings_return [of h] and st = stages_return [OF h]
  have w: "wait h b \<noteq> None" for b using h by (intro wait_returns) (simp add: startup_returns_def)
  have v: "validate h b \<noteq> None" for b using e st(2) [of b] by (auto simp: validate_def split: option.splits)
  have t: "prepareTraffic h b \<noteq> None" for b by (rule st(3))
  have s: "serve h b \<noteq> None" for b using e w st(4) [of b] t by (auto simp: serve_def simp del: not_None_eq split: prod.splits option.splits bool.splits)
  have m: "migrateAll h b \<noteq> None" for b by (rule st(1))
  show ?thesis using e v s m by (auto simp: run_constructed_def simp del: not_None_eq split: prod.splits option.splits)
qed

lemma Construct_returns:
  assumes "BuildPlan ops dl hp popts = Some (Inr plan)" and h: "startup_returns h"
  shows "Construct (ho_app h) (Some plan) options w \<noteq> None"
proof -
  have "\<not> may_block (ho_app h) i" for i using h by (auto simp: may_block_def startup_returns_def)
  with Construct_failure_cases [OF assms(1), of "ho_app h" options w] show ?thesis by auto
qed

lemma run_placed_returns:
  assumes h: "startup_returns h"
  shows "run_placed h cmd st a \<noteq> None"
proof -
  have free: "\<not> resolve_blocks h a st" using h by (simp add: resolve_blocks_def startup_returns_def)
  obtain placement st1 where pl: "resolvePlacement (ho_ops h) (ho_heap h) (ho_bundles h) (xa_env a) (settings_Instance (xa_settings a)) (ho_source h) st
      = (placement, st1)" by fastforce
  show ?thesis
  proof (cases placement)
    case (Inr p)
    obtain r where plan: "BuildPlan (ho_ops h) (ho_logger h) (ho_heap h)
        \<lparr>po_Bundles = ho_bundles h, po_Env = xa_env a, po_Logger = Some (ho_logger h), po_Placement = p\<rparr> = Some r"
      using BuildPlan_total by blast
    show ?thesis
    proof (cases r)
      case r: (Inr plan)
      obtain e b where es: "ensureStarting h ''planning'' (set_plan plan a) = (e, b)" by fastforce
      then have "xa_plan b = Some plan" using ensureStarting_eq [OF es] by (simp add: set_plan_def)
      with Construct_returns [OF plan [unfolded r] h, of "construct_options b" "xa_world b"] pl Inr plan r es free
        run_constructed_returns [OF h]
      show ?thesis by (auto simp: run_placed_def Let_def split: option.splits prod.splits sum.splits)
    qed (use pl Inr plan free in \<open>simp add: run_placed_def\<close>)
  qed (use pl free in \<open>simp add: run_placed_def\<close>)
qed

text \<open>
  C23. A shutdown returns within its two budgets, pre-stop and shutdown, with no hypothesis on the application: hooks of
  the shutdown may never return and tasks may never end. A run as a whole is promised to return only when the code that it
  waits for without a deadline does: factories and startup hooks, the loading of the configuration, a command, the
  placement source; and when a process that serves is asked to stop some time. A startup hook that blocks keeps the run
  for ever (\<open>blocked_report\<close>). Planners and binders are functions of the model, so they return.
\<close>

theorem execute_returns:
  "(\<exists>b. unwind_once h a = Some b \<and>
      w_now (xa_world b) \<le> w_now (xa_world a) + max 0 (se_PreStopTimeout (xa_settings a)) + shutdown_budget a) \<and>
   (startup_returns h \<longrightarrow>
      (\<exists>code errs b st' released. execute h parent args st a = Some (((code, errs), b), st', released)))"
proof (intro conjI impI)
  show "\<exists>b. unwind_once h a = Some b \<and>
      w_now (xa_world b) \<le> w_now (xa_world a) + max 0 (se_PreStopTimeout (xa_settings a)) + shutdown_budget a"
    by (rule unwind_once_returns [of h a]) blast
  assume h: "startup_returns h"
  have "\<not> release_blocks h st" for st using h by (simp add: release_blocks_def startup_returns_def)
  moreover have "bootstrap h cmd b \<noteq> None" "ho_run h name xs \<noteq> None" for cmd b name xs using h by (auto simp: bootstrap_def startup_returns_def)
  ultimately have "execute h parent args st a \<noteq> None"
    using run_placed_returns [OF h] by (auto simp: execute_def Let_def simp del: not_None_eq split: option.splits prod.splits sum.splits)
  then show "\<exists>code errs b st' released. execute h parent args st a = Some (((code, errs), b), st', released)" by auto
qed

section \<open>A served run\<close>

text \<open>
  The two plugins of the construction example, one of them with Start, OpenTraffic, PreStop and Stop hooks, until a signal arrives.
\<close>

definition serve_heap :: def_heap where
  "serve_heap = map (\<lambda>d. if dd_Lifecycle d = no_adapters then d
     else d\<lparr>dd_Lifecycle := no_adapters\<lparr>lc_Start := Some 0, lc_OpenTraffic := Some 0, lc_PreStop := Some 0, lc_Stop := Some 0\<rparr>\<rparr>) (run_heap False)"

definition sample_process :: process_values where
  "sample_process = \<lparr>pv_GOMAXPROCS = 4, pv_MemoryLimit = 0, pv_GCPercent = 100\<rparr>"

definition serve_host :: "unit host" where
  "serve_host = \<lparr>ho_app = walk_app, ho_stops = (\<lambda>n. []), ho_final = Some (''signal'', None), ho_submits = (\<lambda>_. []), ho_meanwhile = (\<lambda>r. r),
     ho_joining = (\<lambda>w i. 1), ho_draining = (\<lambda>_. 1), ho_text = (\<lambda>_. []), ho_ops = sample_ops, ho_heap = serve_heap, ho_logger = Logger 0 [],
     ho_bundles = po_Bundles (demo_options []),
     ho_load = (\<lambda>_. Some (Inr empty_environment)), ho_bind = (\<lambda>env. Inr (sample_section, env)), ho_machine = sample_machine, ho_logInit = (\<lambda>_. None),
     ho_source = None, ho_resolves = (\<lambda>_. True), ho_releases = (\<lambda>_. True), ho_running = (\<lambda>st. st), ho_getenv = (\<lambda>_. []), ho_commands = [], ho_run = (\<lambda>_ _. Some None)\<rparr>"

definition run_report ::
  "(outcome \<times> 'st \<times> bool) option \<Rightarrow> (int \<times> bool \<times> bool \<times> identity list \<times> identity list \<times> identity list) option" where
  "run_report r = map_option (\<lambda>(((code, errs), a), _, released). (code, xa_trafficOpen a, released,
     hook_calls StageStart (xa_world a), hook_calls StagePreStop (xa_world a), hook_calls StageStop (xa_world a))) r"

lemma serve_report:
  "run_report (execute serve_host (Some None) [''--profile'', ''dev''] () (newApp sample_process start_world)) =
     Some (0, True, True, [Identity ''gorm'' ''default''], [Identity ''gorm'' ''default''], [Identity ''gorm'' ''default''])"
  by code_simp

lemma tasks_only_quiet: "tasks_only (\<lambda>r. r)"
  unfolding tasks_only_def by blast

text \<open>A task that does not end in time outlives the run, which reports it; a Start hook that blocks keeps the run.\<close>

definition stubborn_host :: "unit host" where
  "stubborn_host = serve_host\<lparr>ho_submits := (\<lambda>_. [(True, False)])\<rparr>"

lemma stubborn_report:
  "map_option (\<lambda>(((code, errs), a), _). (code, map_option (\<lambda>r. map pt_wg (tr_heap r)) (xa_tasks a), errs \<noteq> []))
     (execute stubborn_host (Some None) [] () (newApp sample_process start_world)) = Some (1, Some [1], True)"
  by code_simp

lemma blocked_report:
  "execute (serve_host\<lparr>ho_app := walk_app\<lparr>ap_hook := (\<lambda>_ stage _. if stage = StageStart then None else Some (1, Returns None))\<rparr>\<rparr>)
     (Some None) [] () (newApp sample_process start_world) = None"
  by code_simp

theorem execute_safe_witness:
  "\<exists>a con. execute serve_host (Some None) [''--profile'', ''dev''] () (newApp sample_process start_world) = Some (((0, []), a), (), True) \<and>
     xa_trafficOpen a \<and> ended con a \<and> hook_calls StageStop (xa_world a) = [Identity ''gorm'' ''default'']"
proof -
  obtain errs a where run: "execute serve_host (Some None) [''--profile'', ''dev''] () (newApp sample_process start_world) = Some (((0, errs), a), (), True)"
    and a: "xa_trafficOpen a" "hook_calls StageStop (xa_world a) = [Identity ''gorm'' ''default'']"
    using serve_report by (auto simp: run_report_def)
  have "tasks_only (ho_meanwhile serve_host)" "w_events start_world = []"
    by (simp_all add: serve_host_def tasks_only_quiet start_world_def)
  from execute_safe [OF this run] a(1) have "errs = []" "\<exists>con. ended con a" by simp_all
  with run a show ?thesis by blast
qed

theorem execute_returns_witness:
  "\<exists>code errs b st' released. execute serve_host (Some None) [''validate''] () (newApp sample_process start_world) = Some (((code, errs), b), st', released)"
proof -
  have "startup_returns serve_host" by (simp add: startup_returns_def serve_host_def walk_app_def sample_app_def)
  with execute_returns [of serve_host "newApp sample_process start_world" "Some None" "[''validate'']" "()"] show ?thesis by blast
qed

end
