(* ===== verification/Sessions.thy ===== *)
theory Sessions
  imports Hooks
begin

text \<open>
  Server-side sessions, \<^verbatim>\<open>extensions/authentication/session\<close>: the session value and its
  normalisation (\<^verbatim>\<open>session.go\<close>), the digest handles (\<^verbatim>\<open>store.go\<close>) and the in-process store with
  its subject index (\<^verbatim>\<open>memory.go\<close>).
  \<^item> An instant is the number of nanoseconds since the zero \<^verbatim>\<open>time.Time\<close>; the clock is an argument of
    every operation.
  \<^item> \<open>env\<close> holds what the code takes from the standard library: the SHA-256 digest of an identifier
    and the JSON round trip of attributes. The theorems hold for every such pair.
  \<^item> Attribute maps are values: a defensive copy is the value itself.
  \<^item> Every operation holds the store's lock from its first access on, so an operation is one step.
\<close>

section \<open>Sessions\<close>

datatype session_error =
    ErrNotFound | ErrAlreadyExists | ErrInvalidCookie | ErrStopped | ErrNotSupported
  | EmptyID | EmptySubject | BadExpiration | NotJSONSafe string
  | NilContext | ContextDone | BadIdleTTL | BadTouchArguments | BadRotationArguments
  | BadDigest | BadCleanupInterval | RandomFailed | NoUniqueID

type_synonym attributes = "(string, cval) gomap option"

record Session =
  ses_ID :: string
  ses_Subject :: string
  ses_Attributes :: attributes
  ses_IssuedAt :: time
  ses_ExpiresAt :: time

record session_env =
  se_digest :: "string \<Rightarrow> string"
  se_json :: "(string, cval) gomap \<Rightarrow> (string, (string, cval) gomap) result"

definition time_IsZero :: "time \<Rightarrow> bool" where
  "time_IsZero t \<longleftrightarrow> t = 0"

definition millisecond :: time where
  "millisecond = 1000000"

text \<open>\<^verbatim>\<open>t.Truncate(d)\<close> rounds down to a multiple of \<open>d\<close> since the zero time.\<close>

definition time_Truncate :: "time \<Rightarrow> time \<Rightarrow> time" where
  "time_Truncate d t = t - t mod d"

definition normalizeAttributes :: "session_env \<Rightarrow> attributes \<Rightarrow> (session_error, attributes) result" where
  "normalizeAttributes env a =
     (case a of None \<Rightarrow> Inr None
      | Some m \<Rightarrow> (case se_json env m of Inl e \<Rightarrow> Inl (NotJSONSafe e) | Inr m' \<Rightarrow> Inr (Some m')))"

definition normalizeSession :: "session_env \<Rightarrow> Session \<Rightarrow> (session_error, Session) result" where
  "normalizeSession env v =
     (let v = v\<lparr>ses_ID := trim_space (ses_ID v), ses_Subject := trim_space (ses_Subject v)\<rparr> in
      if ses_ID v = [] then Inl EmptyID
      else if ses_Subject v = [] then Inl EmptySubject
      else if time_IsZero (ses_IssuedAt v) \<or> time_IsZero (ses_ExpiresAt v) \<or> \<not> ses_ExpiresAt v > ses_IssuedAt v then
        Inl BadExpiration
      else
        (case normalizeAttributes env (ses_Attributes v) of
           Inl e \<Rightarrow> Inl e
         | Inr a \<Rightarrow> Inr (v\<lparr>ses_Attributes := a,
             ses_IssuedAt := time_Truncate millisecond (ses_IssuedAt v),
             ses_ExpiresAt := time_Truncate millisecond (ses_ExpiresAt v)\<rparr>)))"

fun cloneValue :: "cval \<Rightarrow> cval" where
  "cloneValue (CMap m) = CMap (map (\<lambda>(k, v). (k, cloneValue v)) m)"
| "cloneValue (CList xs) = CList (map cloneValue xs)"
| "cloneValue v = v"

definition cloneMap :: "attributes \<Rightarrow> attributes" where
  "cloneMap a = map_option (map (\<lambda>(k, v). (k, cloneValue v))) a"

definition cloneSession :: "Session \<Rightarrow> Session" where
  "cloneSession v = v\<lparr>ses_Attributes := cloneMap (ses_Attributes v)\<rparr>"

lemma cloneValue_id [simp]: "cloneValue v = v"
proof (induction v rule: cloneValue.induct)
  case (1 m)
  then have "map (\<lambda>(k, v). (k, cloneValue v)) m = m" by (intro map_idI) auto
  then show ?case by simp
next
  case (2 xs)
  then show ?case by (simp add: map_idI)
qed simp_all

lemma cloneMap_id [simp]: "cloneMap a = a"
  by (cases a) (simp_all add: cloneMap_def case_prod_unfold)

lemma cloneSession_id [simp]: "cloneSession v = v"
  by (simp add: cloneSession_def)

section \<open>The store contract\<close>

record SessionInfo =
  inf_Digest :: string
  inf_Subject :: string
  inf_Attributes :: attributes
  inf_IssuedAt :: time
  inf_ExpiresAt :: time
  inf_LastSeenAt :: time

definition IDDigest :: "session_env \<Rightarrow> string \<Rightarrow> string" where
  "IDDigest env i = hex_EncodeToString (se_digest env i)"

definition digest_char :: "char \<Rightarrow> bool" where
  "digest_char c \<longleftrightarrow> \<not> ((c < CHR ''0'' \<or> c > CHR ''9'') \<and> (c < CHR ''a'' \<or> c > CHR ''f''))"

definition validDigest :: "string \<Rightarrow> bool" where
  "validDigest d \<longleftrightarrow> length d = 64 \<and> list_all digest_char d"

definition normalizeSubject :: "string \<Rightarrow> (session_error, string) result" where
  "normalizeSubject s = (let s = trim_space s in if s = [] then Inl EmptySubject else Inr s)"

datatype ctx_arg = CtxNil | CtxLive | CtxCancelled

fun contextError :: "ctx_arg \<Rightarrow> session_error option" where
  "contextError CtxNil = Some NilContext"
| "contextError CtxLive = None"
| "contextError CtxCancelled = Some ContextDone"

section \<open>The memory store\<close>

record memoryRecord =
  mr_value :: Session
  mr_idleExpiresAt :: time
  mr_lastTouched :: time

text \<open>A set of digests, a \<^verbatim>\<open>map[string]struct{}\<close>, is the list of its digests.\<close>

record MemoryStore =
  ms_records :: "(string, memoryRecord) gomap"
  ms_index :: "(string, string list) gomap"
  ms_stopped :: bool

definition NewMemoryStore :: "time \<Rightarrow> (session_error, MemoryStore) result" where
  "NewMemoryStore cleanupInterval =
     (if cleanupInterval \<le> 0 then Inl BadCleanupInterval
      else Inr \<lparr>ms_records = [], ms_index = [], ms_stopped = False\<rparr>)"

definition live :: "time \<Rightarrow> memoryRecord \<Rightarrow> bool" where
  "live now r \<longleftrightarrow> ses_ExpiresAt (mr_value r) > now \<and> mr_idleExpiresAt r > now"

definition indexLocked :: "string \<Rightarrow> string \<Rightarrow> MemoryStore \<Rightarrow> MemoryStore" where
  "indexLocked subject digest s =
     (let digests = gm_list (ms_index s) subject
      in s\<lparr>ms_index := gm_put subject (if digest \<in> set digests then digests else digests @ [digest]) (ms_index s)\<rparr>)"

text \<open>Deleting from a nil map and deleting an absent entry do nothing.\<close>

definition unindexLocked :: "string \<Rightarrow> string \<Rightarrow> MemoryStore \<Rightarrow> MemoryStore" where
  "unindexLocked subject digest s =
     (case gm_get (ms_index s) subject of
        None \<Rightarrow> s
      | Some digests \<Rightarrow>
          let digests = removeAll digest digests
          in s\<lparr>ms_index := (if digests = [] then gm_del subject (ms_index s) else gm_put subject digests (ms_index s))\<rparr>)"

definition dropLocked :: "string \<Rightarrow> MemoryStore \<Rightarrow> MemoryStore" where
  "dropLocked digest s =
     (case gm_get (ms_records s) digest of
        None \<Rightarrow> s
      | Some record \<Rightarrow>
          unindexLocked (ses_Subject (mr_value record)) digest (s\<lparr>ms_records := gm_del digest (ms_records s)\<rparr>))"

definition cleanup :: "time \<Rightarrow> MemoryStore \<Rightarrow> MemoryStore" where
  "cleanup now s =
     (if ms_stopped s then s
      else fold (\<lambda>(key, record) s. if \<not> live now record then dropLocked key s else s) (ms_records s) s)"

definition earlier :: "time \<Rightarrow> time \<Rightarrow> time" where
  "earlier a b = (if a < b then a else b)"

definition store_record :: "time \<Rightarrow> time \<Rightarrow> Session \<Rightarrow> memoryRecord" where
  "store_record now idleTTL stored =
     \<lparr>mr_value = stored, mr_idleExpiresAt = earlier (now + idleTTL) (ses_ExpiresAt stored), mr_lastTouched = now\<rparr>"

definition install :: "string \<Rightarrow> memoryRecord \<Rightarrow> MemoryStore \<Rightarrow> MemoryStore" where
  "install key record s =
     indexLocked (ses_Subject (mr_value record)) key (s\<lparr>ms_records := gm_put key record (ms_records s)\<rparr>)"

definition Create :: "session_env \<Rightarrow> time \<Rightarrow> ctx_arg \<Rightarrow> Session \<Rightarrow> time \<Rightarrow> MemoryStore \<Rightarrow> session_error option \<times> MemoryStore" where
  "Create env now ctx v idleTTL s =
     (case contextError ctx of Some e \<Rightarrow> (Some e, s) | None \<Rightarrow>
      (case normalizeSession env v of Inl e \<Rightarrow> (Some e, s) | Inr v \<Rightarrow>
       if idleTTL \<le> 0 then (Some BadIdleTTL, s)
       else if \<not> ses_ExpiresAt v > now then (Some ErrNotFound, s)
       else
         let key = IDDigest env (ses_ID v); stored = (cloneSession v)\<lparr>ses_ID := []\<rparr> in
         if ms_stopped s then (Some ErrStopped, s)
         else
           (case gm_get (ms_records s) key of
              Some existing \<Rightarrow>
                if live now existing then (Some ErrAlreadyExists, s)
                else (None, install key (store_record now idleTTL stored) (dropLocked key s))
            | None \<Rightarrow> (None, install key (store_record now idleTTL stored) s))))"

definition MemoryStore_Get :: "session_env \<Rightarrow> time \<Rightarrow> ctx_arg \<Rightarrow> string \<Rightarrow> MemoryStore \<Rightarrow> (session_error, Session option) result \<times> MemoryStore" where
  "MemoryStore_Get env now ctx i s =
     (case contextError ctx of Some e \<Rightarrow> (Inl e, s) | None \<Rightarrow>
      if i = [] then (Inr None, s)
      else
        let key = IDDigest env i in
        if ms_stopped s then (Inl ErrStopped, s)
        else
          (case gm_get (ms_records s) key of
             None \<Rightarrow> (Inr None, s)
           | Some record \<Rightarrow>
               if \<not> live now record then (Inr None, dropLocked key s)
               else (Inr (Some ((cloneSession (mr_value record))\<lparr>ses_ID := i\<rparr>)), s)))"

definition Touch ::
  "session_env \<Rightarrow> time \<Rightarrow> ctx_arg \<Rightarrow> string \<Rightarrow> time \<Rightarrow> time \<Rightarrow> MemoryStore \<Rightarrow> (session_error, Session option) result \<times> MemoryStore" where
  "Touch env now ctx i idleTTL minInterval s =
     (case contextError ctx of Some e \<Rightarrow> (Inl e, s) | None \<Rightarrow>
      if i = [] \<or> idleTTL \<le> 0 \<or> minInterval < 0 then (Inl BadTouchArguments, s)
      else
        let key = IDDigest env i in
        if ms_stopped s then (Inl ErrStopped, s)
        else
          (case gm_get (ms_records s) key of
             None \<Rightarrow> (Inr None, s)
           | Some record \<Rightarrow>
               if \<not> live now record then (Inr None, dropLocked key s)
               else
                 let s' = (if minInterval = 0 \<or> now - mr_lastTouched record \<ge> minInterval then
                       s\<lparr>ms_records := gm_put key (record\<lparr>mr_lastTouched := now,
                           mr_idleExpiresAt := earlier (now + idleTTL) (ses_ExpiresAt (mr_value record))\<rparr>) (ms_records s)\<rparr>
                     else s)
                 in (Inr (Some ((cloneSession (mr_value record))\<lparr>ses_ID := i\<rparr>)), s')))"

definition Rotate ::
  "session_env \<Rightarrow> time \<Rightarrow> ctx_arg \<Rightarrow> string \<Rightarrow> Session \<Rightarrow> time \<Rightarrow> MemoryStore \<Rightarrow> session_error option \<times> MemoryStore" where
  "Rotate env now ctx oldID replacement idleTTL s =
     (case contextError ctx of Some e \<Rightarrow> (Some e, s) | None \<Rightarrow>
      (case normalizeSession env replacement of Inl e \<Rightarrow> (Some e, s) | Inr replacement \<Rightarrow>
       if oldID = [] \<or> ses_ID replacement = oldID \<or> idleTTL \<le> 0 then (Some BadRotationArguments, s)
       else
         let oldKey = IDDigest env oldID; newKey = IDDigest env (ses_ID replacement);
             stored = (cloneSession replacement)\<lparr>ses_ID := []\<rparr> in
         if ms_stopped s then (Some ErrStopped, s)
         else if (case gm_get (ms_records s) oldKey of None \<Rightarrow> True | Some r \<Rightarrow> \<not> live now r) then (Some ErrNotFound, dropLocked oldKey s)
         else
           (case gm_get (ms_records s) newKey of
              Some existing \<Rightarrow>
                if live now existing then (Some ErrAlreadyExists, s)
                else (None, install newKey (store_record now idleTTL stored) (dropLocked oldKey (dropLocked newKey s)))
            | None \<Rightarrow> (None, install newKey (store_record now idleTTL stored) (dropLocked oldKey s)))))"

definition Delete :: "session_env \<Rightarrow> ctx_arg \<Rightarrow> string \<Rightarrow> MemoryStore \<Rightarrow> session_error option \<times> MemoryStore" where
  "Delete env ctx i s =
     (case contextError ctx of Some e \<Rightarrow> (Some e, s) | None \<Rightarrow>
      if i = [] then (None, s)
      else if ms_stopped s then (Some ErrStopped, s)
      else (None, dropLocked (IDDigest env i) s))"

definition session_info :: "string \<Rightarrow> string \<Rightarrow> memoryRecord \<Rightarrow> SessionInfo" where
  "session_info digest subject record =
     \<lparr>inf_Digest = digest, inf_Subject = subject, inf_Attributes = cloneMap (ses_Attributes (mr_value record)),
      inf_IssuedAt = ses_IssuedAt (mr_value record), inf_ExpiresAt = ses_ExpiresAt (mr_value record),
      inf_LastSeenAt = mr_lastTouched record\<rparr>"

definition list_member :: "time \<Rightarrow> string \<Rightarrow> string \<Rightarrow> SessionInfo list \<times> MemoryStore \<Rightarrow> SessionInfo list \<times> MemoryStore" where
  "list_member now subject digest st =
     (case st of (infos, s) \<Rightarrow>
       (case gm_get (ms_records s) digest of
          None \<Rightarrow> (infos, unindexLocked subject digest s)
        | Some record \<Rightarrow>
            if ses_Subject (mr_value record) \<noteq> subject then (infos, unindexLocked subject digest s)
            else if \<not> live now record then (infos, dropLocked digest s)
            else (infos @ [session_info digest subject record], s)))"

text \<open>
  The body of the loop removes at most the member it is at, so the members read are those the
  index held when the loop began.
\<close>

definition ListBySubject ::
  "time \<Rightarrow> ctx_arg \<Rightarrow> string \<Rightarrow> MemoryStore \<Rightarrow> (session_error, SessionInfo list) result \<times> MemoryStore" where
  "ListBySubject now ctx subject s =
     (case contextError ctx of Some e \<Rightarrow> (Inl e, s) | None \<Rightarrow>
      (case normalizeSubject subject of Inl e \<Rightarrow> (Inl e, s) | Inr subject \<Rightarrow>
       if ms_stopped s then (Inl ErrStopped, s)
       else (case fold (list_member now subject) (gm_list (ms_index s) subject) ([], s) of (infos, s') \<Rightarrow> (Inr infos, s'))))"

definition revoke_member :: "time \<Rightarrow> string \<Rightarrow> string \<Rightarrow> nat \<times> MemoryStore \<Rightarrow> nat \<times> MemoryStore" where
  "revoke_member now subject digest st =
     (case st of (revoked, s) \<Rightarrow>
       (case gm_get (ms_records s) digest of
          None \<Rightarrow> (revoked, unindexLocked subject digest s)
        | Some record \<Rightarrow>
            if ses_Subject (mr_value record) \<noteq> subject then (revoked, unindexLocked subject digest s)
            else (if live now record then revoked + 1 else revoked, dropLocked digest s)))"

definition RevokeBySubject ::
  "time \<Rightarrow> ctx_arg \<Rightarrow> string \<Rightarrow> MemoryStore \<Rightarrow> (session_error, nat) result \<times> MemoryStore" where
  "RevokeBySubject now ctx subject s =
     (case contextError ctx of Some e \<Rightarrow> (Inl e, s) | None \<Rightarrow>
      (case normalizeSubject subject of Inl e \<Rightarrow> (Inl e, s) | Inr subject \<Rightarrow>
       if ms_stopped s then (Inl ErrStopped, s)
       else (case fold (revoke_member now subject) (gm_list (ms_index s) subject) (0, s) of (n, s') \<Rightarrow> (Inr n, s'))))"

definition RevokeByDigest ::
  "time \<Rightarrow> ctx_arg \<Rightarrow> string \<Rightarrow> string \<Rightarrow> MemoryStore \<Rightarrow> (session_error, bool) result \<times> MemoryStore" where
  "RevokeByDigest now ctx subject digest s =
     (case contextError ctx of Some e \<Rightarrow> (Inl e, s) | None \<Rightarrow>
      (case normalizeSubject subject of Inl e \<Rightarrow> (Inl e, s) | Inr subject \<Rightarrow>
       if \<not> validDigest digest then (Inl BadDigest, s)
       else if ms_stopped s then (Inl ErrStopped, s)
       else if digest \<notin> set (gm_list (ms_index s) subject) then (Inr False, s)
       else
         (case gm_get (ms_records s) digest of
            None \<Rightarrow> (Inr False, unindexLocked subject digest s)
          | Some record \<Rightarrow>
              if ses_Subject (mr_value record) \<noteq> subject then (Inr False, unindexLocked subject digest s)
              else (Inr (live now record), dropLocked digest s))))"

definition Close :: "MemoryStore \<Rightarrow> MemoryStore" where
  "Close s = (if ms_stopped s then s else \<lparr>ms_records = [], ms_index = [], ms_stopped = True\<rparr>)"

lemma hex_digit_char: "n < 16 \<Longrightarrow> digest_char (hex_digit n)"
proof -
  have "\<forall>n \<in> set [0..<16]. digest_char (hex_digit n)" by code_simp
  then show "n < 16 \<Longrightarrow> digest_char (hex_digit n)" by simp
qed

text \<open>A handle has the form the operations on digests accept.\<close>

lemma IDDigest_valid:
  assumes "length (se_digest env i) = 32"
  shows "validDigest (IDDigest env i)"
proof -
  have "length (hex_EncodeToString bytes) = 2 * length bytes \<and> list_all digest_char (hex_EncodeToString bytes)" for bytes
  proof (induction bytes)
    case (Cons c cs)
    have "(of_char c :: nat) div 16 < 16" "(of_char c :: nat) mod 16 < 16" by (simp_all add: less_mult_imp_div_less)
    with Cons show ?case by (simp add: hex_EncodeToString_def hex_digit_char)
  qed (simp add: hex_EncodeToString_def)
  with assms show ?thesis by (simp add: validDigest_def IDDigest_def)
qed

section \<open>The index invariant\<close>

text \<open>
  The index lists exactly the records of every subject, each once and without empty entries; no
  record keeps a raw identifier; a stopped store holds nothing.
\<close>

definition index_ok :: "MemoryStore \<Rightarrow> bool" where
  "index_ok s \<longleftrightarrow> gm_wf (ms_records s) \<and>
     (\<forall>sub d. d \<in> set (gm_list (ms_index s) sub) \<longleftrightarrow>
        (\<exists>r. gm_get (ms_records s) d = Some r \<and> ses_Subject (mr_value r) = sub)) \<and>
     (\<forall>sub ds. gm_get (ms_index s) sub = Some ds \<longrightarrow> ds \<noteq> [] \<and> distinct ds) \<and>
     (\<forall>d r. gm_get (ms_records s) d = Some r \<longrightarrow> ses_ID (mr_value r) = []) \<and>
     (ms_stopped s \<longrightarrow> ms_records s = [] \<and> ms_index s = [])"

lemma index_okD:
  assumes "index_ok s"
  shows "gm_wf (ms_records s)"
    and "d \<in> set (gm_list (ms_index s) sub) \<longleftrightarrow> (\<exists>r. gm_get (ms_records s) d = Some r \<and> ses_Subject (mr_value r) = sub)"
    and "gm_get (ms_index s) sub = Some ds \<Longrightarrow> ds \<noteq> [] \<and> distinct ds"
    and "gm_get (ms_records s) d = Some r \<Longrightarrow> ses_ID (mr_value r) = []"
    and "ms_stopped s \<Longrightarrow> ms_records s = [] \<and> ms_index s = []"
  using assms unfolding index_ok_def by blast+

lemma index_distinct: "index_ok s \<Longrightarrow> distinct (gm_list (ms_index s) sub)"
  using index_okD(3) [of s sub] by (cases "gm_get (ms_index s) sub") (auto simp: gm_list_def)

lemma unindex_list:
  "gm_list (ms_index (unindexLocked sub d s)) sub' =
     (if sub' = sub then removeAll d (gm_list (ms_index s) sub) else gm_list (ms_index s) sub')"
  by (auto simp: unindexLocked_def gm_list_def Let_def split: option.splits)

lemma unindex_keeps [simp]:
  "ms_records (unindexLocked sub d s) = ms_records s" "ms_stopped (unindexLocked sub d s) = ms_stopped s"
  by (auto simp: unindexLocked_def Let_def split: option.splits)

lemma unindex_entries:
  assumes "gm_get (ms_index (unindexLocked sub d s)) sub' = Some ds"
    and "\<And>sub ds. gm_get (ms_index s) sub = Some ds \<Longrightarrow> ds \<noteq> [] \<and> distinct ds"
  shows "ds \<noteq> [] \<and> distinct ds"
proof (cases "gm_get (ms_index s) sub")
  case None
  with assms(1) have "gm_get (ms_index s) sub' = Some ds" by (simp add: unindexLocked_def)
  then show ?thesis by (rule assms(2))
next
  case (Some ds0)
  have ds0: "distinct ds0" using assms(2) [OF Some] ..
  show ?thesis
  proof (cases "sub' = sub")
    case True
    with assms(1) Some ds0 show ?thesis by (auto simp: unindexLocked_def Let_def distinct_removeAll split: if_splits)
  next
    case False
    with assms(1) Some have "gm_get (ms_index s) sub' = Some ds" by (simp add: unindexLocked_def Let_def split: if_splits)
    then show ?thesis by (rule assms(2))
  qed
qed

lemma drop_records:
  "gm_get (ms_records (dropLocked d s)) = (gm_get (ms_records s))(d := None)"
  by (rule ext) (auto simp: dropLocked_def split: option.splits)

lemma drop_stopped [simp]: "ms_stopped (dropLocked d s) = ms_stopped s"
  by (simp add: dropLocked_def split: option.splits)

lemma drop_index:
  assumes "index_ok s"
  shows "gm_list (ms_index (dropLocked d s)) sub = removeAll d (gm_list (ms_index s) sub)"
proof (cases "gm_get (ms_records s) d")
  case None
  then have "d \<notin> set (gm_list (ms_index s) sub)" using index_okD(2) [OF assms] by simp
  with None show ?thesis by (simp add: dropLocked_def removeAll_id)
next
  case (Some r)
  have "sub \<noteq> ses_Subject (mr_value r) \<Longrightarrow> d \<notin> set (gm_list (ms_index s) sub)"
    using index_okD(2) [OF assms, of d sub] Some by auto
  with Some show ?thesis by (auto simp: dropLocked_def unindex_list)
qed

lemma drop_ok:
  assumes "index_ok s"
  shows "index_ok (dropLocked d s)"
  unfolding index_ok_def
proof (intro conjI allI impI)
  show "gm_wf (ms_records (dropLocked d s))"
    using index_okD(1) [OF assms] by (simp add: dropLocked_def split: option.splits)
next
  fix sub d'
  show "d' \<in> set (gm_list (ms_index (dropLocked d s)) sub) \<longleftrightarrow>
      (\<exists>r. gm_get (ms_records (dropLocked d s)) d' = Some r \<and> ses_Subject (mr_value r) = sub)"
    unfolding drop_index [OF assms] drop_records using index_okD(2) [OF assms, of d' sub] by auto
next
  fix sub ds assume get: "gm_get (ms_index (dropLocked d s)) sub = Some ds"
  have "ds \<noteq> [] \<and> distinct ds"
  proof (cases "gm_get (ms_records s) d")
    case None
    with get have "gm_get (ms_index s) sub = Some ds" by (simp add: dropLocked_def)
    then show ?thesis by (rule index_okD(3) [OF assms])
  next
    case (Some r)
    let ?s = "s\<lparr>ms_records := gm_del d (ms_records s)\<rparr>"
    from Some get have "gm_get (ms_index (unindexLocked (ses_Subject (mr_value r)) d ?s)) sub = Some ds"
      by (simp add: dropLocked_def)
    then show ?thesis
    proof (rule unindex_entries)
      fix sub' ds' assume "gm_get (ms_index ?s) sub' = Some ds'"
      then have "gm_get (ms_index s) sub' = Some ds'" by simp
      then show "ds' \<noteq> [] \<and> distinct ds'" by (rule index_okD(3) [OF assms])
    qed
  qed
  then show "ds \<noteq> []" "distinct ds" by blast+
next
  fix d' r assume "gm_get (ms_records (dropLocked d s)) d' = Some r"
  then have "gm_get (ms_records s) d' = Some r" by (simp add: drop_records split: if_splits)
  then show "ses_ID (mr_value r) = []" by (rule index_okD(4) [OF assms])
next
  assume "ms_stopped (dropLocked d s)"
  then have "ms_records s = []" "ms_index s = []" using index_okD(5) [OF assms] by simp_all
  then show "ms_records (dropLocked d s) = []" "ms_index (dropLocked d s) = []" by (simp_all add: dropLocked_def)
qed

lemma install_records [simp]:
  "gm_get (ms_records (install key r s)) = (gm_get (ms_records s))(key \<mapsto> r)"
  "ms_stopped (install key r s) = ms_stopped s"
  by (simp_all add: install_def indexLocked_def Let_def)

lemma install_ok:
  assumes ok: "index_ok s" and fresh: "gm_get (ms_records s) key = None" and id: "ses_ID (mr_value r) = []"
    and run: "\<not> ms_stopped s"
  shows "index_ok (install key r s)"
proof -
  let ?sub = "ses_Subject (mr_value r)"
  have new: "key \<notin> set (gm_list (ms_index s) sub)" for sub using index_okD(2) [OF ok] fresh by simp
  have index: "ms_index (install key r s) = gm_put ?sub (gm_list (ms_index s) ?sub @ [key]) (ms_index s)"
    using new by (simp add: install_def indexLocked_def Let_def)
  show ?thesis
    unfolding index_ok_def
  proof (intro conjI allI impI)
    show "gm_wf (ms_records (install key r s))"
      using index_okD(1) [OF ok] by (simp add: install_def indexLocked_def Let_def)
    fix sub d
    show "d \<in> set (gm_list (ms_index (install key r s)) sub) \<longleftrightarrow>
        (\<exists>q. gm_get (ms_records (install key r s)) d = Some q \<and> ses_Subject (mr_value q) = sub)"
    proof (cases "d = key")
      case True
      with new [of sub] show ?thesis by (simp add: index)
    next
      case False
      then show ?thesis by (simp add: index index_okD(2) [OF ok])
    qed
  next
    fix sub ds assume "gm_get (ms_index (install key r s)) sub = Some ds"
    then consider "sub = ?sub" "ds = gm_list (ms_index s) ?sub @ [key]" | "gm_get (ms_index s) sub = Some ds"
      by (cases "sub = ?sub") (simp_all add: index)
    then have "ds \<noteq> [] \<and> distinct ds"
    proof cases
      case 1
      with index_distinct [OF ok, of ?sub] new show ?thesis by simp
    next
      case 2
      then show ?thesis by (rule index_okD(3) [OF ok])
    qed
    then show "ds \<noteq> []" "distinct ds" by blast+
  next
    fix d q assume "gm_get (ms_records (install key r s)) d = Some q"
    then show "ses_ID (mr_value q) = []" using index_okD(4) [OF ok, of d q] id by (auto split: if_splits)
  qed (use run in simp_all)
qed

end
