(* ===== verification/Lease.thy ===== *)
theory Lease
  imports Sessions Model
begin

text \<open>
  Renewable leases: the contract of \<^verbatim>\<open>extensions/coordination/lease/lease.go\<close> (locale \<open>lease_contract\<close>) and its
  implementation on Redis in \<^verbatim>\<open>extensions/storage/redis/lease.go\<close>.
  \<^item> The Redis server is a parameter: the commands the code uses, with their documented effect on the
    value a key has at an instant (locale \<open>redis_server\<close>). A Lua script is one atomic step.
  \<^item> A call may be lost before it reaches the store or after the store has acted; the caller sees an
    error in both cases (\<open>wire\<close>). A cancelled context is such a loss. A call that its caller has given up
    on is not delivered later.
\<close>

section \<open>Leases on Redis\<close>

datatype wire = Delivered | LostBefore | LostAfter

text \<open>Durations given to the server are in milliseconds.\<close>

record 'r redis_ops =
  rd_get :: "time \<Rightarrow> string \<Rightarrow> 'r \<Rightarrow> string option"
  rd_setnx :: "time \<Rightarrow> string \<Rightarrow> string \<Rightarrow> int \<Rightarrow> 'r \<Rightarrow> bool \<times> 'r"
  rd_set :: "time \<Rightarrow> string \<Rightarrow> string \<Rightarrow> int \<Rightarrow> 'r \<Rightarrow> 'r"
  rd_pexpire :: "time \<Rightarrow> string \<Rightarrow> int \<Rightarrow> 'r \<Rightarrow> int \<times> 'r"
  rd_del :: "time \<Rightarrow> string \<Rightarrow> 'r \<Rightarrow> int \<times> 'r"

record redisLease =
  ls_key :: string
  ls_owner :: string

datatype lease_error = NilClient | NotInitialized | EmptyLeaseKey | ShortTTL time | NoEntropy | StoreCall string

definition leaseRenewScript :: "'r redis_ops \<Rightarrow> time \<Rightarrow> string \<Rightarrow> string \<Rightarrow> int \<Rightarrow> 'r \<Rightarrow> int \<times> 'r" where
  "leaseRenewScript ops now key token px s =
     (let current = rd_get ops now key s in
      if current = Some token then rd_pexpire ops now key px s
      else if current = None then (1, rd_set ops now key token px s)
      else (0, s))"

definition leaseReleaseScript :: "'r redis_ops \<Rightarrow> time \<Rightarrow> string \<Rightarrow> string \<Rightarrow> 'r \<Rightarrow> int \<times> 'r" where
  "leaseReleaseScript ops now key token s =
     (if rd_get ops now key s = Some token then rd_del ops now key s else (0, s))"

definition Milliseconds :: "time \<Rightarrow> int" where
  "Milliseconds d = d div millisecond"

text \<open>The result of a remote call: what the store does, unless the call or its reply is lost.\<close>

definition remote :: "wire \<Rightarrow> string \<Rightarrow> ('r \<Rightarrow> 'a \<times> 'r) \<Rightarrow> 'r \<Rightarrow> (lease_error, 'a) result \<times> 'r" where
  "remote w key act s =
     (case w of
        LostBefore \<Rightarrow> (Inl (StoreCall key), s)
      | LostAfter \<Rightarrow> (Inl (StoreCall key), snd (act s))
      | Delivered \<Rightarrow> (case act s of (a, s') \<Rightarrow> (Inr a, s')))"

text \<open>The sixteen random bytes, \<open>None\<close> when the source fails.\<close>

definition leaseOwnerToken :: "string \<Rightarrow> string option \<Rightarrow> string option" where
  "leaseOwnerToken claimant raw =
     (case raw of
        None \<Rightarrow> None
      | Some bytes \<Rightarrow>
          let unique = hex_EncodeToString bytes
          in Some (if claimant = [] then unique else claimant @ ''/'' @ unique))"

definition TryAcquire ::
  "'r redis_ops \<Rightarrow> time \<Rightarrow> string \<Rightarrow> string \<Rightarrow> time \<Rightarrow> string option \<Rightarrow> wire \<Rightarrow> 'r \<Rightarrow> (lease_error, redisLease option) result \<times> 'r" where
  "TryAcquire ops now key claimant ttl raw w s =
     (if key = [] then (Inl EmptyLeaseKey, s)
      else if ttl < millisecond then (Inl (ShortTTL ttl), s)
      else
        (case leaseOwnerToken claimant raw of
           None \<Rightarrow> (Inl NoEntropy, s)
         | Some token \<Rightarrow>
             (case remote w key (rd_setnx ops now key token (Milliseconds ttl)) s of
                (Inl e, s) \<Rightarrow> (Inl e, s)
              | (Inr acquired, s) \<Rightarrow>
                  if \<not> acquired then (Inr None, s) else (Inr (Some \<lparr>ls_key = key, ls_owner = token\<rparr>), s))))"

text \<open>A locker without a client, which only its zero value has, refuses every acquisition.\<close>

definition locker_TryAcquire ::
  "'r redis_ops option \<Rightarrow> time \<Rightarrow> string \<Rightarrow> string \<Rightarrow> time \<Rightarrow> string option \<Rightarrow> wire \<Rightarrow> 'r \<Rightarrow> (lease_error, redisLease option) result \<times> 'r" where
  "locker_TryAcquire client now key claimant ttl raw w s =
     (case client of
        None \<Rightarrow> (Inl NotInitialized, s)
      | Some ops \<Rightarrow> TryAcquire ops now key claimant ttl raw w s)"

definition NewLocker :: "'r redis_ops option \<Rightarrow> (lease_error, 'r redis_ops option) result" where
  "NewLocker client = (case client of None \<Rightarrow> Inl NilClient | Some ops \<Rightarrow> Inr (Some ops))"

definition Renew :: "'r redis_ops \<Rightarrow> time \<Rightarrow> redisLease \<Rightarrow> time \<Rightarrow> wire \<Rightarrow> 'r \<Rightarrow> (lease_error, bool) result \<times> 'r" where
  "Renew ops now l ttl w s =
     (if ttl < millisecond then (Inl (ShortTTL ttl), s)
      else
        (case remote w (ls_key l) (leaseRenewScript ops now (ls_key l) (ls_owner l) (Milliseconds ttl)) s of
           (Inl e, s) \<Rightarrow> (Inl e, s)
         | (Inr result, s) \<Rightarrow> (Inr (result = 1), s)))"

definition Release :: "'r redis_ops \<Rightarrow> time \<Rightarrow> redisLease \<Rightarrow> wire \<Rightarrow> 'r \<Rightarrow> (lease_error, bool) result \<times> 'r" where
  "Release ops now l w s =
     (case remote w (ls_key l) (leaseReleaseScript ops now (ls_key l) (ls_owner l)) s of
        (Inl e, s) \<Rightarrow> (Inl e, s)
      | (Inr result, s) \<Rightarrow> (Inr (result = 1), s))"

section \<open>The lease contract\<close>

text \<open>A locker: the two interfaces \<^verbatim>\<open>Locker\<close> and \<^verbatim>\<open>Lease\<close>.\<close>

record 's Locker =
  lk_TryAcquire :: "time \<Rightarrow> string \<Rightarrow> string \<Rightarrow> time \<Rightarrow> string option \<Rightarrow> wire \<Rightarrow> 's \<Rightarrow> (lease_error, redisLease option) result \<times> 's"
  lk_Renew :: "time \<Rightarrow> redisLease \<Rightarrow> time \<Rightarrow> wire \<Rightarrow> 's \<Rightarrow> (lease_error, bool) result \<times> 's"
  lk_Release :: "time \<Rightarrow> redisLease \<Rightarrow> wire \<Rightarrow> 's \<Rightarrow> (lease_error, bool) result \<times> 's"

definition redis_locker :: "'r redis_ops \<Rightarrow> 'r Locker" where
  "redis_locker ops = \<lparr>lk_TryAcquire = TryAcquire ops, lk_Renew = Renew ops, lk_Release = Release ops\<rparr>"

text \<open>
  What the contract promises: \<open>holder t k s\<close> is the token the key has at \<open>t\<close>. An acquisition takes only a
  free key and for its own token; a renewal touches only its own or a free key; a release removes only
  its own token; a confirmed renewal is ownership; and a key is never re-acquired by the passing of time.
\<close>

locale lease_contract =
  fixes lk :: "'s Locker" and holder :: "time \<Rightarrow> string \<Rightarrow> 's \<Rightarrow> string option"
    and token :: "string \<Rightarrow> string option \<Rightarrow> string option"
  assumes token_unique: "token c r = Some v \<Longrightarrow> token c' r' = Some v \<Longrightarrow> r = r'"
    and token_entropy: "token c None = None"
    and expiry: "holder t k s = Some v \<Longrightarrow> now \<le> t \<Longrightarrow> holder now k s = Some v"
    and acquire_effect: "lk_TryAcquire lk now k c ttl r w s = (q, s') \<Longrightarrow> now \<le> t \<Longrightarrow>
      holder t j s' = holder t j s \<or>
        j = k \<and> holder now k s = None \<and> (holder t j s' = None \<or> holder t j s' = token c r \<and> token c r \<noteq> None)"
    and acquire_won: "lk_TryAcquire lk now k c ttl r w s = (Inr (Some l), s') \<Longrightarrow> ls_key l = k \<and> token c r = Some (ls_owner l)"
    and renew_effect: "lk_Renew lk now l ttl w s = (b, s') \<Longrightarrow> now \<le> t \<Longrightarrow>
      holder t j s' = holder t j s \<or>
        j = ls_key l \<and> (holder now j s = None \<or> holder now j s = Some (ls_owner l)) \<and>
        (holder t j s' = None \<or> holder t j s' = Some (ls_owner l))"
    and renew_confirmed: "lk_Renew lk now l ttl w s = (Inr True, s') \<Longrightarrow> holder now (ls_key l) s' = Some (ls_owner l)"
    and release_effect: "lk_Release lk now l w s = (b, s') \<Longrightarrow> now \<le> t \<Longrightarrow>
      holder t j s' = holder t j s \<or> j = ls_key l \<and> holder now j s = Some (ls_owner l) \<and> holder t j s' = None"
    and release_done: "lk_Release lk now l w s = (Inr x, s') \<Longrightarrow> now \<le> t \<Longrightarrow> holder t (ls_key l) s' \<noteq> Some (ls_owner l)"

section \<open>The Redis implementation keeps the contract\<close>

text \<open>The documented effect of the commands.\<close>

locale redis_server =
  fixes ops :: "'r redis_ops"
  assumes get_expiry: "rd_get ops t k s = Some v \<Longrightarrow> now \<le> t \<Longrightarrow> rd_get ops now k s = Some v"
    and setnx_sets: "rd_setnx ops now k v px s = (True, s') \<Longrightarrow> rd_get ops now k s = None \<and>
      (\<forall>t \<ge> now. \<forall>j. rd_get ops t j s' = (if j = k then if t < now + px * millisecond then Some v else None else rd_get ops t j s))"
    and setnx_refuses: "rd_setnx ops now k v px s = (False, s') \<Longrightarrow> rd_get ops now k s \<noteq> None \<and> s' = s"
    and set_sets: "now \<le> t \<Longrightarrow> rd_get ops t j (rd_set ops now k v px s) =
      (if j = k then if t < now + px * millisecond then Some v else None else rd_get ops t j s)"
    and pexpire_resets: "rd_get ops now k s = Some v \<Longrightarrow> rd_pexpire ops now k px s = (n, s') \<Longrightarrow> n = 1 \<and>
      (\<forall>t \<ge> now. \<forall>j. rd_get ops t j s' = (if j = k then if t < now + px * millisecond then Some v else None else rd_get ops t j s))"
    and del_removes: "rd_get ops now k s = Some v \<Longrightarrow> rd_del ops now k s = (n, s') \<Longrightarrow> n = 1 \<and>
      (\<forall>t \<ge> now. \<forall>j. rd_get ops t j s' = (if j = k then None else rd_get ops t j s))"
begin

lemma renew_script:
  assumes "leaseRenewScript ops now k v px s = (n, s')" and "0 < px"
  shows "now \<le> t \<Longrightarrow> rd_get ops t j s' = rd_get ops t j s \<or>
      j = k \<and> (rd_get ops now j s = None \<or> rd_get ops now j s = Some v) \<and> (rd_get ops t j s' = None \<or> rd_get ops t j s' = Some v)"
    and "n = 1 \<Longrightarrow> rd_get ops now k s' = Some v"
proof -
  have live: "now < now + px * millisecond" using assms(2) by (simp add: millisecond_def)
  consider (mine) "rd_get ops now k s = Some v" | (free) "rd_get ops now k s = None"
    | (other) "rd_get ops now k s \<noteq> None" "rd_get ops now k s \<noteq> Some v" by blast
  then have "(now \<le> t \<longrightarrow> rd_get ops t j s' = rd_get ops t j s \<or>
      j = k \<and> (rd_get ops now j s = None \<or> rd_get ops now j s = Some v) \<and> (rd_get ops t j s' = None \<or> rd_get ops t j s' = Some v)) \<and>
      (n = 1 \<longrightarrow> rd_get ops now k s' = Some v)"
  proof cases
    case mine
    with assms(1) have "rd_pexpire ops now k px s = (n, s')" by (simp add: leaseRenewScript_def)
    with pexpire_resets [OF mine] mine live show ?thesis by auto
  next
    case free
    with assms(1) have "s' = rd_set ops now k v px s" by (simp add: leaseRenewScript_def)
    with free live show ?thesis by (auto simp: set_sets)
  next
    case other
    with assms(1) show ?thesis by (auto simp: leaseRenewScript_def split: if_splits)
  qed
  then show "now \<le> t \<Longrightarrow> rd_get ops t j s' = rd_get ops t j s \<or>
      j = k \<and> (rd_get ops now j s = None \<or> rd_get ops now j s = Some v) \<and> (rd_get ops t j s' = None \<or> rd_get ops t j s' = Some v)"
    "n = 1 \<Longrightarrow> rd_get ops now k s' = Some v" by blast+
qed

lemma release_script:
  assumes "leaseReleaseScript ops now k v s = (n, s')" and "now \<le> t"
  shows "rd_get ops t j s' = rd_get ops t j s \<or> j = k \<and> rd_get ops now j s = Some v \<and> rd_get ops t j s' = None"
    and "rd_get ops t k s' \<noteq> Some v"
proof -
  have "(rd_get ops t j s' = rd_get ops t j s \<or> j = k \<and> rd_get ops now j s = Some v \<and> rd_get ops t j s' = None) \<and>
      rd_get ops t k s' \<noteq> Some v"
  proof (cases "rd_get ops now k s = Some v")
    case True
    with assms(1) have "rd_del ops now k s = (n, s')" by (simp add: leaseReleaseScript_def)
    with del_removes [OF True] True assms(2) show ?thesis by auto
  next
    case False
    with assms(1) have "s' = s" by (simp add: leaseReleaseScript_def)
    with False get_expiry [of t k s v now] assms(2) show ?thesis by auto
  qed
  then show "rd_get ops t j s' = rd_get ops t j s \<or> j = k \<and> rd_get ops now j s = Some v \<and> rd_get ops t j s' = None"
    "rd_get ops t k s' \<noteq> Some v" by blast+
qed

end

text \<open>A token ends in its unique half, which has no slash.\<close>

lemma hex_digit_inj: "m < 16 \<Longrightarrow> n < 16 \<Longrightarrow> hex_digit m = hex_digit n \<Longrightarrow> m = n"
proof -
  have "\<forall>m \<in> set [0..<16]. \<forall>n \<in> set [0..<16]. hex_digit m = hex_digit n \<longrightarrow> m = n" by code_simp
  then show "m < 16 \<Longrightarrow> n < 16 \<Longrightarrow> hex_digit m = hex_digit n \<Longrightarrow> m = n" by simp
qed

lemma hex_EncodeToString_inj: "hex_EncodeToString xs = hex_EncodeToString ys \<Longrightarrow> xs = ys"
proof (induction xs arbitrary: ys)
  case Nil
  then show ?case by (cases ys) (simp_all add: hex_EncodeToString_def)
next
  case (Cons x xs)
  then obtain y ys' where ys: "ys = y # ys'" by (cases ys) (simp_all add: hex_EncodeToString_def)
  have small: "(of_char c :: nat) div 16 < 16" "(of_char c :: nat) mod 16 < 16" for c :: char
    by (simp_all add: less_mult_imp_div_less)
  from Cons.prems ys have "hex_digit (of_char x div 16) = hex_digit (of_char y div 16)"
      "hex_digit (of_char x mod 16) = hex_digit (of_char y mod 16)" "hex_EncodeToString xs = hex_EncodeToString ys'"
    by (simp_all add: hex_EncodeToString_def)
  then have "(of_char x :: nat) div 16 = of_char y div 16" "(of_char x :: nat) mod 16 = of_char y mod 16" "xs = ys'"
    using hex_digit_inj small Cons.IH by metis+
  then have "(of_char x :: nat) = of_char y" by (metis div_mult_mod_eq)
  then show ?case using ys \<open>xs = ys'\<close> by simp
qed

lemma hex_no_slash: "CHR ''/'' \<notin> set (hex_EncodeToString bytes)"
proof -
  have "\<forall>n \<in> set [0..<16]. hex_digit n \<noteq> CHR ''/''" by code_simp
  then have "hex_digit n \<noteq> CHR ''/''" if "n < 16" for n using that by simp
  then have "hex_digit ((of_char c :: nat) div 16) \<noteq> CHR ''/''" "hex_digit ((of_char c :: nat) mod 16) \<noteq> CHR ''/''" for c :: char
    by (simp_all add: less_mult_imp_div_less)
  then show ?thesis by (auto simp: hex_EncodeToString_def dest: sym)
qed

lemma token_unique_half:
  assumes "leaseOwnerToken c (Some bytes) = Some v"
  shows "takeWhile (\<lambda>x. x \<noteq> CHR ''/'') (rev v) = rev (hex_EncodeToString bytes)"
  using assms hex_no_slash [of bytes]
  by (auto simp: leaseOwnerToken_def Let_def takeWhile_append takeWhile_eq_all_conv split: if_splits)

lemma leaseOwnerToken_None: "leaseOwnerToken c None = None"
  by (simp add: leaseOwnerToken_def)

lemma leaseOwnerToken_unique:
  assumes "leaseOwnerToken c r = Some v" and "leaseOwnerToken c' r' = Some v"
  shows "r = r'"
proof -
  obtain a b where "r = Some a" "r' = Some b" using assms by (auto simp: leaseOwnerToken_def split: option.splits)
  with assms token_unique_half [of c a v] token_unique_half [of c' b v] show ?thesis
    by (simp add: hex_EncodeToString_inj)
qed

context redis_server
begin

lemma acquire_facts:
  assumes "TryAcquire ops now k c ttl r w s = (q, s')"
  shows "now \<le> t \<Longrightarrow> rd_get ops t j s' = rd_get ops t j s \<or>
      j = k \<and> rd_get ops now k s = None \<and>
      (rd_get ops t j s' = None \<or> rd_get ops t j s' = leaseOwnerToken c r \<and> leaseOwnerToken c r \<noteq> None)"
    and "q = Inr (Some l) \<Longrightarrow> ls_key l = k \<and> leaseOwnerToken c r = Some (ls_owner l)"
proof -
  show "ls_key l = k \<and> leaseOwnerToken c r = Some (ls_owner l)" if "q = Inr (Some l)"
    using assms that
    by (auto simp: TryAcquire_def remote_def split: if_splits option.splits prod.splits sum.splits wire.splits)
  show "rd_get ops t j s' = rd_get ops t j s \<or>
      j = k \<and> rd_get ops now k s = None \<and>
      (rd_get ops t j s' = None \<or> rd_get ops t j s' = leaseOwnerToken c r \<and> leaseOwnerToken c r \<noteq> None)" if "now \<le> t"
  proof (cases "s' = s")
    case False
    then obtain v b where v: "leaseOwnerToken c r = Some v" "rd_setnx ops now k v (Milliseconds ttl) s = (b, s')"
      using assms
      by (auto simp: TryAcquire_def remote_def split: if_splits option.splits prod.splits sum.splits wire.splits)
    with False have "b" using setnx_refuses by (cases b) auto
    with v(2) setnx_sets [of now k v "Milliseconds ttl" s s'] that v(1) show ?thesis by auto
  qed simp
qed

lemma renew_facts:
  assumes "Renew ops now l ttl w s = (q, s')"
  shows "now \<le> t \<Longrightarrow> rd_get ops t j s' = rd_get ops t j s \<or>
      j = ls_key l \<and> (rd_get ops now j s = None \<or> rd_get ops now j s = Some (ls_owner l)) \<and>
      (rd_get ops t j s' = None \<or> rd_get ops t j s' = Some (ls_owner l))"
    and "q = Inr True \<Longrightarrow> rd_get ops now (ls_key l) s' = Some (ls_owner l)"
proof -
  obtain n s1 where run: "leaseRenewScript ops now (ls_key l) (ls_owner l) (Milliseconds ttl) s = (n, s1)" by fastforce
  consider (same) "s' = s" "q \<noteq> Inr True" | (ran) "s' = s1" "\<not> ttl < millisecond" "q = Inr True \<longrightarrow> n = 1"
    using assms run
    by (auto simp: Renew_def remote_def split: if_splits prod.splits sum.splits wire.splits)
  note cases = this
  have px: "0 < Milliseconds ttl" if "\<not> ttl < millisecond"
    using that by (simp add: Milliseconds_def millisecond_def)
  show "rd_get ops t j s' = rd_get ops t j s \<or>
      j = ls_key l \<and> (rd_get ops now j s = None \<or> rd_get ops now j s = Some (ls_owner l)) \<and>
      (rd_get ops t j s' = None \<or> rd_get ops t j s' = Some (ls_owner l))" if "now \<le> t"
  proof (rule cases)
    assume "s' = s1" "\<not> ttl < millisecond"
    then show ?thesis using renew_script(1) [OF run px that] by simp
  qed simp
  show "rd_get ops now (ls_key l) s' = Some (ls_owner l)" if "q = Inr True"
  proof (rule cases)
    assume "s' = s1" "\<not> ttl < millisecond" "q = Inr True \<longrightarrow> n = 1"
    then show ?thesis using renew_script(2) [OF run px] that by simp
  qed (use that in simp)
qed

lemma release_facts:
  assumes "Release ops now l w s = (q, s')" and "now \<le> t"
  shows "rd_get ops t j s' = rd_get ops t j s \<or> j = ls_key l \<and> rd_get ops now j s = Some (ls_owner l) \<and> rd_get ops t j s' = None"
    and "q = Inr x \<Longrightarrow> rd_get ops t (ls_key l) s' \<noteq> Some (ls_owner l)"
proof -
  obtain n s1 where run: "leaseReleaseScript ops now (ls_key l) (ls_owner l) s = (n, s1)" by fastforce
  consider (same) "s' = s" "isl q" | (ran) "s' = s1"
    using assms(1) run by (auto simp: Release_def remote_def split: prod.splits sum.splits wire.splits)
  note cases = this
  show "rd_get ops t j s' = rd_get ops t j s \<or> j = ls_key l \<and> rd_get ops now j s = Some (ls_owner l) \<and> rd_get ops t j s' = None"
    by (rule cases) (simp, simp only: release_script(1) [OF run assms(2)])
  show "rd_get ops t (ls_key l) s' \<noteq> Some (ls_owner l)" if "q = Inr x"
  proof (rule cases)
    assume "s' = s1"
    then show ?thesis using release_script(2) [OF run assms(2)] by simp
  qed (use that in simp)
qed

end

sublocale redis_server \<subseteq> redis: lease_contract "redis_locker ops" "rd_get ops" leaseOwnerToken
proof (unfold_locales, unfold redis_locker_def Locker.simps)
qed (rule leaseOwnerToken_unique leaseOwnerToken_None get_expiry acquire_facts renew_facts release_facts; (assumption | rule refl))+

context redis_server
begin

lemma redis_contract: "lease_contract (redis_locker ops) (rd_get ops) leaseOwnerToken"
  by unfold_locales

end

section \<open>A key space\<close>

text \<open>The commands on an explicit key space: a key has its value until its expiry.\<close>

type_synonym keyspace = "(string, string \<times> time) gomap"

definition keyspace_get :: "time \<Rightarrow> string \<Rightarrow> keyspace \<Rightarrow> string option" where
  "keyspace_get now k s =
     (case gm_get s k of None \<Rightarrow> None | Some (v, expiry) \<Rightarrow> if now < expiry then Some v else None)"

definition keyspace_set :: "time \<Rightarrow> string \<Rightarrow> string \<Rightarrow> int \<Rightarrow> keyspace \<Rightarrow> keyspace" where
  "keyspace_set now k v px s = gm_put k (v, now + px * millisecond) s"

definition keyspace_setnx :: "time \<Rightarrow> string \<Rightarrow> string \<Rightarrow> int \<Rightarrow> keyspace \<Rightarrow> bool \<times> keyspace" where
  "keyspace_setnx now k v px s =
     (if keyspace_get now k s = None then (True, keyspace_set now k v px s) else (False, s))"

definition keyspace_pexpire :: "time \<Rightarrow> string \<Rightarrow> int \<Rightarrow> keyspace \<Rightarrow> int \<times> keyspace" where
  "keyspace_pexpire now k px s =
     (case keyspace_get now k s of None \<Rightarrow> (0, s) | Some v \<Rightarrow> (1, keyspace_set now k v px s))"

definition keyspace_del :: "time \<Rightarrow> string \<Rightarrow> keyspace \<Rightarrow> int \<times> keyspace" where
  "keyspace_del now k s = (if keyspace_get now k s = None then (0, s) else (1, gm_del k s))"

definition keyspace_ops :: "keyspace redis_ops" where
  "keyspace_ops = \<lparr>rd_get = keyspace_get, rd_setnx = keyspace_setnx, rd_set = keyspace_set,
     rd_pexpire = keyspace_pexpire, rd_del = keyspace_del\<rparr>"

lemma keyspace_get_set:
  "keyspace_get t j (keyspace_set now k v px s) =
     (if j = k then if t < now + px * millisecond then Some v else None else keyspace_get t j s)"
  by (simp add: keyspace_get_def keyspace_set_def)

lemma keyspace_get_del: "keyspace_get t j (gm_del k s) = (if j = k then None else keyspace_get t j s)"
  by (simp add: keyspace_get_def)

interpretation keyspace: redis_server keyspace_ops
proof (unfold_locales, unfold keyspace_ops_def redis_ops.simps, goal_cases)
  case (1 t k s v now)
  then show ?case by (auto simp: keyspace_get_def split: option.splits if_splits)
qed (auto simp: keyspace_setnx_def keyspace_pexpire_def keyspace_del_def keyspace_get_set keyspace_get_del split: if_splits)

section \<open>The configured locker\<close>

text \<open>The instance of \<^verbatim>\<open>plugins.redis-lease\<close>, which the plan reads its client from.\<close>

definition prepareLeaseConfig :: "string \<Rightarrow> (identifier_error, string) result" where
  "prepareLeaseConfig inst =
     (let inst = (if inst = [] then DefaultInstance else inst)
      in case ValidateInstanceName inst of Some e \<Rightarrow> Inl e | None \<Rightarrow> Inr inst)"

end
