(* ===== verification/Slots.thy ===== *)
theory Slots
  imports Lease Bundles
begin

text \<open>
  Slots: \<^verbatim>\<open>extensions/coordination/placement/slot.go\<close>, and a fleet of processes that win, renew and give
  back slots on one lease store.
  \<^item> The fleet keeps every slot that was ever won in one arena, so that a slot is a reference as in
    the code; the slots of all processes are in it.
  \<^item> A slot's mutex spans its store call, so renewing and releasing are one step each; the steps of
    different slots and processes interleave freely (\<open>fleet_step\<close>).
  \<^item> What the outside decides about a call (how long it takes, whether it or its reply is lost, which
    random bytes it draws) is the next entry of a script of calls. Random bytes never repeat; that is
    the only hypothesis on the script.
\<close>

section \<open>A slot\<close>

datatype renewOutcome = renewConfirmed | renewLost | renewQuiesced

record heldSlot =
  hs_workload :: WorkloadKey
  hs_index :: int
  hs_key :: string
  hs_lease :: redisLease
  hs_quiesced :: bool
  hs_released :: bool
  hs_won :: time
  hs_renewed :: time
  hs_degraded :: bool

abbreviation slot_owner :: "heldSlot \<Rightarrow> string" where
  "slot_owner h \<equiv> ls_owner (hs_lease h)"

definition newHeldSlot :: "time \<Rightarrow> WorkloadKey \<Rightarrow> int \<Rightarrow> string \<Rightarrow> redisLease \<Rightarrow> heldSlot" where
  "newHeldSlot now workload index key won =
     \<lparr>hs_workload = workload, hs_index = index, hs_key = key, hs_lease = won, hs_quiesced = False,
      hs_released = False, hs_won = now, hs_renewed = now, hs_degraded = False\<rparr>"

definition setDegraded :: "time \<Rightarrow> bool \<Rightarrow> heldSlot \<Rightarrow> heldSlot" where
  "setDegraded now degraded h =
     (let h = h\<lparr>hs_degraded := degraded\<rparr> in if \<not> degraded then h\<lparr>hs_renewed := now\<rparr> else h)"

record slotState =
  st_workload :: WorkloadKey
  st_index :: int
  st_key :: string
  st_owner :: string
  st_won :: time
  st_renewed :: time
  st_degraded :: bool
  st_released :: bool

definition slot_snapshot :: "heldSlot \<Rightarrow> slotState" where
  "slot_snapshot h =
     \<lparr>st_workload = hs_workload h, st_index = hs_index h, st_key = hs_key h, st_owner = slot_owner h,
      st_won = hs_won h, st_renewed = hs_renewed h, st_degraded = hs_degraded h, st_released = hs_released h\<rparr>"

definition strconv_Itoa :: "int \<Rightarrow> string" where
  "strconv_Itoa i = (if i < 0 then ''-'' @ nat_digits (nat (- i)) else nat_digits (nat i))"

definition slotKey :: "string \<Rightarrow> WorkloadKey \<Rightarrow> int \<Rightarrow> string" where
  "slotKey prefix workload index = prefix @ '':workload:'' @ workload @ '':'' @ strconv_Itoa index"

section \<open>The fleet\<close>

record call =
  ca_before :: nat
  ca_after :: nat
  ca_wire :: wire
  ca_entropy :: "string option"

record 's fleet =
  fl_now :: time
  fl_store :: 's
  fl_slots :: "heldSlot list"
  fl_calls :: "call list"

text \<open>A store that the script says nothing more about cannot be reached.\<close>

definition next_call :: "'s fleet \<Rightarrow> call" where
  "next_call f =
     (case fl_calls f of
        [] \<Rightarrow> \<lparr>ca_before = 0, ca_after = 0, ca_wire = LostBefore, ca_entropy = None\<rparr>
      | c # _ \<Rightarrow> c)"

definition call_time :: "'s fleet \<Rightarrow> time" where
  "call_time f = fl_now f + int (ca_before (next_call f))"

definition finish_call :: "'s \<Rightarrow> 's fleet \<Rightarrow> 's fleet" where
  "finish_call s f = f\<lparr>fl_now := call_time f + int (ca_after (next_call f)), fl_store := s, fl_calls := tl (fl_calls f)\<rparr>"

text \<open>An acquisition: a won lease becomes a slot, which is referred to by its place in the arena.\<close>

definition fleet_acquire ::
  "'s Locker \<Rightarrow> WorkloadKey \<Rightarrow> int \<Rightarrow> string \<Rightarrow> string \<Rightarrow> time \<Rightarrow> 's fleet \<Rightarrow> (lease_error, nat option) result \<times> 's fleet" where
  "fleet_acquire lk workload index key instance_name ttl f =
     (case lk_TryAcquire lk (call_time f) key instance_name ttl (ca_entropy (next_call f)) (ca_wire (next_call f)) (fl_store f) of
        (Inl e, s) \<Rightarrow> (Inl e, finish_call s f)
      | (Inr None, s) \<Rightarrow> (Inr None, finish_call s f)
      | (Inr (Some won), s) \<Rightarrow>
          let f = finish_call s f
          in (Inr (Some (length (fl_slots f))),
              f\<lparr>fl_slots := fl_slots f @ [newHeldSlot (fl_now f) workload index key won]\<rparr>))"

definition slot_renew ::
  "'s Locker \<Rightarrow> time \<Rightarrow> nat \<Rightarrow> 's fleet \<Rightarrow> (renewOutcome \<times> lease_error option) \<times> 's fleet" where
  "slot_renew lk ttl i f =
     (let h = fl_slots f ! i in
      if hs_quiesced h then ((renewQuiesced, None), f)
      else
        (case lk_Renew lk (call_time f) (hs_lease h) ttl (ca_wire (next_call f)) (fl_store f) of
           (Inl e, s) \<Rightarrow>
             let f = finish_call s f
             in ((renewLost, Some e), f\<lparr>fl_slots := (fl_slots f)[i := setDegraded (fl_now f) True h]\<rparr>)
         | (Inr owned, s) \<Rightarrow>
             let f = finish_call s f
             in (if \<not> owned
                 then ((renewLost, None), f\<lparr>fl_slots := (fl_slots f)[i := setDegraded (fl_now f) True h]\<rparr>)
                 else ((renewConfirmed, None), f\<lparr>fl_slots := (fl_slots f)[i := setDegraded (fl_now f) False h]\<rparr>))))"

definition slot_release :: "'s Locker \<Rightarrow> nat \<Rightarrow> 's fleet \<Rightarrow> lease_error option \<times> 's fleet" where
  "slot_release lk i f =
     (let h = fl_slots f ! i in
      if hs_released h then (None, f)
      else
        let h = h\<lparr>hs_quiesced := True\<rparr> in
        (case lk_Release lk (call_time f) (hs_lease h) (ca_wire (next_call f)) (fl_store f) of
           (Inl e, s) \<Rightarrow> (Some e, (finish_call s f)\<lparr>fl_slots := (fl_slots f)[i := h]\<rparr>)
         | (Inr _, s) \<Rightarrow> (None, (finish_call s f)\<lparr>fl_slots := (fl_slots f)[i := h\<lparr>hs_released := True\<rparr>]\<rparr>)))"

text \<open>Besides the calls, time passes and the store may lose keys (a restart without persistence).\<close>

inductive fleet_step :: "'s Locker \<Rightarrow> (time \<Rightarrow> string \<Rightarrow> 's \<Rightarrow> string option) \<Rightarrow> 's fleet \<Rightarrow> 's fleet \<Rightarrow> bool"
  for lk holder where
  acquires: "fleet_acquire lk workload index key c ttl f = (r, f') \<Longrightarrow> fleet_step lk holder f f'"
| renews: "i < length (fl_slots f) \<Longrightarrow> slot_renew lk ttl i f = (o', f') \<Longrightarrow> fleet_step lk holder f f'"
| releases: "i < length (fl_slots f) \<Longrightarrow> slot_release lk i f = (e, f') \<Longrightarrow> fleet_step lk holder f f'"
| passes: "fleet_step lk holder f (f\<lparr>fl_now := fl_now f + int d\<rparr>)"
| loses: "(\<And>t k. holder t k s = holder t k (fl_store f) \<or> holder t k s = None) \<Longrightarrow> fleet_step lk holder f (f\<lparr>fl_store := s\<rparr>)"

inductive_cases fleet_stepE: "fleet_step lk holder f f'"

abbreviation fleet_steps :: "'s Locker \<Rightarrow> (time \<Rightarrow> string \<Rightarrow> 's \<Rightarrow> string option) \<Rightarrow> 's fleet \<Rightarrow> 's fleet \<Rightarrow> bool" where
  "fleet_steps lk holder \<equiv> (fleet_step lk holder)\<^sup>*\<^sup>*"

definition entropies :: "call list \<Rightarrow> string list" where
  "entropies cs = List.map_filter ca_entropy cs"

text \<open>What the steps keep of a slot.\<close>

definition slot_succ :: "heldSlot \<Rightarrow> heldSlot \<Rightarrow> bool" where
  "slot_succ h h' \<longleftrightarrow>
     hs_workload h' = hs_workload h \<and> hs_index h' = hs_index h \<and> hs_key h' = hs_key h \<and> hs_lease h' = hs_lease h \<and>
     hs_won h' = hs_won h \<and> (hs_quiesced h \<longrightarrow> hs_quiesced h') \<and> (hs_released h \<longrightarrow> hs_released h')"

text \<open>
  The invariant: unused random bytes make tokens that are new; tokens are not shared; a token is only
  ever in the store under its own slot's key, and not once the slot is released.
\<close>

definition fleet_ok :: "(time \<Rightarrow> string \<Rightarrow> 's \<Rightarrow> string option) \<Rightarrow> (string \<Rightarrow> string option \<Rightarrow> string option) \<Rightarrow> 's fleet \<Rightarrow> bool" where
  "fleet_ok holder token f \<longleftrightarrow>
     distinct (entropies (fl_calls f)) \<and>
     (\<forall>r \<in> set (entropies (fl_calls f)). \<forall>c v. token c (Some r) = Some v \<longrightarrow>
        (\<forall>t \<ge> fl_now f. \<forall>j. holder t j (fl_store f) \<noteq> Some v) \<and> v \<notin> slot_owner ` set (fl_slots f)) \<and>
     distinct (map slot_owner (fl_slots f)) \<and>
     (\<forall>h \<in> set (fl_slots f). hs_key h = ls_key (hs_lease h) \<and> (hs_released h \<longrightarrow> hs_quiesced h)) \<and>
     (\<forall>h \<in> set (fl_slots f). \<forall>t \<ge> fl_now f. \<forall>j. holder t j (fl_store f) = Some (slot_owner h) \<longrightarrow>
        j = hs_key h \<and> \<not> hs_released h)"

text \<open>How a fleet moves on: slots stay, and the claim of a slot that is being given back is never extended.\<close>

definition fleet_evolves :: "(time \<Rightarrow> string \<Rightarrow> 's \<Rightarrow> string option) \<Rightarrow> 's fleet \<Rightarrow> 's fleet \<Rightarrow> bool" where
  "fleet_evolves holder f f' \<longleftrightarrow>
     fl_now f \<le> fl_now f' \<and> length (fl_slots f) \<le> length (fl_slots f') \<and>
     (\<forall>i < length (fl_slots f). slot_succ (fl_slots f ! i) (fl_slots f' ! i) \<and>
        (hs_quiesced (fl_slots f ! i) \<longrightarrow>
          (\<forall>t \<ge> fl_now f'. \<forall>j. holder t j (fl_store f') = Some (slot_owner (fl_slots f ! i)) \<longrightarrow>
             holder t j (fl_store f) = Some (slot_owner (fl_slots f ! i)))))"

lemma fleet_evolvesD:
  assumes "fleet_evolves holder f f'"
  shows "fl_now f \<le> fl_now f'" and "length (fl_slots f) \<le> length (fl_slots f')"
    and "i < length (fl_slots f) \<Longrightarrow> slot_succ (fl_slots f ! i) (fl_slots f' ! i)"
    and "i < length (fl_slots f) \<Longrightarrow> hs_quiesced (fl_slots f ! i) \<Longrightarrow> fl_now f' \<le> t \<Longrightarrow>
      holder t j (fl_store f') = Some (slot_owner (fl_slots f ! i)) \<Longrightarrow> holder t j (fl_store f) = Some (slot_owner (fl_slots f ! i))"
  using assms unfolding fleet_evolves_def by blast+

section \<open>Steps keep the invariant\<close>

lemma slot_succ_refl [simp]: "slot_succ h h"
  by (simp add: slot_succ_def)

lemma slot_succ_trans: "slot_succ a b \<Longrightarrow> slot_succ b c \<Longrightarrow> slot_succ a c"
  by (simp add: slot_succ_def)

lemma slot_succ_degraded [simp]: "slot_succ h (setDegraded t b h)"
  by (simp add: slot_succ_def setDegraded_def Let_def)

lemma setDegraded_flags [simp]:
  "hs_quiesced (setDegraded t b h) = hs_quiesced h" "hs_released (setDegraded t b h) = hs_released h"
  "hs_lease (setDegraded t b h) = hs_lease h" "hs_key (setDegraded t b h) = hs_key h"
  by (simp_all add: setDegraded_def Let_def)

lemma finish_call_simps [simp]:
  "fl_now (finish_call s f) = call_time f + int (ca_after (next_call f))" "fl_store (finish_call s f) = s"
  "fl_slots (finish_call s f) = fl_slots f" "fl_calls (finish_call s f) = tl (fl_calls f)"
  by (simp_all add: finish_call_def)

lemma call_time_ge [simp]: "fl_now f \<le> call_time f"
  by (simp add: call_time_def)

text \<open>The script's next entry, and the bytes left after it.\<close>

lemma entropies_next:
  "entropies (fl_calls f) = (case ca_entropy (next_call f) of None \<Rightarrow> [] | Some r \<Rightarrow> [r]) @ entropies (tl (fl_calls f))"
  by (cases "fl_calls f") (simp_all add: entropies_def next_call_def List.map_filter_simps split: option.splits)

lemma entropies_tl:
  fixes f :: "'s fleet"
  shows "distinct (entropies (fl_calls f)) \<Longrightarrow> distinct (entropies (tl (fl_calls f)))"
    and "set (entropies (tl (fl_calls f))) \<subseteq> set (entropies (fl_calls f))"
  using entropies_next [of f] by (auto split: option.splits)

lemma fleet_okD:
  assumes "fleet_ok holder token f"
  shows "distinct (entropies (fl_calls f))" and "distinct (map slot_owner (fl_slots f))"
    and "r \<in> set (entropies (fl_calls f)) \<Longrightarrow> token c (Some r) = Some v \<Longrightarrow> fl_now f \<le> t \<Longrightarrow> holder t j (fl_store f) \<noteq> Some v"
    and "r \<in> set (entropies (fl_calls f)) \<Longrightarrow> token c (Some r) = Some v \<Longrightarrow> v \<notin> slot_owner ` set (fl_slots f)"
    and "h \<in> set (fl_slots f) \<Longrightarrow> hs_key h = ls_key (hs_lease h)"
    and "h \<in> set (fl_slots f) \<Longrightarrow> hs_released h \<Longrightarrow> hs_quiesced h"
    and "h \<in> set (fl_slots f) \<Longrightarrow> fl_now f \<le> t \<Longrightarrow> holder t j (fl_store f) = Some (slot_owner h) \<Longrightarrow> j = hs_key h"
    and "h \<in> set (fl_slots f) \<Longrightarrow> fl_now f \<le> t \<Longrightarrow> hs_released h \<Longrightarrow> holder t j (fl_store f) \<noteq> Some (slot_owner h)"
  using assms unfolding fleet_ok_def by (simp_all, blast+)

text \<open>Any change of the store that only drops tokens or writes those of unreleased slots keeps the invariant.\<close>

lemma fleet_ok_update:
  assumes ok: "fleet_ok holder token f"
    and now: "fl_now f \<le> fl_now f'"
    and calls: "set (entropies (fl_calls f')) \<subseteq> set (entropies (fl_calls f))" "distinct (entropies (fl_calls f'))"
    and slots: "list_all2 slot_succ (fl_slots f) (fl_slots f')"
    and quiet: "\<And>h. h \<in> set (fl_slots f') \<Longrightarrow> hs_released h \<Longrightarrow> hs_quiesced h"
    and store: "\<And>t j v. fl_now f' \<le> t \<Longrightarrow> holder t j (fl_store f') = Some v \<Longrightarrow>
       holder t j (fl_store f) = Some v \<or> (\<exists>h \<in> set (fl_slots f'). v = slot_owner h \<and> j = hs_key h)"
    and rel: "\<And>h t. h \<in> set (fl_slots f') \<Longrightarrow> hs_released h \<Longrightarrow> fl_now f' \<le> t \<Longrightarrow>
       holder t (hs_key h) (fl_store f') \<noteq> Some (slot_owner h)"
  shows "fleet_ok holder token f'"
proof -
  have owners: "map slot_owner (fl_slots f') = map slot_owner (fl_slots f)"
    using slots by (induction rule: list_all2_induct) (auto simp: slot_succ_def)
  have old: "\<exists>h0 \<in> set (fl_slots f). slot_succ h0 h" if "h \<in> set (fl_slots f')" for h
    using slots that by (metis in_set_conv_nth list_all2_conv_all_nth nth_mem)
  have same: "h = h'" if "h \<in> set (fl_slots f')" "h' \<in> set (fl_slots f')" "slot_owner h = slot_owner h'" for h h'
    using that fleet_okD(2) [OF ok] unfolding owners [symmetric] by (simp add: distinct_map inj_on_def)
  have key: "j = hs_key h" if "h \<in> set (fl_slots f')" "fl_now f' \<le> t" "holder t j (fl_store f') = Some (slot_owner h)" for h t j
    using store [OF that(2,3)]
  proof
    assume held: "holder t j (fl_store f) = Some (slot_owner h)"
    from old [OF that(1)] obtain h0 where h0: "h0 \<in> set (fl_slots f)" "hs_lease h = hs_lease h0" "hs_key h = hs_key h0"
      unfolding slot_succ_def by blast
    then show ?thesis using fleet_okD(7) [OF ok h0(1), of t j] held now that(2) by simp
  next
    assume "\<exists>h'\<in>set (fl_slots f'). slot_owner h = slot_owner h' \<and> j = hs_key h'"
    then show ?thesis using same that(1) by metis
  qed
  have new: "v \<notin> slot_owner ` set (fl_slots f')"
    if "r \<in> set (entropies (fl_calls f'))" "token c (Some r) = Some v" for r c v
    using fleet_okD(4) [OF ok _ that(2)] that(1) calls(1) unfolding list.set_map [symmetric] owners by blast
  have fresh: "holder t j (fl_store f') \<noteq> Some v"
    if "r \<in> set (entropies (fl_calls f'))" "token c (Some r) = Some v" "fl_now f' \<le> t" for r c v t j
  proof
    assume "holder t j (fl_store f') = Some v"
    from store [OF that(3) this] show False
    proof
      assume "holder t j (fl_store f) = Some v"
      then show False using fleet_okD(3) [OF ok _ that(2), of t j] calls(1) now that(1,3) by auto
    next
      assume "\<exists>h\<in>set (fl_slots f'). v = slot_owner h \<and> j = hs_key h"
      then show False using new [OF that(1,2)] by blast
    qed
  qed
  have keys: "hs_key h = ls_key (hs_lease h)" if "h \<in> set (fl_slots f')" for h
    using old [OF that] fleet_okD(5) [OF ok] by (auto simp: slot_succ_def)
  show ?thesis unfolding fleet_ok_def
  proof (intro conjI ballI allI impI)
    show "distinct (map slot_owner (fl_slots f'))" unfolding owners by (rule fleet_okD(2) [OF ok])
    show "\<not> hs_released h" if "h \<in> set (fl_slots f')" "fl_now f' \<le> t" "holder t j (fl_store f') = Some (slot_owner h)" for h t j
      using key [OF that] rel that by blast
  qed (fact calls(2) | (rule fresh new keys quiet key; assumption))+
qed

lemma list_all2_update:
  assumes "\<And>x. R x x" and "i < length xs \<Longrightarrow> R (xs ! i) y"
  shows "list_all2 R xs (xs[i := y])"
proof (unfold list_all2_conv_all_nth, intro conjI allI impI)
  fix k assume "k < length xs"
  then show "R (xs ! k) (xs[i := y] ! k)" using assms(2) by (cases "i = k") (auto simp: assms(1))
qed simp

text \<open>
  A call of slot \<open>i\<close> that writes only the slot's own token, and nothing once the slot is quiesced, keeps
  the invariant and extends no other claim.
\<close>

lemma slot_call:
  assumes ok: "fleet_ok holder token f" and i: "i < length (fl_slots f)"
    and h: "h = fl_slots f ! i" and h': "slot_succ h h'" "hs_released h' \<Longrightarrow> hs_quiesced h'"
    and f': "f' = (finish_call s f)\<lparr>fl_slots := (fl_slots f)[i := h']\<rparr>"
    and store: "\<And>t j. call_time f \<le> t \<Longrightarrow> holder t j s = holder t j (fl_store f) \<or> holder t j s = None \<or>
        \<not> hs_quiesced h \<and> j = hs_key h \<and> holder t j s = Some (slot_owner h)"
    and rel: "\<And>t. hs_released h' \<Longrightarrow> call_time f \<le> t \<Longrightarrow> holder t (hs_key h) s \<noteq> Some (slot_owner h)"
  shows "fleet_ok holder token f'" and "fleet_evolves holder f f'"
proof -
  have t: "call_time f \<le> t" if "fl_now f' \<le> t" for t using that f' by simp
  have now: "fl_now f \<le> fl_now f'" using f' by (simp add: call_time_def)
  have hin: "h \<in> set (fl_slots f)" using i h by simp
  have succ: "list_all2 slot_succ (fl_slots f) (fl_slots f')"
    using f' h' h by (simp add: list_all2_update)
  have h'in: "h' \<in> set (fl_slots f')" using f' i by (simp add: set_update_memI)
  have eq: "slot_owner h' = slot_owner h" "hs_key h' = hs_key h" using h' by (simp_all add: slot_succ_def)
  have sub: "x \<in> set (fl_slots f) \<or> x = h'" if "x \<in> set (fl_slots f')" for x
    using that f' set_update_subset_insert [of "fl_slots f" i h'] by auto
  show "fleet_ok holder token f'"
  proof (rule fleet_ok_update [OF ok now _ _ succ])
    show "set (entropies (fl_calls f')) \<subseteq> set (entropies (fl_calls f))" "distinct (entropies (fl_calls f'))"
      using f' entropies_tl [of f] fleet_okD(1) [OF ok] by simp_all
    show "hs_quiesced x" if "x \<in> set (fl_slots f')" "hs_released x" for x
      using sub [OF that(1)] that(2) h'(2) fleet_okD(6) [OF ok] by blast
    show "holder t j (fl_store f) = Some v \<or> (\<exists>h \<in> set (fl_slots f'). v = slot_owner h \<and> j = hs_key h)"
      if "fl_now f' \<le> t" "holder t j (fl_store f') = Some v" for t j v
    proof -
      from store [OF t [OF that(1)], of j] that(2) f'
      have "holder t j (fl_store f) = Some v \<or> v = slot_owner h' \<and> j = hs_key h'" by (auto simp: eq)
      with h'in show ?thesis by blast
    qed
    show "holder t (hs_key x) (fl_store f') \<noteq> Some (slot_owner x)"
      if "x \<in> set (fl_slots f')" "hs_released x" "fl_now f' \<le> t" for x t
    proof (cases "x = h'")
      case True
      then show ?thesis using rel [OF _ t [OF that(3)]] that(2) eq f' by simp
    next
      case False
      with sub [OF that(1)] have x: "x \<in> set (fl_slots f)" by simp
      have "holder t (hs_key x) (fl_store f) \<noteq> Some (slot_owner x)"
        using fleet_okD(8) [OF ok x _ that(2)] now that(3) by simp
      moreover have "slot_owner x \<noteq> slot_owner h" if "\<not> hs_quiesced h"
        using fleet_okD(2) [OF ok] x hin that fleet_okD(6) [OF ok x \<open>hs_released x\<close>]
        by (metis distinct_map inj_onD)
      ultimately show ?thesis using store [OF t [OF that(3)], of "hs_key x"] f' by auto
    qed
  qed
  show "fleet_evolves holder f f'" unfolding fleet_evolves_def
  proof (intro conjI allI impI)
    show "fl_now f \<le> fl_now f'" by (rule now)
    show "length (fl_slots f) \<le> length (fl_slots f')" using succ by (simp add: list_all2_lengthD)
    show "slot_succ (fl_slots f ! k) (fl_slots f' ! k)" if "k < length (fl_slots f)" for k
      using succ that by (rule list_all2_nthD)
    show "holder t j (fl_store f) = Some (slot_owner (fl_slots f ! k))"
      if "k < length (fl_slots f)" "hs_quiesced (fl_slots f ! k)" "fl_now f' \<le> t"
        "holder t j (fl_store f') = Some (slot_owner (fl_slots f ! k))" for k t j
    proof -
      have "slot_owner (fl_slots f ! k) \<noteq> slot_owner h" if "\<not> hs_quiesced h"
        using fleet_okD(2) [OF ok] h i \<open>k < _\<close> that \<open>hs_quiesced (fl_slots f ! k)\<close>
        by (metis distinct_map inj_onD nth_mem)
      then show ?thesis using store [OF t [OF that(3)], of j] that(4) f' by auto
    qed
  qed
qed

context lease_contract
begin

lemma renew_step:
  assumes ok: "fleet_ok holder token f" and i: "i < length (fl_slots f)" and run: "slot_renew lk ttl i f = (out, f')"
  shows "fleet_ok holder token f' \<and> fleet_evolves holder f f'"
proof (cases "hs_quiesced (fl_slots f ! i)")
  case True
  then show ?thesis using run ok by (simp add: slot_renew_def Let_def fleet_evolves_def)
next
  case False
  let ?h = "fl_slots f ! i"
  obtain q s where call: "lk_Renew lk (call_time f) (hs_lease ?h) ttl (ca_wire (next_call f)) (fl_store f) = (q, s)" by fastforce
  from run False obtain t b where f': "f' = (finish_call s f)\<lparr>fl_slots := (fl_slots f)[i := setDegraded t b ?h]\<rparr>"
    by (auto simp: slot_renew_def call Let_def split: sum.splits if_splits)
  have hin: "?h \<in> set (fl_slots f)" using i by simp
  have store: "holder t j s = holder t j (fl_store f) \<or> holder t j s = None \<or>
      \<not> hs_quiesced ?h \<and> j = hs_key ?h \<and> holder t j s = Some (slot_owner ?h)" if "call_time f \<le> t" for t j
    using renew_effect [OF call that, of j] False fleet_okD(5) [OF ok hin] by auto
  have quiet: "\<not> hs_released ?h" using False fleet_okD(6) [OF ok hin] by blast
  show ?thesis
    by (intro conjI; rule slot_call [OF ok i refl _ _ f' store]) (use quiet in simp_all)
qed

lemma release_step:
  assumes ok: "fleet_ok holder token f" and i: "i < length (fl_slots f)" and run: "slot_release lk i f = (e, f')"
  shows "fleet_ok holder token f' \<and> fleet_evolves holder f f'"
proof (cases "hs_released (fl_slots f ! i)")
  case True
  then show ?thesis using run ok by (simp add: slot_release_def Let_def fleet_evolves_def)
next
  case False
  let ?h = "fl_slots f ! i"
  obtain q s where call: "lk_Release lk (call_time f) (hs_lease ?h) (ca_wire (next_call f)) (fl_store f) = (q, s)" by fastforce
  from run False obtain h' where f': "f' = (finish_call s f)\<lparr>fl_slots := (fl_slots f)[i := h']\<rparr>"
    and h': "slot_succ ?h h'" "hs_quiesced h'" "hs_released h' \<longrightarrow> \<not> isl q"
    by (auto simp: slot_release_def call Let_def slot_succ_def split: sum.splits)
  have hin: "?h \<in> set (fl_slots f)" using i by simp
  have store: "holder t j s = holder t j (fl_store f) \<or> holder t j s = None \<or>
      \<not> hs_quiesced ?h \<and> j = hs_key ?h \<and> holder t j s = Some (slot_owner ?h)" if "call_time f \<le> t" for t j
    using release_effect [OF call that, of j] by auto
  have rel: "holder t (hs_key ?h) s \<noteq> Some (slot_owner ?h)" if "hs_released h'" "call_time f \<le> t" for t
  proof -
    from h'(3) that(1) obtain x where "q = Inr x" by (cases q, simp_all)
    with call have "holder t (ls_key (hs_lease ?h)) s \<noteq> Some (slot_owner ?h)" using release_done [OF _ that(2)] by blast
    then show ?thesis using fleet_okD(5) [OF ok hin] by simp
  qed
  show ?thesis
    by (intro conjI; rule slot_call [OF ok i refl h'(1) _ f' store rel]) (use h'(2) in simp_all)
qed

lemma acquire_step:
  assumes ok: "fleet_ok holder token f" and run: "fleet_acquire lk workload index key c ttl f = (q, f')"
  shows "fleet_ok holder token f' \<and> fleet_evolves holder f f'"
proof -
  let ?r = "ca_entropy (next_call f)"
  obtain q0 s where call: "lk_TryAcquire lk (call_time f) key c ttl ?r (ca_wire (next_call f)) (fl_store f) = (q0, s)" by fastforce
  obtain new where f': "f' = (finish_call s f)\<lparr>fl_slots := fl_slots f @ new\<rparr>"
    and new: "new = [] \<or> (\<exists>l. new = [newHeldSlot (fl_now f') workload index key l] \<and> q0 = Inr (Some l))"
  proof -
    consider "f' = finish_call s f"
      | l where "q0 = Inr (Some l)" "f' = (finish_call s f)\<lparr>fl_slots := fl_slots f @ [newHeldSlot (fl_now (finish_call s f)) workload index key l]\<rparr>"
      using run by (auto simp: fleet_acquire_def call Let_def split: sum.splits option.splits)
    then show ?thesis by cases (auto intro: that [of "[]"] that)
  qed
  have t: "call_time f \<le> t" "fl_now f \<le> t" if "fl_now f' \<le> t" for t
    using that f' call_time_ge [of f] by (simp_all add: call_time_def)
  have mine: "hs_key h = key" "ls_key (hs_lease h) = key" "token c ?r = Some (slot_owner h)" "\<not> hs_released h" "\<not> hs_quiesced h"
    if "h \<in> set new" for h
    using new that acquire_won [of _ key c ttl ?r _ "fl_store f" _ s] call by (auto simp: newHeldSlot_def)
  have one: "distinct (map slot_owner new)" using new by auto
  have fresh: "r \<in> set (entropies (fl_calls f))" "r \<notin> set (entropies (tl (fl_calls f)))" if "?r = Some r" for r
    using entropies_next [of f] fleet_okD(1) [OF ok] that by auto
  have bytes: "\<exists>r. ?r = Some r" if "token c ?r = Some v" for v
    using that token_entropy [of c] by (cases ?r) auto
  have store: "holder t j (fl_store f) = Some v \<or> j = key \<and> token c ?r = Some v"
    if "fl_now f' \<le> t" "holder t j s = Some v" for t j v
    using acquire_effect [OF call t(1) [OF that(1)], of j] that(2) by auto
  have unowned: "v \<notin> slot_owner ` set (fl_slots f)" "fl_now f' \<le> t \<Longrightarrow> holder t j (fl_store f) \<noteq> Some v"
    if "token c ?r = Some v" for v t j
    using bytes [OF that] fresh(1) fleet_okD(3,4) [OF ok] that t(2) by fastforce+
  have other: "token c ?r \<noteq> Some v" if "r \<in> set (entropies (tl (fl_calls f)))" "token c' (Some r) = Some v" for r c' v
    using token_unique [OF _ that(2)] fresh(2) that(1) by blast
  have old: "fl_slots f' = fl_slots f @ new" "fl_store f' = s" "fl_calls f' = tl (fl_calls f)" using f' by simp_all
  have "fleet_ok holder token f'" unfolding fleet_ok_def old
  proof (intro conjI ballI allI impI)
    show "distinct (entropies (tl (fl_calls f)))" using entropies_tl(1) fleet_okD(1) [OF ok] .
    show "holder t j s \<noteq> Some v" if "r \<in> set (entropies (tl (fl_calls f)))" "token c' (Some r) = Some v" "fl_now f' \<le> t" for r c' v t j
      using store [OF that(3), of j v] other [OF that(1,2)] fleet_okD(3) [OF ok _ that(2) t(2) [OF that(3)]] that(1) entropies_tl(2) [of f] by blast
    show "v \<notin> slot_owner ` set (fl_slots f @ new)" if "r \<in> set (entropies (tl (fl_calls f)))" "token c' (Some r) = Some v" for r c' v
      using other [OF that] mine(3) fleet_okD(4) [OF ok _ that(2)] that(1) entropies_tl(2) [of f] by auto
    show "distinct (map slot_owner (fl_slots f @ new))"
    proof -
      have "slot_owner h \<noteq> slot_owner h'" if "h \<in> set (fl_slots f)" "h' \<in> set new" for h h'
        using unowned(1) [OF mine(3) [OF that(2)]] that(1) by (auto simp: image_iff)
      then have "slot_owner ` set (fl_slots f) \<inter> slot_owner ` set new = {}" by fastforce
      then show ?thesis using fleet_okD(2) [OF ok] one by simp
    qed
    show "hs_key h = ls_key (hs_lease h)" "hs_released h \<Longrightarrow> hs_quiesced h" if "h \<in> set (fl_slots f @ new)" for h
      using that mine(1,2,4) fleet_okD(5,6) [OF ok] by auto
    show "j = hs_key h" if "h \<in> set (fl_slots f @ new)" "fl_now f' \<le> t" "holder t j s = Some (slot_owner h)" for h t j
      using store [OF that(2,3)] that(1) mine(1,3) unowned(1) [of "slot_owner h"] unowned(2) [of "slot_owner h" t j] that(2) fleet_okD(7) [OF ok _ t(2) [OF that(2)]] by auto
    show "\<not> hs_released h" if "h \<in> set (fl_slots f @ new)" "fl_now f' \<le> t" "holder t j s = Some (slot_owner h)" for h t j
      using store [OF that(2,3)] that(1) mine(4) unowned(1) [of "slot_owner h"] fleet_okD(8) [OF ok _ t(2) [OF that(2)]] by auto
  qed
  moreover have "fleet_evolves holder f f'" unfolding fleet_evolves_def old
  proof (intro conjI allI impI)
    show "holder t j (fl_store f) = Some (slot_owner (fl_slots f ! i))"
      if "i < length (fl_slots f)" "fl_now f' \<le> t" "holder t j s = Some (slot_owner (fl_slots f ! i))" for i t j
      using store [OF that(2,3)] unowned(1) [of "slot_owner (fl_slots f ! i)"] that(1) by auto
  qed (use t(2) in \<open>simp_all add: nth_append\<close>)
  ultimately show ?thesis by simp
qed

text \<open>Every step keeps the invariant, and moves the fleet on.\<close>

lemma step_keeps:
  assumes "fleet_step lk holder f f'" and ok: "fleet_ok holder token f"
  shows "fleet_ok holder token f' \<and> fleet_evolves holder f f'"
  using assms(1)
proof (cases rule: fleet_step.cases)
  case (passes d)
  have "fleet_ok holder token f'"
    by (rule fleet_ok_update [OF ok]) (use passes fleet_okD(1,6) [OF ok] fleet_okD(8) [OF ok] in \<open>simp_all add: list_all2_refl\<close>)
  with passes show ?thesis by (simp add: fleet_evolves_def)
next
  case (loses s)
  have sub: "holder t j (fl_store f) = Some v" if "holder t j s = Some v" for t j v
    using loses(2) [of t j] that by auto
  have "fleet_ok holder token f'"
  proof (rule fleet_ok_update [OF ok])
    show "holder t (hs_key h) (fl_store f') \<noteq> Some (slot_owner h)"
      if "h \<in> set (fl_slots f')" "hs_released h" "fl_now f' \<le> t" for h t
      using fleet_okD(8) [OF ok _ _ that(2), of t "hs_key h"] that sub loses(1) by auto
  qed (use loses(1) sub fleet_okD(1,6) [OF ok] in \<open>auto simp: list_all2_refl\<close>)
  with loses(1) sub show ?thesis by (simp add: fleet_evolves_def)
qed (use ok acquire_step renew_step release_step in blast)+

lemma evolves_trans:
  assumes fg: "fleet_evolves holder f g" and gh: "fleet_evolves holder g h"
  shows "fleet_evolves holder f h"
  unfolding fleet_evolves_def
proof (intro conjI allI impI)
  note lens = fleet_evolvesD(1,2) [OF fg] fleet_evolvesD(1,2) [OF gh]
  show "fl_now f \<le> fl_now h" "length (fl_slots f) \<le> length (fl_slots h)" using lens by simp_all
  fix i assume i: "i < length (fl_slots f)"
  with lens have i': "i < length (fl_slots g)" by simp
  note succ = fleet_evolvesD(3) [OF fg i]
  show "slot_succ (fl_slots f ! i) (fl_slots h ! i)"
    by (rule slot_succ_trans [OF succ fleet_evolvesD(3) [OF gh i']])
  fix t j
  assume q: "hs_quiesced (fl_slots f ! i)" and t: "fl_now h \<le> t" and held: "holder t j (fl_store h) = Some (slot_owner (fl_slots f ! i))"
  from succ q have g: "hs_quiesced (fl_slots g ! i)" "slot_owner (fl_slots g ! i) = slot_owner (fl_slots f ! i)"
    by (simp_all add: slot_succ_def)
  from fleet_evolvesD(4) [OF gh i' g(1) t] held have "holder t j (fl_store g) = Some (slot_owner (fl_slots f ! i))"
    by (simp add: g(2))
  from fleet_evolvesD(4) [OF fg i q _ this] t lens show "holder t j (fl_store f) = Some (slot_owner (fl_slots f ! i))" by simp
qed

lemma steps_keep:
  assumes "fleet_steps lk holder f f'" and "fleet_ok holder token f"
  shows "fleet_ok holder token f' \<and> fleet_evolves holder f f'"
  using assms
proof (induction rule: rtranclp_induct)
  case base
  then show ?case by (simp add: fleet_evolves_def)
next
  case (step g h)
  then show ?case using step_keeps [of g h] evolves_trans [of f g h] by blast
qed

text \<open>The slots whose claim the store confirms are at most as many as the keys they are for.\<close>

lemma confirmed_bound:
  assumes ok: "fleet_ok holder token f" and "finite K"
  shows "card {h \<in> set (fl_slots f). hs_key h \<in> K \<and> holder (fl_now f) (hs_key h) (fl_store f) = Some (slot_owner h)} \<le> card K"
proof (rule card_inj_on_le [of hs_key])
  show "inj_on hs_key {h \<in> set (fl_slots f). hs_key h \<in> K \<and> holder (fl_now f) (hs_key h) (fl_store f) = Some (slot_owner h)}"
  proof (rule inj_onI, clarsimp)
    fix x y
    assume "x \<in> set (fl_slots f)" "y \<in> set (fl_slots f)" "slot_owner x = slot_owner y"
    then show "x = y" using fleet_okD(2) [OF ok] by (simp add: distinct_map inj_on_def)
  qed
qed (use assms(2) in auto)

lemma replicas_bound:
  assumes "fleet_ok holder token f"
  shows "card {h \<in> set (fl_slots f). (\<exists>index. 0 \<le> index \<and> index < n \<and> hs_key h = slotKey prefix w index) \<and>
      holder (fl_now f) (hs_key h) (fl_store f) = Some (slot_owner h)} \<le> nat n"
proof -
  have eq: "(\<exists>index. 0 \<le> index \<and> index < n \<and> hs_key h = slotKey prefix w index) = (hs_key h \<in> slotKey prefix w ` {0..<n})" for h
    by auto
  have "card (slotKey prefix w ` {0..<n}) \<le> nat n" using card_image_le [of "{0..<n}" "slotKey prefix w"] by simp
  then show ?thesis unfolding eq by (rule order_trans [OF confirmed_bound [OF assms], rotated]) simp
qed

text \<open>What a slot's own call leaves alone.\<close>

lemma foreign_kept:
  assumes "holder t j (fl_store f) = Some v" and "v \<noteq> slot_owner (fl_slots f ! i)" and "call_time f \<le> t"
  shows "slot_renew lk ttl i f = (out, f') \<Longrightarrow> holder t j (fl_store f') = Some v"
    and "slot_release lk i f = (e, f') \<Longrightarrow> holder t j (fl_store f') = Some v"
proof -
  let ?h = "fl_slots f ! i"
  note live = expiry [OF assms(1,3)]
  obtain q s where call: "lk_Renew lk (call_time f) (hs_lease ?h) ttl (ca_wire (next_call f)) (fl_store f) = (q, s)" by fastforce
  have "holder t j s = Some v" using renew_effect [OF call assms(3), of j] live assms(1,2) by auto
  then show "slot_renew lk ttl i f = (out, f') \<Longrightarrow> holder t j (fl_store f') = Some v"
    using assms(1) call by (auto simp: slot_renew_def Let_def split: if_splits sum.splits)
  obtain q s where call: "lk_Release lk (call_time f) (hs_lease ?h) (ca_wire (next_call f)) (fl_store f) = (q, s)" by fastforce
  have "holder t j s = Some v" using release_effect [OF call assms(3), of j] live assms(1,2) by auto
  then show "slot_release lk i f = (e, f') \<Longrightarrow> holder t j (fl_store f') = Some v"
    using assms(1) call by (auto simp: slot_release_def Let_def split: if_splits sum.splits)
qed

lemma confirmed_owns:
  assumes "fleet_ok holder token f" and "i < length (fl_slots f)" and "slot_renew lk ttl i f = ((renewConfirmed, e), f')"
  shows "holder (call_time f) (hs_key (fl_slots f ! i)) (fl_store f') = Some (slot_owner (fl_slots f ! i))"
proof -
  let ?h = "fl_slots f ! i"
  obtain q s where call: "lk_Renew lk (call_time f) (hs_lease ?h) ttl (ca_wire (next_call f)) (fl_store f) = (q, s)" by fastforce
  with assms(3) have "q = Inr True" "fl_store f' = s"
    by (auto simp: slot_renew_def Let_def split: if_splits sum.splits)
  with call renew_confirmed [of "call_time f" "hs_lease ?h" ttl] fleet_okD(5) [OF assms(1), of ?h] assms(2) show ?thesis by simp
qed

end

section \<open>Safety of the fleet\<close>

text \<open>A fleet that has won nothing yet, on a store that has none of the tokens that are to come.\<close>

definition fleet_start :: "'r redis_ops \<Rightarrow> 'r fleet \<Rightarrow> bool" where
  "fleet_start ops f \<longleftrightarrow>
     fl_slots f = [] \<and> distinct (entropies (fl_calls f)) \<and>
     (\<forall>r \<in> set (entropies (fl_calls f)). \<forall>c t j. rd_get ops t j (fl_store f) \<noteq> leaseOwnerToken c (Some r))"

lemma fleet_start_ok: "fleet_start ops f \<Longrightarrow> fleet_ok (rd_get ops) leaseOwnerToken f"
  unfolding fleet_start_def fleet_ok_def by (auto simp: eq_commute [of "Some _"]) metis

text \<open>
  C15. However the processes of a fleet interleave, however long their calls take and whichever of them
  are lost, and even when the store forgets keys: of a workload with \<open>n\<close> replicas at most \<open>n\<close> slots are
  confirmed by the store at any instant. A renewal that reports the claim confirmed left the slot's own
  token in the store. A slot that was given back is given back for good: its token is never in the
  store again. Once a release was attempted, confirmed or not, nothing extends the claim: what the store
  has of it later, it had already. And the renewal or release of a slot never changes what another
  token holds.
\<close>

theorem fleet_safety:
  assumes server: "redis_server ops" and start: "fleet_start ops f0"
    and reach: "fleet_steps (redis_locker ops) (rd_get ops) f0 f" and on: "fleet_steps (redis_locker ops) (rd_get ops) f f'"
    and i: "i < length (fl_slots f)"
  shows "card {h \<in> set (fl_slots f). (\<exists>index. 0 \<le> index \<and> index < n \<and> hs_key h = slotKey prefix w index) \<and>
        rd_get ops (fl_now f) (hs_key h) (fl_store f) = Some (slot_owner h)} \<le> nat n \<and>
    (\<forall>e f1. slot_renew (redis_locker ops) ttl i f = ((renewConfirmed, e), f1) \<longrightarrow>
       rd_get ops (call_time f) (hs_key (fl_slots f ! i)) (fl_store f1) = Some (slot_owner (fl_slots f ! i))) \<and>
    (hs_released (fl_slots f ! i) \<longrightarrow>
       hs_released (fl_slots f' ! i) \<and> (\<forall>t \<ge> fl_now f'. \<forall>j. rd_get ops t j (fl_store f') \<noteq> Some (slot_owner (fl_slots f ! i)))) \<and>
    (hs_quiesced (fl_slots f ! i) \<longrightarrow>
       (\<forall>t \<ge> fl_now f'. \<forall>j. rd_get ops t j (fl_store f') = Some (slot_owner (fl_slots f ! i)) \<longrightarrow>
          rd_get ops t j (fl_store f) = Some (slot_owner (fl_slots f ! i)))) \<and>
    (\<forall>t j v. call_time f \<le> t \<and> rd_get ops t j (fl_store f) = Some v \<and> v \<noteq> slot_owner (fl_slots f ! i) \<longrightarrow>
       rd_get ops t j (fl_store (snd (slot_renew (redis_locker ops) ttl i f))) = Some v \<and>
       rd_get ops t j (fl_store (snd (slot_release (redis_locker ops) i f))) = Some v)"
proof -
  note contract = redis_server.redis_contract [OF server]
  have ok: "fleet_ok (rd_get ops) leaseOwnerToken f"
    using lease_contract.steps_keep [OF contract reach fleet_start_ok [OF start]] by blast
  have ok': "fleet_ok (rd_get ops) leaseOwnerToken f'" and on': "fleet_evolves (rd_get ops) f f'"
    using lease_contract.steps_keep [OF contract on ok] by blast+
  have i': "i < length (fl_slots f')" and succ: "slot_succ (fl_slots f ! i) (fl_slots f' ! i)"
    using fleet_evolvesD(2,3) [OF on'] i by simp_all
  have gone: "rd_get ops t j (fl_store f') \<noteq> Some (slot_owner (fl_slots f ! i))"
    if "hs_released (fl_slots f ! i)" "fl_now f' \<le> t" for t j
    using fleet_okD(8) [OF ok', of "fl_slots f' ! i" t j] succ that i' by (simp add: slot_succ_def)
  show ?thesis
  proof (intro conjI allI impI)
    show "hs_released (fl_slots f' ! i)" if "hs_released (fl_slots f ! i)" using succ that by (simp add: slot_succ_def)
    show "rd_get ops t j (fl_store (snd (slot_renew (redis_locker ops) ttl i f))) = Some v"
      "rd_get ops t j (fl_store (snd (slot_release (redis_locker ops) i f))) = Some v"
      if "call_time f \<le> t \<and> rd_get ops t j (fl_store f) = Some v \<and> v \<noteq> slot_owner (fl_slots f ! i)" for t j v
      using lease_contract.foreign_kept [OF contract, of t j f v i] that by (metis prod.collapse)+
  qed (fact lease_contract.replicas_bound [OF contract ok]
      | (rule lease_contract.confirmed_owns [OF contract ok i] gone fleet_evolvesD(4) [OF on' i]; assumption))+
qed

text \<open>Two processes and one slot: the first wins it and gives it back, the second wins it.\<close>

definition sample_call :: "string \<Rightarrow> call" where
  "sample_call bytes = \<lparr>ca_before = 5, ca_after = 5, ca_wire = Delivered, ca_entropy = Some bytes\<rparr>"

definition sample_fleet :: "keyspace fleet" where
  "sample_fleet = \<lparr>fl_now = 0, fl_store = [], fl_slots = [],
     fl_calls = map sample_call [''0123456789abcdef'', ''fedcba9876543210'', ''aaaaaaaaaaaaaaaa'']\<rparr>"

definition sample_win :: "string \<Rightarrow> keyspace fleet \<Rightarrow> keyspace fleet" where
  "sample_win who f = snd (fleet_acquire (redis_locker keyspace_ops) ''sast'' 0 (slotKey ''xbc'' ''sast'' 0) who 30000000000 f)"

definition sample_give :: "keyspace fleet \<Rightarrow> keyspace fleet" where
  "sample_give f = snd (slot_release (redis_locker keyspace_ops) 0 f)"

lemma sample_start: "fleet_start keyspace_ops sample_fleet"
proof -
  have "rd_get keyspace_ops t j (fl_store sample_fleet) \<noteq> leaseOwnerToken c (Some r)" for t j c r
    by (simp add: keyspace_ops_def keyspace_get_def sample_fleet_def leaseOwnerToken_def Let_def)
  moreover have "distinct (entropies (fl_calls sample_fleet))" by code_simp
  ultimately show ?thesis by (simp add: fleet_start_def) (simp add: sample_fleet_def)
qed

theorem fleet_safety_witness:
  "hs_released (fl_slots (sample_give (sample_win ''p1'' sample_fleet)) ! 0) \<and>
   keyspace_get 40 ''xbc:workload:sast:0'' (fl_store (sample_win ''p2'' (sample_give (sample_win ''p1'' sample_fleet)))) \<noteq> None \<and>
   keyspace_get 40 ''xbc:workload:sast:0'' (fl_store (sample_win ''p2'' (sample_give (sample_win ''p1'' sample_fleet))))
     \<noteq> Some (slot_owner (fl_slots (sample_give (sample_win ''p1'' sample_fleet)) ! 0))"
proof -
  let ?f0 = sample_fleet and ?f1 = "sample_win ''p1'' sample_fleet" and ?f2 = "sample_give (sample_win ''p1'' sample_fleet)"
  let ?f3 = "sample_win ''p2'' (sample_give (sample_win ''p1'' sample_fleet))"
  let ?steps = "fleet_steps (redis_locker keyspace_ops) (rd_get keyspace_ops)"
  have win: "?steps f (sample_win who f)" for who f
    unfolding sample_win_def by (rule r_into_rtranclp, rule fleet_step.acquires, rule prod.collapse [symmetric])
  have len: "0 < length (fl_slots ?f1)" "0 < length (fl_slots ?f2)" by code_simp+
  have give: "?steps ?f1 ?f2"
    unfolding sample_give_def by (rule r_into_rtranclp, rule fleet_step.releases [OF len(1)], rule prod.collapse [symmetric])
  have rel: "hs_released (fl_slots ?f2 ! 0)" by code_simp
  have now: "fl_now ?f3 \<le> 40" by code_simp
  have "\<forall>t \<ge> fl_now ?f3. \<forall>j. rd_get keyspace_ops t j (fl_store ?f3) \<noteq> Some (slot_owner (fl_slots ?f2 ! 0))"
    using fleet_safety [OF keyspace.redis_server_axioms sample_start rtranclp_trans [OF win give] win len(2)] rel by blast
  with now have "keyspace_get 40 ''xbc:workload:sast:0'' (fl_store ?f3) \<noteq> Some (slot_owner (fl_slots ?f2 ! 0))"
    by (simp add: keyspace_ops_def)
  moreover have "keyspace_get 40 ''xbc:workload:sast:0'' (fl_store ?f3) \<noteq> None" by code_simp
  ultimately show ?thesis using rel by blast
qed

end
