(* ===== verification/LeasePlacement.thy ===== *)
theory LeasePlacement
  imports Slots PlacementDecision "HOL-Library.Product_Lexorder"
begin

text \<open>
  Placement by lease: \<^verbatim>\<open>extensions/coordination/placement/placement.go\<close>, \<^verbatim>\<open>lifecycle.go\<close>, \<^verbatim>\<open>stats.go\<close> and
  \<^verbatim>\<open>health.go\<close>. A placement source that wins at most one slot per admitted workload and keeps the slots
  alive until it gives them back.
  \<^item> The state is one process's \<^verbatim>\<open>Placement\<close>; its slots are references into the arena of the fleet it
    is part of. Its two channels \<^verbatim>\<open>quiet\<close> and \<^verbatim>\<open>loopDone\<close> are flags: closed or not.
  \<^item> The random generator is the list of the numbers it will draw.
  \<^item> Every operation is a run of fleet steps (the lemmas \<open>..._run\<close>), so what holds of the fleet under
    arbitrary interleaving holds with these operations as its steps.
\<close>

section \<open>Configuration\<close>

definition second :: time where
  "second = 1000000000"

definition defaultKeyPrefix :: string where
  "defaultKeyPrefix = ''xbc''"

definition defaultRenewInterval :: time where
  "defaultRenewInterval = 10 * second"

definition defaultStandbyRetry :: time where
  "defaultStandbyRetry = 5 * second"

definition placementSourceLease :: string where
  "placementSourceLease = ''lease''"

record lease_options =
  lo_keyPrefix :: string
  lo_ttl :: time
  lo_renewInterval :: time
  lo_standbyRetry :: time

definition lease_defaultOptions :: lease_options where
  "lease_defaultOptions =
     \<lparr>lo_keyPrefix = defaultKeyPrefix, lo_ttl = 0, lo_renewInterval = defaultRenewInterval, lo_standbyRetry = defaultStandbyRetry\<rparr>"

datatype lp_error =
    NilLocker
  | NilLeaseOption nat
  | BadKeyPrefix string
  | ShortRenewInterval time
  | ShortStandbyRetry time
  | ShortLeaseTTL time
  | RenewExceedsHalf time time
  | DeclaredTwice WorkloadKey
  | NoReplicas WorkloadKey int
  | CannotReach WorkloadKey string lease_error
  | NotInstalled
  | NilPluginContext
  | ContextEnded string
  | StartAfterStop
  | StartedTwice
  | AnotherPlacement
  | NotResolved
  | TaskRefused

type_synonym lease_option = "lease_options \<Rightarrow> (lp_error, lease_options) result"

definition WithKeyPrefix :: "string \<Rightarrow> lease_option" where
  "WithKeyPrefix prefix config = Inr (config\<lparr>lo_keyPrefix := prefix\<rparr>)"

definition WithTTL :: "time \<Rightarrow> lease_option" where
  "WithTTL ttl config = Inr (config\<lparr>lo_ttl := ttl\<rparr>)"

definition WithRenewInterval :: "time \<Rightarrow> lease_option" where
  "WithRenewInterval interval config = Inr (config\<lparr>lo_renewInterval := interval\<rparr>)"

definition WithStandbyRetry :: "time \<Rightarrow> lease_option" where
  "WithStandbyRetry interval config = Inr (config\<lparr>lo_standbyRetry := interval\<rparr>)"

definition options_validate :: "lease_options \<Rightarrow> (lp_error, lease_options) result" where
  "options_validate config =
     (if lo_keyPrefix config = [] \<or> trim_space (lo_keyPrefix config) \<noteq> lo_keyPrefix config then Inl (BadKeyPrefix (lo_keyPrefix config))
      else if lo_renewInterval config < millisecond then Inl (ShortRenewInterval (lo_renewInterval config))
      else if lo_standbyRetry config < millisecond then Inl (ShortStandbyRetry (lo_standbyRetry config))
      else
        let config = (if lo_ttl config = 0 then config\<lparr>lo_ttl := duration_wrap (3 * lo_renewInterval config)\<rparr> else config) in
        if lo_ttl config < millisecond then Inl (ShortLeaseTTL (lo_ttl config))
        else if lo_renewInterval config > lo_ttl config div 2 then Inl (RenewExceedsHalf (lo_renewInterval config) (lo_ttl config))
        else Inr config)"

section \<open>State\<close>

record LeasePlacement =
  lp_prefix :: string
  lp_ttl :: time
  lp_renewEvery :: time
  lp_standbyEvery :: time
  lp_rng :: "nat list"
  lp_resolved :: bool
  lp_decision :: Placement
  lp_admitted :: "Workload list"
  lp_held :: "nat list"
  lp_released :: bool
  lp_instance :: string
  lp_started :: bool
  lp_stopping :: bool
  lp_handback :: "nat list"
  lp_looping :: bool
  lp_quiet :: bool
  lp_loopDone :: bool
  lp_renewFailures :: nat

fun lease_options_loop :: "nat \<Rightarrow> lease_option option list \<Rightarrow> lease_options \<Rightarrow> (lp_error, lease_options) result" where
  "lease_options_loop index [] config = Inr config"
| "lease_options_loop index (None # options) config = Inl (NilLeaseOption index)"
| "lease_options_loop index (Some option # options) config =
     (case option config of Inl e \<Rightarrow> Inl e | Inr config \<Rightarrow> lease_options_loop (index + 1) options config)"

definition lease_New :: "nat list \<Rightarrow> 's Locker option \<Rightarrow> lease_option option list \<Rightarrow> (lp_error, LeasePlacement) result" where
  "lease_New rng locker options =
     (case locker of
        None \<Rightarrow> Inl NilLocker
      | Some _ \<Rightarrow>
          (case lease_options_loop 0 options lease_defaultOptions of
             Inl e \<Rightarrow> Inl e
           | Inr config \<Rightarrow>
               (case options_validate config of
                  Inl e \<Rightarrow> Inl e
                | Inr config \<Rightarrow>
                    Inr \<lparr>lp_prefix = lo_keyPrefix config, lp_ttl = lo_ttl config, lp_renewEvery = lo_renewInterval config,
                         lp_standbyEvery = lo_standbyRetry config, lp_rng = rng, lp_resolved = False,
                         lp_decision = zero_placement, lp_admitted = [], lp_held = [], lp_released = False, lp_instance = [],
                         lp_started = False, lp_stopping = False, lp_handback = [], lp_looping = False, lp_quiet = False,
                         lp_loopDone = False, lp_renewFailures = 0\<rparr>)))"

text \<open>The process-wide pointer that the Definition's factory reads.\<close>

definition installed :: "LeasePlacement option \<Rightarrow> (lp_error, LeasePlacement) result" where
  "installed pointer = (case pointer of None \<Rightarrow> Inl NotInstalled | Some p \<Rightarrow> Inr p)"

section \<open>Deciding\<close>

text \<open>\<^verbatim>\<open>%q\<close> of a workload key, whose characters need no escape.\<close>

definition quoted :: "string \<Rightarrow> string" where
  "quoted s = CHR 0x22 # s @ [CHR 0x22]"

fun admission_loop ::
  "PlacementRequest \<Rightarrow> Workload list \<Rightarrow> (WorkloadKey, bool) gomap \<Rightarrow> Workload list \<Rightarrow> string list
     \<Rightarrow> (lp_error, Workload list \<times> string list) result" where
  "admission_loop request [] seen admitted notes = Inr (admitted, notes)"
| "admission_loop request (w # ws) seen admitted notes =
     (if \<not> Admits request (wl_Key w)
      then admission_loop request ws seen admitted
        (notes @ [''workload '' @ quoted (wl_Key w) @ '' is disabled in this process's configuration, so no slot was attempted''])
      else if gm_bool seen (wl_Key w) then Inl (DeclaredTwice (wl_Key w))
      else
        let seen = gm_put (wl_Key w) True seen in
        if wl_Replicas w < 1 then Inl (NoReplicas (wl_Key w) (wl_Replicas w))
        else admission_loop request ws seen (admitted @ [w]) notes)"

text \<open>Keys are distinct by then, so the order of the unstable sort is fixed by its two keys.\<close>

definition admissionOrder :: "PlacementRequest \<Rightarrow> (lp_error, Workload list \<times> string list) result" where
  "admissionOrder request =
     (case admission_loop request (req_Workloads request) [] [] [] of
        Inl e \<Rightarrow> Inl e
      | Inr (admitted, notes) \<Rightarrow> Inr (sort_key (\<lambda>w. (\<not> wl_Exclusive w, wl_Key w)) admitted, notes))"

definition randomOffset :: "int \<Rightarrow> LeasePlacement \<Rightarrow> int \<times> LeasePlacement" where
  "randomOffset replicas p =
     (if replicas \<le> 1 then (0, p)
      else (case lp_rng p of [] \<Rightarrow> (0, p) | n # ns \<Rightarrow> (int n mod replicas, p\<lparr>lp_rng := ns\<rparr>)))"

definition randomJitter :: "time \<Rightarrow> LeasePlacement \<Rightarrow> time \<times> LeasePlacement" where
  "randomJitter half p =
     (if half \<le> 0 then (0, p)
      else (case lp_rng p of [] \<Rightarrow> (- half, p) | n # ns \<Rightarrow> (int n mod (2 * half) - half, p\<lparr>lp_rng := ns\<rparr>)))"

definition standbyWait :: "LeasePlacement \<Rightarrow> time \<times> LeasePlacement" where
  "standbyWait p =
     (case randomJitter (lp_standbyEvery p div 2) p of (d, p) \<Rightarrow> (duration_wrap (lp_standbyEvery p + d), p))"

fun acquire_loop ::
  "'s Locker \<Rightarrow> string \<Rightarrow> time \<Rightarrow> string \<Rightarrow> Workload \<Rightarrow> int \<Rightarrow> nat list \<Rightarrow> 's fleet \<Rightarrow> (lp_error, nat option) result \<times> 's fleet" where
  "acquire_loop lk prefix ttl inst w offset [] f = (Inr None, f)"
| "acquire_loop lk prefix ttl inst w offset (attempt # attempts) f =
     (let index = (offset + int attempt) mod wl_Replicas w;
          key = slotKey prefix (wl_Key w) index
      in case fleet_acquire lk (wl_Key w) index key inst ttl f of
           (Inl e, f) \<Rightarrow> (Inl (CannotReach (wl_Key w) key e), f)
         | (Inr None, f) \<Rightarrow> acquire_loop lk prefix ttl inst w offset attempts f
         | (Inr (Some i), f) \<Rightarrow> (Inr (Some i), f))"

definition lease_acquire ::
  "'s Locker \<Rightarrow> Workload \<Rightarrow> string \<Rightarrow> LeasePlacement \<Rightarrow> 's fleet \<Rightarrow> (lp_error, nat option) result \<times> LeasePlacement \<times> 's fleet" where
  "lease_acquire lk w inst p f =
     (case randomOffset (wl_Replicas w) p of
        (offset, p) \<Rightarrow>
          (case acquire_loop lk (lp_prefix p) (lp_ttl p) inst w offset [0..<nat (wl_Replicas w)] f of
             (r, f) \<Rightarrow> (r, p, f)))"

fun acquireAll ::
  "'s Locker \<Rightarrow> string \<Rightarrow> Workload list \<Rightarrow> nat list \<Rightarrow> string list \<Rightarrow> LeasePlacement \<Rightarrow> 's fleet
     \<Rightarrow> (nat list \<times> string list \<times> lp_error option) \<times> LeasePlacement \<times> 's fleet" where
  "acquireAll lk inst [] held notes p f = ((held, notes, None), p, f)"
| "acquireAll lk inst (w # ws) held notes p f =
     (case lease_acquire lk w inst p f of
        (Inl e, p, f) \<Rightarrow> ((held, [], Some e), p, f)
      | (Inr None, p, f) \<Rightarrow>
          acquireAll lk inst ws held
            (notes @ [''workload '' @ quoted (wl_Key w) @ '' holds all '' @ strconv_Itoa (wl_Replicas w) @
               '' of its slots elsewhere, so this process is not carrying it'']) p f
      | (Inr (Some i), p, f) \<Rightarrow>
          let held = held @ [i];
              slot = fl_slots f ! i;
              notes = notes @ [''workload '' @ quoted (wl_Key w) @ '' holds slot '' @ strconv_Itoa (hs_index slot) @ '' of '' @
                 strconv_Itoa (wl_Replicas w) @ '' ('' @ hs_key slot @ '')'']
          in if wl_Exclusive w then ((held, notes, None), p, f) else acquireAll lk inst ws held notes p f)"

section \<open>Giving back\<close>

fun handBack :: "'s Locker \<Rightarrow> nat list \<Rightarrow> 's fleet \<Rightarrow> (nat list \<times> lease_error list) \<times> 's fleet" where
  "handBack lk [] f = (([], []), f)"
| "handBack lk (i # slots) f =
     (case slot_release lk i f of
        (e, f) \<Rightarrow>
          (case handBack lk slots f of
             ((owed, failures), f) \<Rightarrow>
               (case e of None \<Rightarrow> ((owed, failures), f) | Some e \<Rightarrow> ((i # owed, e # failures), f))))"

fun releaseAll :: "'s Locker \<Rightarrow> nat list \<Rightarrow> 's fleet \<Rightarrow> lease_error list \<times> 's fleet" where
  "releaseAll lk [] f = ([], f)"
| "releaseAll lk (i # held) f =
     (case slot_release lk i f of
        (e, f) \<Rightarrow> (case releaseAll lk held f of (failures, f) \<Rightarrow> (case e of None \<Rightarrow> failures | Some e \<Rightarrow> e # failures, f)))"

definition adoptHandback :: "nat list \<Rightarrow> LeasePlacement \<Rightarrow> LeasePlacement" where
  "adoptHandback slots p = (if slots = [] then p else p\<lparr>lp_handback := lp_handback p @ slots\<rparr>)"

definition releasable :: "LeasePlacement \<Rightarrow> nat list" where
  "releasable p = lp_held p @ lp_handback p"

definition keepUnreleased :: "'s fleet \<Rightarrow> nat list \<Rightarrow> nat list" where
  "keepUnreleased f slots = filter (\<lambda>i. \<not> st_released (slot_snapshot (fl_slots f ! i))) slots"

definition forgetReleased :: "'s fleet \<Rightarrow> LeasePlacement \<Rightarrow> LeasePlacement" where
  "forgetReleased f p =
     (let before = length (lp_held p);
          p = p\<lparr>lp_held := keepUnreleased f (lp_held p), lp_handback := keepUnreleased f (lp_handback p)\<rparr>
      in if length (lp_held p) < before then p\<lparr>lp_released := True\<rparr> else p)"

definition markLoopDone :: "LeasePlacement \<Rightarrow> LeasePlacement" where
  "markLoopDone p = p\<lparr>lp_loopDone := True\<rparr>"

definition quiesce :: "LeasePlacement \<Rightarrow> LeasePlacement" where
  "quiesce p = p\<lparr>lp_stopping := True, lp_quiet := True\<rparr>"

text \<open>The wait for the loop takes the time it takes, if there is a loop that has not returned.\<close>

definition awaitLoopQuiet :: "nat \<Rightarrow> LeasePlacement \<Rightarrow> 's fleet \<Rightarrow> 's fleet" where
  "awaitLoopQuiet d p f = (if \<not> lp_looping p \<or> lp_loopDone p then f else f\<lparr>fl_now := fl_now f + int d\<rparr>)"

definition lease_Release :: "'s Locker \<Rightarrow> nat \<Rightarrow> LeasePlacement \<Rightarrow> 's fleet \<Rightarrow> lease_error list \<times> LeasePlacement \<times> 's fleet" where
  "lease_Release lk d p f =
     (let p = quiesce p;
          f = awaitLoopQuiet d p f
      in case handBack lk (releasable p) f of ((_, failures), f) \<Rightarrow> (failures, forgetReleased f p, f))"

section \<open>Resolving\<close>

definition hostedKeys :: "'s fleet \<Rightarrow> nat list \<Rightarrow> WorkloadKey list" where
  "hostedKeys f held = sort (map (\<lambda>i. hs_workload (fl_slots f ! i)) held)"

definition lease_claimant :: "string \<Rightarrow> string \<Rightarrow> string" where
  "lease_claimant inst token = (if inst \<noteq> [] then inst else token)"

definition startRenewalLoop :: "LeasePlacement \<Rightarrow> LeasePlacement" where
  "startRenewalLoop p = (if lp_stopping p then markLoopDone p else p\<lparr>lp_looping := True\<rparr>)"

definition lease_Resolve ::
  "'s Locker \<Rightarrow> PlacementRequest \<Rightarrow> LeasePlacement \<times> 's fleet \<Rightarrow> (lp_error, Placement) result \<times> LeasePlacement \<times> 's fleet" where
  "lease_Resolve lk request st =
     (case st of (p, f) \<Rightarrow>
      if lp_resolved p then (Inr (lp_decision p), p, f)
      else
        (case admissionOrder request of
           Inl e \<Rightarrow> (Inl e, p, f)
         | Inr (admitted, notes) \<Rightarrow>
             (case acquireAll lk (req_Instance request) admitted [] [] p f of
                ((held, _, Some e), p, f) \<Rightarrow>
                  (case handBack lk held f of
                     ((owed, _), f) \<Rightarrow> (Inl e, p\<lparr>lp_handback := lp_handback p @ owed\<rparr>, f))
              | ((held, heldNotes, None), p, f) \<Rightarrow>
                  let decision = \<lparr>pl_Source = placementSourceLease, pl_Holder = [], pl_Hosted = Some (hostedKeys f held),
                        pl_Notes = notes @ heldNotes\<rparr>;
                      decision =
                        (if held \<noteq> [] then decision\<lparr>pl_Holder := lease_claimant (req_Instance request) (slot_owner (fl_slots f ! hd held))\<rparr>
                         else decision\<lparr>pl_Notes := pl_Notes decision @
                           [''this process won no slot and starts as a standby; it hosts only the plugins that belong to no workload and retries until it wins one'']\<rparr>);
                      p = p\<lparr>lp_admitted := admitted, lp_held := held, lp_instance := req_Instance request, lp_decision := decision,
                            lp_resolved := True\<rparr>
                  in (Inr decision, if held \<noteq> [] then startRenewalLoop p else p, f))))"

text \<open>
  The placement as the source the runtime asks; how an error is rendered is left open. The budget of
  a release bounds how long it waits for the loop.
\<close>

definition lease_source :: "(lp_error \<Rightarrow> string) \<Rightarrow> (lease_error list \<Rightarrow> string) \<Rightarrow> 's Locker \<Rightarrow> nat \<Rightarrow> (LeasePlacement \<times> 's fleet) PlacementSource" where
  "lease_source render joined lk d =
     \<lparr>ps_Resolve = (\<lambda>r st. case lease_Resolve lk r st of (Inl e, st) \<Rightarrow> (Inl (render e), st) | (Inr a, st) \<Rightarrow> (Inr a, st)),
      ps_Release = Some (\<lambda>budget st. case st of (p, f) \<Rightarrow>
        (case lease_Release lk (min d (nat budget)) p f of
           (failures, st) \<Rightarrow> (if failures = [] then None else Some (joined failures), st)))\<rparr>"

section \<open>Keeping slots alive\<close>

text \<open>Whether the renewal is counted as a failure, which the metrics read.\<close>

fun renewHeld_loop :: "'s Locker \<Rightarrow> time \<Rightarrow> nat list \<Rightarrow> nat \<Rightarrow> 's fleet \<Rightarrow> nat \<times> 's fleet" where
  "renewHeld_loop lk ttl [] failures f = (failures, f)"
| "renewHeld_loop lk ttl (i # slots) failures f =
     (case slot_renew lk ttl i f of
        ((_, Some e), f) \<Rightarrow> renewHeld_loop lk ttl slots ((failures + 1) mod 2 ^ 64) f
      | ((outcome, None), f) \<Rightarrow>
          renewHeld_loop lk ttl slots (if outcome = renewLost then (failures + 1) mod 2 ^ 64 else failures) f)"

definition renewHeld :: "'s Locker \<Rightarrow> LeasePlacement \<Rightarrow> 's fleet \<Rightarrow> LeasePlacement \<times> 's fleet" where
  "renewHeld lk p f =
     (case renewHeld_loop lk (lp_ttl p) (lp_held p) (lp_renewFailures p) f of
        (failures, f) \<Rightarrow> (p\<lparr>lp_renewFailures := failures\<rparr>, f))"

definition renewTick :: "'s Locker \<Rightarrow> LeasePlacement \<Rightarrow> 's fleet \<Rightarrow> bool \<times> LeasePlacement \<times> 's fleet" where
  "renewTick lk p f =
     (if lp_quiet p then (False, p, f) else (case renewHeld lk p f of (p, f) \<Rightarrow> (True, p, f)))"

text \<open>
  What a loop wakes up to: the quiet signal, the end of its context, or its timer; a timer may come
  with a context that has ended by the time it is looked at again.
\<close>

datatype wake = WokeQuiet | WokeCancelled | WokeTimer bool

datatype standby_end = StandbyWaiting | StandbyStops | StandbyRestarts "string list"

text \<open>One round of the standby loop; \<open>None\<close> continues.\<close>

definition standby_round ::
  "'s Locker \<Rightarrow> bool \<Rightarrow> LeasePlacement \<Rightarrow> 's fleet \<Rightarrow> standby_end option \<times> LeasePlacement \<times> 's fleet" where
  "standby_round lk cancelled p f =
     (if cancelled \<or> lp_quiet p then (Some StandbyStops, p, f)
      else
        (case acquireAll lk (lp_instance p) (lp_admitted p) [] [] p f of
           ((won, _, Some e), p, f) \<Rightarrow>
             (case handBack lk won f of ((owed, _), f) \<Rightarrow> (None, adoptHandback owed p, f))
         | ((won, _, None), p, f) \<Rightarrow>
             if won = [] then (None, p, f)
             else
               let keys = map (\<lambda>i. hs_key (fl_slots f ! i)) won;
                   p = adoptHandback won p
               in (case handBack lk won f of (_, f) \<Rightarrow> (Some (StandbyRestarts keys), p, f))))"

fun standby_loop ::
  "'s Locker \<Rightarrow> wake list \<Rightarrow> LeasePlacement \<Rightarrow> 's fleet \<Rightarrow> standby_end \<times> LeasePlacement \<times> 's fleet" where
  "standby_loop lk [] p f = (StandbyWaiting, p, f)"
| "standby_loop lk (wake # wakes) p f =
     (case standbyWait p of (d, p) \<Rightarrow>
        (case wake of
           WokeQuiet \<Rightarrow> (StandbyStops, p, f)
         | WokeCancelled \<Rightarrow> (StandbyStops, p, f)
         | WokeTimer cancelled \<Rightarrow>
             (case standby_round lk cancelled p (f\<lparr>fl_now := fl_now f + int (nat d)\<rparr>) of
                (Some e, p, f) \<Rightarrow> (e, p, f)
              | (None, p, f) \<Rightarrow> standby_loop lk wakes p f)))"

text \<open>The loop waits for the traffic gate first; \<open>gate\<close> says whether the gate opened before the run ended.\<close>

definition runStandby ::
  "'s Locker \<Rightarrow> bool \<Rightarrow> wake list \<Rightarrow> LeasePlacement \<Rightarrow> 's fleet \<Rightarrow> standby_end \<times> LeasePlacement \<times> 's fleet" where
  "runStandby lk gate wakes p f = (if \<not> gate then (StandbyStops, p, f) else standby_loop lk wakes p f)"

section \<open>Lifecycle\<close>

definition abandonLoop :: "LeasePlacement \<Rightarrow> LeasePlacement" where
  "abandonLoop p = markLoopDone p"

text \<open>
  The context is nil, ended or live; \<open>other\<close> says that another placement is the installed one, and
  \<open>accepts\<close> that the runtime takes the standby task.
\<close>

definition lease_start ::
  "string option option \<Rightarrow> bool \<Rightarrow> bool \<Rightarrow> LeasePlacement \<Rightarrow> lp_error option \<times> LeasePlacement" where
  "lease_start ctx other accepts p =
     (case ctx of
        None \<Rightarrow> (Some NilPluginContext, p)
      | Some (Some e) \<Rightarrow> (Some (ContextEnded e), p)
      | Some None \<Rightarrow>
          if lp_stopping p then (Some StartAfterStop, p)
          else if lp_started p then (Some StartedTwice, p)
          else if \<not> lp_resolved p then (Some (if other then AnotherPlacement else NotResolved), p)
          else
            let p = p\<lparr>lp_started := True\<rparr>;
                standby = lp_held p = [];
                p = (if standby then p\<lparr>lp_looping := True\<rparr> else p)
            in if \<not> standby then (None, p)
               else if \<not> accepts then (Some TaskRefused, abandonLoop p)
               else (None, p))"

definition lease_preStop :: "'s Locker \<Rightarrow> nat \<Rightarrow> LeasePlacement \<Rightarrow> 's fleet \<Rightarrow> lease_error list \<times> LeasePlacement \<times> 's fleet" where
  "lease_preStop lk d p f =
     (let p = quiesce p;
          f = awaitLoopQuiet d p f
      in case releaseAll lk (releasable p) f of (failures, f) \<Rightarrow> (failures, p, f))"

definition lease_stop :: "'s Locker \<Rightarrow> nat \<Rightarrow> LeasePlacement \<Rightarrow> 's fleet \<Rightarrow> lease_error list \<times> LeasePlacement \<times> 's fleet" where
  "lease_stop lk d p f =
     (let p = markLoopDone (quiesce p);
          f = f\<lparr>fl_now := fl_now f + int d\<rparr>
      in case releaseAll lk (releasable p) f of (failures, f) \<Rightarrow> (failures, p, f))"

section \<open>Reports\<close>

record Held =
  held_Workload :: WorkloadKey
  held_Slot :: int
  held_Key :: string
  held_Owner :: string
  held_Age :: time
  held_Renewed :: time
  held_Degraded :: bool

record Declared =
  decl_Workload :: WorkloadKey
  decl_Replicas :: int
  decl_Exclusive :: bool

record Stats =
  stats_Source :: string
  stats_Instance :: string
  stats_Standby :: bool
  stats_Held :: "Held list"
  stats_Declared :: "Declared list"
  stats_RenewFailures :: nat

definition held_row :: "time \<Rightarrow> slotState \<Rightarrow> Held" where
  "held_row now st =
     \<lparr>held_Workload = st_workload st, held_Slot = st_index st, held_Key = st_key st, held_Owner = st_owner st,
      held_Age = now - st_won st, held_Renewed = st_renewed st, held_Degraded = st_degraded st\<rparr>"

definition lease_Stats :: "time \<Rightarrow> 's fleet \<Rightarrow> LeasePlacement \<Rightarrow> Stats" where
  "lease_Stats now f p =
     \<lparr>stats_Source = pl_Source (lp_decision p), stats_Instance = lp_instance p,
      stats_Standby = (lp_resolved p \<and> \<not> lp_released p \<and> lp_held p = []),
      stats_Held = sort_key (\<lambda>h. (held_Workload h, held_Slot h)) (map (\<lambda>i. held_row now (slot_snapshot (fl_slots f ! i))) (lp_held p)),
      stats_Declared = sort_key decl_Workload
        (map (\<lambda>w. \<lparr>decl_Workload = wl_Key w, decl_Replicas = wl_Replicas w, decl_Exclusive = wl_Exclusive w\<rparr>) (lp_admitted p)),
      stats_RenewFailures = lp_renewFailures p\<rparr>"

text \<open>The slots readiness reports: none is ready.\<close>

definition renewalHealth :: "time \<Rightarrow> 's fleet \<Rightarrow> LeasePlacement \<Rightarrow> (WorkloadKey \<times> int \<times> time) list" where
  "renewalHealth now f p =
     [(st_workload st, st_index st, now - st_renewed st).
        st \<leftarrow> map (\<lambda>i. slot_snapshot (fl_slots f ! i)) (lp_held p),
        st_degraded st, \<not> now - st_renewed st \<le> lp_ttl p]"

section \<open>Runs of fleet steps\<close>

text \<open>A slot of workload \<open>w\<close> under a prefix.\<close>

definition slot_for :: "string \<Rightarrow> Workload \<Rightarrow> heldSlot \<Rightarrow> bool" where
  "slot_for prefix w h \<longleftrightarrow>
     hs_workload h = wl_Key w \<and> 0 \<le> hs_index h \<and> hs_index h < wl_Replicas w \<and>
     hs_key h = slotKey prefix (wl_Key w) (hs_index h)"

lemma fleet_acquire_slots:
  assumes "fleet_acquire lk wk index key inst ttl f = (r, f')"
  shows "(case r of
       Inr (Some i) \<Rightarrow> i = length (fl_slots f) \<and> (\<exists>h. fl_slots f' = fl_slots f @ [h] \<and>
         hs_workload h = wk \<and> hs_index h = index \<and> hs_key h = key \<and> \<not> hs_quiesced h \<and> \<not> hs_released h)
     | _ \<Rightarrow> fl_slots f' = fl_slots f)"
  using assms by (auto simp: fleet_acquire_def Let_def newHeldSlot_def split: prod.splits sum.splits option.splits)

lemma acquire_loop_run:
  assumes "acquire_loop lk prefix ttl inst w offset attempts f = (r, f')" and "1 \<le> wl_Replicas w"
  shows "fleet_steps lk holder f f' \<and>
    (case r of
       Inr (Some i) \<Rightarrow> i = length (fl_slots f) \<and> (\<exists>h. fl_slots f' = fl_slots f @ [h] \<and> slot_for prefix w h)
     | _ \<Rightarrow> fl_slots f' = fl_slots f)"
  using assms(1)
proof (induction attempts arbitrary: f)
  case (Cons a as)
  let ?index = "(offset + int a) mod wl_Replicas w"
  obtain q g where call: "fleet_acquire lk (wl_Key w) ?index (slotKey prefix (wl_Key w) ?index) inst ttl f = (q, g)" by fastforce
  then have step: "fleet_steps lk holder f g" by (intro r_into_rtranclp fleet_step.acquires)
  note slots = fleet_acquire_slots [OF call]
  have bounds: "0 \<le> ?index" "?index < wl_Replicas w" using assms(2) by simp_all
  consider e where "q = Inl e" | "q = Inr None" | i where "q = Inr (Some i)" by (metis option.exhaust sum.exhaust)
  then show ?case
  proof cases
    case 2
    with Cons.prems have "acquire_loop lk prefix ttl inst w offset as g = (r, f')" by (simp add: call Let_def)
    note rest = Cons.IH [OF this]
    have "fl_slots g = fl_slots f" using slots 2 by simp
    with rest rtranclp_trans [OF step conjunct1 [OF rest]] show ?thesis by (auto split: sum.splits option.splits)
  qed (use Cons.prems step slots bounds in \<open>auto simp: call Let_def slot_for_def\<close>)
qed auto

lemma randomOffset_rng: "randomOffset n p = (k, p') \<Longrightarrow> \<exists>rng. p' = p\<lparr>lp_rng := rng\<rparr>"
proof -
  have "\<exists>rng. p = p\<lparr>lp_rng := rng\<rparr>" by (rule exI [of _ "lp_rng p"]) simp
  then show "randomOffset n p = (k, p') \<Longrightarrow> \<exists>rng. p' = p\<lparr>lp_rng := rng\<rparr>"
    by (auto simp: randomOffset_def split: if_splits list.splits)
qed

lemma lease_acquire_run:
  assumes "lease_acquire lk w inst p f = (r, p', f')" and "1 \<le> wl_Replicas w"
  shows "fleet_steps lk holder f f' \<and> (\<exists>rng. p' = p\<lparr>lp_rng := rng\<rparr>) \<and>
    (case r of
       Inr (Some i) \<Rightarrow> i = length (fl_slots f) \<and> (\<exists>h. fl_slots f' = fl_slots f @ [h] \<and> slot_for (lp_prefix p) w h)
     | _ \<Rightarrow> fl_slots f' = fl_slots f)"
proof -
  obtain k q where off: "randomOffset (wl_Replicas w) p = (k, q)" by fastforce
  obtain rng where q: "q = p\<lparr>lp_rng := rng\<rparr>" using randomOffset_rng [OF off] by blast
  from assms(1) have "acquire_loop lk (lp_prefix p) (lp_ttl p) inst w k [0..<nat (wl_Replicas w)] f = (r, f')" and "p' = q"
    by (auto simp: lease_acquire_def off q split: prod.splits)
  with acquire_loop_run [OF this(1) assms(2), of holder] q show ?thesis by blast
qed

text \<open>
  A round wins at most one slot of each workload it was given, for the keys of that workload; when it
  wins an exclusive workload it has won nothing else, since exclusive workloads come first.
\<close>

lemma acquireAll_run:
  assumes "acquireAll lk inst ws held ns p f = ((held', ns', e), p', f')"
    and "\<forall>w \<in> set ws. 1 \<le> wl_Replicas w" and "distinct (map wl_Key ws)"
    and "sorted_wrt (\<lambda>v w. wl_Exclusive w \<longrightarrow> wl_Exclusive v) ws"
  shows "fleet_steps lk holder f f' \<and> (\<exists>rng. p' = p\<lparr>lp_rng := rng\<rparr>) \<and>
    (\<exists>won. fl_slots f' = fl_slots f @ won \<and> held' = held @ [length (fl_slots f)..<length (fl_slots f')] \<and>
       distinct (map hs_workload won) \<and>
       (\<forall>h \<in> set won. \<exists>w \<in> set ws. slot_for (lp_prefix p) w h \<and> (wl_Exclusive w \<longrightarrow> won = [h])))"
  using assms
proof (induction ws arbitrary: held ns p f)
  case Nil
  moreover have "\<exists>rng. p = p\<lparr>lp_rng := rng\<rparr>" by (rule exI [of _ "lp_rng p"]) simp
  ultimately show ?case by simp
next
  case (Cons w ws)
  obtain r q g where acq: "lease_acquire lk w inst p f = (r, q, g)" by (metis prod_cases3)
  have run: "fleet_steps lk holder f g" and q: "\<exists>rng. q = p\<lparr>lp_rng := rng\<rparr>"
    and res: "case r of Inr (Some i) \<Rightarrow> i = length (fl_slots f) \<and> (\<exists>h. fl_slots g = fl_slots f @ [h] \<and> slot_for (lp_prefix p) w h)
      | _ \<Rightarrow> fl_slots g = fl_slots f"
    using lease_acquire_run [OF acq, of holder] Cons.prems(2) by auto
  consider (failed) x where "r = Inl x" | (elsewhere) "r = Inr None" | (won) i where "r = Inr (Some i)"
    by (metis option.exhaust sum.exhaust)
  then show ?case
  proof cases
    case failed
    with Cons.prems(1) run q res show ?thesis by (simp add: acq)
  next
    case elsewhere
    with Cons.prems(1) obtain ns1 where rest: "acquireAll lk inst ws held ns1 q g = ((held', ns', e), p', f')"
      by (simp add: acq)
    have "fleet_steps lk holder g f' \<and> (\<exists>rng. p' = q\<lparr>lp_rng := rng\<rparr>) \<and>
      (\<exists>won. fl_slots f' = fl_slots g @ won \<and> held' = held @ [length (fl_slots g)..<length (fl_slots f')] \<and>
         distinct (map hs_workload won) \<and>
         (\<forall>h \<in> set won. \<exists>w \<in> set ws. slot_for (lp_prefix q) w h \<and> (wl_Exclusive w \<longrightarrow> won = [h])))"
      by (rule Cons.IH [OF rest]) (use Cons.prems in simp_all)
    with run q res elsewhere show ?thesis by (auto intro: rtranclp_trans)
  next
    case won
    from res won obtain h where i: "i = length (fl_slots f)" and g: "fl_slots g = fl_slots f @ [h]" and h: "slot_for (lp_prefix p) w h" by auto
    show ?thesis
    proof (cases "wl_Exclusive w")
      case True
      with Cons.prems(1) won run q i g h show ?thesis by (auto simp: acq Let_def)
    next
      case False
      with Cons.prems(1) won obtain ns1 where rest: "acquireAll lk inst ws (held @ [i]) ns1 q g = ((held', ns', e), p', f')"
        by (auto simp: acq Let_def)
      have none: "\<not> wl_Exclusive v" if "v \<in> set ws" for v using Cons.prems(4) False that by auto
      have rec: "fleet_steps lk holder g f' \<and> (\<exists>rng. p' = q\<lparr>lp_rng := rng\<rparr>) \<and>
        (\<exists>won. fl_slots f' = fl_slots g @ won \<and> held' = (held @ [i]) @ [length (fl_slots g)..<length (fl_slots f')] \<and>
           distinct (map hs_workload won) \<and>
           (\<forall>h \<in> set won. \<exists>w \<in> set ws. slot_for (lp_prefix q) w h \<and> (wl_Exclusive w \<longrightarrow> won = [h])))"
        by (rule Cons.IH [OF rest]) (use Cons.prems in simp_all)
      note run' = conjunct1 [OF rec] conjunct1 [OF conjunct2 [OF rec]]
      from conjunct2 [OF conjunct2 [OF rec]] obtain more where more: "fl_slots f' = fl_slots g @ more"
        "held' = (held @ [i]) @ [length (fl_slots g)..<length (fl_slots f')]" "distinct (map hs_workload more)"
        "\<forall>h \<in> set more. \<exists>w \<in> set ws. slot_for (lp_prefix q) w h \<and> (wl_Exclusive w \<longrightarrow> more = [h])"
        by (elim exE conjE)
      have pre: "lp_prefix q = lp_prefix p" using q by auto
      have "hs_workload h \<notin> hs_workload ` set more"
        using more(4) Cons.prems(3) h by (auto simp: slot_for_def)
      then have "distinct (map hs_workload (h # more))" using more(3) by simp
      moreover have "fl_slots f' = fl_slots f @ h # more" using more(1) g by simp
      moreover have "held' = held @ [length (fl_slots f)..<length (fl_slots f')]"
        using more(1,2) g i upt_conv_Cons [of "length (fl_slots f)" "length (fl_slots f')"] by simp
      moreover have "\<forall>x \<in> set (h # more). \<exists>v \<in> set (w # ws). slot_for (lp_prefix p) v x \<and> (wl_Exclusive v \<longrightarrow> h # more = [x])"
        using h False more(4) none unfolding pre by auto
      moreover have "\<exists>rng. p' = p\<lparr>lp_rng := rng\<rparr>" using run'(2) q by auto
      ultimately show ?thesis using rtranclp_trans [OF run run'(1)] by blast
    qed
  qed
qed

lemma slot_release_run:
  assumes "slot_release lk i f = (e, f')" and "i < length (fl_slots f)"
  shows "fleet_steps lk holder f f'" and "list_all2 slot_succ (fl_slots f) (fl_slots f')"
    and "e = None \<Longrightarrow> hs_released (fl_slots f' ! i)" and "e \<noteq> None \<Longrightarrow> hs_quiesced (fl_slots f' ! i)"
proof -
  show "fleet_steps lk holder f f'" using fleet_step.releases [OF assms(2,1)] by (rule r_into_rtranclp)
  let ?h = "(fl_slots f ! i)\<lparr>hs_quiesced := True\<rparr>"
  consider "hs_released (fl_slots f ! i)" "e = None" "f' = f"
    | s where "e \<noteq> None" "f' = (finish_call s f)\<lparr>fl_slots := (fl_slots f)[i := ?h]\<rparr>"
    | s where "e = None" "f' = (finish_call s f)\<lparr>fl_slots := (fl_slots f)[i := ?h\<lparr>hs_released := True\<rparr>]\<rparr>"
    using assms(1) by (auto simp: slot_release_def Let_def split: if_splits prod.splits sum.splits)
  note cases = this
  have succ: "slot_succ (fl_slots f ! i) ?h" "slot_succ (fl_slots f ! i) (?h\<lparr>hs_released := True\<rparr>)"
    by (simp_all add: slot_succ_def)
  show "list_all2 slot_succ (fl_slots f) (fl_slots f')"
    by (rule cases) (simp_all add: list_all2_refl list_all2_update succ)
  show "hs_released (fl_slots f' ! i)" if "e = None" by (rule cases) (use that assms(2) in simp_all)
  show "hs_quiesced (fl_slots f' ! i)" if "e \<noteq> None" by (rule cases) (use that assms(2) in simp_all)
qed

text \<open>A handback asks for every slot: what it does not report as owed is released, and all are quiesced.\<close>

lemma handBack_run:
  assumes "handBack lk slots f = ((owed, failures), f')" and "\<forall>i \<in> set slots. i < length (fl_slots f)"
  shows "fleet_steps lk holder f f' \<and> list_all2 slot_succ (fl_slots f) (fl_slots f') \<and> set owed \<subseteq> set slots \<and>
    (\<forall>i \<in> set slots. hs_released (fl_slots f' ! i) \<or> i \<in> set owed \<and> hs_quiesced (fl_slots f' ! i)) \<and>
    (failures = [] \<longleftrightarrow> owed = [])"
  using assms
proof (induction slots arbitrary: f owed failures)
  case Nil
  then show ?case by (simp add: list_all2_refl)
next
  case (Cons i slots)
  obtain e g where rel: "slot_release lk i f = (e, g)" by fastforce
  have i: "i < length (fl_slots f)" using Cons.prems(2) by simp
  note one = slot_release_run [OF rel i]
  have len: "length (fl_slots g) = length (fl_slots f)" using one(2) by (simp add: list_all2_lengthD)
  obtain owed' failures' g' where "handBack lk slots g = ((owed', failures'), g')" by (metis prod.exhaust)
  with Cons.prems(1) have rest: "handBack lk slots g = ((owed', failures'), f')"
    and out: "e = None \<and> owed = owed' \<and> failures = failures' \<or> e \<noteq> None \<and> owed = i # owed' \<and> failures \<noteq> []"
    by (auto simp: rel split: option.splits)
  have more: "fleet_steps lk holder g f'" "list_all2 slot_succ (fl_slots g) (fl_slots f')" "set owed' \<subseteq> set slots"
    "\<forall>i \<in> set slots. hs_released (fl_slots f' ! i) \<or> i \<in> set owed' \<and> hs_quiesced (fl_slots f' ! i)" "failures' = [] \<longleftrightarrow> owed' = []"
    using Cons.IH [OF rest] Cons.prems(2) len by simp_all
  have succ: "slot_succ (fl_slots g ! i) (fl_slots f' ! i)" using more(2) i len by (simp add: list_all2_nthD)
  have all: "list_all2 slot_succ (fl_slots f) (fl_slots f')"
    by (rule list_all2_trans [OF _ one(2) more(2)]) (rule slot_succ_trans)
  have mine: "hs_released (fl_slots f' ! i) \<or> i \<in> set owed \<and> hs_quiesced (fl_slots f' ! i)"
    using out one(3,4) succ by (auto simp: slot_succ_def)
  show ?case using rtranclp_trans [OF one(1) more(1)] all mine more(3-5) out by auto
qed

lemma releaseAll_handBack:
  "releaseAll lk slots f = (snd (fst (handBack lk slots f)), snd (handBack lk slots f))"
  by (induction slots arbitrary: f) (auto split: prod.splits option.splits)

text \<open>Against a store that answers every call, nothing stays owed.\<close>

lemma redis_release_delivered: "ca_wire (next_call f) = Delivered \<Longrightarrow> fst (slot_release (redis_locker ops) i f) = None"
  by (auto simp: slot_release_def Let_def redis_locker_def Release_def remote_def split: prod.splits)

lemma handBack_delivered:
  assumes "\<forall>c \<in> set (take (length slots) (fl_calls f)). ca_wire c = Delivered" and "length slots \<le> length (fl_calls f)"
  shows "fst (handBack (redis_locker ops) slots f) = ([], [])"
  using assms
proof (induction slots arbitrary: f)
  case (Cons i slots)
  let ?r = "slot_release (redis_locker ops) i f"
  from Cons.prems obtain c cs where calls: "fl_calls f = c # cs" by (cases "fl_calls f") auto
  have "fl_calls (snd ?r) = fl_calls f \<or> fl_calls (snd ?r) = cs"
    by (auto simp: slot_release_def Let_def calls split: prod.splits sum.splits)
  moreover have "set (take (length slots) (fl_calls f)) \<subseteq> set (take (Suc (length slots)) (fl_calls f))"
    by (rule set_take_subset_set_take) simp
  ultimately have "\<forall>c \<in> set (take (length slots) (fl_calls (snd ?r))). ca_wire c = Delivered" "length slots \<le> length (fl_calls (snd ?r))"
    using Cons.prems calls by auto
  moreover have "fst ?r = None" using Cons.prems calls by (intro redis_release_delivered) (simp add: next_call_def)
  ultimately show ?case using Cons.IH [of "snd ?r"] by (auto split: prod.splits)
qed simp

lemma renewHeld_loop_run:
  assumes "renewHeld_loop lk ttl slots n f = (m, f')" and "\<forall>i \<in> set slots. i < length (fl_slots f)"
  shows "fleet_steps lk holder f f' \<and> length (fl_slots f') = length (fl_slots f)"
  using assms
proof (induction slots arbitrary: f n)
  case (Cons i slots)
  obtain r g where one: "slot_renew lk ttl i f = (r, g)" by fastforce
  have step: "fleet_steps lk holder f g" using fleet_step.renews [OF _ one] Cons.prems(2) by auto
  have len: "length (fl_slots g) = length (fl_slots f)"
    using one by (auto simp: slot_renew_def Let_def split: if_splits prod.splits sum.splits)
  obtain k where "renewHeld_loop lk ttl slots k g = (m, f')"
    using Cons.prems(1) by (cases r) (auto simp: one split: option.splits)
  from Cons.IH [OF this] Cons.prems(2) len step show ?case by (auto intro: rtranclp_trans)
qed simp

text \<open>A quiet placement's tick touches nothing; any other tick only renews, and keeps what is held.\<close>

lemma renewTick_run:
  assumes "renewTick lk p f = (go, p', f')" and "\<forall>i \<in> set (lp_held p). i < length (fl_slots f)"
  shows "fleet_steps lk holder f f' \<and> lp_held p' = lp_held p \<and> (lp_quiet p \<longrightarrow> f' = f \<and> \<not> go)"
  using assms renewHeld_loop_run [of lk "lp_ttl p" "lp_held p" "lp_renewFailures p" f _ f' holder]
  by (auto simp: renewTick_def renewHeld_def split: if_splits prod.splits)

text \<open>
  A standby never hosts: a round that wins slots puts all of them on the list of what is owed, gives
  them back and asks for a restart; a round that fails records what it could not give back.
\<close>

lemma standby_round_run:
  assumes run: "standby_round lk cancelled p f = (r, p', f')"
    and adm: "\<forall>w \<in> set (lp_admitted p). 1 \<le> wl_Replicas w" "distinct (map wl_Key (lp_admitted p))"
      "sorted_wrt (\<lambda>v w. wl_Exclusive w \<longrightarrow> wl_Exclusive v) (lp_admitted p)"
  shows "fleet_steps lk holder f f'" and "lp_held p' = lp_held p"
    and "length (fl_slots f) \<le> i \<Longrightarrow> i < length (fl_slots f') \<Longrightarrow>
      hs_released (fl_slots f' ! i) \<or> i \<in> set (lp_handback p') \<and> hs_quiesced (fl_slots f' ! i)"
    and "r = Some (StandbyRestarts keys) \<Longrightarrow> length (fl_slots f) < length (fl_slots f')"
proof -
  have "fleet_steps lk holder f f' \<and> lp_held p' = lp_held p \<and>
    (\<forall>i. length (fl_slots f) \<le> i \<and> i < length (fl_slots f') \<longrightarrow>
      hs_released (fl_slots f' ! i) \<or> i \<in> set (lp_handback p') \<and> hs_quiesced (fl_slots f' ! i)) \<and>
    (r = Some (StandbyRestarts keys) \<longrightarrow> length (fl_slots f) < length (fl_slots f'))"
  proof (cases "cancelled \<or> lp_quiet p")
    case True
    with run show ?thesis by (auto simp: standby_round_def)
  next
    case False
    obtain held ns e q g where acq: "acquireAll lk (lp_instance p) (lp_admitted p) [] [] p f = ((held, ns, e), q, g)"
      by (metis prod.exhaust)
    from acquireAll_run [OF acq adm, of holder] obtain won rng where won: "fleet_steps lk holder f g" "q = p\<lparr>lp_rng := rng\<rparr>"
      "fl_slots g = fl_slots f @ won" "held = [length (fl_slots f)..<length (fl_slots g)]"
      by auto
    obtain owed failures g' where hb: "handBack lk held g = ((owed, failures), g')" by (metis prod.exhaust)
    from handBack_run [OF hb, of holder] won(4) have hb': "fleet_steps lk holder g g'" "length (fl_slots g') = length (fl_slots g)"
      "set owed \<subseteq> set held" "\<forall>i \<in> set held. hs_released (fl_slots g' ! i) \<or> i \<in> set owed \<and> hs_quiesced (fl_slots g' ! i)"
      by (auto dest: list_all2_lengthD)
    consider (failed) "e \<noteq> None" "r = None" "p' = adoptHandback owed q" "f' = g'"
      | (none) "held = []" "r = None" "p' = q" "f' = g"
      | (wins) "held \<noteq> []" "p' = adoptHandback held q" "f' = g'"
      using run False by (auto simp: standby_round_def acq hb Let_def split: option.splits if_splits)
    then show ?thesis
    proof cases
      case none
      with won(3,4) have "length [length (fl_slots f)..<length (fl_slots f) + length won] = 0" by simp
      then have "won = []" by simp
      with none won show ?thesis by auto
    qed (use won hb' rtranclp_trans [OF won(1) hb'(1)] in \<open>auto simp: adoptHandback_def\<close>)
  qed
  then show "fleet_steps lk holder f f'" "lp_held p' = lp_held p"
    "length (fl_slots f) \<le> i \<Longrightarrow> i < length (fl_slots f') \<Longrightarrow>
      hs_released (fl_slots f' ! i) \<or> i \<in> set (lp_handback p') \<and> hs_quiesced (fl_slots f' ! i)"
    "r = Some (StandbyRestarts keys) \<Longrightarrow> length (fl_slots f) < length (fl_slots f')"
    by blast+
qed

text \<open>The two hooks release what is on the list, whether or not the wait for the loop ran out.\<close>

lemma hooks_run:
  assumes "lease_preStop lk d p f = (failures, p', f') \<or> lease_stop lk d p f = (failures, p', f')"
    and "\<forall>i \<in> set (releasable p). i < length (fl_slots f)"
  shows "fleet_steps lk holder f f' \<and> (\<forall>i \<in> set (releasable p). hs_released (fl_slots f' ! i) \<or> hs_quiesced (fl_slots f' ! i)) \<and>
    (failures = [] \<longrightarrow> (\<forall>i \<in> set (releasable p). hs_released (fl_slots f' ! i)))"
proof -
  have rel: "releasable (quiesce p) = releasable p" "releasable (markLoopDone (quiesce p)) = releasable p"
    by (simp_all add: releasable_def quiesce_def markLoopDone_def)
  have "\<exists>d'. releaseAll lk (releasable p) (f\<lparr>fl_now := fl_now f + int d'\<rparr>) = (failures, f')"
    using assms(1)
  proof
    assume "lease_preStop lk d p f = (failures, p', f')"
    then have "releaseAll lk (releasable p) (awaitLoopQuiet d (quiesce p) f) = (failures, f')"
      by (auto simp: lease_preStop_def Let_def rel split: prod.splits)
    moreover have "awaitLoopQuiet d (quiesce p) f = f\<lparr>fl_now := fl_now f + int (if lp_looping p \<and> \<not> lp_loopDone p then d else 0)\<rparr>"
      by (simp add: awaitLoopQuiet_def quiesce_def)
    ultimately show ?thesis by metis
  qed (auto simp: lease_stop_def Let_def rel split: prod.splits)
  then obtain d' where "releaseAll lk (releasable p) (f\<lparr>fl_now := fl_now f + int d'\<rparr>) = (failures, f')" ..
  then obtain owed where "handBack lk (releasable p) (f\<lparr>fl_now := fl_now f + int d'\<rparr>) = ((owed, failures), f')"
    unfolding releaseAll_handBack by (metis fst_conv prod.collapse snd_conv)
  from handBack_run [OF this, of holder] assms(2)
  have run: "fleet_steps lk holder (f\<lparr>fl_now := fl_now f + int d'\<rparr>) f'" and rest:
      "\<forall>i \<in> set (releasable p). hs_released (fl_slots f' ! i) \<or> i \<in> set owed \<and> hs_quiesced (fl_slots f' ! i)" "failures = [] \<longleftrightarrow> owed = []"
    by simp_all
  from rest converse_rtranclp_into_rtranclp [OF fleet_step.passes run] show ?thesis by auto
qed

section \<open>Configuration bounds\<close>

text \<open>
  An accepted configuration has room for two renewals in every ttl, also when the ttl is the default
  one, whose product could wrap.
\<close>

lemma options_validate_bounds:
  assumes "options_validate config = Inr config'" and "lo_renewInterval config < 2 ^ 63"
  shows "lo_keyPrefix config' = lo_keyPrefix config \<and> lo_keyPrefix config \<noteq> [] \<and> lo_renewInterval config' = lo_renewInterval config \<and>
    millisecond \<le> lo_renewInterval config' \<and> millisecond \<le> lo_standbyRetry config' \<and>
    2 * lo_renewInterval config' \<le> lo_ttl config' \<and>
    lo_ttl config' = (if lo_ttl config = 0 then 3 * lo_renewInterval config else lo_ttl config)"
proof -
  have r: "millisecond \<le> lo_renewInterval config" "millisecond \<le> lo_standbyRetry config" "lo_keyPrefix config \<noteq> []"
    using assms(1) by (auto simp: options_validate_def Let_def split: if_splits)
  have pos: "0 < lo_renewInterval config" using r(1) by (simp add: millisecond_def)
  show ?thesis
  proof (cases "lo_ttl config = 0")
    case True
    let ?r = "lo_renewInterval config" and ?t = "duration_wrap (3 * lo_renewInterval config)"
    have ok: "config' = config\<lparr>lo_ttl := ?t\<rparr>" "\<not> ?t div 2 < ?r"
      using assms(1) True by (auto simp: options_validate_def Let_def split: if_splits)
    have "?t = 3 * ?r"
    proof (rule ccontr)
      assume other: "?t \<noteq> 3 * ?r"
      have "\<not> 3 * ?r < 2 ^ 63"
      proof
        assume "3 * ?r < 2 ^ 63"
        then have "(3 * ?r + 2 ^ 63) mod 2 ^ 64 = 3 * ?r + 2 ^ 63" using pos by (intro mod_pos_pos_trivial) simp_all
        with other show False by (simp add: duration_wrap_def)
      qed
      moreover have "(3 * ?r + 2 ^ 63) mod 2 ^ 64 = (3 * ?r - 2 ^ 63) mod 2 ^ 64"
        using mod_add_self2 [of "3 * ?r - 2 ^ 63" "2 ^ 64"] by (simp add: add.commute)
      moreover have "(3 * ?r - 2 ^ 63) mod 2 ^ 64 \<le> 3 * ?r - 2 ^ 63" using calculation(1) by (intro zmod_le_nonneg_dividend) simp
      ultimately have "?t \<le> 3 * ?r - 2 ^ 64" by (simp add: duration_wrap_def)
      with ok(2) assms(2) show False by simp
    qed
    with ok r True show ?thesis by simp
  next
    case False
    then have "config' = config" "\<not> lo_ttl config div 2 < lo_renewInterval config"
      using assms(1) by (auto simp: options_validate_def Let_def split: if_splits)
    with r False show ?thesis by simp
  qed
qed

section \<open>Admission\<close>

lemma admission_loop_facts:
  assumes "admission_loop request ws seen admitted ns = Inr (admitted', ns')"
    and "\<forall>w \<in> set admitted. gm_bool seen (wl_Key w) \<and> Admits request (wl_Key w) \<and> 1 \<le> wl_Replicas w" and "distinct (map wl_Key admitted)"
  shows "distinct (map wl_Key admitted') \<and>
    set admitted' = set admitted \<union> {w \<in> set ws. Admits request (wl_Key w)} \<and> (\<forall>w \<in> set admitted'. 1 \<le> wl_Replicas w)"
  using assms
proof (induction ws arbitrary: seen admitted ns)
  case (Cons w ws)
  show ?case
  proof (cases "Admits request (wl_Key w)")
    case False
    with Cons.prems Cons.IH show ?thesis by auto
  next
    case True
    with Cons.prems(1) have new: "\<not> gm_bool seen (wl_Key w)" "1 \<le> wl_Replicas w"
      and rest: "admission_loop request ws (gm_put (wl_Key w) True seen) (admitted @ [w]) ns = Inr (admitted', ns')"
      by (auto simp: Let_def split: if_splits)
    have fresh: "distinct (map wl_Key (admitted @ [w]))" using Cons.prems(2,3) new(1) by auto
    have "\<forall>v \<in> set (admitted @ [w]). gm_bool (gm_put (wl_Key w) True seen) (wl_Key v) \<and> Admits request (wl_Key v) \<and> 1 \<le> wl_Replicas v"
      using Cons.prems(2) True new(2) by auto
    note Cons.IH [OF rest this fresh]
    then show ?thesis using True by auto
  qed
qed auto

lemma admissionOrder_facts:
  assumes "admissionOrder request = Inr (admitted, ns)"
  shows "distinct (map wl_Key admitted)" and "set admitted = {w \<in> set (req_Workloads request). Admits request (wl_Key w)}"
    and "\<forall>w \<in> set admitted. 1 \<le> wl_Replicas w" and "sorted_wrt (\<lambda>v w. wl_Exclusive w \<longrightarrow> wl_Exclusive v) admitted"
proof -
  let ?key = "\<lambda>w. (\<not> wl_Exclusive w, wl_Key w)"
  from assms obtain loop where loop: "admission_loop request (req_Workloads request) [] [] [] = Inr (loop, ns)"
    and sorted: "admitted = sort_key ?key loop"
    by (auto simp: admissionOrder_def split: sum.splits)
  note facts = admission_loop_facts [OF loop]
  show "distinct (map wl_Key admitted)" using facts unfolding sorted
    by (simp add: distinct_map inj_on_def)
  show "set admitted = {w \<in> set (req_Workloads request). Admits request (wl_Key w)}" "\<forall>w \<in> set admitted. 1 \<le> wl_Replicas w"
    using facts sorted by simp_all
  have "sorted (map ?key admitted)" unfolding sorted by simp
  then have "sorted_wrt (\<lambda>v w. ?key v \<le> ?key w) admitted" by (simp add: sorted_map)
  then show "sorted_wrt (\<lambda>v w. wl_Exclusive w \<longrightarrow> wl_Exclusive v) admitted"
    by (rule sorted_wrt_mono_rel [rotated]) (auto simp: less_eq_prod_def)
qed

section \<open>Resolving, giving back and the runtime\<close>

lemma Resolve_won:
  assumes "lease_Resolve lk request (p, f) = (Inr d, p', f')" and "\<not> lp_resolved p"
  obtains won where "fleet_steps lk holder f f'" and "fl_slots f' = fl_slots f @ won"
    and "lp_held p' = [length (fl_slots f)..<length (fl_slots f')]" and "hosted_keys (pl_Hosted d) = sort (map hs_workload won)"
    and "distinct (map hs_workload won)"
    and "\<forall>h \<in> set won. \<exists>w \<in> set (req_Workloads request). Admits request (wl_Key w) \<and> slot_for (lp_prefix p) w h \<and>
      (wl_Exclusive w \<longrightarrow> won = [h])"
    and "pl_Source d = placementSourceLease" and "lp_resolved p'" and "lp_decision p' = d"
proof -
  from assms obtain admitted ns where adm: "admissionOrder request = Inr (admitted, ns)"
    by (auto simp: lease_Resolve_def split: sum.splits)
  obtain held ns' e q g where acq: "acquireAll lk (req_Instance request) admitted [] [] p f = ((held, ns', e), q, g)"
    by (metis prod.exhaust)
  from assms have e: "e = None" and g: "g = f'"
    by (auto simp: lease_Resolve_def adm acq Let_def split: option.splits prod.splits)
  note facts = admissionOrder_facts [OF adm]
  from acquireAll_run [OF acq facts(3,1,4), of holder, unfolded g]
  obtain won where run: "fleet_steps lk holder f f'" and won: "fl_slots f' = fl_slots f @ won"
    "held = [length (fl_slots f)..<length (fl_slots f')]" "distinct (map hs_workload won)"
    "\<forall>h \<in> set won. \<exists>w \<in> set admitted. slot_for (lp_prefix p) w h \<and> (wl_Exclusive w \<longrightarrow> won = [h])"
    by auto
  have keys: "map (\<lambda>i. hs_workload (fl_slots f' ! i)) held = map hs_workload won"
    unfolding won(1,2) by (rule nth_equalityI) (simp_all add: nth_append)
  have d: "pl_Source d = placementSourceLease" "hosted_keys (pl_Hosted d) = hostedKeys f' held" "lp_resolved p'" "lp_decision p' = d" "lp_held p' = held"
    using assms unfolding lease_Resolve_def
    by (auto simp: adm acq e g Let_def hosted_keys_def startRenewalLoop_def markLoopDone_def split: if_splits)
  have ws: "\<forall>h \<in> set won. \<exists>w \<in> set (req_Workloads request). Admits request (wl_Key w) \<and> slot_for (lp_prefix p) w h \<and>
      (wl_Exclusive w \<longrightarrow> won = [h])"
    using won(4) unfolding facts(2) by blast
  show ?thesis
    by (rule that [OF run won(1) _ _ won(3) ws d(1,3,4)]) (simp_all add: d won(2) hostedKeys_def keys [unfolded won(2)])
qed

lemma Resolve_failed:
  assumes "lease_Resolve lk request (p, f) = (Inl e, p', f')"
  shows "fleet_steps lk holder f f'" and "lp_resolved p' = lp_resolved p" and "lp_held p' = lp_held p"
    and "length (fl_slots f) \<le> i \<Longrightarrow> i < length (fl_slots f') \<Longrightarrow>
      hs_released (fl_slots f' ! i) \<or> i \<in> set (lp_handback p') \<and> hs_quiesced (fl_slots f' ! i)"
proof -
  have "fleet_steps lk holder f f' \<and> lp_resolved p' = lp_resolved p \<and> lp_held p' = lp_held p \<and>
    (\<forall>i. length (fl_slots f) \<le> i \<and> i < length (fl_slots f') \<longrightarrow>
      hs_released (fl_slots f' ! i) \<or> i \<in> set (lp_handback p') \<and> hs_quiesced (fl_slots f' ! i))"
  proof (cases "admissionOrder request")
    case (Inl x)
    with assms show ?thesis by (auto simp: lease_Resolve_def split: if_splits)
  next
    case (Inr a)
    obtain admitted ns where a: "a = (admitted, ns)" by fastforce
    note adm = Inr [unfolded a]
    obtain held ns' x q g where acq: "acquireAll lk (req_Instance request) admitted [] [] p f = ((held, ns', x), q, g)"
      by (metis prod.exhaust)
    obtain owed failures g' where "handBack lk held g = ((owed, failures), g')" by (metis prod.exhaust)
    with assms have hb: "handBack lk held g = ((owed, failures), f')" and p': "p' = q\<lparr>lp_handback := lp_handback q @ owed\<rparr>"
      by (auto simp: lease_Resolve_def adm acq Let_def split: if_splits option.splits prod.splits)
    note facts = admissionOrder_facts [OF adm]
    from acquireAll_run [OF acq facts(3,1,4), of holder]
    obtain won rng where run: "fleet_steps lk holder f g" "q = p\<lparr>lp_rng := rng\<rparr>" "fl_slots g = fl_slots f @ won"
      "held = [length (fl_slots f)..<length (fl_slots g)]"
      by auto
    note hb = handBack_run [OF hb, of holder]
    have len: "length (fl_slots f') = length (fl_slots g)" using hb run(4) by (auto dest: list_all2_lengthD)
    show ?thesis using rtranclp_trans [OF run(1)] hb run(2,4) len p' by auto
  qed
  then show "fleet_steps lk holder f f'" "lp_resolved p' = lp_resolved p" "lp_held p' = lp_held p"
    "length (fl_slots f) \<le> i \<Longrightarrow> i < length (fl_slots f') \<Longrightarrow>
      hs_released (fl_slots f' ! i) \<or> i \<in> set (lp_handback p') \<and> hs_quiesced (fl_slots f' ! i)" by blast+
qed

text \<open>A workload the request admits is declared by an enabled section.\<close>

lemma admitted_enabled:
  assumes read: "ReadWorkloadSections ops h bundles env = Inr (sections, env')"
    and request: "request = \<lparr>req_Workloads = map wsec_Workload sections, req_Instance = inst,
        req_Enabled = Some (gm_bool (section_switches sections))\<rparr>"
    and w: "w \<in> set (req_Workloads request)" "Admits request (wl_Key w)"
  shows "\<exists>sec \<in> set sections. wsec_Workload sec = w \<and> wsec_Enabled sec"
proof -
  obtain sec where sec: "sec \<in> set sections" "w = wsec_Workload sec" using w(1) by (auto simp: request)
  have "gm_get (section_switches sections) (wl_Key (wsec_Workload sec)) = Some True"
    using w(2) sec(2) by (simp add: request Admits_def gm_bool_def split: option.splits)
  then obtain sec' where sec': "sec' \<in> set sections" "wl_Key (wsec_Workload sec') = wl_Key (wsec_Workload sec)" "wsec_Enabled sec'"
    unfolding section_enabled [OF read] by blast
  have "distinct (map wl_Key (map wsec_Workload sections))"
    using declaredWorkloads_facts [OF conjunct1 [OF ReadWorkloadSections_facts [OF read]]] by blast
  then have "wsec_Workload sec' = wsec_Workload sec" using sec sec' by (auto simp: distinct_map inj_on_def)
  with sec sec' show ?thesis by metis
qed

text \<open>The runtime's checks accept whatever the placement answers to the runtime's request.\<close>

lemma lease_answer_accepted:
  assumes read: "ReadWorkloadSections ops h bundles env = Inr (sections, env')"
    and request: "request = \<lparr>req_Workloads = map wsec_Workload sections, req_Instance = inst,
        req_Enabled = Some (gm_bool (section_switches sections))\<rparr>"
    and run: "lease_Resolve lk request (p, f) = (Inr d, p', f')" and fresh: "\<not> lp_resolved p"
  shows "validatePlacement d (section_switches sections) = None"
    and "validateExclusiveHosting (hosted_keys (pl_Hosted d)) (map wsec_Workload sections) = None"
proof -
  from Resolve_won [OF run fresh, of "\<lambda>_ _ _. None"] obtain won
    where won: "hosted_keys (pl_Hosted d) = sort (map hs_workload won)" "distinct (map hs_workload won)"
    "\<forall>h \<in> set won. \<exists>w \<in> set (req_Workloads request). Admits request (wl_Key w) \<and> slot_for (lp_prefix p) w h \<and>
      (wl_Exclusive w \<longrightarrow> won = [h])" and src: "pl_Source d = placementSourceLease"
    by metis
  have declared: "\<exists>sec \<in> set sections. wl_Key (wsec_Workload sec) = k \<and> gm_get (section_switches sections) k = Some True \<and>
      (2 \<le> length won \<longrightarrow> \<not> wl_Exclusive (wsec_Workload sec))" if "k \<in> hs_workload ` set won" for k
  proof -
    from that obtain x where x: "x \<in> set won" "k = hs_workload x" by blast
    with won(3) obtain w where w: "w \<in> set (req_Workloads request)" "Admits request (wl_Key w)" "slot_for (lp_prefix p) w x"
      "wl_Exclusive w \<longrightarrow> won = [x]" by blast
    then obtain sec where sec: "sec \<in> set sections" "w = wsec_Workload sec" by (auto simp: request)
    have "gm_bool (section_switches sections) k" using w(2,3) x(2) by (simp add: request Admits_def slot_for_def)
    then have "gm_get (section_switches sections) k = Some True" by (simp add: gm_bool_def split: option.splits)
    with sec w(3,4) x(2) show ?thesis by (auto simp: slot_for_def)
  qed
  have "trim_space (pl_Source d) \<noteq> []" unfolding src by code_simp
  then show "validatePlacement d (section_switches sections) = None"
    using declared won(2) by (auto simp: validatePlacement_def check_hosted_None won(1) gm_bool_def)
  show "validateExclusiveHosting (hosted_keys (pl_Hosted d)) (map wsec_Workload sections) = None"
  proof (cases "length won < 2")
    case False
    let ?ex = "fold (\<lambda>w. gm_put (wl_Key w) (wl_Exclusive w)) (map wsec_Workload sections) []"
    have dist: "distinct (map wl_Key (map wsec_Workload sections))"
      using declaredWorkloads_facts [OF conjunct1 [OF ReadWorkloadSections_facts [OF read]]] by blast
    have "\<not> gm_bool ?ex k" if "k \<in> hs_workload ` set won" for k
    proof -
      from declared [OF that] False obtain sec where "sec \<in> set sections" "wl_Key (wsec_Workload sec) = k" "\<not> wl_Exclusive (wsec_Workload sec)"
        by auto
      then have "gm_get ?ex k = Some False" unfolding fold_put_iff [OF dist] by auto
      then show ?thesis by (simp add: gm_bool_def)
    qed
    then show ?thesis by (simp add: validateExclusiveHosting_def Let_def won(1) first_exclusive_None)
  qed (simp add: validateExclusiveHosting_def won(1))
qed

text \<open>
  C14. Asked by the runtime, a process that places by lease either carries workloads or it does not, and
  the slots follow. If it decides, it has won one slot for each workload it hosts and no other, each
  slot under a key of that workload below its replica count, of workloads that are declared and
  enabled, and an exclusive workload alone; the runtime's own checks never refuse the answer. If the
  round fails, every slot it had won is either no longer in the store or recorded as owed, and no
  renewal will extend it. In both cases the process has only taken fleet steps.
\<close>

theorem lease_placement_decides:
  assumes server: "redis_server ops" and start: "fleet_start ops f0"
    and reach: "fleet_steps (redis_locker ops) (rd_get ops) f0 f" and fresh: "\<not> lp_resolved p"
    and run: "resolvePlacement cops h bundles env inst (Some (lease_source render joined (redis_locker ops) d)) (p, f) = (r, p', f')"
  shows "fleet_steps (redis_locker ops) (rd_get ops) f f' \<and>
    (case r of
       Inr decision \<Rightarrow> lp_resolved p' \<and> lp_held p' = [length (fl_slots f)..<length (fl_slots f')] \<and>
         (\<exists>sections env' won. ReadWorkloadSections cops h bundles env = Inr (sections, env') \<and> fl_slots f' = fl_slots f @ won \<and>
           hosted_keys (pl_Hosted decision) = sort (map hs_workload won) \<and> distinct (map hs_workload won) \<and>
           (\<forall>slot \<in> set won. \<exists>sec \<in> set sections. wsec_Enabled sec \<and> slot_for (lp_prefix p) (wsec_Workload sec) slot \<and>
              (wl_Exclusive (wsec_Workload sec) \<longrightarrow> won = [slot])))
     | Inl e \<Rightarrow> ((\<exists>x. e = SectionsFailed x) \<or> (\<exists>x. e = SourceFailed x)) \<and> \<not> lp_resolved p' \<and>
         (\<forall>i. length (fl_slots f) \<le> i \<and> i < length (fl_slots f') \<longrightarrow>
            (\<forall>t \<ge> fl_now f'. \<forall>j. rd_get ops t j (fl_store f') \<noteq> Some (slot_owner (fl_slots f' ! i))) \<or>
            i \<in> set (lp_handback p') \<and> hs_quiesced (fl_slots f' ! i)))"
proof -
  note contract = redis_server.redis_contract [OF server]
  let ?lk = "redis_locker ops" and ?get = "rd_get ops"
  show ?thesis
  proof (cases "ReadWorkloadSections cops h bundles env")
    case (Inl x)
    with run fresh show ?thesis by (auto simp: resolvePlacement_def)
  next
    case (Inr a)
    then obtain sections env' where read: "ReadWorkloadSections cops h bundles env = Inr (sections, env')" by (cases a) simp
    define request where "request = \<lparr>req_Workloads = map wsec_Workload sections, req_Instance = inst,
        req_Enabled = Some (gm_bool (section_switches sections))\<rparr>"
    obtain q p1 f1 where ask: "lease_Resolve ?lk request (p, f) = (q, p1, f1)" by (metis prod_cases3)
    show ?thesis
    proof (cases q)
      case (Inl e)
      note failed = Resolve_failed [OF ask [unfolded Inl]]
      have r: "r = Inl (SourceFailed (render e))" "p' = p1" "f' = f1"
        using run ask by (simp_all add: resolvePlacement_def read app_placement_def lease_source_def request_def Inl Let_def)
      have "fleet_ok ?get leaseOwnerToken f'"
        using lease_contract.steps_keep [OF contract rtranclp_trans [OF reach failed(1) [of ?get]] fleet_start_ok [OF start]] r(3) by simp
      from fleet_okD(8) [OF this] failed(4) r
      have "(\<forall>t \<ge> fl_now f'. \<forall>j. ?get t j (fl_store f') \<noteq> Some (slot_owner (fl_slots f' ! i))) \<or>
          i \<in> set (lp_handback p') \<and> hs_quiesced (fl_slots f' ! i)"
        if "length (fl_slots f) \<le> i \<and> i < length (fl_slots f')" for i using that by (metis nth_mem)
      with failed(1) [of ?get] failed(2) fresh r show ?thesis by simp
    next
      case (Inr answer)
      note accepted = lease_answer_accepted [OF read request_def ask [unfolded Inr] fresh]
      have r: "\<exists>keys. r = Inr (answer\<lparr>pl_Hosted := keys\<rparr>) \<and> hosted_keys keys = sort (hosted_keys (pl_Hosted answer))" "p' = p1" "f' = f1"
        using run ask accepted
        by (auto simp: resolvePlacement_def read app_placement_def lease_source_def request_def Inr Let_def hosted_keys_def)
      from Resolve_won [OF ask [unfolded Inr] fresh, of ?get] obtain won
        where steps: "fleet_steps ?lk ?get f f1" and won: "fl_slots f1 = fl_slots f @ won"
          "lp_held p1 = [length (fl_slots f)..<length (fl_slots f1)]" "hosted_keys (pl_Hosted answer) = sort (map hs_workload won)"
          "distinct (map hs_workload won)" "lp_resolved p1"
          "\<forall>slot \<in> set won. \<exists>w \<in> set (req_Workloads request). Admits request (wl_Key w) \<and> slot_for (lp_prefix p) w slot \<and>
            (wl_Exclusive w \<longrightarrow> won = [slot])"
        by metis
      have "\<exists>sec \<in> set sections. wsec_Enabled sec \<and> slot_for (lp_prefix p) (wsec_Workload sec) slot \<and>
          (wl_Exclusive (wsec_Workload sec) \<longrightarrow> won = [slot])" if slot: "slot \<in> set won" for slot
        using won(6) slot admitted_enabled [OF read request_def] by metis
      with steps won r read show ?thesis by (auto simp: sorted_sort_id)
    qed
  qed
qed

lemma keepUnreleased_set: "set (keepUnreleased f slots) = {i \<in> set slots. \<not> hs_released (fl_slots f ! i)}"
  by (auto simp: keepUnreleased_def slot_snapshot_def)

lemma forgetReleased_standby:
  assumes "lp_held (forgetReleased f (quiesce p)) \<noteq> lp_held p"
  shows "\<not> stats_Standby (lease_Stats now g (forgetReleased f (quiesce p)))"
proof -
  have "lp_held (forgetReleased f (quiesce p)) = keepUnreleased f (lp_held p)" by (simp add: forgetReleased_def Let_def quiesce_def)
  with assms have "length (keepUnreleased f (lp_held p)) < length (lp_held p)"
    unfolding keepUnreleased_def by (metis filter_True length_filter_less)
  then show ?thesis by (simp add: lease_Stats_def forgetReleased_def Let_def quiesce_def)
qed

lemma lease_Release_run:
  assumes "lease_Release lk d p f = (failures, p', f')" and "\<forall>i \<in> set (releasable p). i < length (fl_slots f)"
  obtains g where "fleet_steps lk holder f g" and "fl_slots g = fl_slots f" and "fl_calls g = fl_calls f"
    and "fleet_steps lk holder g f'" and "handBack lk (releasable p) g = ((fst (fst (handBack lk (releasable p) g)), failures), f')"
    and "p' = forgetReleased f' (quiesce p)"
    and "\<forall>i \<in> set (releasable p). hs_released (fl_slots f' ! i) \<or> hs_quiesced (fl_slots f' ! i)"
proof -
  let ?g = "awaitLoopQuiet d (quiesce p) f"
  have g: "fl_slots ?g = fl_slots f" "fl_calls ?g = fl_calls f" "fleet_steps lk holder f ?g"
    using fleet_step.passes [of lk holder f d] by (auto simp: awaitLoopQuiet_def)
  have rel: "releasable (quiesce p) = releasable p" by (simp add: releasable_def quiesce_def)
  obtain owed where hb: "handBack lk (releasable p) ?g = ((owed, failures), f')" and p': "p' = forgetReleased f' (quiesce p)"
    using assms(1) by (auto simp: lease_Release_def Let_def rel split: prod.splits)
  from handBack_run [OF hb, of holder] g(1) assms(2)
  have run: "fleet_steps lk holder ?g f'" "\<forall>i \<in> set (releasable p). hs_released (fl_slots f' ! i) \<or> hs_quiesced (fl_slots f' ! i)" by auto
  show ?thesis by (rule that [OF g(3,1,2) run(1) _ p' run(2)]) (simp add: hb)
qed

text \<open>
  C22. Giving back: every slot the process still owed is quiesced, so that nothing extends its claim
  afterwards, and stays on the process's list unless the store confirmed that it is free; a slot off
  the list has no token in the store, then or ever. A process that gave back a slot it hosted never
  reports itself as a standby. And when the store answers, the release reports no failure and nothing
  is left on the list.
\<close>

theorem lease_Release_gives_back:
  assumes server: "redis_server ops" and start: "fleet_start ops f0"
    and reach: "fleet_steps (redis_locker ops) (rd_get ops) f0 f" and refs: "\<forall>i \<in> set (releasable p). i < length (fl_slots f)"
    and run: "lease_Release (redis_locker ops) d p f = (failures, p', f')"
    and later: "fleet_steps (redis_locker ops) (rd_get ops) f' f''"
  shows "(\<forall>i \<in> set (releasable p). hs_quiesced (fl_slots f' ! i) \<and>
       (i \<in> set (releasable p') \<or> (\<forall>t \<ge> fl_now f''. \<forall>j. rd_get ops t j (fl_store f'') \<noteq> Some (slot_owner (fl_slots f' ! i))))) \<and>
    set (releasable p') \<subseteq> set (releasable p) \<and> lp_stopping p' \<and>
    (lp_held p' \<noteq> lp_held p \<longrightarrow> \<not> stats_Standby (lease_Stats now f'' p')) \<and>
    ((\<forall>c \<in> set (take (length (releasable p)) (fl_calls f)). ca_wire c = Delivered) \<and> length (releasable p) \<le> length (fl_calls f) \<longrightarrow>
       failures = [] \<and> releasable p' = [])"
proof -
  let ?lk = "redis_locker ops" and ?get = "rd_get ops"
  note contract = redis_server.redis_contract [OF server]
  obtain g where g: "fleet_steps ?lk ?get f g" "fl_slots g = fl_slots f" "fl_calls g = fl_calls f" "fleet_steps ?lk ?get g f'"
    and hb: "handBack ?lk (releasable p) g = ((fst (fst (handBack ?lk (releasable p) g)), failures), f')"
    and p': "p' = forgetReleased f' (quiesce p)"
    and all: "\<forall>i \<in> set (releasable p). hs_released (fl_slots f' ! i) \<or> hs_quiesced (fl_slots f' ! i)"
    by (rule lease_Release_run [OF run refs, of ?get])
  have ok: "fleet_ok ?get leaseOwnerToken f'"
    using lease_contract.steps_keep [OF contract rtranclp_trans [OF reach rtranclp_trans [OF g(1,4)]] fleet_start_ok [OF start]] by blast
  have ok'': "fleet_ok ?get leaseOwnerToken f''" and on: "fleet_evolves ?get f' f''"
    using lease_contract.steps_keep [OF contract later ok] by blast+
  have len: "length (fl_slots f') = length (fl_slots f)" using handBack_run [OF hb, of ?get] refs g(2) by (auto dest: list_all2_lengthD)
  have sets: "set (releasable p') = {i \<in> set (releasable p). \<not> hs_released (fl_slots f' ! i)}"
    unfolding p' by (auto simp: releasable_def forgetReleased_def Let_def keepUnreleased_set quiesce_def)
  have gone: "?get t j (fl_store f'') \<noteq> Some (slot_owner (fl_slots f' ! i))"
    if "i \<in> set (releasable p)" "hs_released (fl_slots f' ! i)" "fl_now f'' \<le> t" for i t j
  proof -
    have i: "i < length (fl_slots f')" using refs len that(1) by simp
    then have "i < length (fl_slots f'')" "slot_succ (fl_slots f' ! i) (fl_slots f'' ! i)" using fleet_evolvesD(2,3) [OF on] by simp_all
    then show ?thesis using fleet_okD(8) [OF ok'', of "fl_slots f'' ! i" t j] that(2,3) by (simp add: slot_succ_def)
  qed
  have quiet: "hs_quiesced (fl_slots f' ! i)" if "i \<in> set (releasable p)" for i
    using all that fleet_okD(6) [OF ok, of "fl_slots f' ! i"] refs len by auto
  have standby: "\<not> stats_Standby (lease_Stats now f'' p')" if "lp_held p' \<noteq> lp_held p"
    using forgetReleased_standby that unfolding p' .
  have stops: "lp_stopping p'" unfolding p' by (simp add: forgetReleased_def Let_def quiesce_def)
  have answered: "failures = [] \<and> releasable p' = []"
    if "\<forall>c \<in> set (take (length (releasable p)) (fl_calls f)). ca_wire c = Delivered" "length (releasable p) \<le> length (fl_calls f)"
  proof -
    have "fst (handBack ?lk (releasable p) g) = ([], [])" using that g(3) by (intro handBack_delivered) simp_all
    with hb handBack_run [OF hb, of ?get] refs g(2) have "failures = []" "\<forall>i \<in> set (releasable p). hs_released (fl_slots f' ! i)"
      by auto
    moreover from this sets have "set (releasable p') = {}" by auto
    ultimately show ?thesis by simp
  qed
  show ?thesis using gone quiet standby answered sets stops by auto
qed

text \<open>A process on its own, with the default options, that wins the only replica of its workload.\<close>

definition sample_lease :: LeasePlacement where
  "sample_lease = projr (lease_New [1, 2, 3] (Some (redis_locker keyspace_ops)) [])"

definition sample_decision :: "(placement_error, Placement) result \<times> LeasePlacement \<times> keyspace fleet" where
  "sample_decision = resolvePlacement sample_ops demo_heap (po_Bundles (demo_options [''one''])) None ''p1''
     (Some (lease_source (\<lambda>_. ''failed'') (\<lambda>_. ''failed'') (redis_locker keyspace_ops) 7)) (sample_lease, sample_fleet)"

theorem lease_placement_decides_witness:
  "map_sum (\<lambda>_. ()) (\<lambda>d. hosted_keys (pl_Hosted d)) (fst sample_decision) = Inr [''one''] \<and>
   fleet_steps (redis_locker keyspace_ops) (rd_get keyspace_ops) sample_fleet (snd (snd sample_decision)) \<and>
   lp_held (fst (snd sample_decision)) = [0]"
proof -
  have run: "sample_decision = (fst sample_decision, fst (snd sample_decision), snd (snd sample_decision))" by simp
  have "\<not> lp_resolved sample_lease" by code_simp
  from lease_placement_decides [OF keyspace.redis_server_axioms sample_start rtranclp.rtrancl_refl this run [unfolded sample_decision_def]]
  have "fleet_steps (redis_locker keyspace_ops) (rd_get keyspace_ops) sample_fleet (snd (snd sample_decision))"
    unfolding sample_decision_def by blast
  moreover have "map_sum (\<lambda>_. ()) (\<lambda>d. hosted_keys (pl_Hosted d)) (fst sample_decision) = Inr [''one'']" by code_simp
  moreover have "lp_held (fst (snd sample_decision)) = [0]" by code_simp
  ultimately show ?thesis by blast
qed

theorem lease_Release_gives_back_witness:
  "releasable (fst (snd sample_decision)) = [0] \<and>
   (\<exists>failures p' f'. lease_Release (redis_locker keyspace_ops) 7 (fst (snd sample_decision)) (sample_win ''p1'' sample_fleet) = (failures, p', f') \<and>
      failures = [] \<and> releasable p' = [])"
proof -
  let ?p = "fst (snd sample_decision)" and ?f = "sample_win ''p1'' sample_fleet"
  obtain failures p' f' where run: "lease_Release (redis_locker keyspace_ops) 7 ?p ?f = (failures, p', f')" by (metis prod_cases3)
  have win: "fleet_steps (redis_locker keyspace_ops) (rd_get keyspace_ops) sample_fleet ?f"
    unfolding sample_win_def by (rule r_into_rtranclp, rule fleet_step.acquires, rule prod.collapse [symmetric])
  have p: "releasable ?p = [0]" by code_simp
  have len: "0 < length (fl_slots ?f)" and calls: "list_all (\<lambda>c. ca_wire c = Delivered) (take 1 (fl_calls ?f)) \<and> 1 \<le> length (fl_calls ?f)"
    by code_simp+
  then have refs: "\<forall>i \<in> set (releasable ?p). i < length (fl_slots ?f)" by (simp add: p)
  from lease_Release_gives_back [OF keyspace.redis_server_axioms sample_start win refs run rtranclp.rtrancl_refl] calls p run
  show ?thesis by (simp add: list_all_iff)
qed

end
