(* ===== verification/SessionConfig.thy ===== *)
theory SessionConfig
  imports Sessions
begin

text \<open>
  The configuration of the session plugin, \<^verbatim>\<open>extensions/authentication/session/config.go\<close>: the
  defaults of the unset fields, the checks in the order the code makes them, and what a configuration
  that passes them guarantees about lifetimes, identifiers and the cookie.
\<close>

section \<open>Strings the checks use\<close>

definition HasPrefix :: "string \<Rightarrow> string \<Rightarrow> bool" where
  "HasPrefix s p \<longleftrightarrow> take (length p) s = p"

definition HasSuffix :: "string \<Rightarrow> string \<Rightarrow> bool" where
  "HasSuffix s p \<longleftrightarrow> length p \<le> length s \<and> drop (length s - length p) s = p"

definition TrimPrefix :: "string \<Rightarrow> string \<Rightarrow> string" where
  "TrimPrefix s p = (if HasPrefix s p then drop (length p) s else s)"

definition ascii_alnum :: "char \<Rightarrow> bool" where
  "ascii_alnum c \<longleftrightarrow> (c \<ge> CHR ''a'' \<and> c \<le> CHR ''z'') \<or> (c \<ge> CHR ''A'' \<and> c \<le> CHR ''Z'') \<or> (c \<ge> CHR ''0'' \<and> c \<le> CHR ''9'')"

definition token_char :: "char \<Rightarrow> bool" where
  "token_char c \<longleftrightarrow> ascii_alnum c \<or>
     c \<in> set [CHR ''!'', CHR ''#'', CHR ''$'', CHR ''%'', CHR ''&'', CHR 0x27, CHR ''*'', CHR ''+'', CHR ''-'',
       CHR ''.'', CHR ''^'', CHR ''_'', CHR 0x60, CHR ''|'', CHR ''~'']"

definition validHTTPToken :: "string \<Rightarrow> bool" where
  "validHTTPToken v \<longleftrightarrow> v \<noteq> [] \<and> list_all token_char v"

definition containsControl :: "string \<Rightarrow> bool" where
  "containsControl v \<longleftrightarrow> list_ex (\<lambda>c. c < CHR 0x20 \<or> c = CHR 0x7F) v"

definition validCookiePath :: "string \<Rightarrow> bool" where
  "validCookiePath v \<longleftrightarrow> HasPrefix v ''/'' \<and> \<not> containsControl v \<and> CHR '';'' \<notin> set v"

definition valid_label :: "string \<Rightarrow> bool" where
  "valid_label label \<longleftrightarrow> label \<noteq> [] \<and> \<not> HasPrefix label ''-'' \<and> \<not> HasSuffix label ''-'' \<and>
     list_all (\<lambda>c. ascii_alnum c \<or> c = CHR ''-'') label"

definition validCookieDomain :: "string \<Rightarrow> bool" where
  "validCookieDomain v \<longleftrightarrow>
     (if v = [] then True
      else if containsControl v \<or> list_ex (\<lambda>c. c \<in> set ('' /:;,@'' @ [CHR 0x5C])) v then False
      else list_all valid_label (split_on CHR ''.'' (TrimPrefix v ''.'')))"

section \<open>Configurations\<close>

datatype SameSite = SameSiteDefaultMode | SameSiteLaxMode | SameSiteStrictMode | SameSiteNoneMode

datatype config_error =
    BadBackend | BadName | NotHTTPOnly | BadPath | BadDomain | HostPrefix | SecurePrefix | BadSameSite
  | SameSiteNoneInsecure | BadLifetimes | BadTouchInterval | BadIntervals | BadIDBytes | BadRedisInstance | BadRedisPrefix
  | NeedsStore string

record Config =
  cfg_Backend :: string
  cfg_RedisInstance :: string
  cfg_RedisPrefix :: string
  cfg_Name :: string
  cfg_Path :: string
  cfg_Domain :: string
  cfg_HTTPOnly :: bool
  cfg_Secure :: bool
  cfg_SameSite :: string
  cfg_TTL :: time
  cfg_IdleTTL :: time
  cfg_TouchInterval :: time
  cfg_CleanupInterval :: time
  cfg_OperationTimeout :: time
  cfg_IDBytes :: int

record normalizedConfig =
  nc_backend :: string
  nc_redisInstance :: string
  nc_redisPrefix :: string
  nc_name :: string
  nc_path :: string
  nc_domain :: string
  nc_httpOnly :: bool
  nc_secure :: bool
  nc_sameSite :: SameSite
  nc_ttl :: time
  nc_idleTTL :: time
  nc_touchInterval :: time
  nc_cleanupInterval :: time
  nc_operationTimeout :: time
  nc_idBytes :: int

definition second :: time where "second = 1000000000"
definition minute :: time where "minute = 60 * second"
definition hour :: time where "hour = 60 * minute"

definition DefaultConfig :: Config where
  "DefaultConfig =
     \<lparr>cfg_Backend = ''memory'', cfg_RedisInstance = ''default'', cfg_RedisPrefix = ''xbc:session:'',
      cfg_Name = ''xbc_session'', cfg_Path = ''/'', cfg_Domain = [], cfg_HTTPOnly = True, cfg_Secure = True,
      cfg_SameSite = ''lax'', cfg_TTL = 24 * hour, cfg_IdleTTL = 30 * minute, cfg_TouchInterval = 5 * minute,
      cfg_CleanupInterval = minute, cfg_OperationTimeout = 2 * second, cfg_IDBytes = 32\<rparr>"

text \<open>The first half of \<^verbatim>\<open>normalizeConfig\<close>: an unset field takes its default.\<close>

definition with_defaults :: "Config \<Rightarrow> Config" where
  "with_defaults c =
     (let d = DefaultConfig in
      c\<lparr>cfg_Backend := (if trim_space (cfg_Backend c) = [] then cfg_Backend d else cfg_Backend c),
        cfg_RedisInstance := (if trim_space (cfg_RedisInstance c) = [] then cfg_RedisInstance d else cfg_RedisInstance c),
        cfg_RedisPrefix := (if cfg_RedisPrefix c = [] then cfg_RedisPrefix d else cfg_RedisPrefix c),
        cfg_Name := (if cfg_Name c = [] then cfg_Name d else cfg_Name c),
        cfg_Path := (if cfg_Path c = [] then cfg_Path d else cfg_Path c),
        cfg_SameSite := (if trim_space (cfg_SameSite c) = [] then cfg_SameSite d else cfg_SameSite c),
        cfg_TTL := (if cfg_TTL c = 0 then cfg_TTL d else cfg_TTL c),
        cfg_IdleTTL := (if cfg_IdleTTL c = 0 then cfg_IdleTTL d else cfg_IdleTTL c),
        cfg_TouchInterval := (if cfg_TouchInterval c = 0 then cfg_TouchInterval d else cfg_TouchInterval c),
        cfg_CleanupInterval := (if cfg_CleanupInterval c = 0 then cfg_CleanupInterval d else cfg_CleanupInterval c),
        cfg_OperationTimeout := (if cfg_OperationTimeout c = 0 then cfg_OperationTimeout d else cfg_OperationTimeout c),
        cfg_IDBytes := (if cfg_IDBytes c = 0 then cfg_IDBytes d else cfg_IDBytes c)\<rparr>)"

definition parseSameSite :: "string \<Rightarrow> (config_error, SameSite) result" where
  "parseSameSite v =
     (let v = ToLower (trim_space v) in
      if v = ''default'' then Inr SameSiteDefaultMode
      else if v = ''lax'' then Inr SameSiteLaxMode
      else if v = ''strict'' then Inr SameSiteStrictMode
      else if v = ''none'' then Inr SameSiteNoneMode
      else Inl BadSameSite)"

definition normalizeConfig :: "Config \<Rightarrow> (config_error, normalizedConfig) result" where
  "normalizeConfig c0 =
     (let c = with_defaults c0; backend = ToLower (trim_space (cfg_Backend c)) in
      if backend \<noteq> ''memory'' \<and> backend \<noteq> ''redis'' then Inl BadBackend
      else if \<not> validHTTPToken (cfg_Name c) then Inl BadName
      else if \<not> cfg_HTTPOnly c then Inl NotHTTPOnly
      else if \<not> validCookiePath (cfg_Path c) then Inl BadPath
      else if \<not> validCookieDomain (cfg_Domain c) then Inl BadDomain
      else if HasPrefix (cfg_Name c) ''__Host-'' \<and> (\<not> cfg_Secure c \<or> cfg_Path c \<noteq> ''/'' \<or> cfg_Domain c \<noteq> []) then Inl HostPrefix
      else if HasPrefix (cfg_Name c) ''__Secure-'' \<and> \<not> cfg_Secure c then Inl SecurePrefix
      else
        (case parseSameSite (cfg_SameSite c) of
           Inl e \<Rightarrow> Inl e
         | Inr sameSite \<Rightarrow>
             if sameSite = SameSiteNoneMode \<and> \<not> cfg_Secure c then Inl SameSiteNoneInsecure
             else if cfg_TTL c \<le> 0 \<or> cfg_IdleTTL c \<le> 0 \<or> cfg_IdleTTL c > cfg_TTL c then Inl BadLifetimes
             else if cfg_TouchInterval c < 0 \<or> cfg_TouchInterval c \<ge> cfg_IdleTTL c then Inl BadTouchInterval
             else if cfg_CleanupInterval c \<le> 0 \<or> cfg_OperationTimeout c \<le> 0 then Inl BadIntervals
             else if cfg_IDBytes c < 32 \<or> cfg_IDBytes c > 128 then Inl BadIDBytes
             else
               let redisInstance = NormalizeInstance (trim_space (cfg_RedisInstance c)) in
               if ValidateInstanceName redisInstance \<noteq> None then Inl BadRedisInstance
               else if backend = ''redis'' \<and> (trim_space (cfg_RedisPrefix c) = [] \<or> containsControl (cfg_RedisPrefix c)) then
                 Inl BadRedisPrefix
               else
                 Inr \<lparr>nc_backend = backend, nc_redisInstance = redisInstance, nc_redisPrefix = cfg_RedisPrefix c,
                   nc_name = cfg_Name c, nc_path = cfg_Path c, nc_domain = trim_space (cfg_Domain c),
                   nc_httpOnly = cfg_HTTPOnly c, nc_secure = cfg_Secure c, nc_sameSite = sameSite, nc_ttl = cfg_TTL c,
                   nc_idleTTL = cfg_IdleTTL c, nc_touchInterval = cfg_TouchInterval c,
                   nc_cleanupInterval = cfg_CleanupInterval c, nc_operationTimeout = cfg_OperationTimeout c,
                   nc_idBytes = cfg_IDBytes c\<rparr>))"

definition Config_Validate :: "Config \<Rightarrow> config_error option" where
  "Config_Validate c = (case normalizeConfig c of Inl e \<Rightarrow> Some e | Inr _ \<Rightarrow> None)"

definition session_prepareConfig :: "Config \<Rightarrow> (config_error, Config) result" where
  "session_prepareConfig c = (case normalizeConfig c of Inl e \<Rightarrow> Inl e | Inr _ \<Rightarrow> Inr c)"

section \<open>What a normalised configuration guarantees\<close>

text \<open>The bounds the manager relies on.\<close>

definition config_ok :: "normalizedConfig \<Rightarrow> bool" where
  "config_ok n \<longleftrightarrow> 0 < nc_touchInterval n \<and> nc_touchInterval n < nc_idleTTL n \<and> nc_idleTTL n \<le> nc_ttl n \<and>
     0 < nc_cleanupInterval n \<and> 0 < nc_operationTimeout n \<and> 32 \<le> nc_idBytes n \<and> nc_idBytes n \<le> 128"

lemma with_defaults_touch: "cfg_TouchInterval (with_defaults c) \<noteq> 0"
  by (simp add: with_defaults_def Let_def DefaultConfig_def minute_def second_def)

lemma with_defaults_idem: "with_defaults (with_defaults c) = with_defaults c"
  by (simp add: with_defaults_def Let_def)

lemma normalizeConfig_ok: "normalizeConfig c = Inr n \<Longrightarrow> config_ok n"
  using with_defaults_touch [of c]
  by (auto simp: normalizeConfig_def Let_def config_ok_def split: if_splits sum.splits)

text \<open>A cookie attribute that is free of the characters that end it.\<close>

definition cookie_safe :: "string \<Rightarrow> bool" where
  "cookie_safe v \<longleftrightarrow> \<not> containsControl v \<and> CHR '';'' \<notin> set v"

lemma token_cookie_safe: "validHTTPToken v \<Longrightarrow> cookie_safe v"
proof -
  have low: "\<not> token_char c" if "c < CHR 0x20" for c
  proof
    assume t: "token_char c"
    have "(of_char c :: nat) < 32" using that by (simp add: less_char_def)
    moreover have "(of_char c :: nat) \<ge> 33" using t
      by (auto simp: token_char_def ascii_alnum_def less_eq_char_def)
    ultimately show False by simp
  qed
  have "\<not> token_char CHR 0x7F" "\<not> token_char CHR '';''" by code_simp+
  then show "validHTTPToken v \<Longrightarrow> cookie_safe v"
    using low by (auto simp: cookie_safe_def validHTTPToken_def containsControl_def list_all_iff list_ex_iff)
qed

lemma trim_space_in_set: "c \<in> set (trim_space v) \<Longrightarrow> c \<in> set v"
proof -
  have "set (strip_while ps s) \<subseteq> set s" for ps and s :: string
  proof (induction ps s rule: strip_while.induct)
    case (1 ps s)
    then show ?case by (subst strip_while.simps) (auto simp: Let_def dest: in_set_dropD)
  qed
  then show "c \<in> set (trim_space v) \<Longrightarrow> c \<in> set v"
    unfolding trim_space_def trim_left_def trim_right_def by (metis set_rev subsetD)
qed

lemma cookie_safe_trim: "cookie_safe v \<Longrightarrow> cookie_safe (trim_space v)"
  by (auto simp: cookie_safe_def containsControl_def list_ex_iff dest: trim_space_in_set)

lemma domain_cookie_safe: "validCookieDomain v \<Longrightarrow> cookie_safe v"
  by (auto simp: validCookieDomain_def cookie_safe_def list_ex_iff containsControl_def split: if_splits)

text \<open>The fields of an accepted configuration and the checks it passed.\<close>

lemma normalizeConfig_checked:
  assumes "normalizeConfig c0 = Inr n" and "c = with_defaults c0"
  shows "nc_name n = cfg_Name c \<and> nc_path n = cfg_Path c \<and> nc_domain n = trim_space (cfg_Domain c) \<and>
      nc_secure n = cfg_Secure c \<and> nc_httpOnly n = cfg_HTTPOnly c \<and> nc_touchInterval n = cfg_TouchInterval c"
    and "nc_backend n = ''memory'' \<or> nc_backend n = ''redis''"
    and "validHTTPToken (cfg_Name c) \<and> cfg_HTTPOnly c \<and> validCookiePath (cfg_Path c) \<and> validCookieDomain (cfg_Domain c)"
    and "\<not> (HasPrefix (cfg_Name c) ''__Host-'' \<and> (\<not> cfg_Secure c \<or> cfg_Path c \<noteq> ''/'' \<or> cfg_Domain c \<noteq> []))"
    and "\<not> (HasPrefix (cfg_Name c) ''__Secure-'' \<and> \<not> cfg_Secure c)"
    and "\<not> (nc_sameSite n = SameSiteNoneMode \<and> \<not> cfg_Secure c)"
  using assms(1) unfolding assms(2) normalizeConfig_def Let_def
  by (simp_all split: if_splits sum.splits) (hypsubst, simp)+

text \<open>
  C36. A configuration that \<^verbatim>\<open>normalizeConfig\<close> accepts keeps the lifetimes ordered, the touch interval
  positive and below the idle lifetime, which is at most the absolute one; identifiers have 32 to 128
  random bytes; the cookie is HTTP-only, its name, path and domain hold no control character and no
  semicolon; a \<^verbatim>\<open>__Host-\<close> cookie is secure with path \<^verbatim>\<open>/\<close> and no domain, and \<^verbatim>\<open>__Secure-\<close> and
  \<^verbatim>\<open>SameSite=None\<close> cookies are secure. A zero touch interval is the default of five minutes.
\<close>

theorem normalizeConfig_bounds:
  assumes "normalizeConfig c = Inr n"
  shows "(0 < nc_touchInterval n \<and> nc_touchInterval n < nc_idleTTL n \<and> nc_idleTTL n \<le> nc_ttl n \<and>
      0 < nc_cleanupInterval n \<and> 0 < nc_operationTimeout n) \<and>
    (32 \<le> nc_idBytes n \<and> nc_idBytes n \<le> 128) \<and>
    (nc_backend n = ''memory'' \<or> nc_backend n = ''redis'') \<and>
    (nc_httpOnly n \<and> cookie_safe (nc_name n) \<and> cookie_safe (nc_path n) \<and> cookie_safe (nc_domain n)) \<and>
    (HasPrefix (nc_name n) ''__Host-'' \<longrightarrow> nc_secure n \<and> nc_path n = ''/'' \<and> nc_domain n = []) \<and>
    (HasPrefix (nc_name n) ''__Secure-'' \<or> nc_sameSite n = SameSiteNoneMode \<longrightarrow> nc_secure n) \<and>
    (cfg_TouchInterval c = 0 \<longrightarrow> nc_touchInterval n = 5 * minute)"
proof -
  note checked = normalizeConfig_checked [OF assms refl]
  have "cookie_safe (nc_name n)" "cookie_safe (nc_path n)" "cookie_safe (nc_domain n)" "nc_httpOnly n"
    using checked(1,3) by (simp_all add: token_cookie_safe domain_cookie_safe cookie_safe_trim)
      (simp add: validCookiePath_def cookie_safe_def)
  moreover have "cfg_TouchInterval c = 0 \<longrightarrow> nc_touchInterval n = 5 * minute"
    using checked(1) by (simp add: with_defaults_def Let_def DefaultConfig_def)
  moreover have "HasPrefix (nc_name n) ''__Host-'' \<longrightarrow> nc_secure n \<and> nc_path n = ''/'' \<and> nc_domain n = []"
    using checked(1,4) by fastforce
  moreover have "HasPrefix (nc_name n) ''__Secure-'' \<or> nc_sameSite n = SameSiteNoneMode \<longrightarrow> nc_secure n"
    using checked(1,5,6) by fastforce
  ultimately show ?thesis using normalizeConfig_ok [OF assms] checked(2) unfolding config_ok_def by blast
qed

theorem normalizeConfig_bounds_witness:
  "\<exists>n. normalizeConfig (DefaultConfig\<lparr>cfg_Name := ''__Host-sid'', cfg_SameSite := '' None'', cfg_TouchInterval := 0\<rparr>) = Inr n \<and>
     nc_touchInterval n = 5 * minute \<and> nc_path n = ''/'' \<and> nc_idleTTL n \<le> nc_ttl n"
proof -
  let ?c = "DefaultConfig\<lparr>cfg_Name := ''__Host-sid'', cfg_SameSite := '' None'', cfg_TouchInterval := 0\<rparr>"
  have "(case normalizeConfig ?c of Inr n \<Rightarrow> HasPrefix (nc_name n) ''__Host-'' | Inl _ \<Rightarrow> False)" by code_simp
  then obtain n where n: "normalizeConfig ?c = Inr n" "HasPrefix (nc_name n) ''__Host-''"
    by (auto split: sum.splits)
  with normalizeConfig_bounds [OF n(1)] show ?thesis by (intro exI [of _ n]) simp
qed

end
