(* ===== verification/SessionRefine.thy ===== *)
theory SessionRefine
  imports Sessions
begin

text \<open>
  What the store contract of \<^verbatim>\<open>store.go\<close> promises, as an abstract table of the live sessions without an
  index and without expired records, and the proof that the memory store implements it: every reply
  of every sequence of operations is one the table gives.
\<close>

section \<open>The abstract table\<close>

type_synonym table = "string \<Rightarrow> memoryRecord option"

text \<open>What is left of a table at an instant.\<close>

definition expire :: "time \<Rightarrow> table \<Rightarrow> table" where
  "expire now t d = (case t d of None \<Rightarrow> None | Some r \<Rightarrow> if live now r then Some r else None)"

datatype session_op =
    DoCreate ctx_arg Session time
  | DoGet ctx_arg string
  | DoTouch ctx_arg string time time
  | DoRotate ctx_arg string Session time
  | DoDelete ctx_arg string
  | DoList ctx_arg string
  | DoRevokeSubject ctx_arg string
  | DoRevokeDigest ctx_arg string string
  | DoCleanup
  | DoClose

datatype reply =
    Done "session_error option"
  | Found "(session_error, Session option) result"
  | Listed "(session_error, SessionInfo list) result"
  | Counted "(session_error, nat) result"
  | Deleted "(session_error, bool) result"
  | Quiet

fun run_op :: "session_env \<Rightarrow> time \<Rightarrow> session_op \<Rightarrow> MemoryStore \<Rightarrow> reply \<times> MemoryStore" where
  "run_op env now (DoCreate ctx v ttl) s = apfst Done (Create env now ctx v ttl s)"
| "run_op env now (DoGet ctx i) s = apfst Found (MemoryStore_Get env now ctx i s)"
| "run_op env now (DoTouch ctx i ttl mi) s = apfst Found (Touch env now ctx i ttl mi s)"
| "run_op env now (DoRotate ctx i v ttl) s = apfst Done (Rotate env now ctx i v ttl s)"
| "run_op env now (DoDelete ctx i) s = apfst Done (Delete env ctx i s)"
| "run_op env now (DoList ctx sub) s = apfst Listed (ListBySubject now ctx sub s)"
| "run_op env now (DoRevokeSubject ctx sub) s = apfst Counted (RevokeBySubject now ctx sub s)"
| "run_op env now (DoRevokeDigest ctx sub d) s = apfst Deleted (RevokeByDigest now ctx sub d s)"
| "run_op env now DoCleanup s = (Quiet, cleanup now s)"
| "run_op env now DoClose s = (Quiet, Close s)"

definition spec_create :: "session_env \<Rightarrow> time \<Rightarrow> ctx_arg \<Rightarrow> Session \<Rightarrow> time \<Rightarrow> table \<Rightarrow> bool \<Rightarrow> session_error option \<times> table" where
  "spec_create env now ctx v ttl t stopped =
     (case contextError ctx of Some e \<Rightarrow> (Some e, t) | None \<Rightarrow>
      (case normalizeSession env v of Inl e \<Rightarrow> (Some e, t) | Inr v \<Rightarrow>
       if ttl \<le> 0 then (Some BadIdleTTL, t)
       else if ses_ExpiresAt v \<le> now then (Some ErrNotFound, t)
       else if stopped then (Some ErrStopped, t)
       else if t (IDDigest env (ses_ID v)) \<noteq> None then (Some ErrAlreadyExists, t)
       else (None, t(IDDigest env (ses_ID v) \<mapsto> store_record now ttl (v\<lparr>ses_ID := []\<rparr>)))))"

definition spec_get :: "session_env \<Rightarrow> ctx_arg \<Rightarrow> string \<Rightarrow> table \<Rightarrow> bool \<Rightarrow> (session_error, Session option) result" where
  "spec_get env ctx i t stopped =
     (case contextError ctx of Some e \<Rightarrow> Inl e | None \<Rightarrow>
      if i = [] then Inr None else if stopped then Inl ErrStopped
      else Inr (map_option (\<lambda>r. (mr_value r)\<lparr>ses_ID := i\<rparr>) (t (IDDigest env i))))"

text \<open>The renewal of the idle lease, never beyond the absolute lifetime.\<close>

definition renew :: "time \<Rightarrow> time \<Rightarrow> time \<Rightarrow> memoryRecord \<Rightarrow> memoryRecord" where
  "renew now ttl mi r =
     (if mi = 0 \<or> now - mr_lastTouched r \<ge> mi
      then r\<lparr>mr_lastTouched := now, mr_idleExpiresAt := min (now + ttl) (ses_ExpiresAt (mr_value r))\<rparr> else r)"

definition spec_touch ::
  "session_env \<Rightarrow> time \<Rightarrow> ctx_arg \<Rightarrow> string \<Rightarrow> time \<Rightarrow> time \<Rightarrow> table \<Rightarrow> bool \<Rightarrow> (session_error, Session option) result \<times> table" where
  "spec_touch env now ctx i ttl mi t stopped =
     (case contextError ctx of Some e \<Rightarrow> (Inl e, t) | None \<Rightarrow>
      if i = [] \<or> ttl \<le> 0 \<or> mi < 0 then (Inl BadTouchArguments, t)
      else if stopped then (Inl ErrStopped, t)
      else (Inr (map_option (\<lambda>r. (mr_value r)\<lparr>ses_ID := i\<rparr>) (t (IDDigest env i))),
            t(IDDigest env i := map_option (renew now ttl mi) (t (IDDigest env i)))))"

definition spec_rotate ::
  "session_env \<Rightarrow> time \<Rightarrow> ctx_arg \<Rightarrow> string \<Rightarrow> Session \<Rightarrow> time \<Rightarrow> table \<Rightarrow> bool \<Rightarrow> session_error option \<times> table" where
  "spec_rotate env now ctx i v ttl t stopped =
     (case contextError ctx of Some e \<Rightarrow> (Some e, t) | None \<Rightarrow>
      (case normalizeSession env v of Inl e \<Rightarrow> (Some e, t) | Inr v \<Rightarrow>
       if i = [] \<or> ses_ID v = i \<or> ttl \<le> 0 then (Some BadRotationArguments, t)
       else if stopped then (Some ErrStopped, t)
       else if t (IDDigest env i) = None then (Some ErrNotFound, t)
       else if t (IDDigest env (ses_ID v)) \<noteq> None then (Some ErrAlreadyExists, t)
       else (None, expire now ((t(IDDigest env i := None))
              (IDDigest env (ses_ID v) \<mapsto> store_record now ttl (v\<lparr>ses_ID := []\<rparr>))))))"

definition spec_delete :: "session_env \<Rightarrow> ctx_arg \<Rightarrow> string \<Rightarrow> table \<Rightarrow> bool \<Rightarrow> session_error option \<times> table" where
  "spec_delete env ctx i t stopped =
     (case contextError ctx of Some e \<Rightarrow> (Some e, t) | None \<Rightarrow>
      if i = [] then (None, t) else if stopped then (Some ErrStopped, t) else (None, t(IDDigest env i := None)))"

text \<open>The sessions of a subject.\<close>

definition owned_by :: "string \<Rightarrow> table \<Rightarrow> (string \<times> memoryRecord) set" where
  "owned_by sub t = {(d, r). t d = Some r \<and> ses_Subject (mr_value r) = sub}"

text \<open>The checks the operations on a subject share.\<close>

definition subject_check :: "ctx_arg \<Rightarrow> string \<Rightarrow> bool \<Rightarrow> (session_error, string) result" where
  "subject_check ctx sub stopped =
     (case contextError ctx of Some e \<Rightarrow> Inl e | None \<Rightarrow>
      (case normalizeSubject sub of Inl e \<Rightarrow> Inl e | Inr sub \<Rightarrow> if stopped then Inl ErrStopped else Inr sub))"

definition spec_list :: "ctx_arg \<Rightarrow> string \<Rightarrow> table \<Rightarrow> bool \<Rightarrow> (session_error, SessionInfo list) result \<Rightarrow> bool" where
  "spec_list ctx sub t stopped reply \<longleftrightarrow>
     (case subject_check ctx sub stopped of
        Inl e \<Rightarrow> reply = Inl e
      | Inr sub \<Rightarrow> \<exists>infos. reply = Inr infos \<and> distinct (map inf_Digest infos) \<and>
          set infos = (\<lambda>(d, r). session_info d sub r) ` owned_by sub t)"

definition spec_revoke_subject ::
  "ctx_arg \<Rightarrow> string \<Rightarrow> table \<Rightarrow> bool \<Rightarrow> (session_error, nat) result \<times> table" where
  "spec_revoke_subject ctx sub t stopped =
     (case subject_check ctx sub stopped of
        Inl e \<Rightarrow> (Inl e, t)
      | Inr sub \<Rightarrow> (Inr (card (owned_by sub t)),
           \<lambda>d. case t d of None \<Rightarrow> None | Some r \<Rightarrow> if ses_Subject (mr_value r) = sub then None else Some r))"

definition spec_revoke_digest ::
  "ctx_arg \<Rightarrow> string \<Rightarrow> string \<Rightarrow> table \<Rightarrow> bool \<Rightarrow> (session_error, bool) result \<times> table" where
  "spec_revoke_digest ctx sub d t stopped =
     (case contextError ctx of Some e \<Rightarrow> (Inl e, t) | None \<Rightarrow>
      (case normalizeSubject sub of Inl e \<Rightarrow> (Inl e, t) | Inr sub \<Rightarrow>
       if \<not> validDigest d then (Inl BadDigest, t)
       else if stopped then (Inl ErrStopped, t)
       else if \<exists>r. (d, r) \<in> owned_by sub t then (Inr True, t(d := None)) else (Inr False, t)))"

fun session_spec :: "session_env \<Rightarrow> time \<Rightarrow> session_op \<Rightarrow> table \<times> bool \<Rightarrow> reply \<Rightarrow> table \<times> bool \<Rightarrow> bool" where
  "session_spec env now (DoCreate ctx v ttl) (t, st) r (t', st') \<longleftrightarrow>
     st' = st \<and> (\<exists>e. r = Done e \<and> spec_create env now ctx v ttl t st = (e, t'))"
| "session_spec env now (DoGet ctx i) (t, st) r (t', st') \<longleftrightarrow>
     st' = st \<and> t' = t \<and> r = Found (spec_get env ctx i t st)"
| "session_spec env now (DoTouch ctx i ttl mi) (t, st) r (t', st') \<longleftrightarrow>
     st' = st \<and> (\<exists>e. r = Found e \<and> spec_touch env now ctx i ttl mi t st = (e, t'))"
| "session_spec env now (DoRotate ctx i v ttl) (t, st) r (t', st') \<longleftrightarrow>
     st' = st \<and> (\<exists>e. r = Done e \<and> spec_rotate env now ctx i v ttl t st = (e, t'))"
| "session_spec env now (DoDelete ctx i) (t, st) r (t', st') \<longleftrightarrow>
     st' = st \<and> (\<exists>e. r = Done e \<and> spec_delete env ctx i t st = (e, t'))"
| "session_spec env now (DoList ctx sub) (t, st) r (t', st') \<longleftrightarrow>
     st' = st \<and> t' = t \<and> (\<exists>e. r = Listed e \<and> spec_list ctx sub t st e)"
| "session_spec env now (DoRevokeSubject ctx sub) (t, st) r (t', st') \<longleftrightarrow>
     st' = st \<and> (\<exists>e. r = Counted e \<and> spec_revoke_subject ctx sub t st = (e, t'))"
| "session_spec env now (DoRevokeDigest ctx sub d) (t, st) r (t', st') \<longleftrightarrow>
     st' = st \<and> (\<exists>e. r = Deleted e \<and> spec_revoke_digest ctx sub d t st = (e, t'))"
| "session_spec env now DoCleanup (t, st) r (t', st') \<longleftrightarrow> st' = st \<and> t' = t \<and> r = Quiet"
| "session_spec env now DoClose (t, st) r (t', st') \<longleftrightarrow> st' \<and> t' = (\<lambda>_. None) \<and> r = Quiet"

section \<open>Expiry\<close>

lemma live_antimono: "live now' r \<Longrightarrow> now \<le> now' \<Longrightarrow> live now r"
  by (auto simp: live_def)

lemma expire_expire: "now \<le> now' \<Longrightarrow> expire now' (expire now t) = expire now' t"
  by (rule ext) (auto simp: expire_def live_antimono split: option.splits)

lemma expire_idem [simp]: "expire now (expire now t) = expire now t"
  by (rule expire_expire) simp

lemma expire_put: "expire now (t(d \<mapsto> r)) = (if live now r then (expire now t)(d \<mapsto> r) else (expire now t)(d := None))"
  by (rule ext) (simp add: expire_def)

lemma expire_del [simp]: "expire now (t(d := None)) = (expire now t)(d := None)"
  by (rule ext) (simp add: expire_def)

lemma expire_Some: "expire now t d = Some r \<longleftrightarrow> t d = Some r \<and> live now r"
  by (auto simp: expire_def split: option.splits)

lemma expire_None: "expire now t d = None \<longleftrightarrow> (\<forall>r. t d = Some r \<longrightarrow> \<not> live now r)"
  by (auto simp: expire_def split: option.splits)

text \<open>A dead or absent record can be dropped.\<close>

lemma expire_drop: "expire now t d = None \<Longrightarrow> (expire now t)(d := None) = expire now t"
  by (rule ext) simp

definition abs_table :: "time \<Rightarrow> MemoryStore \<Rightarrow> table" where
  "abs_table now s = expire now (gm_get (ms_records s))"

lemma abs_drop [simp]: "abs_table now (dropLocked d s) = (abs_table now s)(d := None)"
  by (simp add: abs_table_def drop_records)

lemma abs_idem: "expire now (abs_table now s) = abs_table now s"
  by (simp add: abs_table_def)

lemma abs_install: "abs_table now (install d r s) = (if live now r then (abs_table now s)(d \<mapsto> r) else (abs_table now s)(d := None))"
  by (simp add: abs_table_def expire_put)

lemma abs_get:
  "gm_get (ms_records s) d = Some r \<Longrightarrow> abs_table now s d = (if live now r then Some r else None)"
  "gm_get (ms_records s) d = None \<Longrightarrow> abs_table now s d = None"
  by (simp_all add: abs_table_def expire_def)

lemma store_record_live: "0 < ttl \<Longrightarrow> now < ses_ExpiresAt v \<Longrightarrow> live now (store_record now ttl v)"
  by (simp add: live_def store_record_def earlier_def)

section \<open>Operation by operation\<close>

lemma abs_same: "abs_table now s d = None \<Longrightarrow> (abs_table now s)(d := None) = abs_table now s"
  by (rule fun_upd_idem)

lemma store_record_value [simp]: "mr_value (store_record now ttl v) = v"
  by (simp add: store_record_def)

lemmas refine_simps = abs_get abs_install drop_records abs_same install_ok drop_ok store_record_live Let_def

lemma Create_refines:
  assumes ok: "index_ok s" and run: "Create env now ctx v ttl s = (e, s')"
  shows "index_ok s' \<and> ms_stopped s' = ms_stopped s \<and>
    spec_create env now ctx v ttl (abs_table now s) (ms_stopped s) = (e, abs_table now s')"
  using run ok unfolding Create_def spec_create_def
  by (cases ctx) (auto simp: refine_simps split: option.splits sum.splits if_splits)

lemma MemoryStore_Get_refines:
  assumes ok: "index_ok s" and run: "MemoryStore_Get env now ctx i s = (e, s')"
  shows "index_ok s' \<and> ms_stopped s' = ms_stopped s \<and> abs_table now s' = abs_table now s \<and>
    e = spec_get env ctx i (abs_table now s) (ms_stopped s)"
  using run ok unfolding MemoryStore_Get_def spec_get_def
  by (cases ctx) (auto simp: refine_simps split: option.splits if_splits)

lemma earlier_min [simp]: "earlier a b = min a b"
  by (simp add: earlier_def)

text \<open>Renewing a record changes neither its subject nor its identifier.\<close>

lemma touch_ok:
  assumes ok: "index_ok s" and r: "gm_get (ms_records s) d = Some r" and same: "mr_value r' = mr_value r"
  shows "index_ok (s\<lparr>ms_records := gm_put d r' (ms_records s)\<rparr>)"
proof -
  have run: "\<not> ms_stopped s" using index_okD(5) [OF ok] r by (metis map_of.simps(1) option.distinct(1))
  have iff: "(\<exists>q. ((gm_get (ms_records s))(d \<mapsto> r')) d' = Some q \<and> ses_Subject (mr_value q) = sub) \<longleftrightarrow>
      (\<exists>q. gm_get (ms_records s) d' = Some q \<and> ses_Subject (mr_value q) = sub)" for d' sub
    using r same by (cases "d' = d") simp_all
  have ids: "ses_ID (mr_value q) = []" if "((gm_get (ms_records s))(d \<mapsto> r')) d' = Some q" for d' q
    using that same index_okD(4) [OF ok, of d' q] index_okD(4) [OF ok r] by (cases "d' = d") simp_all
  show ?thesis
    unfolding index_ok_def
  proof (intro conjI allI impI)
    fix sub d'
    show "d' \<in> set (gm_list (ms_index (s\<lparr>ms_records := gm_put d r' (ms_records s)\<rparr>)) sub) \<longleftrightarrow>
      (\<exists>q. gm_get (ms_records (s\<lparr>ms_records := gm_put d r' (ms_records s)\<rparr>)) d' = Some q \<and> ses_Subject (mr_value q) = sub)"
      using index_okD(2) [OF ok, of d' sub] iff [of d' sub] by simp
  next
    fix sub ds assume "gm_get (ms_index (s\<lparr>ms_records := gm_put d r' (ms_records s)\<rparr>)) sub = Some ds"
    then have "gm_get (ms_index s) sub = Some ds" by simp
    from index_okD(3) [OF ok this] show "ds \<noteq> []" "distinct ds" by blast+
  next
    fix d' q assume "gm_get (ms_records (s\<lparr>ms_records := gm_put d r' (ms_records s)\<rparr>)) d' = Some q"
    then show "ses_ID (mr_value q) = []" by (intro ids) simp
  qed (use run index_okD(1) [OF ok] in simp_all)
qed

lemma renew_live: "live now r \<Longrightarrow> 0 < ttl \<Longrightarrow> live now (renew now ttl mi r)"
  by (simp add: live_def renew_def)

lemma abs_touch:
  "abs_table now (s\<lparr>ms_records := gm_put d r (ms_records s)\<rparr>) =
     (if live now r then (abs_table now s)(d \<mapsto> r) else (abs_table now s)(d := None))"
  by (simp add: abs_table_def expire_put)

lemma Touch_refines:
  assumes ok: "index_ok s" and run: "Touch env now ctx i ttl mi s = (e, s')"
  shows "index_ok s' \<and> ms_stopped s' = ms_stopped s \<and>
    spec_touch env now ctx i ttl mi (abs_table now s) (ms_stopped s) = (e, abs_table now s')"
proof (cases "contextError ctx = None \<and> \<not> (i = [] \<or> ttl \<le> 0 \<or> mi < 0) \<and> \<not> ms_stopped s")
  case False
  with run ok show ?thesis unfolding Touch_def spec_touch_def
    by (cases ctx) (auto simp: Let_def split: if_splits)
next
  case True
  let ?d = "IDDigest env i"
  show ?thesis
  proof (cases "abs_table now s ?d")
    case None
    then have "e = Inr None \<and> s' = dropLocked ?d s \<or> e = Inr None \<and> s' = s"
      using run True unfolding Touch_def by (auto simp: abs_get Let_def split: option.splits if_splits)
    with True None ok abs_same [OF None] show ?thesis by (auto simp: spec_touch_def drop_ok)
  next
    case (Some r)
    then have r: "gm_get (ms_records s) ?d = Some r" "live now r" by (simp_all add: abs_table_def expire_Some)
    define s1 where "s1 = s\<lparr>ms_records := gm_put ?d (renew now ttl mi r) (ms_records s)\<rparr>"
    have e: "e = Inr (Some ((mr_value r)\<lparr>ses_ID := i\<rparr>))" and s': "s' = s1 \<or> s' = s \<and> renew now ttl mi r = r"
      using run True r unfolding Touch_def by (auto simp: Let_def renew_def s1_def split: if_splits)
    have "index_ok s1" unfolding s1_def by (rule touch_ok [OF ok r(1)]) (simp add: renew_def)
    moreover have "abs_table now s1 = (abs_table now s)(?d \<mapsto> renew now ttl mi r)" "ms_stopped s1 = ms_stopped s"
      using renew_live [OF r(2)] True by (simp_all add: s1_def abs_touch)
    moreover have "(abs_table now s)(?d \<mapsto> r) = abs_table now s" using Some by (rule fun_upd_idem)
    ultimately show ?thesis using s' e True Some ok by (auto simp: spec_touch_def)
  qed
qed

lemma Rotate_refines:
  assumes ok: "index_ok s" and run: "Rotate env now ctx i v ttl s = (e, s')"
  shows "index_ok s' \<and> ms_stopped s' = ms_stopped s \<and>
    spec_rotate env now ctx i v ttl (abs_table now s) (ms_stopped s) = (e, abs_table now s')"
proof (cases "contextError ctx = None \<and> \<not> ms_stopped s \<and> (\<exists>w. normalizeSession env v = Inr w \<and> \<not> (i = [] \<or> ses_ID w = i \<or> ttl \<le> 0))")
  case False
  with run ok show ?thesis unfolding Rotate_def spec_rotate_def
    by (cases ctx) (auto simp: Let_def split: if_splits sum.splits)
next
  case True
  then obtain w where w: "normalizeSession env v = Inr w" "\<not> (i = [] \<or> ses_ID w = i \<or> ttl \<le> 0)" by blast
  let ?o = "IDDigest env i" and ?n = "IDDigest env (ses_ID w)"
  let ?r = "store_record now ttl (w\<lparr>ses_ID := []\<rparr>)"
  note pre = True w
  consider (gone) "abs_table now s ?o = None" | (taken) "abs_table now s ?o \<noteq> None" "abs_table now s ?n \<noteq> None"
    | (free) "abs_table now s ?o \<noteq> None" "abs_table now s ?n = None" by blast
  then show ?thesis
  proof cases
    case gone
    then have "e = Some ErrNotFound" "s' = dropLocked ?o s"
      using run pre unfolding Rotate_def by (auto simp: abs_get Let_def split: option.splits if_splits)
    with gone pre ok abs_same [OF gone] show ?thesis by (simp add: spec_rotate_def drop_ok)
  next
    case taken
    then have "e = Some ErrAlreadyExists" "s' = s"
      using run pre unfolding Rotate_def by (auto simp: abs_get Let_def split: option.splits if_splits)
    with taken pre ok show ?thesis by (auto simp: spec_rotate_def)
  next
    case free
    then have ne: "?n \<noteq> ?o" by auto
    obtain s1 where e: "e = None" and s': "s' = install ?n ?r (dropLocked ?o s1)" and s1: "s1 = s \<or> s1 = dropLocked ?n s"
      and fresh: "gm_get (ms_records s1) ?n = None"
      using run pre free unfolding Rotate_def by (auto simp: abs_get drop_records Let_def split: option.splits if_splits)
    have ok1: "index_ok (dropLocked ?o s1)" using s1 ok drop_ok by auto
    have st: "\<not> ms_stopped (dropLocked ?o s1)" using s1 pre by auto
    have "gm_get (ms_records (dropLocked ?o s1)) ?n = None" using fresh by (simp add: drop_records)
    from install_ok [OF ok1 this _ st, of ?r] have "index_ok s'" by (simp add: s')
    moreover have "abs_table now s1 = abs_table now s" using s1 abs_same [OF free(2)] by auto
    then have "abs_table now s' = expire now (((abs_table now s)(?o := None))(?n \<mapsto> ?r))"
      by (simp add: s' abs_install expire_put abs_idem)
    moreover have "ms_stopped s' = ms_stopped s" using s1 by (auto simp: s')
    ultimately show ?thesis using e pre free by (auto simp: spec_rotate_def)
  qed
qed

lemma Delete_refines:
  assumes ok: "index_ok s" and run: "Delete env ctx i s = (e, s')"
  shows "index_ok s' \<and> ms_stopped s' = ms_stopped s \<and>
    spec_delete env ctx i (abs_table now s) (ms_stopped s) = (e, abs_table now s')"
  using run ok unfolding Delete_def spec_delete_def
  by (cases ctx) (auto simp: drop_ok split: if_splits)

subsection \<open>Operations on a subject\<close>

lemma list_members:
  assumes "index_ok s" and "distinct ds"
    and "\<forall>d \<in> set ds. \<exists>r. gm_get (ms_records s) d = Some r \<and> ses_Subject (mr_value r) = sub"
    and "fold (list_member now sub) ds (infos, s) = (infos', s')"
  shows "index_ok s' \<and> ms_stopped s' = ms_stopped s \<and> abs_table now s' = abs_table now s \<and>
    infos' = infos @ List.map_filter (\<lambda>d. map_option (session_info d sub) (abs_table now s d)) ds"
  using assms
proof (induction ds arbitrary: s infos)
  case Nil
  then show ?case by (simp add: List.map_filter_simps)
next
  case (Cons d ds)
  obtain r where r: "gm_get (ms_records s) d = Some r" "ses_Subject (mr_value r) = sub" using Cons.prems(3) by auto
  show ?case
  proof (cases "live now r")
    case True
    with r have step: "list_member now sub d (infos, s) = (infos @ [session_info d sub r], s)" by (simp add: list_member_def)
    from Cons.IH [of s "infos @ [session_info d sub r]"] Cons.prems step True r show ?thesis
      by (simp add: List.map_filter_simps abs_get)
  next
    case False
    with r have step: "list_member now sub d (infos, s) = (infos, dropLocked d s)" by (simp add: list_member_def)
    have none: "abs_table now s d = None" using r(1) False by (simp add: abs_get)
    have "\<forall>d' \<in> set ds. \<exists>r. gm_get (ms_records (dropLocked d s)) d' = Some r \<and> ses_Subject (mr_value r) = sub"
      using Cons.prems(2,3) by (auto simp: drop_records)
    from Cons.IH [OF drop_ok [OF Cons.prems(1)] _ this, of infos] Cons.prems(2,4) step none abs_same [OF none] show ?thesis
      by (simp add: List.map_filter_simps)
  qed
qed

lemma revoke_members:
  assumes "index_ok s" and "distinct ds"
    and "\<forall>d \<in> set ds. \<exists>r. gm_get (ms_records s) d = Some r \<and> ses_Subject (mr_value r) = sub"
    and "fold (revoke_member now sub) ds (n, s) = (n', s')"
  shows "index_ok s' \<and> ms_stopped s' = ms_stopped s \<and>
    abs_table now s' = (\<lambda>d. if d \<in> set ds then None else abs_table now s d) \<and>
    n' = n + length (filter (\<lambda>d. abs_table now s d \<noteq> None) ds)"
  using assms
proof (induction ds arbitrary: s n)
  case (Cons d ds)
  obtain r where r: "gm_get (ms_records s) d = Some r" "ses_Subject (mr_value r) = sub" using Cons.prems(3) by auto
  then have step: "revoke_member now sub d (n, s) = (if live now r then n + 1 else n, dropLocked d s)"
    by (simp add: revoke_member_def)
  have "\<forall>d' \<in> set ds. \<exists>r. gm_get (ms_records (dropLocked d s)) d' = Some r \<and> ses_Subject (mr_value r) = sub"
    using Cons.prems(2,3) by (auto simp: drop_records)
  from Cons.IH [OF drop_ok [OF Cons.prems(1)] _ this] Cons.prems(2,4) step
  have ih: "index_ok s' \<and> ms_stopped s' = ms_stopped s \<and>
      abs_table now s' = (\<lambda>d'. if d' \<in> set ds then None else (abs_table now (dropLocked d s)) d') \<and>
      n' = (if live now r then n + 1 else n) + length (filter (\<lambda>d'. abs_table now (dropLocked d s) d' \<noteq> None) ds)"
    by simp
  have "filter (\<lambda>d'. abs_table now (dropLocked d s) d' \<noteq> None) ds = filter (\<lambda>d'. abs_table now s d' \<noteq> None) ds"
    using Cons.prems(2) by (intro filter_cong) auto
  with ih r(1) show ?case by (auto simp: abs_get fun_eq_iff)
qed simp

lemma index_members:
  "index_ok s \<Longrightarrow> \<forall>d \<in> set (gm_list (ms_index s) sub). \<exists>r. gm_get (ms_records s) d = Some r \<and> ses_Subject (mr_value r) = sub"
  using index_okD(2) by blast

lemma owned_by_index:
  assumes "index_ok s"
  shows "owned_by sub (abs_table now s) = {(d, r). d \<in> set (gm_list (ms_index s) sub) \<and> abs_table now s d = Some r}"
  unfolding owned_by_def abs_table_def using index_okD(2) [OF assms] by (auto simp: expire_Some)

lemma ListBySubject_refines:
  assumes ok: "index_ok s" and run: "ListBySubject now ctx sub s = (e, s')"
  shows "index_ok s' \<and> ms_stopped s' = ms_stopped s \<and> abs_table now s' = abs_table now s \<and>
    spec_list ctx sub (abs_table now s) (ms_stopped s) e"
proof (cases "subject_check ctx sub (ms_stopped s)")
  case (Inl x)
  with run ok show ?thesis
    by (cases ctx) (auto simp: ListBySubject_def subject_check_def spec_list_def split: sum.splits if_splits)
next
  case (Inr sub')
  let ?ds = "gm_list (ms_index s) sub'" and ?f = "\<lambda>d. map_option (session_info d sub') (abs_table now s d)"
  obtain infos s1 where f: "fold (list_member now sub') ?ds ([], s) = (infos, s1)" by fastforce
  have e: "e = Inr infos" "s' = s1"
    using run Inr f by (cases ctx; auto simp: ListBySubject_def subject_check_def split: sum.splits if_splits)+
  note l = list_members [OF ok index_distinct [OF ok] index_members [OF ok] f]
  have "set infos = (\<lambda>(d, r). session_info d sub' r) ` owned_by sub' (abs_table now s)"
    unfolding owned_by_index [OF ok] using l by (force simp: List.map_filter_def)
  moreover have "map inf_Digest infos = filter (\<lambda>d. abs_table now s d \<noteq> None) ?ds"
  proof -
    have "map inf_Digest (List.map_filter ?f ds) = filter (\<lambda>d. abs_table now s d \<noteq> None) ds" for ds
      by (induction ds) (auto simp: List.map_filter_simps session_info_def)
    with l show ?thesis by simp
  qed
  then have "distinct (map inf_Digest infos)" using index_distinct [OF ok] by simp
  ultimately show ?thesis using l e Inr by (simp add: spec_list_def)
qed

lemma RevokeBySubject_refines:
  assumes ok: "index_ok s" and run: "RevokeBySubject now ctx sub s = (e, s')"
  shows "index_ok s' \<and> ms_stopped s' = ms_stopped s \<and>
    spec_revoke_subject ctx sub (abs_table now s) (ms_stopped s) = (e, abs_table now s')"
proof (cases "subject_check ctx sub (ms_stopped s)")
  case (Inl x)
  with run ok show ?thesis
    by (cases ctx) (auto simp: RevokeBySubject_def subject_check_def spec_revoke_subject_def split: sum.splits if_splits)
next
  case (Inr sub')
  let ?ds = "gm_list (ms_index s) sub'" and ?t = "abs_table now s"
  obtain n s1 where f: "fold (revoke_member now sub') ?ds (0, s) = (n, s1)" by fastforce
  have e: "e = Inr n" "s' = s1"
    using run Inr f by (cases ctx; auto simp: RevokeBySubject_def subject_check_def split: sum.splits if_splits)+
  note l = revoke_members [OF ok index_distinct [OF ok] index_members [OF ok] f]
  have "owned_by sub' ?t = (\<lambda>d. (d, the (?t d))) ` set (filter (\<lambda>d. ?t d \<noteq> None) ?ds)"
    unfolding owned_by_index [OF ok] by force
  then have "card (owned_by sub' ?t) = card (set (filter (\<lambda>d. ?t d \<noteq> None) ?ds))"
    by (simp only:) (rule card_image, simp add: inj_on_def)
  also have "\<dots> = length (filter (\<lambda>d. ?t d \<noteq> None) ?ds)"
    using index_distinct [OF ok] by (intro distinct_card) simp
  finally have "n = card (owned_by sub' ?t)" using l by simp
  moreover have "abs_table now s1 =
      (\<lambda>d. case ?t d of None \<Rightarrow> None | Some r \<Rightarrow> if ses_Subject (mr_value r) = sub' then None else Some r)"
  proof
    fix d
    show "abs_table now s1 d = (case ?t d of None \<Rightarrow> None | Some r \<Rightarrow> if ses_Subject (mr_value r) = sub' then None else Some r)"
    proof (cases "?t d")
      case (Some r)
      then have "gm_get (ms_records s) d = Some r" by (simp add: abs_table_def expire_Some)
      then have "d \<in> set ?ds \<longleftrightarrow> ses_Subject (mr_value r) = sub'" using index_okD(2) [OF ok, of d sub'] by simp
      with Some l show ?thesis by simp
    qed (use l in simp)
  qed
  ultimately show ?thesis using l e Inr by (simp add: spec_revoke_subject_def)
qed

lemma RevokeByDigest_refines:
  assumes ok: "index_ok s" and run: "RevokeByDigest now ctx sub d s = (e, s')"
  shows "index_ok s' \<and> ms_stopped s' = ms_stopped s \<and>
    spec_revoke_digest ctx sub d (abs_table now s) (ms_stopped s) = (e, abs_table now s')"
proof (cases "\<exists>sub'. contextError ctx = None \<and> normalizeSubject sub = Inr sub' \<and> validDigest d \<and> \<not> ms_stopped s")
  case False
  with run ok show ?thesis
    by (cases ctx) (auto simp: RevokeByDigest_def spec_revoke_digest_def split: sum.splits if_splits)
next
  case True
  then obtain sub' where pre: "contextError ctx = None" "normalizeSubject sub = Inr sub'" "validDigest d" "\<not> ms_stopped s" by blast
  have mem: "d \<in> set (gm_list (ms_index s) sub') \<longleftrightarrow> (\<exists>r. gm_get (ms_records s) d = Some r \<and> ses_Subject (mr_value r) = sub')"
    by (rule index_okD(2) [OF ok])
  have own: "(\<exists>r. (d, r) \<in> owned_by sub' (abs_table now s)) \<longleftrightarrow>
      (\<exists>r. gm_get (ms_records s) d = Some r \<and> ses_Subject (mr_value r) = sub' \<and> live now r)"
    by (auto simp: owned_by_def abs_table_def expire_Some)
  show ?thesis
  proof (cases "d \<in> set (gm_list (ms_index s) sub')")
    case False
    with run pre have "e = Inr False" "s' = s" by (auto simp: RevokeByDigest_def)
    moreover have "\<not> (\<exists>r. (d, r) \<in> owned_by sub' (abs_table now s))" using False mem own by blast
    ultimately show ?thesis using ok pre by (simp add: spec_revoke_digest_def)
  next
    case True
    then obtain r where r: "gm_get (ms_records s) d = Some r" "ses_Subject (mr_value r) = sub'" using mem by blast
    with True run pre have e: "e = Inr (live now r)" "s' = dropLocked d s" by (auto simp: RevokeByDigest_def)
    have "(\<exists>r. (d, r) \<in> owned_by sub' (abs_table now s)) \<longleftrightarrow> live now r" using own r by simp
    moreover have "\<not> live now r \<Longrightarrow> (abs_table now s)(d := None) = abs_table now s" using r(1) by (intro abs_same) (simp add: abs_get)
    ultimately show ?thesis using ok pre e by (auto simp: spec_revoke_digest_def drop_ok)
  qed
qed

subsection \<open>Cleanup and Close\<close>

lemma cleanup_refines:
  assumes "index_ok s"
  shows "index_ok (cleanup now s) \<and> ms_stopped (cleanup now s) = ms_stopped s \<and> abs_table now (cleanup now s) = abs_table now s"
proof (cases "ms_stopped s")
  case False
  let ?f = "\<lambda>(key, record) s. if \<not> live now record then dropLocked key s else s"
  have "index_ok (fold ?f rs u) \<and> ms_stopped (fold ?f rs u) = ms_stopped u \<and> abs_table now (fold ?f rs u) = abs_table now u"
    if "index_ok u" "\<forall>(k, r) \<in> set rs. \<not> live now r \<longrightarrow> abs_table now u k = None" for rs u
    using that
  proof (induction rs arbitrary: u)
    case (Cons kr rs)
    obtain k r where kr: "kr = (k, r)" by (cases kr)
    show ?case
    proof (cases "live now r")
      case True
      with Cons kr show ?thesis by simp
    next
      case False
      then have same: "abs_table now (dropLocked k u) = abs_table now u" using Cons.prems(2) kr by (simp add: fun_upd_idem)
      have "\<forall>(k, r) \<in> set rs. \<not> live now r \<longrightarrow> abs_table now (dropLocked k0 u) k = None"
        if "abs_table now (dropLocked k0 u) = abs_table now u" for k0
        unfolding that using Cons.prems(2) by simp
      from Cons.IH [OF drop_ok [OF Cons.prems(1)] this [OF same]] same kr False show ?thesis
        by (simp del: abs_drop)
    qed
  qed simp
  moreover have "\<forall>(k, r) \<in> set (ms_records s). \<not> live now r \<longrightarrow> abs_table now s k = None"
    using gm_get_in_set [OF index_okD(1) [OF assms]] by (auto simp: abs_get)
  ultimately show ?thesis using assms False by (simp add: cleanup_def)
qed (use assms in \<open>simp add: cleanup_def\<close>)

lemma Close_refines:
  assumes "index_ok s"
  shows "index_ok (Close s) \<and> ms_stopped (Close s) \<and> abs_table now (Close s) = (\<lambda>_. None)"
proof (cases "ms_stopped s")
  case True
  then have "ms_records s = []" using index_okD(5) [OF assms] by blast
  with True assms show ?thesis by (simp add: Close_def abs_table_def expire_def fun_eq_iff)
next
  case False
  then show ?thesis by (simp add: Close_def index_ok_def abs_table_def expire_def gm_list_def fun_eq_iff)
qed

section \<open>Traces\<close>

lemma run_op_refines:
  assumes "index_ok s" and "run_op env now op s = (r, s')"
  shows "index_ok s' \<and> session_spec env now op (abs_table now s, ms_stopped s) r (abs_table now s', ms_stopped s')"
proof (cases op)
  case (DoCreate c v ttl)
  with assms Create_refines [of s env now c v ttl] show ?thesis by (cases "Create env now c v ttl s") auto
next
  case (DoGet c i)
  with assms MemoryStore_Get_refines [of s env now c i] show ?thesis by (cases "MemoryStore_Get env now c i s") auto
next
  case (DoTouch c i ttl mi)
  with assms Touch_refines [of s env now c i ttl mi] show ?thesis by (cases "Touch env now c i ttl mi s") auto
next
  case (DoRotate c i v ttl)
  with assms Rotate_refines [of s env now c i v ttl] show ?thesis by (cases "Rotate env now c i v ttl s") auto
next
  case (DoDelete c i)
  with assms Delete_refines [of s env c i] show ?thesis by (cases "Delete env c i s") auto
next
  case (DoList c sub)
  with assms ListBySubject_refines [of s now c sub] show ?thesis by (cases "ListBySubject now c sub s") auto
next
  case (DoRevokeSubject c sub)
  with assms RevokeBySubject_refines [of s now c sub] show ?thesis by (cases "RevokeBySubject now c sub s") auto
next
  case (DoRevokeDigest c sub d)
  with assms RevokeByDigest_refines [of s now c sub d] show ?thesis by (cases "RevokeByDigest now c sub d s") auto
next
  case DoCleanup
  with assms cleanup_refines [of s now] show ?thesis by auto
next
  case DoClose
  with assms Close_refines [of s now] show ?thesis by auto
qed

text \<open>A sequence of operations at given instants, on the store and on the table.\<close>

fun store_run :: "session_env \<Rightarrow> (time \<times> session_op) list \<Rightarrow> MemoryStore \<Rightarrow> reply list \<times> MemoryStore" where
  "store_run env [] s = ([], s)"
| "store_run env ((now, op) # ops) s =
     (let (r, s1) = run_op env now op s; (rs, s2) = store_run env ops s1 in (r # rs, s2))"

fun table_run :: "session_env \<Rightarrow> (time \<times> session_op) list \<Rightarrow> table \<times> bool \<Rightarrow> reply list \<Rightarrow> bool" where
  "table_run env [] st rs \<longleftrightarrow> rs = []"
| "table_run env ((now, op) # ops) (t, stopped) rs \<longleftrightarrow>
     (\<exists>r rs' st'. rs = r # rs' \<and> session_spec env now op (expire now t, stopped) r st' \<and> table_run env ops st' rs')"

lemma store_run_refines:
  assumes "sorted (map fst ops)" and "\<forall>op \<in> set ops. since \<le> fst op" and "index_ok s"
    and "t = abs_table since s" and "store_run env ops s = (rs, s')"
  shows "index_ok s' \<and> table_run env ops (t, ms_stopped s) rs"
  using assms
proof (induction ops arbitrary: since s t rs)
  case (Cons x ops)
  obtain now op where x: "x = (now, op)" by (cases x)
  obtain r s1 where r: "run_op env now op s = (r, s1)" by fastforce
  obtain rs' where rs: "store_run env ops s1 = (rs', s')" "rs = r # rs'"
    using Cons.prems(5) r by (auto simp: x split: prod.splits)
  note step = run_op_refines [OF Cons.prems(3) r]
  have "\<forall>op \<in> set ops. now \<le> fst op" "sorted (map fst ops)" using Cons.prems(1) by (auto simp: x)
  with Cons.IH [of now s1 "abs_table now s1" rs'] step rs(1)
  have ih: "index_ok s' \<and> table_run env ops (abs_table now s1, ms_stopped s1) rs'" by blast
  have "expire now t = abs_table now s"
    using Cons.prems(2) by (simp add: x Cons.prems(4) abs_table_def expire_expire)
  with ih step rs(2) show ?case unfolding x table_run.simps by metis
qed simp

text \<open>A concrete run: two sessions of one subject, the first rotated, one of them expiring.\<close>

definition plain_env :: session_env where
  "plain_env = \<lparr>se_digest = (\<lambda>i. i), se_json = Inr\<rparr>"

definition sample_session :: "string \<Rightarrow> time \<Rightarrow> Session" where
  "sample_session i expires =
     \<lparr>ses_ID = i, ses_Subject = ''ann'', ses_Attributes = None, ses_IssuedAt = 1000000, ses_ExpiresAt = expires\<rparr>"

definition sample_trace :: "(time \<times> session_op) list" where
  "sample_trace =
    [(2000000, DoCreate CtxLive (sample_session ''a'' 9000000) 3000000),
     (2000000, DoCreate CtxLive (sample_session ''b'' 4000000) 3000000),
     (3000000, DoList CtxLive ''ann''),
     (3000000, DoRotate CtxLive ''a'' (sample_session ''c'' 9000000) 3000000),
     (3500000, DoGet CtxLive ''a''),
     (4000000, DoList CtxLive ''ann''),
     (5000000, DoTouch CtxLive ''c'' 3000000 0),
     (7000000, DoCleanup),
     (7000000, DoRevokeSubject CtxLive '' ann ''),
     (7000000, DoRevokeSubject CtxLive ''ann'')]"

text \<open>
  C32. The memory store implements the session table of the store contract: whatever operations
  are run on a new store at non-decreasing instants, every reply is the one that a table of the live
  sessions gives, which has no index and never holds an expired session. In particular a listing
  has every live session of its subject exactly once, a revocation counts exactly the live sessions
  it ends, a successful rotation retires the old identifier, and a digest of another subject is
  never touched.
\<close>

theorem MemoryStore_refines:
  assumes "NewMemoryStore interval = Inr s" and "sorted (map fst ops)" and "store_run env ops s = (rs, s')"
  shows "table_run env ops (\<lambda>_. None, False) rs"
proof -
  have s: "s = \<lparr>ms_records = [], ms_index = [], ms_stopped = False\<rparr>"
    using assms(1) by (simp add: NewMemoryStore_def split: if_splits)
  have "index_ok s" by (simp add: s index_ok_def gm_list_def)
  moreover have "abs_table t s = (\<lambda>_. None)" for t by (rule ext) (simp add: s abs_table_def expire_def)
  moreover obtain start where "\<forall>op \<in> set ops. start \<le> fst op"
  proof (cases ops)
    case (Cons x xs)
    with assms(2) that [of "fst x"] show thesis by auto
  qed (use that in auto)
  ultimately show ?thesis
    using store_run_refines [OF assms(2) _ _ _ assms(3), of start "\<lambda>_. None"] by (simp add: s)
qed

theorem MemoryStore_refines_witness:
  "table_run plain_env sample_trace (\<lambda>_. None, False)
     [Done None, Done None,
      Listed (Inr [session_info (IDDigest plain_env ''a'') ''ann'' (store_record 2000000 3000000 (sample_session [] 9000000)),
                   session_info (IDDigest plain_env ''b'') ''ann'' (store_record 2000000 3000000 (sample_session [] 4000000))]),
      Done None, Found (Inr None),
      Listed (Inr [session_info (IDDigest plain_env ''c'') ''ann'' (store_record 3000000 3000000 (sample_session [] 9000000))]),
      Found (Inr (Some (sample_session ''c'' 9000000))), Quiet, Counted (Inr 1), Counted (Inr 0)]"
proof -
  have "NewMemoryStore 1 = Inr \<lparr>ms_records = [], ms_index = [], ms_stopped = False\<rparr>" by code_simp
  moreover have "sorted (map fst sample_trace)" by code_simp
  moreover have "store_run plain_env sample_trace \<lparr>ms_records = [], ms_index = [], ms_stopped = False\<rparr> =
     ([Done None, Done None,
      Listed (Inr [session_info (IDDigest plain_env ''a'') ''ann'' (store_record 2000000 3000000 (sample_session [] 9000000)),
                   session_info (IDDigest plain_env ''b'') ''ann'' (store_record 2000000 3000000 (sample_session [] 4000000))]),
      Done None, Found (Inr None),
      Listed (Inr [session_info (IDDigest plain_env ''c'') ''ann'' (store_record 3000000 3000000 (sample_session [] 9000000))]),
      Found (Inr (Some (sample_session ''c'' 9000000))), Quiet, Counted (Inr 1), Counted (Inr 0)],
      \<lparr>ms_records = [], ms_index = [], ms_stopped = False\<rparr>)"
    by code_simp
  ultimately show ?thesis by (rule MemoryStore_refines)
qed

text \<open>
  C33. After any sequence of operations, at whatever instants, the subject index of the store lists
  for every subject exactly the digests of its records, each once, with no empty entry left behind;
  no record holds a session identifier; and a stopped store holds nothing.
\<close>

theorem MemoryStore_index:
  assumes "NewMemoryStore interval = Inr s" and "store_run env ops s = (rs, s')"
  shows "(\<forall>sub. distinct (gm_list (ms_index s') sub) \<and>
      set (gm_list (ms_index s') sub) = {d. \<exists>r. gm_get (ms_records s') d = Some r \<and> ses_Subject (mr_value r) = sub}) \<and>
    (\<forall>sub. gm_get (ms_index s') sub \<noteq> Some []) \<and>
    (\<forall>d r. gm_get (ms_records s') d = Some r \<longrightarrow> ses_ID (mr_value r) = []) \<and>
    (ms_stopped s' \<longrightarrow> ms_records s' = [] \<and> ms_index s' = [])"
proof -
  have "index_ok s" using assms(1) by (auto simp: NewMemoryStore_def index_ok_def gm_list_def split: if_splits)
  then have ok: "index_ok s'"
    using assms(2)
  proof (induction ops arbitrary: s rs)
    case (Cons x ops)
    obtain now op where x: "x = (now, op)" by (cases x)
    obtain r s1 where r: "run_op env now op s = (r, s1)" by fastforce
    then obtain rs' where "store_run env ops s1 = (rs', s')"
      using Cons.prems(2) by (auto simp: x split: prod.splits)
    with Cons.IH run_op_refines [OF Cons.prems(1) r] show ?case by blast
  qed simp
  show ?thesis
  proof (intro conjI allI impI)
    fix sub
    show "distinct (gm_list (ms_index s') sub)" by (rule index_distinct [OF ok])
    show "set (gm_list (ms_index s') sub) = {d. \<exists>r. gm_get (ms_records s') d = Some r \<and> ses_Subject (mr_value r) = sub}"
      using index_okD(2) [OF ok] by blast
    show "gm_get (ms_index s') sub \<noteq> Some []" using index_okD(3) [OF ok, of sub "[]"] by blast
  next
    fix d r assume "gm_get (ms_records s') d = Some r"
    then show "ses_ID (mr_value r) = []" by (rule index_okD(4) [OF ok])
  qed (use index_okD(5) [OF ok] in blast)+
qed

theorem MemoryStore_index_witness:
  "gm_list (ms_index (snd (store_run plain_env (take 4 sample_trace) \<lparr>ms_records = [], ms_index = [], ms_stopped = False\<rparr>))) ''ann''
     = [IDDigest plain_env ''b'', IDDigest plain_env ''c''] \<and>
   {d. \<exists>r. gm_get (ms_records (snd (store_run plain_env (take 4 sample_trace) \<lparr>ms_records = [], ms_index = [], ms_stopped = False\<rparr>))) d = Some r \<and>
      ses_Subject (mr_value r) = ''ann''} = {IDDigest plain_env ''b'', IDDigest plain_env ''c''}"
proof -
  have new: "NewMemoryStore 1 = Inr \<lparr>ms_records = [], ms_index = [], ms_stopped = False\<rparr>" by code_simp
  have index: "gm_list (ms_index (snd (store_run plain_env (take 4 sample_trace) \<lparr>ms_records = [], ms_index = [], ms_stopped = False\<rparr>))) ''ann''
     = [IDDigest plain_env ''b'', IDDigest plain_env ''c'']" by code_simp
  show ?thesis
    using MemoryStore_index [OF new surjective_pairing, THEN conjunct1, rule_format, of plain_env "take 4 sample_trace" "''ann''"] index
    by simp
qed

end
