(* ===== verification/SessionManager.thy ===== *)
theory SessionManager
  imports SessionConfig SessionRefine
begin

text \<open>
  The session manager, \<^verbatim>\<open>extensions/authentication/session/manager.go\<close>, with the authenticator and the
  plugin around it (\<^verbatim>\<open>authenticator.go\<close>, \<^verbatim>\<open>plugin.go\<close>): identifiers and their shape, creation and rotation
  with retries, revocation, and authentication. A store is the record of its operations, as the
  interface of \<^verbatim>\<open>store.go\<close>; the manager's lemmas are proved once from the contract of that interface,
  and the memory store is shown to satisfy it.
  \<^item> The world is the clock, given by the instant of each of its readings, and the bytes the random
    source still has to deliver; a source that runs dry fails, as \<^verbatim>\<open>io.ReadFull\<close> does.
  \<^item> A store operation reads the clock once.
\<close>

section \<open>Unpadded URL-safe base64\<close>

definition b64_alphabet :: string where
  "b64_alphabet = ''ABCDEFGHIJKLMNOPQRSTUVWXYZabcdefghijklmnopqrstuvwxyz0123456789-_''"

fun b64_sextets :: "nat list \<Rightarrow> nat list" where
  "b64_sextets [] = []"
| "b64_sextets [a] = [a div 4, a mod 4 * 16]"
| "b64_sextets [a, b] = [a div 4, a mod 4 * 16 + b div 16, b mod 16 * 4]"
| "b64_sextets (a # b # c # r) =
     [a div 4, a mod 4 * 16 + b div 16, b mod 16 * 4 + c div 64, c mod 64] @ b64_sextets r"

definition EncodeToString :: "string \<Rightarrow> string" where
  "EncodeToString raw = map ((!) b64_alphabet) (b64_sextets (map of_char raw))"

text \<open>
  The decoder skips line breaks, refuses every other character outside the alphabet and a lone last
  character, and ignores the unused low bits of a short last group.
\<close>

fun b64_bytes :: "nat list \<Rightarrow> nat list option" where
  "b64_bytes [] = Some []"
| "b64_bytes [w] = None"
| "b64_bytes [w, x] = Some [w * 4 + x div 16]"
| "b64_bytes [w, x, y] = Some [w * 4 + x div 16, x mod 16 * 16 + y div 4]"
| "b64_bytes (w # x # y # z # r) =
     map_option ((@) [w * 4 + x div 16, x mod 16 * 16 + y div 4, y mod 4 * 64 + z]) (b64_bytes r)"

definition DecodeString :: "string \<Rightarrow> string option" where
  "DecodeString s =
     (let s = filter (\<lambda>c. c \<noteq> CHR 0x0A \<and> c \<noteq> CHR 0x0D) s in
      if list_all (\<lambda>c. index_of c b64_alphabet \<noteq> None) s
      then map_option (map char_of) (b64_bytes (map (\<lambda>c. the (index_of c b64_alphabet)) s))
      else None)"

section \<open>The store interface\<close>

record 's IndexedStore =
  ix_ListBySubject :: "time \<Rightarrow> ctx_arg \<Rightarrow> string \<Rightarrow> 's \<Rightarrow> (session_error, SessionInfo list) result \<times> 's"
  ix_RevokeBySubject :: "time \<Rightarrow> ctx_arg \<Rightarrow> string \<Rightarrow> 's \<Rightarrow> (session_error, nat) result \<times> 's"
  ix_RevokeByDigest :: "time \<Rightarrow> ctx_arg \<Rightarrow> string \<Rightarrow> string \<Rightarrow> 's \<Rightarrow> (session_error, bool) result \<times> 's"

text \<open>The type assertion of a store to an indexed one is the last field.\<close>

record 's Store =
  sto_Create :: "time \<Rightarrow> ctx_arg \<Rightarrow> Session \<Rightarrow> time \<Rightarrow> 's \<Rightarrow> session_error option \<times> 's"
  sto_Get :: "time \<Rightarrow> ctx_arg \<Rightarrow> string \<Rightarrow> 's \<Rightarrow> (session_error, Session option) result \<times> 's"
  sto_Touch :: "time \<Rightarrow> ctx_arg \<Rightarrow> string \<Rightarrow> time \<Rightarrow> time \<Rightarrow> 's \<Rightarrow> (session_error, Session option) result \<times> 's"
  sto_Rotate :: "time \<Rightarrow> ctx_arg \<Rightarrow> string \<Rightarrow> Session \<Rightarrow> time \<Rightarrow> 's \<Rightarrow> session_error option \<times> 's"
  sto_Delete :: "time \<Rightarrow> ctx_arg \<Rightarrow> string \<Rightarrow> 's \<Rightarrow> session_error option \<times> 's"
  sto_indexed :: "'s IndexedStore option"

definition memory_Store :: "session_env \<Rightarrow> MemoryStore Store" where
  "memory_Store env =
     \<lparr>sto_Create = Create env, sto_Get = MemoryStore_Get env, sto_Touch = Touch env, sto_Rotate = Rotate env,
      sto_Delete = (\<lambda>_. Delete env),
      sto_indexed = Some \<lparr>ix_ListBySubject = ListBySubject, ix_RevokeBySubject = RevokeBySubject,
        ix_RevokeByDigest = RevokeByDigest\<rparr>\<rparr>"

section \<open>The manager\<close>

record world_ms =
  mw_clock :: "nat \<Rightarrow> time"
  mw_reads :: nat
  mw_random :: string

definition read_clock :: "world_ms \<Rightarrow> time \<times> world_ms" where
  "read_clock w = (mw_clock w (mw_reads w), w\<lparr>mw_reads := Suc (mw_reads w)\<rparr>)"

record 's manager =
  mg_store :: "'s Store"
  mg_cfg :: normalizedConfig
  mg_closed :: bool

definition newID :: "'s manager \<Rightarrow> world_ms \<Rightarrow> (session_error, string) result \<times> world_ms" where
  "newID m w =
     (let n = nat (nc_idBytes (mg_cfg m)) in
      if length (mw_random w) < n then (Inl RandomFailed, w\<lparr>mw_random := []\<rparr>)
      else (Inr (EncodeToString (take n (mw_random w))), w\<lparr>mw_random := drop n (mw_random w)\<rparr>))"

definition validID :: "string \<Rightarrow> int \<Rightarrow> bool" where
  "validID i bytes \<longleftrightarrow>
     (if i = [] \<or> i \<noteq> trim_space i \<or> CHR ''='' \<in> set i then False
      else (case DecodeString i of None \<Rightarrow> False | Some raw \<Rightarrow> int (length raw) = bytes))"

text \<open>The retry loop that \<^verbatim>\<open>Create\<close> and \<^verbatim>\<open>Rotate\<close> share in form: each try takes a new identifier.\<close>

fun create_tries ::
  "nat \<Rightarrow> 's manager \<Rightarrow> ctx_arg \<Rightarrow> (string \<Rightarrow> Session) \<Rightarrow> 's \<times> world_ms \<Rightarrow> (session_error, Session) result \<times> 's \<times> world_ms" where
  "create_tries 0 m ctx build (s, w) = (Inl NoUniqueID, s, w)"
| "create_tries (Suc k) m ctx build (s, w) =
     (case newID m w of
        (Inl e, w) \<Rightarrow> (Inl e, s, w)
      | (Inr i, w) \<Rightarrow>
          let v = build i; (now, w) = read_clock w in
          (case sto_Create (mg_store m) now ctx v (nc_idleTTL (mg_cfg m)) s of
             (Some e, s) \<Rightarrow> if e = ErrAlreadyExists then create_tries k m ctx build (s, w) else (Inl e, s, w)
           | (None, s) \<Rightarrow> (Inr (cloneSession v), s, w)))"

definition manager_Create ::
  "session_env \<Rightarrow> 's manager \<Rightarrow> ctx_arg \<Rightarrow> string \<Rightarrow> attributes \<Rightarrow> 's \<times> world_ms \<Rightarrow> (session_error, Session) result \<times> 's \<times> world_ms" where
  "manager_Create env m ctx subject attributes st =
     (case st of (s, w) \<Rightarrow>
      if mg_closed m then (Inl ErrStopped, s, w)
      else (case contextError ctx of Some e \<Rightarrow> (Inl e, s, w) | None \<Rightarrow>
        let subject = trim_space subject in
        if subject = [] then (Inl EmptySubject, s, w)
        else (case normalizeAttributes env attributes of Inl e \<Rightarrow> (Inl e, s, w) | Inr attributes \<Rightarrow>
          let (t, w) = read_clock w; now = time_Truncate millisecond t in
          create_tries 4 m ctx
            (\<lambda>i. \<lparr>ses_ID = i, ses_Subject = subject, ses_Attributes = attributes, ses_IssuedAt = now,
                  ses_ExpiresAt = now + nc_ttl (mg_cfg m)\<rparr>) (s, w))))"

fun rotate_tries ::
  "nat \<Rightarrow> 's manager \<Rightarrow> ctx_arg \<Rightarrow> string \<Rightarrow> Session \<Rightarrow> 's \<times> world_ms \<Rightarrow> (session_error, Session) result \<times> 's \<times> world_ms" where
  "rotate_tries 0 m ctx i current (s, w) = (Inl NoUniqueID, s, w)"
| "rotate_tries (Suc k) m ctx i current (s, w) =
     (case newID m w of
        (Inl e, w) \<Rightarrow> (Inl e, s, w)
      | (Inr j, w) \<Rightarrow>
          let replacement = (cloneSession current)\<lparr>ses_ID := j\<rparr>; (now, w) = read_clock w in
          (case sto_Rotate (mg_store m) now ctx i replacement (nc_idleTTL (mg_cfg m)) s of
             (Some e, s) \<Rightarrow> if e = ErrAlreadyExists then rotate_tries k m ctx i current (s, w) else (Inl e, s, w)
           | (None, s) \<Rightarrow> (Inr replacement, s, w)))"

definition manager_Rotate ::
  "'s manager \<Rightarrow> ctx_arg \<Rightarrow> string \<Rightarrow> 's \<times> world_ms \<Rightarrow> (session_error, Session) result \<times> 's \<times> world_ms" where
  "manager_Rotate m ctx i st =
     (case st of (s, w) \<Rightarrow>
      if mg_closed m then (Inl ErrStopped, s, w)
      else if \<not> validID i (nc_idBytes (mg_cfg m)) then (Inl ErrInvalidCookie, s, w)
      else
        let (now, w) = read_clock w in
        (case sto_Get (mg_store m) now ctx i s of
           (Inl e, s) \<Rightarrow> (Inl e, s, w)
         | (Inr None, s) \<Rightarrow> (Inl ErrNotFound, s, w)
         | (Inr (Some current), s) \<Rightarrow> rotate_tries 4 m ctx i current (s, w)))"

definition manager_Revoke :: "'s manager \<Rightarrow> ctx_arg \<Rightarrow> string \<Rightarrow> 's \<times> world_ms \<Rightarrow> session_error option \<times> 's \<times> world_ms" where
  "manager_Revoke m ctx i st =
     (case st of (s, w) \<Rightarrow>
      if mg_closed m then (Some ErrStopped, s, w)
      else if \<not> validID i (nc_idBytes (mg_cfg m)) then (Some ErrInvalidCookie, s, w)
      else let (now, w) = read_clock w in (case sto_Delete (mg_store m) now ctx i s of (e, s) \<Rightarrow> (e, s, w)))"

definition indexed :: "'s manager \<Rightarrow> ctx_arg \<Rightarrow> string \<Rightarrow> (session_error, 's IndexedStore \<times> string) result" where
  "indexed m ctx subject =
     (if mg_closed m then Inl ErrStopped
      else (case contextError ctx of Some e \<Rightarrow> Inl e | None \<Rightarrow>
        (case normalizeSubject subject of Inl e \<Rightarrow> Inl e | Inr subject \<Rightarrow>
          (case sto_indexed (mg_store m) of None \<Rightarrow> Inl ErrNotSupported | Some store \<Rightarrow> Inr (store, subject)))))"

definition manager_ListBySubject ::
  "'s manager \<Rightarrow> ctx_arg \<Rightarrow> string \<Rightarrow> 's \<times> world_ms \<Rightarrow> (session_error, SessionInfo list) result \<times> 's \<times> world_ms" where
  "manager_ListBySubject m ctx subject st =
     (case st of (s, w) \<Rightarrow>
      (case indexed m ctx subject of Inl e \<Rightarrow> (Inl e, s, w) | Inr (store, subject) \<Rightarrow>
        let (now, w) = read_clock w in (case ix_ListBySubject store now ctx subject s of (r, s) \<Rightarrow> (r, s, w))))"

definition manager_RevokeBySubject ::
  "'s manager \<Rightarrow> ctx_arg \<Rightarrow> string \<Rightarrow> 's \<times> world_ms \<Rightarrow> (session_error, nat) result \<times> 's \<times> world_ms" where
  "manager_RevokeBySubject m ctx subject st =
     (case st of (s, w) \<Rightarrow>
      (case indexed m ctx subject of Inl e \<Rightarrow> (Inl e, s, w) | Inr (store, subject) \<Rightarrow>
        let (now, w) = read_clock w in (case ix_RevokeBySubject store now ctx subject s of (r, s) \<Rightarrow> (r, s, w))))"

definition manager_RevokeByDigest ::
  "'s manager \<Rightarrow> ctx_arg \<Rightarrow> string \<Rightarrow> string \<Rightarrow> 's \<times> world_ms \<Rightarrow> (session_error, bool) result \<times> 's \<times> world_ms" where
  "manager_RevokeByDigest m ctx subject digest st =
     (case st of (s, w) \<Rightarrow>
      (case indexed m ctx subject of Inl e \<Rightarrow> (Inl e, s, w) | Inr (store, subject) \<Rightarrow>
        let (now, w) = read_clock w in (case ix_RevokeByDigest store now ctx subject digest s of (r, s) \<Rightarrow> (r, s, w))))"

text \<open>The remaining lifetime is taken from a second reading of the clock.\<close>

definition lifetime :: "'s manager \<Rightarrow> Session \<Rightarrow> world_ms \<Rightarrow> (session_error, time) result \<times> world_ms" where
  "lifetime m v w =
     (if mg_closed m then (Inl ErrStopped, w)
      else if \<not> validID (ses_ID v) (nc_idBytes (mg_cfg m)) then (Inl ErrInvalidCookie, w)
      else
        let (now, w) = read_clock w in
        if \<not> ses_ExpiresAt v > now then (Inl ErrInvalidCookie, w)
        else
          let (now', w) = read_clock w; remaining = ses_ExpiresAt v - now' in
          (if remaining \<le> 0 then Inl ErrInvalidCookie else Inr remaining, w))"

definition manager_stop :: "'s manager \<Rightarrow> 's manager" where
  "manager_stop m = m\<lparr>mg_closed := True\<rparr>"

section \<open>The authenticator and the plugin\<close>

record 's Plugin =
  pl_config :: normalizedConfig
  pl_manager :: "'s manager"
  pl_owned :: bool

record Principal =
  pr_Subject :: string
  pr_AuthMethod :: string
  pr_Attributes :: "(string, cval) gomap"

datatype auth_result = Rejected string | Accepted Principal

definition Scheme :: string where
  "Scheme = ''session''"

definition reasonInvalidCredential :: string where
  "reasonInvalidCredential = ''invalid credential''"

text \<open>
  The credential is \<open>None\<close> when its value is not a string. Deriving the context of the touch from a nil
  context panics: the reply is then \<open>None\<close>.
\<close>

definition Authenticate ::
  "'s Plugin \<Rightarrow> ctx_arg \<Rightarrow> string option \<Rightarrow> 's \<times> world_ms \<Rightarrow> auth_result option \<times> 's \<times> world_ms" where
  "Authenticate p ctx credential st =
     (case st of (s, w) \<Rightarrow>
      (case credential of
         None \<Rightarrow> (Some (Rejected reasonInvalidCredential), s, w)
       | Some i \<Rightarrow>
           if mg_closed (pl_manager p) \<or> \<not> validID i (nc_idBytes (pl_config p)) then
             (Some (Rejected reasonInvalidCredential), s, w)
           else if ctx = CtxNil then (None, s, w)
           else
             let (now, w) = read_clock w in
             (case sto_Touch (mg_store (pl_manager p)) now ctx i (nc_idleTTL (pl_config p)) (nc_touchInterval (pl_config p)) s of
                (Inr (Some v), s) \<Rightarrow>
                  (let attributes = (case cloneMap (ses_Attributes v) of None \<Rightarrow> [] | Some a \<Rightarrow> a)
                   in (Some (Accepted \<lparr>pr_Subject = ses_Subject v, pr_AuthMethod = Scheme,
                         pr_Attributes = gm_put ''session_id'' (CString (ses_ID v)) attributes\<rparr>), s, w))
              | (_, s) \<Rightarrow> (Some (Rejected reasonInvalidCredential), s, w))))"

definition newPlugin :: "normalizedConfig \<Rightarrow> 's Store \<Rightarrow> bool \<Rightarrow> 's Plugin" where
  "newPlugin config store owned =
     \<lparr>pl_config = config, pl_manager = \<lparr>mg_store = store, mg_cfg = config, mg_closed = False\<rparr>, pl_owned = owned\<rparr>"

definition newMemoryPlugin :: "session_env \<Rightarrow> normalizedConfig \<Rightarrow> (session_error, MemoryStore Plugin \<times> MemoryStore) result" where
  "newMemoryPlugin env config =
     (case NewMemoryStore (nc_cleanupInterval config) of
        Inl e \<Rightarrow> Inl e
      | Inr owned \<Rightarrow> Inr (newPlugin config (memory_Store env) True, owned))"

text \<open>A plugin runs on an injected store or on a memory store of its own.\<close>

datatype 's built = Injected "'s Plugin" | Owned "MemoryStore Plugin" MemoryStore

datatype new_error = ConfigRefused config_error | StoreRefused session_error

text \<open>An option is \<open>None\<close> when it is nil, and otherwise the store, possibly nil, that it injects.\<close>

fun apply_store_options :: "'s Store option option list \<Rightarrow> 's Store option \<Rightarrow> 's Store option" where
  "apply_store_options [] built = built"
| "apply_store_options (None # opts) built = apply_store_options opts built"
| "apply_store_options (Some store # opts) built = apply_store_options opts store"

definition session_New :: "session_env \<Rightarrow> Config \<Rightarrow> 's Store option option list \<Rightarrow> (new_error, 's built) result" where
  "session_New env cfg opts =
     (case normalizeConfig cfg of
        Inl e \<Rightarrow> Inl (ConfigRefused e)
      | Inr config \<Rightarrow>
          (case apply_store_options opts None of
             Some store \<Rightarrow> Inr (Injected (newPlugin config store False))
           | None \<Rightarrow>
               if nc_backend config \<noteq> ''memory'' then Inl (ConfigRefused (NeedsStore (nc_backend config)))
               else (case newMemoryPlugin env config of
                       Inl e \<Rightarrow> Inl (StoreRefused e)
                     | Inr (p, owned) \<Rightarrow> Inr (Owned p owned))))"

record CookieSettings =
  ck_Name :: string
  ck_Path :: string
  ck_Domain :: string
  ck_HTTPOnly :: bool
  ck_Secure :: bool
  ck_SameSite :: SameSite

definition Plugin_Cookie :: "'s Plugin \<Rightarrow> CookieSettings" where
  "Plugin_Cookie p =
     \<lparr>ck_Name = nc_name (pl_config p), ck_Path = nc_path (pl_config p), ck_Domain = nc_domain (pl_config p),
      ck_HTTPOnly = nc_httpOnly (pl_config p), ck_Secure = nc_secure (pl_config p), ck_SameSite = nc_sameSite (pl_config p)\<rparr>"

definition Plugin_Stop :: "MemoryStore Plugin \<Rightarrow> MemoryStore \<Rightarrow> MemoryStore Plugin \<times> MemoryStore" where
  "Plugin_Stop p s = (p\<lparr>pl_manager := manager_stop (pl_manager p)\<rparr>, if pl_owned p then Close s else s)"

section \<open>Identifiers\<close>

lemma b64_alphabet_length [simp]: "length b64_alphabet = 64"
  by code_simp

lemma index_of_nth: "distinct xs \<Longrightarrow> i < length xs \<Longrightarrow> index_of (xs ! i) xs = Some i"
proof (induction xs arbitrary: i)
  case (Cons x xs)
  then show ?case by (cases i) auto
qed simp

lemma b64_alphabet_index: "n < 64 \<Longrightarrow> index_of (b64_alphabet ! n) b64_alphabet = Some n"
  by (rule index_of_nth) (simp_all, code_simp)

lemma b64_sextets_bound: "\<forall>a \<in> set bytes. a < 256 \<Longrightarrow> \<forall>d \<in> set (b64_sextets bytes). d < 64"
  by (induction bytes rule: b64_sextets.induct) (auto simp: less_mult_imp_div_less)

lemma b64_sextets_empty [simp]: "b64_sextets bytes = [] \<longleftrightarrow> bytes = []"
  by (cases bytes rule: b64_sextets.cases) simp_all

text \<open>The parts of a byte that share a character with its neighbour.\<close>

lemma b64_parts:
  "(a :: nat) < 256 \<Longrightarrow> a div 16 div 16 = 0" "(a :: nat) < 256 \<Longrightarrow> a div 16 mod 16 = a div 16"
  "(a :: nat) < 256 \<Longrightarrow> a div 64 div 4 = 0" "(a :: nat) < 256 \<Longrightarrow> a div 64 mod 4 = a div 64"
  by simp_all

lemma b64_bytes_sextets: "\<forall>a \<in> set bytes. a < 256 \<Longrightarrow> b64_bytes (b64_sextets bytes) = Some bytes"
  by (induction bytes rule: b64_sextets.induct) (simp_all add: b64_parts)

lemma EncodeToString_chars: "c \<in> set (EncodeToString raw) \<Longrightarrow> c \<in> set b64_alphabet"
proof -
  have "\<forall>d \<in> set (b64_sextets (map of_char raw)). d < 64" by (rule b64_sextets_bound) auto
  then show "c \<in> set (EncodeToString raw) \<Longrightarrow> c \<in> set b64_alphabet" by (auto simp: EncodeToString_def)
qed

lemma Decode_Encode: "DecodeString (EncodeToString raw) = Some raw"
proof -
  define ds :: "nat list" where "ds = b64_sextets (map of_char raw)"
  have ds: "\<forall>d \<in> set ds. d < 64" unfolding ds_def by (rule b64_sextets_bound) auto
  have breaks: "CHR 0x0A \<notin> set b64_alphabet" "CHR 0x0D \<notin> set b64_alphabet" by code_simp+
  have "filter (\<lambda>c. c \<noteq> CHR 0x0A \<and> c \<noteq> CHR 0x0D) (EncodeToString raw) = EncodeToString raw"
    using EncodeToString_chars [of _ raw] breaks by (intro filter_True) metis
  moreover have "list_all (\<lambda>c. index_of c b64_alphabet \<noteq> None) (EncodeToString raw)"
    using ds by (auto simp: EncodeToString_def ds_def [symmetric] list_all_iff b64_alphabet_index)
  moreover have "map (\<lambda>c. the (index_of c b64_alphabet)) (EncodeToString raw) = ds"
    using ds by (auto simp: EncodeToString_def ds_def [symmetric] b64_alphabet_index intro: map_idI)
  moreover have "b64_bytes ds = Some (map of_char raw)" unfolding ds_def by (rule b64_bytes_sextets) auto
  ultimately show ?thesis by (simp add: DecodeString_def comp_def)
qed

text \<open>Text over the alphabet has no white space at its ends.\<close>

lemma no_match:
  assumes "\<forall>p \<in> set ps. p \<noteq> [] \<and> hd p \<notin> A" and "s \<noteq> []" and "hd s \<in> A"
  shows "match_len ps s = 0"
  using assms(1)
proof (induction ps)
  case (Cons p ps)
  with assms(2,3) show ?case by (cases p; cases s) auto
qed simp

lemma trim_space_alphabet:
  assumes "set s \<subseteq> set b64_alphabet"
  shows "trim_space s = s"
proof (cases "s = []")
  case False
  have "\<forall>p \<in> set space_encodings. p \<noteq> [] \<and> hd p \<notin> set b64_alphabet"
    "\<forall>p \<in> set (map rev space_encodings). p \<noteq> [] \<and> hd p \<notin> set b64_alphabet" by code_simp+
  moreover have "hd s \<in> set b64_alphabet" "hd (rev s) \<in> set b64_alphabet"
    using assms False by (metis hd_in_set subsetD, metis hd_in_set rev_is_Nil_conv set_rev subsetD)
  ultimately have "match_len space_encodings s = 0" "match_len (map rev space_encodings) (rev s) = 0"
    using False by (metis no_match, metis no_match rev_is_Nil_conv)
  then show ?thesis by (simp add: trim_space_def trim_left_def trim_right_def strip_while.simps)
qed simp

lemma newID_shape:
  assumes "newID m w = (Inr i, w')" and "0 < nc_idBytes (mg_cfg m)"
  shows "validID i (nc_idBytes (mg_cfg m)) \<and> trim_space i = i \<and> i \<noteq> [] \<and> mw_clock w' = mw_clock w \<and> mw_reads w' = mw_reads w"
proof -
  obtain raw where raw: "i = EncodeToString raw" "int (length raw) = nc_idBytes (mg_cfg m)"
      "mw_clock w' = mw_clock w" "mw_reads w' = mw_reads w"
    using assms by (auto simp: newID_def Let_def split: if_splits)
  have "raw \<noteq> []" using raw(2) assms(2) by auto
  then have "i \<noteq> []" by (simp add: raw(1) EncodeToString_def)
  moreover have "trim_space i = i" using EncodeToString_chars raw(1) by (intro trim_space_alphabet) blast
  moreover have "CHR ''='' \<notin> set b64_alphabet" by code_simp
  then have "CHR ''='' \<notin> set i" using EncodeToString_chars raw(1) by blast
  ultimately show ?thesis using raw by (simp add: validID_def Decode_Encode)
qed

text \<open>The instant of the last reading of the clock.\<close>

definition last_read :: "world_ms \<Rightarrow> time" where
  "last_read w = mw_clock w (mw_reads w - 1)"

lemma last_read_mono:
  "mono (mw_clock w) \<Longrightarrow> mw_clock w' = mw_clock w \<Longrightarrow> n < mw_reads w' \<Longrightarrow> mw_clock w n \<le> last_read w'"
  by (auto simp: last_read_def intro: monoD)

text \<open>The principal of a session.\<close>

definition principal_of :: "string \<Rightarrow> Session \<Rightarrow> Principal" where
  "principal_of i v =
     \<lparr>pr_Subject = ses_Subject v, pr_AuthMethod = Scheme,
      pr_Attributes = gm_put ''session_id'' (CString i) (case ses_Attributes v of None \<Rightarrow> [] | Some a \<Rightarrow> a)\<rparr>"

section \<open>The contract of a store\<close>

text \<open>
  What the manager relies on. \<open>view now s\<close> is the table of the sessions that are live at \<open>now\<close>, by digest and
  without their identifiers. An operation that fails leaves that table as it is from then on.
\<close>

locale session_store =
  fixes store :: "'s Store" and ok :: "'s \<Rightarrow> bool" and view :: "time \<Rightarrow> 's \<Rightarrow> string \<Rightarrow> Session option"
    and digest :: "string \<Rightarrow> string" and norm :: "Session \<Rightarrow> (session_error, Session) result"
  assumes norm_ID: "norm v = Inr v' \<Longrightarrow> ses_ID v' = trim_space (ses_ID v)"
    and norm_expiry: "norm v = Inr v' \<Longrightarrow> ses_ExpiresAt v' \<le> ses_ExpiresAt v"
    and get_keeps: "ok s \<Longrightarrow> sto_Get store now c i s = (r, s') \<Longrightarrow> ok s' \<and> (\<forall>t \<ge> now. view t s' = view t s)"
    and get_found: "ok s \<Longrightarrow> sto_Get store now c i s = (Inr (Some v), s') \<Longrightarrow>
      view now s (digest i) = Some (v\<lparr>ses_ID := []\<rparr>) \<and> ses_ID v = i"
    and touch_keeps: "ok s \<Longrightarrow> sto_Touch store now c i ttl mi s = (r, s') \<Longrightarrow> ok s' \<and> view now s' = view now s"
    and touch_found: "ok s \<Longrightarrow> sto_Touch store now c i ttl mi s = (Inr (Some v), s') \<Longrightarrow>
      view now s (digest i) = Some (v\<lparr>ses_ID := []\<rparr>) \<and> ses_ID v = i"
    and touch_live: "ok s \<Longrightarrow> view now s (digest i) = Some v \<Longrightarrow> i \<noteq> [] \<Longrightarrow> 0 < ttl \<Longrightarrow> 0 \<le> mi \<Longrightarrow>
      fst (sto_Touch store now CtxLive i ttl mi s) = Inr (Some (v\<lparr>ses_ID := i\<rparr>))"
    and create_error: "ok s \<Longrightarrow> sto_Create store now c v ttl s = (Some e, s') \<Longrightarrow> ok s' \<and> (\<forall>t \<ge> now. view t s' = view t s)"
    and create_done: "ok s \<Longrightarrow> sto_Create store now c v ttl s = (None, s') \<Longrightarrow>
      ok s' \<and> (\<exists>v'. norm v = Inr v' \<and> view now s (digest (ses_ID v')) = None \<and>
        view now s' (digest (ses_ID v')) = Some (v'\<lparr>ses_ID := []\<rparr>) \<and>
        (\<forall>t \<ge> now. \<forall>d. d \<noteq> digest (ses_ID v') \<longrightarrow> view t s' d = view t s d))"
    and rotate_error: "ok s \<Longrightarrow> sto_Rotate store now c i v ttl s = (Some e, s') \<Longrightarrow> ok s' \<and> (\<forall>t \<ge> now. view t s' = view t s)"
    and rotate_done: "ok s \<Longrightarrow> sto_Rotate store now c i v ttl s = (None, s') \<Longrightarrow>
      ok s' \<and> (\<exists>v'. norm v = Inr v' \<and> view now s (digest i) \<noteq> None \<and> view now s (digest (ses_ID v')) = None \<and>
        (now < ses_ExpiresAt v' \<longrightarrow> view now s' (digest (ses_ID v')) = Some (v'\<lparr>ses_ID := []\<rparr>)) \<and>
        (\<forall>t \<ge> now. view t s' (digest i) = None) \<and>
        (\<forall>t \<ge> now. \<forall>d. d \<noteq> digest i \<and> d \<noteq> digest (ses_ID v') \<longrightarrow> view t s' d = view t s d))"
    and delete_keeps: "ok s \<Longrightarrow> sto_Delete store now c i s = (q, s') \<Longrightarrow>
      ok s' \<and> (\<forall>t \<ge> now. \<forall>d. d \<noteq> digest i \<longrightarrow> view t s' d = view t s d)"
    and delete_done: "ok s \<Longrightarrow> sto_Delete store now c i s = (None, s') \<Longrightarrow> i \<noteq> [] \<Longrightarrow> \<forall>t \<ge> now. view t s' (digest i) = None"
begin

lemma create_tries_contract:
  assumes "mono (mw_clock w)" and "0 < nc_idBytes (mg_cfg m)" and "mg_store m = store" and build: "\<forall>i. ses_ID (build i) = i"
    and "ok s" and "create_tries k m c build (s, w) = (r, s', w')"
  shows "ok s' \<and> mw_clock w' = mw_clock w \<and> mw_reads w \<le> mw_reads w' \<and>
    (case r of
       Inl _ \<Rightarrow> \<forall>t \<ge> last_read w'. view t s' = view t s
     | Inr v \<Rightarrow> validID (ses_ID v) (nc_idBytes (mg_cfg m)) \<and> v = build (ses_ID v) \<and>
         (\<exists>v'. norm v = Inr v' \<and> ses_ID v' = ses_ID v \<and> view (last_read w') s (digest (ses_ID v)) = None \<and>
           view (last_read w') s' (digest (ses_ID v)) = Some (v'\<lparr>ses_ID := []\<rparr>) \<and>
           (\<forall>t \<ge> last_read w'. \<forall>d. d \<noteq> digest (ses_ID v) \<longrightarrow> view t s' d = view t s d)))"
  using assms(1,5,6)
proof (induction k arbitrary: s w)
  case (Suc k)
  obtain x w1 where new: "newID m w = (x, w1)" by (cases "newID m w")
  show ?case
  proof (cases x)
    case (Inl e)
    with new Suc.prems(2,3) show ?thesis by (auto simp: newID_def Let_def split: if_splits)
  next
    case (Inr i)
    note shape = newID_shape [OF new [unfolded Inr] assms(2)]
    let ?now = "mw_clock w (mw_reads w)" and ?w = "w1\<lparr>mw_reads := Suc (mw_reads w1)\<rparr>"
    have last: "last_read ?w = ?now" using shape by (simp add: last_read_def)
    obtain y s1 where store: "sto_Create store ?now c (build i) (nc_idleTTL (mg_cfg m)) s = (y, s1)"
      by (cases "sto_Create store ?now c (build i) (nc_idleTTL (mg_cfg m)) s")
    note run = Suc.prems(3) [unfolded create_tries.simps new Inr]
    show ?thesis
    proof (cases y)
      case None
      from create_done [OF Suc.prems(2) store [unfolded None]] obtain v' where
        v': "ok s1" "norm (build i) = Inr v'" "view ?now s (digest (ses_ID v')) = None"
          "view ?now s1 (digest (ses_ID v')) = Some (v'\<lparr>ses_ID := []\<rparr>)"
          "\<forall>t \<ge> ?now. \<forall>d. d \<noteq> digest (ses_ID v') \<longrightarrow> view t s1 d = view t s d" by blast
      have "ses_ID v' = i" using norm_ID [OF v'(2)] shape build by simp
      moreover have "r = Inr (build i)" "s' = s1" "w' = ?w"
        using run store shape None by (simp_all add: read_clock_def assms(3))
      ultimately show ?thesis using v' shape build last by simp
    next
      case (Some e)
      note keep = create_error [OF Suc.prems(2) store [unfolded Some]]
      show ?thesis
      proof (cases "e = ErrAlreadyExists")
        case False
        then have "r = Inl e" "s' = s1" "w' = ?w"
          using run store shape Some by (simp_all add: read_clock_def assms(3))
        with keep shape last show ?thesis by simp
      next
        case True
        then have again: "create_tries k m c build (s1, ?w) = (r, s', w')"
          using run store shape Some by (simp add: read_clock_def assms(3))
        have "mono (mw_clock ?w)" using Suc.prems(1) shape by simp
        note ih = Suc.IH [OF this conjunct1 [OF keep] again]
        have later: "?now \<le> last_read w'" using ih shape by (intro last_read_mono [OF Suc.prems(1)]) simp_all
        then have "view t s1 = view t s" if "last_read w' \<le> t" for t using keep that by simp
        with ih shape show ?thesis by (cases r) auto
      qed
    qed
  qed
qed auto

lemma rotate_tries_contract:
  assumes "mono (mw_clock w)" and "0 < nc_idBytes (mg_cfg m)" and "mg_store m = store"
    and "ok s" and "rotate_tries k m c i current (s, w) = (r, s', w')"
  shows "ok s' \<and> mw_clock w' = mw_clock w \<and> mw_reads w \<le> mw_reads w' \<and>
    (case r of
       Inl _ \<Rightarrow> \<forall>t \<ge> last_read w'. view t s' = view t s
     | Inr v \<Rightarrow> validID (ses_ID v) (nc_idBytes (mg_cfg m)) \<and> v = current\<lparr>ses_ID := ses_ID v\<rparr> \<and> mw_reads w < mw_reads w' \<and>
         (\<exists>v'. norm v = Inr v' \<and> ses_ID v' = ses_ID v \<and> view (last_read w') s (digest i) \<noteq> None \<and>
           view (last_read w') s (digest (ses_ID v)) = None \<and>
           (last_read w' < ses_ExpiresAt v' \<longrightarrow> view (last_read w') s' (digest (ses_ID v)) = Some (v'\<lparr>ses_ID := []\<rparr>)) \<and>
           (\<forall>t \<ge> last_read w'. view t s' (digest i) = None) \<and>
           (\<forall>t \<ge> last_read w'. \<forall>d. d \<noteq> digest i \<and> d \<noteq> digest (ses_ID v) \<longrightarrow> view t s' d = view t s d)))"
  using assms(1,4,5)
proof (induction k arbitrary: s w)
  case (Suc k)
  obtain x w1 where new: "newID m w = (x, w1)" by (cases "newID m w")
  show ?case
  proof (cases x)
    case (Inl e)
    with new Suc.prems(2,3) show ?thesis by (auto simp: newID_def Let_def split: if_splits)
  next
    case (Inr j)
    note shape = newID_shape [OF new [unfolded Inr] assms(2)]
    let ?now = "mw_clock w (mw_reads w)" and ?w = "w1\<lparr>mw_reads := Suc (mw_reads w1)\<rparr>" and ?v = "current\<lparr>ses_ID := j\<rparr>"
    have last: "last_read ?w = ?now" using shape by (simp add: last_read_def)
    obtain y s1 where store: "sto_Rotate store ?now c i ?v (nc_idleTTL (mg_cfg m)) s = (y, s1)"
      by (cases "sto_Rotate store ?now c i ?v (nc_idleTTL (mg_cfg m)) s")
    note run = Suc.prems(3) [unfolded rotate_tries.simps new Inr]
    show ?thesis
    proof (cases y)
      case None
      from rotate_done [OF Suc.prems(2) store [unfolded None]] obtain v' where
        v': "ok s1" "norm ?v = Inr v'" "view ?now s (digest i) \<noteq> None" "view ?now s (digest (ses_ID v')) = None"
          "?now < ses_ExpiresAt v' \<longrightarrow> view ?now s1 (digest (ses_ID v')) = Some (v'\<lparr>ses_ID := []\<rparr>)"
          "\<forall>t \<ge> ?now. view t s1 (digest i) = None"
          "\<forall>t \<ge> ?now. \<forall>d. d \<noteq> digest i \<and> d \<noteq> digest (ses_ID v') \<longrightarrow> view t s1 d = view t s d" by blast
      have "ses_ID v' = j" using norm_ID [OF v'(2)] shape by simp
      moreover have "r = Inr ?v" "s' = s1" "w' = ?w"
        using run store shape None by (simp_all add: read_clock_def assms(3))
      ultimately show ?thesis using v' shape last by simp
    next
      case (Some e)
      note keep = rotate_error [OF Suc.prems(2) store [unfolded Some]]
      show ?thesis
      proof (cases "e = ErrAlreadyExists")
        case False
        then have "r = Inl e" "s' = s1" "w' = ?w"
          using run store shape Some by (simp_all add: read_clock_def assms(3))
        with keep shape last show ?thesis by simp
      next
        case True
        then have again: "rotate_tries k m c i current (s1, ?w) = (r, s', w')"
          using run store shape Some by (simp add: read_clock_def assms(3))
        have "mono (mw_clock ?w)" using Suc.prems(1) shape by simp
        note ih = Suc.IH [OF this conjunct1 [OF keep] again]
        have later: "?now \<le> last_read w'" using ih shape by (intro last_read_mono [OF Suc.prems(1)]) simp_all
        then have "view t s1 = view t s" if "last_read w' \<le> t" for t using keep that by simp
        with ih shape show ?thesis by (cases r) auto
      qed
    qed
  qed
qed auto

lemma manager_Rotate_contract:
  assumes bytes: "0 < nc_idBytes (mg_cfg m)" and mine: "mg_store m = store" and ok: "ok s"
    and clock: "mono (mw_clock w)" and run: "manager_Rotate m ctx i (s, w) = (r, s', w')"
  shows "ok s' \<and>
    (case r of
       Inl _ \<Rightarrow> \<forall>t \<ge> last_read w'. view t s' = view t s
     | Inr v \<Rightarrow> \<exists>now current v'. now \<le> last_read w' \<and> view now s (digest i) = Some current \<and>
         v = current\<lparr>ses_ID := ses_ID v\<rparr> \<and> validID (ses_ID v) (nc_idBytes (mg_cfg m)) \<and>
         (\<forall>t \<ge> last_read w'. view t s' (digest i) = None) \<and>
         norm v = Inr v' \<and> ses_ExpiresAt v' \<le> ses_ExpiresAt current \<and>
         (last_read w' < ses_ExpiresAt v' \<longrightarrow> view (last_read w') s' (digest (ses_ID v)) = Some (v'\<lparr>ses_ID := []\<rparr>)) \<and>
         (\<forall>t \<ge> last_read w'. \<forall>d. d \<noteq> digest i \<and> d \<noteq> digest (ses_ID v) \<longrightarrow> view t s' d = view t s d))"
proof (cases "mg_closed m \<or> \<not> validID i (nc_idBytes (mg_cfg m))")
  case True
  with run ok show ?thesis by (auto simp: manager_Rotate_def split: if_splits)
next
  case False
  let ?now = "mw_clock w (mw_reads w)" and ?w = "w\<lparr>mw_reads := Suc (mw_reads w)\<rparr>"
  obtain g s1 where get: "sto_Get (store) ?now ctx i s = (g, s1)" by fastforce
  note keep = get_keeps [OF ok get]
  have last: "last_read ?w = ?now" by (simp add: last_read_def)
  show ?thesis
  proof (cases "\<exists>current. g = Inr (Some current)")
    case False': False
    then have "\<exists>e. r = Inl e" "s' = s1" "w' = ?w"
      using run False get by (auto simp: manager_Rotate_def read_clock_def mine split: sum.splits option.splits)
    with keep last show ?thesis by auto
  next
    case True
    then obtain current where current: "g = Inr (Some current)" by blast
    with run False get have tries: "rotate_tries 4 m ctx i current (s1, ?w) = (r, s', w')"
      by (simp add: manager_Rotate_def read_clock_def mine)
    have "mono (mw_clock ?w)" using clock by simp
    note contract = rotate_tries_contract [OF this bytes mine conjunct1 [OF keep] tries]
    note found = get_found [OF ok get [unfolded current]]
    have later: "?now \<le> last_read w'" using contract by (intro last_read_mono [OF clock]) simp_all
    then have same: "view t s1 = view t s" if "last_read w' \<le> t" for t using keep that by simp
    show ?thesis
    proof (cases r)
      case (Inl e)
      with contract same show ?thesis by auto
    next
      case (Inr v)
      with contract obtain v' where v': "norm v = Inr v'" "v = current\<lparr>ses_ID := ses_ID v\<rparr>"
        "last_read w' < ses_ExpiresAt v' \<longrightarrow> view (last_read w') s' (digest (ses_ID v)) = Some (v'\<lparr>ses_ID := []\<rparr>)"
        by auto
      have expiry: "ses_ExpiresAt v' \<le> ses_ExpiresAt current"
        using norm_expiry [OF v'(1)] v'(2) by (metis Session.select_convs(5) Session.surjective Session.update_convs(1))
      have "v = (current\<lparr>ses_ID := []\<rparr>)\<lparr>ses_ID := ses_ID v\<rparr>" using v'(2) by simp
      with Inr contract same later found v' expiry show ?thesis
        by (intro conjI) (auto intro!: exI [of _ ?now])
    qed
  qed
qed

lemma manager_Create_contract:
  assumes bytes: "0 < nc_idBytes (mg_cfg m)" and mine: "mg_store m = store" and ok: "ok s"
    and clock: "mono (mw_clock w)" and run: "manager_Create env m ctx subject attributes (s, w) = (r, s', w')"
  shows "ok s' \<and> mw_clock w' = mw_clock w \<and>
    (case r of
       Inl _ \<Rightarrow> \<forall>t \<ge> last_read w'. view t s' = view t s
     | Inr v \<Rightarrow> \<exists>v'. ses_Subject v = trim_space subject \<and> normalizeAttributes env attributes = Inr (ses_Attributes v) \<and>
         ses_IssuedAt v \<le> last_read w' \<and> ses_ExpiresAt v = ses_IssuedAt v + nc_ttl (mg_cfg m) \<and>
         validID (ses_ID v) (nc_idBytes (mg_cfg m)) \<and> norm v = Inr v' \<and>
         view (last_read w') s (digest (ses_ID v)) = None \<and>
         view (last_read w') s' (digest (ses_ID v)) = Some (v'\<lparr>ses_ID := []\<rparr>) \<and>
         (\<forall>t \<ge> last_read w'. \<forall>d. d \<noteq> digest (ses_ID v) \<longrightarrow> view t s' d = view t s d))"
proof (cases "mg_closed m \<or> contextError ctx \<noteq> None \<or> trim_space subject = [] \<or> isl (normalizeAttributes env attributes)")
  case True
  with run ok show ?thesis by (auto simp: manager_Create_def Let_def split: if_splits option.splits sum.splits)
next
  case False
  let ?now = "mw_clock w (mw_reads w)" and ?w = "w\<lparr>mw_reads := Suc (mw_reads w)\<rparr>"
  obtain a where a: "normalizeAttributes env attributes = Inr a" using False by (cases "normalizeAttributes env attributes") auto
  define build where "build i = \<lparr>ses_ID = i, ses_Subject = trim_space subject, ses_Attributes = a,
      ses_IssuedAt = time_Truncate millisecond ?now, ses_ExpiresAt = time_Truncate millisecond ?now + nc_ttl (mg_cfg m)\<rparr>" for i
  have tries: "create_tries 4 m ctx build (s, ?w) = (r, s', w')"
    using run False a by (simp add: manager_Create_def read_clock_def Let_def build_def [abs_def])
  have "mono (mw_clock ?w)" "\<forall>i. ses_ID (build i) = i" using clock by (simp_all add: build_def)
  note contract = create_tries_contract [OF this(1) bytes mine this(2) ok tries]
  have "?now \<le> last_read w'" using contract by (intro last_read_mono [OF clock]) simp_all
  then have issued: "time_Truncate millisecond ?now \<le> last_read w'"
    by (simp add: time_Truncate_def millisecond_def order_trans [rotated])
  show ?thesis
  proof (cases r)
    case (Inr v)
    with contract have v: "v = build (ses_ID v)" by simp
    from contract Inr obtain v' where "norm v = Inr v'" "view (last_read w') s (digest (ses_ID v)) = None"
        "view (last_read w') s' (digest (ses_ID v)) = Some (v'\<lparr>ses_ID := []\<rparr>)" by auto
    moreover have "ses_Subject v = trim_space subject \<and> ses_Attributes v = a \<and> ses_IssuedAt v = time_Truncate millisecond ?now \<and>
        ses_ExpiresAt v = time_Truncate millisecond ?now + nc_ttl (mg_cfg m)"
      by (subst (1 2 3 4) v) (simp add: build_def)
    ultimately show ?thesis using contract Inr issued a by auto
  qed (use contract in auto)
qed

text \<open>An identifier is accepted exactly when it is well formed and names a live session.\<close>

lemma Authenticate_contract:
  assumes mine: "mg_store (pl_manager p) = store" and ok: "ok s"
    and ttl: "0 < nc_idleTTL (pl_config p)" and mi: "0 \<le> nc_touchInterval (pl_config p)"
    and run: "Authenticate p CtxLive (Some i) (s, w) = (a, s', w')" and now: "now = mw_clock w (mw_reads w)"
  shows "ok s' \<and> view now s' = view now s \<and>
    a = Some (if mg_closed (pl_manager p) \<or> \<not> validID i (nc_idBytes (pl_config p)) then Rejected reasonInvalidCredential
      else (case view now s (digest i) of None \<Rightarrow> Rejected reasonInvalidCredential | Some v \<Rightarrow> Accepted (principal_of i v)))"
proof (cases "mg_closed (pl_manager p) \<or> \<not> validID i (nc_idBytes (pl_config p))")
  case True
  with run ok show ?thesis by (auto simp: Authenticate_def split: if_splits)
next
  case False
  then have nonempty: "i \<noteq> []" by (auto simp: validID_def)
  obtain t s1 where touch: "sto_Touch store now CtxLive i (nc_idleTTL (pl_config p)) (nc_touchInterval (pl_config p)) s = (t, s1)"
    by fastforce
  note keep = touch_keeps [OF ok touch]
  show ?thesis
  proof (cases "view now s (digest i)")
    case None
    then have "\<nexists>v. t = Inr (Some v)" using touch_found [OF ok] touch by fastforce
    then have "a = Some (Rejected reasonInvalidCredential)" "s' = s1"
      using run False touch by (auto simp: Authenticate_def read_clock_def mine now split: sum.splits option.splits)
    with keep None False show ?thesis by simp
  next
    case (Some v)
    have "t = Inr (Some (v\<lparr>ses_ID := i\<rparr>))" using touch_live [OF ok Some nonempty ttl mi] touch by simp
    with run False touch have "a = Some (Accepted (principal_of i v))" "s' = s1"
      by (auto simp: Authenticate_def read_clock_def mine now principal_of_def)
    with keep Some False show ?thesis by simp
  qed
qed

end

text \<open>The memory store has the live records of its table.\<close>

definition memory_view :: "time \<Rightarrow> MemoryStore \<Rightarrow> string \<Rightarrow> Session option" where
  "memory_view now s d = map_option mr_value (abs_table now s d)"

lemma view_later:
  assumes "now \<le> t" and "abs_table now s' d = abs_table now s d"
  shows "memory_view t s' d = memory_view t s d"
proof -
  have "abs_table t s d = expire t (abs_table now s) d" for s :: MemoryStore
    using assms(1) by (simp add: abs_table_def expire_expire)
  with assms(2) show ?thesis by (simp add: memory_view_def expire_def)
qed

lemma view_None_later: "now \<le> t \<Longrightarrow> abs_table now s d = None \<Longrightarrow> memory_view t s d = None"
  using live_antimono [of t _ now] by (auto simp: memory_view_def abs_table_def expire_def split: option.splits)

text \<open>An operation that leaves the table at its instant leaves every later one.\<close>

lemma view_same: "abs_table now s' = abs_table now s \<Longrightarrow> \<forall>t \<ge> now. memory_view t s' = memory_view t s"
  by (metis ext view_later)

lemma view_stored:
  assumes "index_ok s" and "abs_table now s d = Some r" and "v = (mr_value r)\<lparr>ses_ID := i\<rparr>"
  shows "memory_view now s d = Some (v\<lparr>ses_ID := []\<rparr>) \<and> ses_ID v = i"
proof -
  have "ses_ID (mr_value r) = []"
    using index_okD(4) [OF assms(1), of d r] assms(2) by (simp add: abs_table_def expire_Some)
  then show ?thesis using assms by (simp add: memory_view_def)
qed

lemma normalizeSession_ID: "normalizeSession env v = Inr v' \<Longrightarrow> ses_ID v' = trim_space (ses_ID v)"
  by (auto simp: normalizeSession_def Let_def split: if_splits sum.splits)

text \<open>Normalising rounds the expiry down.\<close>

lemma normalizeSession_expiry: "normalizeSession env v = Inr v' \<Longrightarrow> ses_ExpiresAt v' \<le> ses_ExpiresAt v"
  by (auto simp: normalizeSession_def Let_def time_Truncate_def millisecond_def split: if_splits sum.splits)

lemma memory_get:
  assumes "index_ok s" and "MemoryStore_Get env now c i s = (r, s')"
  shows "index_ok s' \<and> (\<forall>t \<ge> now. memory_view t s' = memory_view t s)"
    and "r = Inr (Some v) \<Longrightarrow> memory_view now s (IDDigest env i) = Some (v\<lparr>ses_ID := []\<rparr>) \<and> ses_ID v = i"
proof -
  note spec = MemoryStore_Get_refines [OF assms]
  then show "index_ok s' \<and> (\<forall>t \<ge> now. memory_view t s' = memory_view t s)" using view_same by blast
  assume "r = Inr (Some v)"
  with spec have "spec_get env c i (abs_table now s) (ms_stopped s) = Inr (Some v)" by simp
  then obtain q where "abs_table now s (IDDigest env i) = Some q" "v = (mr_value q)\<lparr>ses_ID := i\<rparr>"
    by (auto simp: spec_get_def split: option.splits if_splits)
  with assms(1) show "memory_view now s (IDDigest env i) = Some (v\<lparr>ses_ID := []\<rparr>) \<and> ses_ID v = i" by (rule view_stored)
qed

lemma memory_touch:
  assumes "index_ok s" and "Touch env now c i ttl mi s = (r, s')"
  shows "index_ok s' \<and> memory_view now s' = memory_view now s"
    and "r = Inr (Some v) \<Longrightarrow> memory_view now s (IDDigest env i) = Some (v\<lparr>ses_ID := []\<rparr>) \<and> ses_ID v = i"
proof -
  note spec = Touch_refines [OF assms]
  have value_same: "mr_value (renew now ttl mi q) = mr_value q" for q by (simp add: renew_def)
  from spec have "abs_table now s' = snd (spec_touch env now c i ttl mi (abs_table now s) (ms_stopped s))" by simp
  then have "map_option mr_value (abs_table now s' d) = map_option mr_value (abs_table now s d)" for d
    by (auto simp: spec_touch_def option.map_comp comp_def value_same split: option.splits if_splits)
  then have "memory_view now s' = memory_view now s" by (simp add: memory_view_def fun_eq_iff)
  with spec show "index_ok s' \<and> memory_view now s' = memory_view now s" by blast
  assume "r = Inr (Some v)"
  with spec obtain q where "abs_table now s (IDDigest env i) = Some q" "v = (mr_value q)\<lparr>ses_ID := i\<rparr>"
    by (auto simp: spec_touch_def split: option.splits if_splits)
  with assms(1) show "memory_view now s (IDDigest env i) = Some (v\<lparr>ses_ID := []\<rparr>) \<and> ses_ID v = i" by (rule view_stored)
qed

lemma memory_touch_live:
  assumes "index_ok s" and "memory_view now s (IDDigest env i) = Some v" and "i \<noteq> []" and "0 < ttl" and "0 \<le> mi"
  shows "fst (Touch env now CtxLive i ttl mi s) = Inr (Some (v\<lparr>ses_ID := i\<rparr>))"
proof -
  obtain r s' where run: "Touch env now CtxLive i ttl mi s = (r, s')" by fastforce
  obtain q where q: "abs_table now s (IDDigest env i) = Some q" "v = mr_value q" using assms(2) by (auto simp: memory_view_def)
  then have "gm_get (ms_records s) (IDDigest env i) = Some q" by (simp add: abs_table_def expire_Some)
  then have "\<not> ms_stopped s" using index_okD(5) [OF assms(1)] by (metis map_of.simps(1) option.distinct(1))
  with Touch_refines [OF assms(1) run] q assms(3-5) show ?thesis by (simp add: run spec_touch_def)
qed

lemma memory_create:
  assumes "index_ok s" and "Create env now c v ttl s = (r, s')"
  shows "r = Some e \<Longrightarrow> index_ok s' \<and> (\<forall>t \<ge> now. memory_view t s' = memory_view t s)"
    and "r = None \<Longrightarrow> index_ok s' \<and> (\<exists>v'. normalizeSession env v = Inr v' \<and> memory_view now s (IDDigest env (ses_ID v')) = None \<and>
        memory_view now s' (IDDigest env (ses_ID v')) = Some (v'\<lparr>ses_ID := []\<rparr>) \<and>
        (\<forall>t \<ge> now. \<forall>d. d \<noteq> IDDigest env (ses_ID v') \<longrightarrow> memory_view t s' d = memory_view t s d))"
proof -
  note spec = Create_refines [OF assms]
  {
    assume "r = Some e"
    with spec have "abs_table now s' = abs_table now s"
      by (auto simp: spec_create_def split: option.splits sum.splits if_splits)
    with spec view_same show "index_ok s' \<and> (\<forall>t \<ge> now. memory_view t s' = memory_view t s)" by blast
  }
  assume "r = None"
  with spec obtain v' where v': "normalizeSession env v = Inr v'" "abs_table now s (IDDigest env (ses_ID v')) = None"
      "abs_table now s' = (abs_table now s)(IDDigest env (ses_ID v') \<mapsto> store_record now ttl (v'\<lparr>ses_ID := []\<rparr>))"
    by (auto simp: spec_create_def split: option.splits sum.splits if_splits)
  have rest: "abs_table now s' d = abs_table now s d" if "d \<noteq> IDDigest env (ses_ID v')" for d
    using that by (simp add: v'(3))
  from v' show "index_ok s' \<and> (\<exists>v'. normalizeSession env v = Inr v' \<and> memory_view now s (IDDigest env (ses_ID v')) = None \<and>
        memory_view now s' (IDDigest env (ses_ID v')) = Some (v'\<lparr>ses_ID := []\<rparr>) \<and>
        (\<forall>t \<ge> now. \<forall>d. d \<noteq> IDDigest env (ses_ID v') \<longrightarrow> memory_view t s' d = memory_view t s d))"
    using spec view_later [OF _ rest] by (intro conjI exI [of _ v'] allI impI) (simp_all add: memory_view_def)
qed

lemma memory_rotate:
  assumes "index_ok s" and "Rotate env now c i v ttl s = (r, s')"
  shows "r = Some e \<Longrightarrow> index_ok s' \<and> (\<forall>t \<ge> now. memory_view t s' = memory_view t s)"
    and "r = None \<Longrightarrow> index_ok s' \<and> (\<exists>v'. normalizeSession env v = Inr v' \<and> memory_view now s (IDDigest env i) \<noteq> None \<and>
        memory_view now s (IDDigest env (ses_ID v')) = None \<and>
        (now < ses_ExpiresAt v' \<longrightarrow> memory_view now s' (IDDigest env (ses_ID v')) = Some (v'\<lparr>ses_ID := []\<rparr>)) \<and>
        (\<forall>t \<ge> now. memory_view t s' (IDDigest env i) = None) \<and>
        (\<forall>t \<ge> now. \<forall>d. d \<noteq> IDDigest env i \<and> d \<noteq> IDDigest env (ses_ID v') \<longrightarrow> memory_view t s' d = memory_view t s d))"
proof -
  note spec = Rotate_refines [OF assms]
  {
    assume "r = Some e"
    with spec have "abs_table now s' = abs_table now s"
      by (auto simp: spec_rotate_def split: option.splits sum.splits if_splits)
    with spec view_same show "index_ok s' \<and> (\<forall>t \<ge> now. memory_view t s' = memory_view t s)" by blast
  }
  let ?o = "IDDigest env i" and ?r = "\<lambda>v'. store_record now ttl (v'\<lparr>ses_ID := []\<rparr>)"
  assume "r = None"
  with spec obtain v' where v': "normalizeSession env v = Inr v'" "0 < ttl" "abs_table now s ?o \<noteq> None"
      "abs_table now s (IDDigest env (ses_ID v')) = None"
      "abs_table now s' = expire now ((abs_table now s)(?o := None, IDDigest env (ses_ID v') \<mapsto> ?r v'))"
    by (auto simp: spec_rotate_def split: option.splits sum.splits if_splits)
  let ?n = "IDDigest env (ses_ID v')"
  have ne: "?o \<noteq> ?n" using v'(3,4) by metis
  have old: "abs_table now s' ?o = None" using ne by (simp add: v'(5) expire_None)
  have new: "memory_view now s' ?n = Some (v'\<lparr>ses_ID := []\<rparr>)" if "now < ses_ExpiresAt v'"
    using that v'(2) by (simp add: memory_view_def v'(5) expire_def store_record_live)
  have rest: "abs_table now s' d = abs_table now s d" if "d \<noteq> ?o" "d \<noteq> ?n" for d
    using that fun_cong [OF abs_idem [of now s], of d] by (simp add: v'(5) expire_def)
  show "index_ok s' \<and> (\<exists>v'. normalizeSession env v = Inr v' \<and> memory_view now s ?o \<noteq> None \<and>
        memory_view now s (IDDigest env (ses_ID v')) = None \<and>
        (now < ses_ExpiresAt v' \<longrightarrow> memory_view now s' (IDDigest env (ses_ID v')) = Some (v'\<lparr>ses_ID := []\<rparr>)) \<and>
        (\<forall>t \<ge> now. memory_view t s' ?o = None) \<and>
        (\<forall>t \<ge> now. \<forall>d. d \<noteq> ?o \<and> d \<noteq> IDDigest env (ses_ID v') \<longrightarrow> memory_view t s' d = memory_view t s d))"
    using spec v' new view_None_later [OF _ old] view_later [OF _ rest]
    by (intro conjI exI [of _ v'] allI impI) (simp_all add: memory_view_def)
qed

lemma memory_delete:
  assumes "index_ok s" and "Delete env c i s = (r, s')"
  shows "index_ok s' \<and> (\<forall>t \<ge> now. \<forall>d. d \<noteq> IDDigest env i \<longrightarrow> memory_view t s' d = memory_view t s d)"
    and "r = None \<Longrightarrow> i \<noteq> [] \<Longrightarrow> \<forall>t \<ge> now. memory_view t s' (IDDigest env i) = None"
proof -
  note spec = Delete_refines [OF assms, of now]
  then have table: "abs_table now s' = snd (spec_delete env c i (abs_table now s) (ms_stopped s))" by simp
  then have "d \<noteq> IDDigest env i \<Longrightarrow> abs_table now s' d = abs_table now s d" for d
    by (auto simp: spec_delete_def split: option.splits if_splits)
  with spec show "index_ok s' \<and> (\<forall>t \<ge> now. \<forall>d. d \<noteq> IDDigest env i \<longrightarrow> memory_view t s' d = memory_view t s d)"
    by (blast intro: view_later)
  assume "r = None" "i \<noteq> []"
  with spec table have "abs_table now s' (IDDigest env i) = None"
    by (auto simp: spec_delete_def split: option.splits if_splits)
  then show "\<forall>t \<ge> now. memory_view t s' (IDDigest env i) = None" by (simp add: view_None_later)
qed

interpretation memory: session_store "memory_Store env" index_ok memory_view "IDDigest env" "normalizeSession env"
  for env
proof (unfold_locales, unfold memory_Store_def Store.simps)
qed (rule normalizeSession_ID normalizeSession_expiry memory_get memory_touch memory_touch_live memory_create memory_rotate memory_delete; (assumption | rule refl))+

section \<open>The manager on a memory store\<close>

lemma config_bytes: "normalizeConfig c = Inr n \<Longrightarrow> 0 < nc_idBytes n"
  using normalizeConfig_ok by (fastforce simp: config_ok_def)

section \<open>A concrete plugin\<close>

text \<open>The default configuration on a memory store, a clock of one reading a second, and random bytes for three tries.\<close>

definition sample_config :: normalizedConfig where
  "sample_config =
     \<lparr>nc_backend = ''memory'', nc_redisInstance = ''default'', nc_redisPrefix = ''xbc:session:'', nc_name = ''xbc_session'',
      nc_path = ''/'', nc_domain = [], nc_httpOnly = True, nc_secure = True, nc_sameSite = SameSiteLaxMode,
      nc_ttl = 24 * hour, nc_idleTTL = 30 * minute, nc_touchInterval = 5 * minute, nc_cleanupInterval = minute,
      nc_operationTimeout = 2 * second, nc_idBytes = 32\<rparr>"

definition sample_plugin :: "MemoryStore Plugin" where
  "sample_plugin = newPlugin sample_config (memory_Store plain_env) True"

definition sample_ms :: world_ms where
  "sample_ms = \<lparr>mw_clock = (\<lambda>n. second + int n * second), mw_reads = 0, mw_random = map char_of [0 ..< (96 :: nat)]\<rparr>"

definition empty_store :: MemoryStore where
  "empty_store = \<lparr>ms_records = [], ms_index = [], ms_stopped = False\<rparr>"

definition sample_login :: "(session_error, Session) result \<times> MemoryStore \<times> world_ms" where
  "sample_login = manager_Create plain_env (pl_manager sample_plugin) CtxLive '' ann'' None (empty_store, sample_ms)"

definition sample_ID :: string where
  "sample_ID = EncodeToString (map char_of [0 ..< (32 :: nat)])"

lemma sample_config: "normalizeConfig DefaultConfig = Inr (mg_cfg (pl_manager sample_plugin))"
  "normalizeConfig DefaultConfig = Inr (pl_config sample_plugin)"
proof -
  have "normalizeConfig DefaultConfig = Inr sample_config" by code_simp
  then show "normalizeConfig DefaultConfig = Inr (mg_cfg (pl_manager sample_plugin))"
    "normalizeConfig DefaultConfig = Inr (pl_config sample_plugin)" by (simp_all add: sample_plugin_def newPlugin_def)
qed

lemma sample_store_wired: "mg_store (pl_manager sample_plugin) = memory_Store plain_env" "mono (mw_clock sample_ms)"
  "index_ok empty_store"
  by (simp_all add: sample_plugin_def newPlugin_def sample_ms_def mono_def second_def empty_store_def index_ok_def gm_list_def)

lemma sample_login_ok: "index_ok (fst (snd sample_login))"
proof -
  obtain r s' w' where run: "sample_login = (r, s', w')" by (cases sample_login) auto
  from memory.manager_Create_contract [OF config_bytes [OF sample_config(1)] sample_store_wired(1,3,2) run [unfolded sample_login_def]]
  show ?thesis by (simp add: run)
qed

lemma sample_login_clock: "mw_clock (snd (snd sample_login)) = mw_clock sample_ms"
proof -
  obtain r s' w' where run: "sample_login = (r, s', w')" by (cases sample_login) auto
  from memory.manager_Create_contract [OF config_bytes [OF sample_config(1)] sample_store_wired(1,3,2) run [unfolded sample_login_def]]
  show ?thesis by (simp add: run)
qed

text \<open>
  C34. Rotation keeps the absolute lifetime and retires the old identifier. When \<^verbatim>\<open>Rotate\<close> succeeds, the
  session it returns is the live session of the old identifier under a fresh, well-formed one, with
  the same subject, attributes, issue time and expiry; from then on the old identifier resolves to
  nothing, the new one resolves to the session until it expires, no later than the original one, and
  no other session is touched. When it fails, every live session is as before.
\<close>

theorem manager_Rotate_rotates:
  assumes config: "normalizeConfig c = Inr (mg_cfg m)" and store: "mg_store m = memory_Store env" and ok: "index_ok s"
    and clock: "mono (mw_clock w)" and run: "manager_Rotate m ctx i (s, w) = (r, s', w')"
  shows "index_ok s' \<and>
    (case r of
       Inl _ \<Rightarrow> \<forall>t \<ge> last_read w'. memory_view t s' = memory_view t s
     | Inr v \<Rightarrow> \<exists>now current v'. now \<le> last_read w' \<and> memory_view now s (IDDigest env i) = Some current \<and>
         v = current\<lparr>ses_ID := ses_ID v\<rparr> \<and> validID (ses_ID v) (nc_idBytes (mg_cfg m)) \<and>
         (\<forall>t \<ge> last_read w'. memory_view t s' (IDDigest env i) = None) \<and>
         normalizeSession env v = Inr v' \<and> ses_ExpiresAt v' \<le> ses_ExpiresAt current \<and>
         (last_read w' < ses_ExpiresAt v' \<longrightarrow> memory_view (last_read w') s' (IDDigest env (ses_ID v)) = Some (v'\<lparr>ses_ID := []\<rparr>)) \<and>
         (\<forall>t \<ge> last_read w'. \<forall>d. d \<noteq> IDDigest env i \<and> d \<noteq> IDDigest env (ses_ID v) \<longrightarrow> memory_view t s' d = memory_view t s d))"
  using memory.manager_Rotate_contract [OF config_bytes [OF config] store ok clock run] .

theorem manager_Rotate_rotates_witness:
  "\<exists>v s' w'. manager_Rotate (pl_manager sample_plugin) CtxLive sample_ID (snd sample_login) = (Inr v, s', w') \<and>
     ses_Subject v = ''ann'' \<and> memory_view (last_read w') s' (IDDigest plain_env sample_ID) = None \<and>
     validID (ses_ID v) 32"
proof -
  let ?run = "manager_Rotate (pl_manager sample_plugin) CtxLive sample_ID (snd sample_login)"
  have "(case fst ?run of Inr v \<Rightarrow> ses_Subject v = ''ann'' | Inl _ \<Rightarrow> False)" by code_simp
  then obtain v s' w' where run: "?run = (Inr v, s', w')" "ses_Subject v = ''ann''"
    by (cases ?run) (auto split: sum.splits)
  have clock: "mono (mw_clock (snd (snd sample_login)))" by (simp add: sample_login_clock sample_store_wired(2))
  from manager_Rotate_rotates [OF sample_config(1) sample_store_wired(1) sample_login_ok clock] run(1)
  have "memory_view (last_read w') s' (IDDigest plain_env sample_ID) = None \<and> validID (ses_ID v) 32"
    by (fastforce simp: sample_plugin_def newPlugin_def sample_config_def)
  with run show ?thesis by blast
qed

text \<open>
  A fresh identifier is well formed and determines its random bytes: the decoder returns
  from an encoding exactly the bytes that were encoded, and every identifier that \<^verbatim>\<open>newID\<close> hands out
  under an accepted configuration passes \<^verbatim>\<open>validID\<close> and decodes to the bytes read from the source,
  which has moved past them.
\<close>

lemma newID_roundtrip:
  assumes "normalizeConfig c = Inr (mg_cfg m)" and "newID m w = (Inr i, w')"
  shows "DecodeString (EncodeToString raw) = Some raw \<and> validID i (nc_idBytes (mg_cfg m)) \<and>
    (\<exists>bytes. DecodeString i = Some bytes \<and> int (length bytes) = nc_idBytes (mg_cfg m) \<and> mw_random w = bytes @ mw_random w')"
proof -
  have "0 < nc_idBytes (mg_cfg m)" using normalizeConfig_ok [OF assms(1)] by (simp add: config_ok_def)
  with newID_shape [OF assms(2)] assms(2) show ?thesis
    by (auto simp: Decode_Encode newID_def Let_def split: if_splits)
qed

lemma newID_roundtrip_example:
  "DecodeString sample_ID = Some (map char_of [0 ..< (32 :: nat)]) \<and> validID sample_ID 32"
proof -
  have new: "newID (pl_manager sample_plugin) sample_ms = (Inr sample_ID, sample_ms\<lparr>mw_random := drop 32 (mw_random sample_ms)\<rparr>)"
    unfolding newID_def sample_plugin_def newPlugin_def sample_config_def sample_ms_def sample_ID_def
    by (simp add: Let_def take_map)
  from newID_roundtrip [OF sample_config(1) this, of "map char_of [0 ..< (32 :: nat)]"] show ?thesis
    by (simp add: sample_ID_def sample_plugin_def newPlugin_def sample_config_def)
qed

text \<open>
  C37. Creation never takes over a live session. When \<^verbatim>\<open>Create\<close> succeeds, the session has the trimmed
  subject, the normalised attributes, and an expiry one absolute lifetime after its issue; its
  identifier is well formed, was not in use, and now resolves to the session; no other session is
  touched. When it fails, every live session is as before.
\<close>

theorem manager_Create_creates:
  assumes config: "normalizeConfig c = Inr (mg_cfg m)" and store: "mg_store m = memory_Store env" and ok: "index_ok s"
    and clock: "mono (mw_clock w)" and run: "manager_Create env m ctx subject attributes (s, w) = (r, s', w')"
  shows "index_ok s' \<and>
    (case r of
       Inl _ \<Rightarrow> \<forall>t \<ge> last_read w'. memory_view t s' = memory_view t s
     | Inr v \<Rightarrow> \<exists>v'. ses_Subject v = trim_space subject \<and> normalizeAttributes env attributes = Inr (ses_Attributes v) \<and>
         ses_IssuedAt v \<le> last_read w' \<and> ses_ExpiresAt v = ses_IssuedAt v + nc_ttl (mg_cfg m) \<and>
         validID (ses_ID v) (nc_idBytes (mg_cfg m)) \<and> normalizeSession env v = Inr v' \<and>
         memory_view (last_read w') s (IDDigest env (ses_ID v)) = None \<and>
         memory_view (last_read w') s' (IDDigest env (ses_ID v)) = Some (v'\<lparr>ses_ID := []\<rparr>) \<and>
         (\<forall>t \<ge> last_read w'. \<forall>d. d \<noteq> IDDigest env (ses_ID v) \<longrightarrow> memory_view t s' d = memory_view t s d))"
  using memory.manager_Create_contract [OF config_bytes [OF config] store ok clock run] by blast

theorem manager_Create_creates_witness:
  "\<exists>v. fst sample_login = Inr v \<and> ses_Subject v = ''ann'' \<and>
     memory_view (last_read (snd (snd sample_login))) empty_store (IDDigest plain_env (ses_ID v)) = None"
proof -
  have "(case fst sample_login of Inr v \<Rightarrow> True | Inl _ \<Rightarrow> False)" by code_simp
  then obtain v s' w' where run: "sample_login = (Inr v, s', w')"
    by (cases "fst sample_login") (auto simp: prod_eq_iff)
  have "trim_space '' ann'' = ''ann''" by code_simp
  with manager_Create_creates [OF sample_config(1) sample_store_wired(1,3,2) run [unfolded sample_login_def]]
  have "ses_Subject v = ''ann'' \<and> memory_view (last_read w') empty_store (IDDigest plain_env (ses_ID v)) = None" by auto
  then show ?thesis by (simp add: run)
qed

text \<open>
  C38. Authentication answers exactly for the live sessions: a credential is accepted if and only
  if the manager is open, the identifier is well formed and its digest names a session that is live
  at that instant, and the principal is that session's; every other credential gets the same single
  reason. Whatever the answer, no session is gained or lost.
\<close>

theorem Authenticate_live:
  assumes "normalizeConfig c = Inr (pl_config p)" and "mg_store (pl_manager p) = memory_Store env" and "index_ok s"
    and "Authenticate p CtxLive (Some i) (s, w) = (a, s', w')" and "now = mw_clock w (mw_reads w)"
  shows "index_ok s' \<and> memory_view now s' = memory_view now s \<and>
    a = Some (if mg_closed (pl_manager p) \<or> \<not> validID i (nc_idBytes (pl_config p)) then Rejected reasonInvalidCredential
      else (case memory_view now s (IDDigest env i) of
              None \<Rightarrow> Rejected reasonInvalidCredential | Some v \<Rightarrow> Accepted (principal_of i v)))"
proof -
  have "0 < nc_idleTTL (pl_config p)" "0 \<le> nc_touchInterval (pl_config p)"
    using normalizeConfig_ok [OF assms(1)] by (simp_all add: config_ok_def)
  from memory.Authenticate_contract [OF assms(2,3) this assms(4,5)] show ?thesis .
qed

theorem Authenticate_live_witness:
  "fst (Authenticate sample_plugin CtxLive (Some sample_ID) (snd sample_login)) =
     Some (Accepted \<lparr>pr_Subject = ''ann'', pr_AuthMethod = ''session'', pr_Attributes = [(''session_id'', CString sample_ID)]\<rparr>)"
proof -
  let ?w = "snd (snd sample_login)"
  have view: "map_option (principal_of sample_ID)
      (memory_view (mw_clock ?w (mw_reads ?w)) (fst (snd sample_login)) (IDDigest plain_env sample_ID)) =
      Some \<lparr>pr_Subject = ''ann'', pr_AuthMethod = ''session'', pr_Attributes = [(''session_id'', CString sample_ID)]\<rparr>"
    unfolding memory_view_def abs_table_def expire_def by code_simp
  have served: "\<not> (mg_closed (pl_manager sample_plugin) \<or> \<not> validID sample_ID (nc_idBytes (pl_config sample_plugin)))" by code_simp
  obtain s0 w0 where st: "snd sample_login = (s0, w0)" by (cases "snd sample_login")
  obtain a s' w' where run: "Authenticate sample_plugin CtxLive (Some sample_ID) (s0, w0) = (a, s', w')"
    by (cases "Authenticate sample_plugin CtxLive (Some sample_ID) (s0, w0)")
  have ok: "index_ok s0" using sample_login_ok by (simp add: st)
  from view obtain v where v: "memory_view (mw_clock w0 (mw_reads w0)) s0 (IDDigest plain_env sample_ID) = Some v"
    "principal_of sample_ID v =
      \<lparr>pr_Subject = ''ann'', pr_AuthMethod = ''session'', pr_Attributes = [(''session_id'', CString sample_ID)]\<rparr>"
    by (auto simp: st)
  from Authenticate_live [OF sample_config(2) sample_store_wired(1) ok run refl] served v have
    "a = Some (Accepted \<lparr>pr_Subject = ''ann'', pr_AuthMethod = ''session'', pr_Attributes = [(''session_id'', CString sample_ID)]\<rparr>)"
    by (simp only: if_False option.case)
  then show ?thesis by (simp add: st run)
qed

end
