(* ===== verification/Rbac.thy ===== *)
theory Rbac
  imports Sessions
begin

text \<open>
  The business RBAC manager, \<^verbatim>\<open>extensions/authorization/rbac\<close>: its configuration, the normalisation of
  its inputs, the administrator rule and the decisions it takes over a policy backend.
  \<^item> A backend is the record of its operations, as the interface of \<^verbatim>\<open>types.go\<close>; queries read the state
    of the backend, mutations change it. The policy engine behind it is not part of the manager.
  \<^item> A context may end at any moment: it is nil, or it passes a number of checks and then fails, or it
    never ends. Each check of the code uses one up.
\<close>

section \<open>Types\<close>

datatype Permission = Permission (Object: string) (Action: string)

record Capabilities =
  cap_RequestFields :: int
  cap_PolicyFields :: int
  cap_GroupingFields :: int
  cap_Mutable :: bool
  cap_FilteredPolicyReplace :: bool

datatype rbac_ctx = NilCtx | EndsAfter nat | NeverEnds

datatype rbac_error =
    InvalidInput string
  | ContextEnded
  | NilBackend identity
  | IncompatibleBackend identity Capabilities
  | BackendFailed identity string
  | EmptyRoleAt identity nat
  | EmptyObjectAt identity nat
  | PluginWhitespace | BadPluginName identifier_error
  | InstanceWhitespace | BadInstanceName identifier_error
  | EmptyAdminRole

record 'b Backend =
  be_Capabilities :: Capabilities
  be_Authorize :: "string \<Rightarrow> Permission \<Rightarrow> 'b \<Rightarrow> (string, bool) result"
  be_HasRole :: "string \<Rightarrow> string \<Rightarrow> 'b \<Rightarrow> (string, bool) result"
  be_Roles :: "string \<Rightarrow> 'b \<Rightarrow> (string, string list) result"
  be_RolePermissions :: "string \<Rightarrow> 'b \<Rightarrow> (string, Permission list) result"
  be_ReplaceSubjectRoles :: "string \<Rightarrow> string list \<Rightarrow> 'b \<Rightarrow> (bool \<times> string option) \<times> 'b"
  be_ReplaceRolePermissions :: "string \<Rightarrow> Permission list \<Rightarrow> 'b \<Rightarrow> (bool \<times> string option) \<times> 'b"
  be_DeleteSubject :: "string \<Rightarrow> 'b \<Rightarrow> (bool \<times> string option) \<times> 'b"
  be_DeleteRole :: "string \<Rightarrow> 'b \<Rightarrow> (bool \<times> string option) \<times> 'b"

section \<open>Configuration\<close>

record ProviderRef =
  prv_Plugin :: string
  prv_Instance :: string

record rbac_Config =
  rc_Backend :: ProviderRef
  rc_AdminRole :: string

record rbac_normalizedConfig =
  rn_backend :: identity
  rn_adminRole :: string

definition defaultBackendPlugin :: string where "defaultBackendPlugin = ''casbin''"
definition defaultAdminRole :: string where "defaultAdminRole = ''admin''"

definition rbac_DefaultConfig :: rbac_Config where
  "rbac_DefaultConfig =
     \<lparr>rc_Backend = \<lparr>prv_Plugin = defaultBackendPlugin, prv_Instance = DefaultInstance\<rparr>, rc_AdminRole = defaultAdminRole\<rparr>"

definition rbac_normalizeConfig :: "rbac_Config \<Rightarrow> (rbac_error, rbac_normalizedConfig) result" where
  "rbac_normalizeConfig c =
     (let backendPlugin = prv_Plugin (rc_Backend c) in
      if trim_space backendPlugin \<noteq> backendPlugin then Inl PluginWhitespace
      else
        let backendPlugin = (if backendPlugin = [] then defaultBackendPlugin else backendPlugin) in
        (case Key_Validate backendPlugin of
           Some e \<Rightarrow> Inl (BadPluginName e)
         | None \<Rightarrow>
             let backendInstance = prv_Instance (rc_Backend c) in
             if trim_space backendInstance \<noteq> backendInstance then Inl InstanceWhitespace
             else
               let backendInstance = NormalizeInstance backendInstance in
               (case ValidateInstanceName backendInstance of
                  Some e \<Rightarrow> Inl (BadInstanceName e)
                | None \<Rightarrow>
                    if rc_AdminRole c = [] then
                      Inr \<lparr>rn_backend = Identity backendPlugin backendInstance, rn_adminRole = defaultAdminRole\<rparr>
                    else if trim_space (rc_AdminRole c) = [] then Inl EmptyAdminRole
                    else Inr \<lparr>rn_backend = Identity backendPlugin backendInstance, rn_adminRole = trim_space (rc_AdminRole c)\<rparr>)))"

definition rbac_Validate :: "rbac_Config \<Rightarrow> rbac_error option" where
  "rbac_Validate c = (case rbac_normalizeConfig c of Inl e \<Rightarrow> Some e | Inr _ \<Rightarrow> None)"

definition rbac_prepareConfig :: "rbac_Config \<Rightarrow> (rbac_error, rbac_Config) result" where
  "rbac_prepareConfig c =
     (case rbac_normalizeConfig c of
        Inl e \<Rightarrow> Inl e
      | Inr n \<Rightarrow> Inr \<lparr>rc_Backend = \<lparr>prv_Plugin = Plugin (rn_backend n), prv_Instance = Instance (rn_backend n)\<rparr>,
                     rc_AdminRole = rn_adminRole n\<rparr>)"

section \<open>Normalisation of inputs\<close>

definition normalizeRequiredInput :: "string \<Rightarrow> string \<Rightarrow> (rbac_error, string) result" where
  "normalizeRequiredInput field v = (let n = trim_space v in if n = [] then Inl (InvalidInput field) else Inr n)"

definition normalizePermissionInput :: "Permission \<Rightarrow> (rbac_error, Permission) result" where
  "normalizePermissionInput p =
     (case normalizeRequiredInput ''permission object'' (Object p) of
        Inl e \<Rightarrow> Inl e
      | Inr obj \<Rightarrow> let action = trim_space (Action p) in Inr (Permission obj (if action = [] then ''*'' else action)))"

text \<open>The order of \<^verbatim>\<open>sortPermissions\<close>: by object, then by action.\<close>

definition permission_less :: "Permission \<Rightarrow> Permission \<Rightarrow> bool" where
  "permission_less p q \<longleftrightarrow> (if Object p \<noteq> Object q then Object p < Object q else Action p < Action q)"

instantiation Permission :: linorder
begin

definition less_Permission :: "Permission \<Rightarrow> Permission \<Rightarrow> bool" where
  "less_Permission p q \<longleftrightarrow> permission_less p q"

definition less_eq_Permission :: "Permission \<Rightarrow> Permission \<Rightarrow> bool" where
  "less_eq_Permission p q \<longleftrightarrow> p = q \<or> p < q"

instance
proof
  fix p q r :: Permission
  show "p < q \<longleftrightarrow> p \<le> q \<and> \<not> q \<le> p"
    by (auto simp: less_eq_Permission_def less_Permission_def permission_less_def split: if_splits)
  show "p \<le> q \<Longrightarrow> q \<le> p \<Longrightarrow> p = q"
    by (auto simp: less_eq_Permission_def less_Permission_def permission_less_def split: if_splits)
  show "p \<le> q \<Longrightarrow> q \<le> r \<Longrightarrow> p \<le> r"
    by (auto simp: less_eq_Permission_def less_Permission_def permission_less_def split: if_splits)
  show "p \<le> q \<or> q \<le> p"
    by (cases p; cases q) (auto simp: less_eq_Permission_def less_Permission_def permission_less_def)
qed (simp add: less_eq_Permission_def)

end

text \<open>Collecting into a set and sorting its members gives the sorted list without duplicates.\<close>

definition sorted_unique :: "'a :: linorder list \<Rightarrow> 'a list" where
  "sorted_unique xs = sort (remdups xs)"

definition normalizeRoleInputs :: "string list \<Rightarrow> (rbac_error, string list) result" where
  "normalizeRoleInputs roles =
     (case map_res (normalizeRequiredInput ''role'') roles of Inl e \<Rightarrow> Inl e | Inr rs \<Rightarrow> Inr (sorted_unique rs))"

definition normalizePermissionInputs :: "Permission list \<Rightarrow> (rbac_error, Permission list) result" where
  "normalizePermissionInputs permissions =
     (case map_res normalizePermissionInput permissions of Inl e \<Rightarrow> Inl e | Inr ps \<Rightarrow> Inr (sorted_unique ps))"

fun backend_roles :: "identity \<Rightarrow> nat \<Rightarrow> string list \<Rightarrow> (rbac_error, string list) result" where
  "backend_roles i index [] = Inr []"
| "backend_roles i index (role # roles) =
     (let n = trim_space role in
      if n = [] then Inl (EmptyRoleAt i index)
      else (case backend_roles i (index + 1) roles of Inl e \<Rightarrow> Inl e | Inr rs \<Rightarrow> Inr (n # rs)))"

definition normalizeBackendRoles :: "identity \<Rightarrow> string list \<Rightarrow> (rbac_error, string list) result" where
  "normalizeBackendRoles i roles = (case backend_roles i 0 roles of Inl e \<Rightarrow> Inl e | Inr rs \<Rightarrow> Inr (sorted_unique rs))"

fun backend_permissions :: "identity \<Rightarrow> nat \<Rightarrow> Permission list \<Rightarrow> (rbac_error, Permission list) result" where
  "backend_permissions i index [] = Inr []"
| "backend_permissions i index (p # ps) =
     (let obj = trim_space (Object p); action = trim_space (Action p) in
      if obj = [] then Inl (EmptyObjectAt i index)
      else (case backend_permissions i (index + 1) ps of
              Inl e \<Rightarrow> Inl e | Inr qs \<Rightarrow> Inr (Permission obj (if action = [] then ''*'' else action) # qs)))"

definition normalizeBackendPermissions :: "identity \<Rightarrow> Permission list \<Rightarrow> (rbac_error, Permission list) result" where
  "normalizeBackendPermissions i ps = (case backend_permissions i 0 ps of Inl e \<Rightarrow> Inl e | Inr qs \<Rightarrow> Inr (sorted_unique qs))"

section \<open>The manager\<close>

record 'b rbac_manager =
  rm_backend :: "'b Backend"
  rm_backendIdentity :: identity
  rm_adminRole :: string

definition requiredCapabilities :: Capabilities where
  "requiredCapabilities =
     \<lparr>cap_RequestFields = 3, cap_PolicyFields = 3, cap_GroupingFields = 2, cap_Mutable = True, cap_FilteredPolicyReplace = True\<rparr>"

text \<open>A nil backend, untyped or typed, is \<open>None\<close>.\<close>

definition newManager :: "rbac_normalizedConfig \<Rightarrow> identity \<Rightarrow> 'b Backend option \<Rightarrow> (rbac_error, 'b rbac_manager) result" where
  "newManager config i backend =
     (let i = Normalized i in
      case backend of
        None \<Rightarrow> Inl (NilBackend i)
      | Some b \<Rightarrow>
          if be_Capabilities b \<noteq> requiredCapabilities then Inl (IncompatibleBackend i (be_Capabilities b))
          else Inr \<lparr>rm_backend = b, rm_backendIdentity = i, rm_adminRole = rn_adminRole config\<rparr>)"

definition rbac_New :: "rbac_Config \<Rightarrow> 'b Backend option \<Rightarrow> (rbac_error, 'b rbac_manager) result" where
  "rbac_New config backend =
     (case rbac_normalizeConfig config of Inl e \<Rightarrow> Inl e | Inr n \<Rightarrow> newManager n (rn_backend n) backend)"

fun checkContext :: "rbac_ctx \<Rightarrow> rbac_error option \<times> rbac_ctx" where
  "checkContext NilCtx = (Some (InvalidInput ''context''), NilCtx)"
| "checkContext (EndsAfter 0) = (Some ContextEnded, EndsAfter 0)"
| "checkContext (EndsAfter (Suc n)) = (None, EndsAfter n)"
| "checkContext NeverEnds = (None, NeverEnds)"

text \<open>A reply of the code, the pair of an answer and an error; the context goes on to the next check.\<close>

type_synonym verdict = "(bool \<times> rbac_error option) \<times> rbac_ctx"

definition rm_isAdmin :: "'b rbac_manager \<Rightarrow> rbac_ctx \<Rightarrow> string \<Rightarrow> 'b \<Rightarrow> verdict" where
  "rm_isAdmin m ctx subject b =
     (case checkContext ctx of
        (Some e, ctx) \<Rightarrow> ((False, Some e), ctx)
      | (None, ctx) \<Rightarrow>
          (case be_HasRole (rm_backend m) subject (rm_adminRole m) b of
             Inl e \<Rightarrow> ((False, Some (BackendFailed (rm_backendIdentity m) e)), ctx)
           | Inr admin \<Rightarrow> ((admin, None), ctx)))"

definition rm_authorize :: "'b rbac_manager \<Rightarrow> rbac_ctx \<Rightarrow> string \<Rightarrow> Permission \<Rightarrow> 'b \<Rightarrow> verdict" where
  "rm_authorize m ctx subject p b =
     (case checkContext ctx of
        (Some e, ctx) \<Rightarrow> ((False, Some e), ctx)
      | (None, ctx) \<Rightarrow>
          (case be_Authorize (rm_backend m) subject p b of
             Inl e \<Rightarrow> ((False, Some (BackendFailed (rm_backendIdentity m) e)), ctx)
           | Inr allowed \<Rightarrow> ((allowed, None), ctx)))"

definition IsAdmin :: "'b rbac_manager \<Rightarrow> rbac_ctx \<Rightarrow> string \<Rightarrow> 'b \<Rightarrow> verdict" where
  "IsAdmin m ctx subject b =
     (case normalizeRequiredInput ''subject'' subject of
        Inl e \<Rightarrow> ((False, Some e), ctx)
      | Inr s \<Rightarrow> rm_isAdmin m ctx s b)"

definition Authorize :: "'b rbac_manager \<Rightarrow> rbac_ctx \<Rightarrow> string \<Rightarrow> Permission \<Rightarrow> 'b \<Rightarrow> verdict" where
  "Authorize m ctx subject permission b =
     (case normalizeRequiredInput ''subject'' subject of Inl e \<Rightarrow> ((False, Some e), ctx) | Inr s \<Rightarrow>
      (case normalizePermissionInput permission of Inl e \<Rightarrow> ((False, Some e), ctx) | Inr p \<Rightarrow>
       (case checkContext ctx of (Some e, ctx) \<Rightarrow> ((False, Some e), ctx) | (None, ctx) \<Rightarrow>
        (case rm_isAdmin m ctx s b of
           ((admin, err), ctx) \<Rightarrow>
             if err \<noteq> None \<or> admin then ((admin, err), ctx) else rm_authorize m ctx s p b))))"

fun all_loop :: "'b rbac_manager \<Rightarrow> rbac_ctx \<Rightarrow> string \<Rightarrow> Permission list \<Rightarrow> 'b \<Rightarrow> verdict" where
  "all_loop m ctx s [] b = ((True, None), ctx)"
| "all_loop m ctx s (p # ps) b =
     (case rm_authorize m ctx s p b of
        ((allowed, err), ctx) \<Rightarrow> if err \<noteq> None \<or> \<not> allowed then ((allowed, err), ctx) else all_loop m ctx s ps b)"

fun any_loop :: "'b rbac_manager \<Rightarrow> rbac_ctx \<Rightarrow> string \<Rightarrow> Permission list \<Rightarrow> 'b \<Rightarrow> verdict" where
  "any_loop m ctx s [] b = ((False, None), ctx)"
| "any_loop m ctx s (p # ps) b =
     (case rm_authorize m ctx s p b of
        ((allowed, err), ctx) \<Rightarrow> if err \<noteq> None \<or> allowed then ((allowed, err), ctx) else any_loop m ctx s ps b)"

definition AuthorizeAll :: "'b rbac_manager \<Rightarrow> rbac_ctx \<Rightarrow> string \<Rightarrow> Permission list \<Rightarrow> 'b \<Rightarrow> verdict" where
  "AuthorizeAll m ctx subject permissions b =
     (case normalizeRequiredInput ''subject'' subject of Inl e \<Rightarrow> ((False, Some e), ctx) | Inr s \<Rightarrow>
      (case normalizePermissionInputs permissions of Inl e \<Rightarrow> ((False, Some e), ctx) | Inr ps \<Rightarrow>
       (case checkContext ctx of (Some e, ctx) \<Rightarrow> ((False, Some e), ctx) | (None, ctx) \<Rightarrow>
        if ps = [] then ((True, None), ctx)
        else (case rm_isAdmin m ctx s b of
           ((admin, err), ctx) \<Rightarrow>
             if err \<noteq> None \<or> admin then ((admin, err), ctx) else all_loop m ctx s ps b))))"

definition AuthorizeAny :: "'b rbac_manager \<Rightarrow> rbac_ctx \<Rightarrow> string \<Rightarrow> Permission list \<Rightarrow> 'b \<Rightarrow> verdict" where
  "AuthorizeAny m ctx subject permissions b =
     (case normalizeRequiredInput ''subject'' subject of Inl e \<Rightarrow> ((False, Some e), ctx) | Inr s \<Rightarrow>
      (case normalizePermissionInputs permissions of Inl e \<Rightarrow> ((False, Some e), ctx) | Inr ps \<Rightarrow>
       (case checkContext ctx of (Some e, ctx) \<Rightarrow> ((False, Some e), ctx) | (None, ctx) \<Rightarrow>
        if ps = [] then ((False, None), ctx)
        else (case rm_isAdmin m ctx s b of
           ((admin, err), ctx) \<Rightarrow>
             if err \<noteq> None \<or> admin then ((admin, err), ctx) else any_loop m ctx s ps b))))"

definition HasRole :: "'b rbac_manager \<Rightarrow> rbac_ctx \<Rightarrow> string \<Rightarrow> string \<Rightarrow> 'b \<Rightarrow> verdict" where
  "HasRole m ctx subject role b =
     (case normalizeRequiredInput ''subject'' subject of Inl e \<Rightarrow> ((False, Some e), ctx) | Inr s \<Rightarrow>
      (case normalizeRequiredInput ''role'' role of Inl e \<Rightarrow> ((False, Some e), ctx) | Inr r \<Rightarrow>
       (case checkContext ctx of (Some e, ctx) \<Rightarrow> ((False, Some e), ctx) | (None, ctx) \<Rightarrow>
        (case be_HasRole (rm_backend m) s r b of
           Inl e \<Rightarrow> ((False, Some (BackendFailed (rm_backendIdentity m) e)), ctx)
         | Inr has \<Rightarrow> ((has, None), ctx)))))"

definition Roles :: "'b rbac_manager \<Rightarrow> rbac_ctx \<Rightarrow> string \<Rightarrow> 'b \<Rightarrow> (rbac_error, string list) result" where
  "Roles m ctx subject b =
     (case normalizeRequiredInput ''subject'' subject of Inl e \<Rightarrow> Inl e | Inr s \<Rightarrow>
      (case checkContext ctx of (Some e, _) \<Rightarrow> Inl e | (None, _) \<Rightarrow>
       (case be_Roles (rm_backend m) s b of
          Inl e \<Rightarrow> Inl (BackendFailed (rm_backendIdentity m) e)
        | Inr roles \<Rightarrow> normalizeBackendRoles (rm_backendIdentity m) roles)))"

definition RolePermissions :: "'b rbac_manager \<Rightarrow> rbac_ctx \<Rightarrow> string \<Rightarrow> 'b \<Rightarrow> (rbac_error, Permission list) result" where
  "RolePermissions m ctx role b =
     (case normalizeRequiredInput ''role'' role of Inl e \<Rightarrow> Inl e | Inr r \<Rightarrow>
      (case checkContext ctx of (Some e, _) \<Rightarrow> Inl e | (None, _) \<Rightarrow>
       (case be_RolePermissions (rm_backend m) r b of
          Inl e \<Rightarrow> Inl (BackendFailed (rm_backendIdentity m) e)
        | Inr ps \<Rightarrow> normalizeBackendPermissions (rm_backendIdentity m) ps)))"

text \<open>A mutation passes on what the backend reports as changed, also beside its error.\<close>

definition mutation ::
  "'b rbac_manager \<Rightarrow> rbac_ctx \<Rightarrow> ('b \<Rightarrow> (bool \<times> string option) \<times> 'b) \<Rightarrow> 'b \<Rightarrow> (bool \<times> rbac_error option) \<times> 'b" where
  "mutation m ctx change b =
     (case checkContext ctx of
        (Some e, _) \<Rightarrow> ((False, Some e), b)
      | (None, _) \<Rightarrow>
          (case change b of
             ((changed, Some e), b) \<Rightarrow> ((changed, Some (BackendFailed (rm_backendIdentity m) e)), b)
           | ((changed, None), b) \<Rightarrow> ((changed, None), b)))"

definition ReplaceSubjectRoles ::
  "'b rbac_manager \<Rightarrow> rbac_ctx \<Rightarrow> string \<Rightarrow> string list \<Rightarrow> 'b \<Rightarrow> (bool \<times> rbac_error option) \<times> 'b" where
  "ReplaceSubjectRoles m ctx subject roles b =
     (case normalizeRequiredInput ''subject'' subject of Inl e \<Rightarrow> ((False, Some e), b) | Inr s \<Rightarrow>
      (case normalizeRoleInputs roles of Inl e \<Rightarrow> ((False, Some e), b) | Inr rs \<Rightarrow>
       mutation m ctx (be_ReplaceSubjectRoles (rm_backend m) s rs) b))"

definition ReplaceRolePermissions ::
  "'b rbac_manager \<Rightarrow> rbac_ctx \<Rightarrow> string \<Rightarrow> Permission list \<Rightarrow> 'b \<Rightarrow> (bool \<times> rbac_error option) \<times> 'b" where
  "ReplaceRolePermissions m ctx role permissions b =
     (case normalizeRequiredInput ''role'' role of Inl e \<Rightarrow> ((False, Some e), b) | Inr r \<Rightarrow>
      (case normalizePermissionInputs permissions of Inl e \<Rightarrow> ((False, Some e), b) | Inr ps \<Rightarrow>
       mutation m ctx (be_ReplaceRolePermissions (rm_backend m) r ps) b))"

definition DeleteSubject :: "'b rbac_manager \<Rightarrow> rbac_ctx \<Rightarrow> string \<Rightarrow> 'b \<Rightarrow> (bool \<times> rbac_error option) \<times> 'b" where
  "DeleteSubject m ctx subject b =
     (case normalizeRequiredInput ''subject'' subject of Inl e \<Rightarrow> ((False, Some e), b) | Inr s \<Rightarrow>
       mutation m ctx (be_DeleteSubject (rm_backend m) s) b)"

definition DeleteRole :: "'b rbac_manager \<Rightarrow> rbac_ctx \<Rightarrow> string \<Rightarrow> 'b \<Rightarrow> (bool \<times> rbac_error option) \<times> 'b" where
  "DeleteRole m ctx role b =
     (case normalizeRequiredInput ''role'' role of Inl e \<Rightarrow> ((False, Some e), b) | Inr r \<Rightarrow>
       mutation m ctx (be_DeleteRole (rm_backend m) r) b)"

section \<open>Normal inputs\<close>

lemma sorted_unique_eq: "set xs = set ys \<Longrightarrow> sorted_unique xs = sorted_unique ys"
  unfolding sorted_unique_def by (rule sorted_distinct_set_unique) simp_all

lemma sorted_unique_set [simp]: "set (sorted_unique xs) = set xs"
  by (simp add: sorted_unique_def)

lemma sorted_unique_Nil [simp]: "sorted_unique xs = [] \<longleftrightarrow> xs = []"
  by (metis set_empty sorted_unique_set)

lemma sorted_unique_single [simp]: "sorted_unique [x] = [x]"
  by (simp add: sorted_unique_def)

lemma sorted_unique_normal: "sorted (sorted_unique xs) \<and> distinct (sorted_unique xs)"
  by (simp add: sorted_unique_def)

text \<open>What a permission is normalised to, when it has an object.\<close>

definition normal_permission :: "Permission \<Rightarrow> Permission" where
  "normal_permission p = Permission (trim_space (Object p)) (if trim_space (Action p) = [] then ''*'' else trim_space (Action p))"

lemma normalizePermissionInput_eq:
  "normalizePermissionInput p =
     (if trim_space (Object p) = [] then Inl (InvalidInput ''permission object'') else Inr (normal_permission p))"
  by (simp add: normalizePermissionInput_def normalizeRequiredInput_def normal_permission_def Let_def)

lemma normalize_permissions:
  "map_res normalizePermissionInput ps =
     (if \<exists>p \<in> set ps. trim_space (Object p) = [] then Inl (InvalidInput ''permission object'') else Inr (map normal_permission ps))"
  by (induction ps) (auto simp: normalizePermissionInput_eq)

lemma normalizePermissionInputs_eq:
  "normalizePermissionInputs ps =
     (if \<exists>p \<in> set ps. trim_space (Object p) = [] then Inl (InvalidInput ''permission object'')
      else Inr (sorted_unique (map normal_permission ps)))"
  by (simp add: normalizePermissionInputs_def normalize_permissions)

lemma normal_permission_idem [simp]: "normal_permission (normal_permission p) = normal_permission p"
proof -
  have "trim_space ''*'' = ''*''" by code_simp
  then show ?thesis by (simp add: normal_permission_def)
qed

section \<open>Decisions\<close>

text \<open>An error never comes with a grant, and an administrator or a permission is behind every grant.\<close>

lemma rm_isAdmin_grant:
  "rm_isAdmin m ctx s b = ((g, err), ctx') \<Longrightarrow> g \<Longrightarrow> err = None \<and> be_HasRole (rm_backend m) s (rm_adminRole m) b = Inr True"
  by (auto simp: rm_isAdmin_def split: prod.splits option.splits sum.splits)

lemma rm_authorize_grant:
  "rm_authorize m ctx s p b = ((g, err), ctx') \<Longrightarrow> g \<Longrightarrow> err = None \<and> be_Authorize (rm_backend m) s p b = Inr True"
  by (auto simp: rm_authorize_def split: prod.splits option.splits sum.splits)

lemma all_loop_grant:
  "all_loop m ctx s ps b = ((g, err), ctx') \<Longrightarrow> g \<Longrightarrow> err = None \<and> (\<forall>p \<in> set ps. be_Authorize (rm_backend m) s p b = Inr True)"
  by (induction ps arbitrary: ctx) (auto split: prod.splits if_splits dest!: rm_authorize_grant)

lemma any_loop_grant:
  "any_loop m ctx s ps b = ((g, err), ctx') \<Longrightarrow> g \<Longrightarrow> err = None \<and> (\<exists>p \<in> set ps. be_Authorize (rm_backend m) s p b = Inr True)"
  by (induction ps arbitrary: ctx) (auto split: prod.splits if_splits dest!: rm_authorize_grant)

text \<open>While the context lives and the backend answers, the loops are the quantifiers.\<close>

lemma all_loop_answers:
  "\<forall>p \<in> set ps. be_Authorize (rm_backend m) s p b = Inr (f p) \<Longrightarrow>
     all_loop m NeverEnds s ps b = ((\<forall>p \<in> set ps. f p, None), NeverEnds)"
  by (induction ps) (auto simp: rm_authorize_def)

lemma any_loop_answers:
  "\<forall>p \<in> set ps. be_Authorize (rm_backend m) s p b = Inr (f p) \<Longrightarrow>
     any_loop m NeverEnds s ps b = ((\<exists>p \<in> set ps. f p, None), NeverEnds)"
  by (induction ps) (auto simp: rm_authorize_def)

lemma rm_isAdmin_answers:
  "be_HasRole (rm_backend m) s (rm_adminRole m) b = Inr a \<Longrightarrow> rm_isAdmin m NeverEnds s b = ((a, None), NeverEnds)"
  by (simp add: rm_isAdmin_def)

lemma AuthorizeAll_grant:
  assumes "AuthorizeAll m ctx subject ps b = ((True, err), ctx')"
  shows "err = None \<and> trim_space subject \<noteq> [] \<and>
    (ps = [] \<or> be_HasRole (rm_backend m) (trim_space subject) (rm_adminRole m) b = Inr True \<or>
     (\<forall>p \<in> set ps. be_Authorize (rm_backend m) (trim_space subject) (normal_permission p) b = Inr True))"
  using assms
  by (auto simp: AuthorizeAll_def normalizeRequiredInput_def normalizePermissionInputs_eq Let_def
      split: if_splits prod.splits option.splits dest!: rm_isAdmin_grant all_loop_grant)

lemma AuthorizeAny_grant:
  assumes "AuthorizeAny m ctx subject ps b = ((True, err), ctx')"
  shows "err = None \<and> trim_space subject \<noteq> [] \<and> ps \<noteq> [] \<and>
    (be_HasRole (rm_backend m) (trim_space subject) (rm_adminRole m) b = Inr True \<or>
     (\<exists>p \<in> set ps. be_Authorize (rm_backend m) (trim_space subject) (normal_permission p) b = Inr True))"
  using assms
  by (auto simp: AuthorizeAny_def normalizeRequiredInput_def normalizePermissionInputs_eq Let_def
      split: if_splits prod.splits option.splits dest!: rm_isAdmin_grant any_loop_grant)

lemma Authorize_single: "AuthorizeAll m ctx subject [p] b = Authorize m ctx subject p b"
  "AuthorizeAny m ctx subject [p] b = Authorize m ctx subject p b"
  by (auto simp: AuthorizeAll_def AuthorizeAny_def Authorize_def normalizePermissionInputs_eq normalizePermissionInput_eq
      split: sum.splits prod.splits option.splits)

lemma AuthorizeAll_set:
  assumes "set ps = set qs"
  shows "AuthorizeAll m ctx subject ps b = AuthorizeAll m ctx subject qs b"
    and "AuthorizeAny m ctx subject ps b = AuthorizeAny m ctx subject qs b"
proof -
  have eq: "normalizePermissionInputs ps = normalizePermissionInputs qs"
    unfolding normalizePermissionInputs_eq using assms by (auto intro: sorted_unique_eq)
  show "AuthorizeAll m ctx subject ps b = AuthorizeAll m ctx subject qs b"
    "AuthorizeAny m ctx subject ps b = AuthorizeAny m ctx subject qs b"
    unfolding AuthorizeAll_def AuthorizeAny_def eq by (rule refl)+
qed

lemma Authorize_answers:
  assumes "trim_space subject \<noteq> []" and "\<forall>p \<in> set ps. trim_space (Object p) \<noteq> []"
    and "be_HasRole (rm_backend m) (trim_space subject) (rm_adminRole m) b = Inr a"
    and "\<forall>p \<in> set ps. be_Authorize (rm_backend m) (trim_space subject) (normal_permission p) b = Inr (f p)"
  shows "AuthorizeAll m NeverEnds subject ps b = ((ps = [] \<or> a \<or> (\<forall>p \<in> set ps. f p), None), NeverEnds)"
    and "AuthorizeAny m NeverEnds subject ps b = ((ps \<noteq> [] \<and> (a \<or> (\<exists>p \<in> set ps. f p)), None), NeverEnds)"
proof -
  define g where "g q = f (SOME p. p \<in> set ps \<and> normal_permission p = q)" for q
  have some: "(SOME q. q \<in> set ps \<and> normal_permission q = normal_permission p) \<in> set ps \<and>
      normal_permission (SOME q. q \<in> set ps \<and> normal_permission q = normal_permission p) = normal_permission p"
    if "p \<in> set ps" for p
    using that by (intro someI [of "\<lambda>q. q \<in> set ps \<and> normal_permission q = normal_permission p"]) simp
  have same: "g (normal_permission p) = f p" if "p \<in> set ps" for p
    using some [OF that] assms(4) that unfolding g_def by (metis sum.inject(2))
  have answers: "\<forall>q \<in> set (sorted_unique (map normal_permission ps)).
      be_Authorize (rm_backend m) (trim_space subject) q b = Inr (g q)"
    using assms(4) same by simp
  have norm: "normalizePermissionInputs ps = Inr (sorted_unique (map normal_permission ps))"
    using assms(2) by (auto simp: normalizePermissionInputs_eq)
  have input: "normalizeRequiredInput ''subject'' subject = Inr (trim_space subject)"
    using assms(1) by (simp add: normalizeRequiredInput_def)
  show "AuthorizeAll m NeverEnds subject ps b = ((ps = [] \<or> a \<or> (\<forall>p \<in> set ps. f p), None), NeverEnds)"
    using same by (auto simp: AuthorizeAll_def input norm rm_isAdmin_answers [OF assms(3)] all_loop_answers [OF answers])
  show "AuthorizeAny m NeverEnds subject ps b = ((ps \<noteq> [] \<and> (a \<or> (\<exists>p \<in> set ps. f p)), None), NeverEnds)"
    using same by (auto simp: AuthorizeAny_def input norm rm_isAdmin_answers [OF assms(3)] any_loop_answers [OF answers])
qed

text \<open>
  C40. Authorization fails closed and decides by the backend alone. Whenever the context ends and
  whatever the backend fails at, a grant comes without an error and from an administrator or from
  the permissions asked for, all of them or one of them; the verdict does not depend on the order
  or the repetition of the permissions; asking for one permission is the same in all three forms;
  and when the backend answers, the verdict is exactly that of the quantifier. Only a request for
  no permission at all is granted to everyone by \<^verbatim>\<open>AuthorizeAll\<close>.
\<close>

theorem authorization_fail_closed:
  "(\<forall>err ctx'. AuthorizeAll m ctx subject ps b = ((True, err), ctx') \<longrightarrow> err = None \<and> trim_space subject \<noteq> [] \<and>
      (ps = [] \<or> be_HasRole (rm_backend m) (trim_space subject) (rm_adminRole m) b = Inr True \<or>
       (\<forall>p \<in> set ps. be_Authorize (rm_backend m) (trim_space subject) (normal_permission p) b = Inr True))) \<and>
    (\<forall>err ctx'. AuthorizeAny m ctx subject ps b = ((True, err), ctx') \<longrightarrow> err = None \<and> trim_space subject \<noteq> [] \<and> ps \<noteq> [] \<and>
      (be_HasRole (rm_backend m) (trim_space subject) (rm_adminRole m) b = Inr True \<or>
       (\<exists>p \<in> set ps. be_Authorize (rm_backend m) (trim_space subject) (normal_permission p) b = Inr True))) \<and>
    (\<forall>p. AuthorizeAll m ctx subject [p] b = Authorize m ctx subject p b \<and>
      AuthorizeAny m ctx subject [p] b = Authorize m ctx subject p b) \<and>
    (\<forall>qs. set qs = set ps \<longrightarrow> AuthorizeAll m ctx subject qs b = AuthorizeAll m ctx subject ps b \<and>
      AuthorizeAny m ctx subject qs b = AuthorizeAny m ctx subject ps b) \<and>
    (\<forall>a f. trim_space subject \<noteq> [] \<and> (\<forall>p \<in> set ps. trim_space (Object p) \<noteq> []) \<and>
       be_HasRole (rm_backend m) (trim_space subject) (rm_adminRole m) b = Inr a \<and>
       (\<forall>p \<in> set ps. be_Authorize (rm_backend m) (trim_space subject) (normal_permission p) b = Inr (f p)) \<longrightarrow>
       AuthorizeAll m NeverEnds subject ps b = ((ps = [] \<or> a \<or> (\<forall>p \<in> set ps. f p), None), NeverEnds) \<and>
       AuthorizeAny m NeverEnds subject ps b = ((ps \<noteq> [] \<and> (a \<or> (\<exists>p \<in> set ps. f p)), None), NeverEnds))"
proof (intro conjI, goal_cases)
  case 1
  show ?case by (intro allI impI) (rule AuthorizeAll_grant)
next
  case 2
  show ?case by (intro allI impI) (rule AuthorizeAny_grant)
next
  case 3
  show ?case by (simp add: Authorize_single)
next
  case 4
  show ?case by (intro allI impI conjI; rule AuthorizeAll_set)
next
  case 5
  show ?case by (intro allI impI, elim conjE, intro conjI; rule Authorize_answers)
qed

text \<open>A policy of role assignments and role permissions, as a backend.\<close>

type_synonym sample_policy = "(string \<times> string) list \<times> (string \<times> Permission) list"

definition sample_backend :: "sample_policy Backend" where
  "sample_backend =
     \<lparr>be_Capabilities = requiredCapabilities,
      be_Authorize = (\<lambda>s p b. Inr (list_ex (\<lambda>(r, q). q = p \<and> List.member (fst b) (s, r)) (snd b))),
      be_HasRole = (\<lambda>s r b. Inr (List.member (fst b) (s, r))),
      be_Roles = (\<lambda>s b. Inr (map snd (filter (\<lambda>(t, r). t = s) (fst b)))),
      be_RolePermissions = (\<lambda>r b. Inr (map snd (filter (\<lambda>(q, p). q = r) (snd b)))),
      be_ReplaceSubjectRoles = (\<lambda>s rs b. ((True, None), (filter (\<lambda>(t, r). t \<noteq> s) (fst b) @ map (Pair s) rs, snd b))),
      be_ReplaceRolePermissions = (\<lambda>r ps b. ((True, None), (fst b, filter (\<lambda>(q, p). q \<noteq> r) (snd b) @ map (Pair r) ps))),
      be_DeleteSubject = (\<lambda>s b. ((True, None), (filter (\<lambda>(t, r). t \<noteq> s) (fst b), snd b))),
      be_DeleteRole = (\<lambda>r b. ((True, None), (filter (\<lambda>(t, q). q \<noteq> r) (fst b), filter (\<lambda>(q, p). q \<noteq> r) (snd b))))\<rparr>"

definition sample_rbac :: "sample_policy rbac_manager" where
  "sample_rbac = \<lparr>rm_backend = sample_backend, rm_backendIdentity = Identity ''casbin'' ''default'', rm_adminRole = ''admin''\<rparr>"

definition sample_policies :: sample_policy where
  "sample_policies = ([(''ann'', ''editor'')], [(''editor'', Permission ''doc'' ''read''), (''editor'', Permission ''doc'' ''*'')])"

definition sample_request :: "Permission list" where
  "sample_request = [Permission ''doc'' [], Permission ''doc'' ''read'', Permission '' doc '' ''*'']"

theorem authorization_fail_closed_witness:
  "AuthorizeAll sample_rbac NeverEnds '' ann '' sample_request sample_policies = ((True, None), NeverEnds) \<and>
   AuthorizeAll sample_rbac NeverEnds '' ann '' (rev sample_request) sample_policies = ((True, None), NeverEnds) \<and>
   AuthorizeAll sample_rbac (EndsAfter 2) ''ann'' sample_request sample_policies = ((False, Some ContextEnded), EndsAfter 0)"
proof -
  have "set (rev sample_request) = set sample_request" by simp
  with authorization_fail_closed [of sample_rbac NeverEnds "'' ann ''" sample_request sample_policies]
  have "AuthorizeAll sample_rbac NeverEnds '' ann '' (rev sample_request) sample_policies =
    AuthorizeAll sample_rbac NeverEnds '' ann '' sample_request sample_policies"
    by blast
  moreover have "AuthorizeAll sample_rbac NeverEnds '' ann '' sample_request sample_policies = ((True, None), NeverEnds)" by code_simp
  moreover have "AuthorizeAll sample_rbac (EndsAfter 2) ''ann'' sample_request sample_policies = ((False, Some ContextEnded), EndsAfter 0)"
    by code_simp
  ultimately show ?thesis by simp
qed

end
