(* ===== verification/AsyncPool.thy ===== *)
theory AsyncPool
  imports Prelude
begin

text \<open>
  The background task pool: \<^verbatim>\<open>extensions/concurrency/async/pool.go\<close> and \<^verbatim>\<open>config.go\<close>.
  \<^item> \<open>Pool\<close> keeps the running slots, the queue, the tasks that execute, the shutdown flags and the counter
    of accepted tasks; every section under its mutex is one operation.
  \<^item> \<open>pool_step\<close> interleaves the goroutines that use a pool: callers of \<^verbatim>\<open>Spawn\<close>, workers, drains and the
    stop. \<open>work_step\<close> is the part that callers and workers do by themselves once they are admitted.
  \<^item> A channel that signals a change is a number: the current one is open, every smaller one is closed.
\<close>

section \<open>Configuration\<close>

definition ExecutorGoroutine :: string where "ExecutorGoroutine = ''goroutine''"

definition ExecutorAnts :: string where "ExecutorAnts = ''ants''"

record AntsConfig =
  an_ExpiryDuration :: int
  an_PreAlloc :: bool
  an_DisablePurge :: bool

record ShutdownConfig =
  sd_AwaitTermination :: bool
  sd_AwaitTerminationPeriod :: int

record AsyncConfig =
  ac_Executor :: string
  ac_MaxConcurrency :: int
  ac_QueueCapacity :: int
  ac_SubmitTimeout :: int
  ac_Shutdown :: ShutdownConfig
  ac_Ants :: AntsConfig

definition defaultAntsConfig :: AntsConfig where
  "defaultAntsConfig = \<lparr>an_ExpiryDuration = 1000000000, an_PreAlloc = False, an_DisablePurge = False\<rparr>"

definition async_DefaultConfig :: AsyncConfig where
  "async_DefaultConfig = \<lparr>ac_Executor = ExecutorGoroutine, ac_MaxConcurrency = 256, ac_QueueCapacity = 1024, ac_SubmitTimeout = 0,
     ac_Shutdown = \<lparr>sd_AwaitTermination = True, sd_AwaitTerminationPeriod = 0\<rparr>, ac_Ants = defaultAntsConfig\<rparr>"

datatype async_config_error =
  UnsupportedExecutor string | NegativeConcurrency | AntsNeedsConcurrency | NegativeQueue | QueueNeedsConcurrency |
  NegativeSubmitTimeout | NegativePeriod | PeriodNeedsAwait | NegativeExpiry | AntsOnly

definition async_validate :: "AsyncConfig \<Rightarrow> async_config_error option" where
  "async_validate c =
     (if ac_Executor c \<noteq> ExecutorGoroutine \<and> ac_Executor c \<noteq> ExecutorAnts then Some (UnsupportedExecutor (ac_Executor c))
      else if ac_MaxConcurrency c < 0 then Some NegativeConcurrency
      else if ac_Executor c = ExecutorAnts \<and> ac_MaxConcurrency c = 0 then Some AntsNeedsConcurrency
      else if ac_QueueCapacity c < 0 then Some NegativeQueue
      else if ac_QueueCapacity c > 0 \<and> ac_MaxConcurrency c = 0 then Some QueueNeedsConcurrency
      else if ac_SubmitTimeout c < 0 then Some NegativeSubmitTimeout
      else if sd_AwaitTerminationPeriod (ac_Shutdown c) < 0 then Some NegativePeriod
      else if \<not> sd_AwaitTermination (ac_Shutdown c) \<and> sd_AwaitTerminationPeriod (ac_Shutdown c) > 0 then Some PeriodNeedsAwait
      else if an_ExpiryDuration (ac_Ants c) < 0 then Some NegativeExpiry
      else if ac_Executor c \<noteq> ExecutorAnts \<and> ac_Ants c \<noteq> defaultAntsConfig then Some AntsOnly
      else None)"

definition async_prepareConfig :: "AsyncConfig \<Rightarrow> (async_config_error, AsyncConfig) result" where
  "async_prepareConfig c =
     (let c = c\<lparr>ac_Executor := ToLower (trim_space (ac_Executor c))\<rparr> in
      case async_validate c of Some e \<Rightarrow> Inl e | None \<Rightarrow> Inr c)"

section \<open>The pool\<close>

text \<open>A task is named by its caller; \<open>qt_task\<close> stands for the function and its context.\<close>

record queuedTask =
  qt_name :: string
  qt_task :: nat
  qt_queuedAt :: int

record activeTask =
  at_address :: nat
  at_name :: string
  at_started :: int

type_synonym pool_error = string

record Pool =
  po_cfg :: AsyncConfig
  po_changed :: nat
  po_running :: nat
  po_queue :: "queuedTask list"
  po_active :: "activeTask list"
  po_addresses :: nat
  po_admitting :: bool
  po_draining :: bool
  po_stopped :: bool
  po_cancelled :: bool
  po_inFlight :: int
  po_drainClaimed :: bool
  po_drainErr :: "pool_error option"
  po_stopErr :: "pool_error option"

definition newPool :: "AsyncConfig \<Rightarrow> Pool" where
  "newPool cfg = \<lparr>po_cfg = cfg, po_changed = 0, po_running = 0, po_queue = [], po_active = [], po_addresses = 0,
     po_admitting = False, po_draining = False, po_stopped = False, po_cancelled = False, po_inFlight = 0,
     po_drainClaimed = False, po_drainErr = None, po_stopErr = None\<rparr>"

definition pool_open :: "Pool \<Rightarrow> bool \<times> Pool" where
  "pool_open p = (if po_draining p \<or> po_stopped p then (False, p) else (True, p\<lparr>po_admitting := True\<rparr>))"

definition newPreparedPool :: "AsyncConfig \<Rightarrow> (async_config_error, Pool) result" where
  "newPreparedPool cfg =
     (case async_prepareConfig cfg of
        Inl e \<Rightarrow> Inl e
      | Inr prepared \<Rightarrow> Inr (snd (pool_open (newPool prepared))))"

definition pool_Stats :: "Pool option \<Rightarrow> nat \<times> nat" where
  "pool_Stats p = (case p of None \<Rightarrow> (0, 0) | Some p \<Rightarrow> (po_running p, length (po_queue p)))"

definition signalChangedLocked :: "Pool \<Rightarrow> Pool" where
  "signalChangedLocked p = p\<lparr>po_changed := po_changed p + 1\<rparr>"

datatype spawn_error =
  ErrNotInstalled | ErrNilContext | ErrInvalidTask | ErrContext pool_error | ErrShuttingDown | ErrSaturated |
  ErrExecutor string pool_error

text \<open>The checks of \<^verbatim>\<open>Spawn\<close>: the context is \<open>None\<close> when nil, and otherwise carries its error.\<close>

definition Spawn_check :: "Pool option \<Rightarrow> pool_error option option \<Rightarrow> string \<Rightarrow> nat option \<Rightarrow> spawn_error option" where
  "Spawn_check p ctx name task =
     (case p of
        None \<Rightarrow> Some ErrNotInstalled
      | Some _ \<Rightarrow>
          (case ctx of
             None \<Rightarrow> Some ErrNilContext
           | Some err \<Rightarrow>
               if name = [] \<or> task = None then Some ErrInvalidTask
               else (case err of Some e \<Rightarrow> Some (ErrContext e) | None \<Rightarrow> None)))"

text \<open>One round of the loop of \<^verbatim>\<open>admit\<close>: the section under the mutex, and the return when there is no wait.\<close>

datatype admitOutcome = admitRunning | admitQueued | admitRefused spawn_error | admitWaits nat

definition admit :: "queuedTask \<Rightarrow> Pool \<Rightarrow> admitOutcome \<times> Pool" where
  "admit entry p =
     (if \<not> po_admitting p \<or> po_draining p \<or> po_stopped p then (admitRefused ErrShuttingDown, p)
      else if ac_MaxConcurrency (po_cfg p) = 0 \<or> int (po_running p) < ac_MaxConcurrency (po_cfg p) then
        (admitRunning, signalChangedLocked (p\<lparr>po_running := po_running p + 1, po_inFlight := po_inFlight p + 1\<rparr>))
      else if int (length (po_queue p)) < ac_QueueCapacity (po_cfg p) then
        (admitQueued, signalChangedLocked (p\<lparr>po_inFlight := po_inFlight p + 1, po_queue := po_queue p @ [entry]\<rparr>))
      else if \<not> ac_SubmitTimeout (po_cfg p) > 0 then (admitRefused ErrSaturated, p)
      else (admitWaits (po_changed p), p))"

definition nextOrRelease :: "Pool \<Rightarrow> queuedTask option \<times> Pool" where
  "nextOrRelease p =
     (if \<not> po_stopped p \<and> po_queue p \<noteq> [] then
        (Some (hd (po_queue p)), signalChangedLocked (p\<lparr>po_queue := tl (po_queue p)\<rparr>))
      else (None, signalChangedLocked (if po_running p > 0 then p\<lparr>po_running := po_running p - 1\<rparr> else p)))"

definition inFlight_Done :: "Pool \<Rightarrow> Pool" where
  "inFlight_Done p = p\<lparr>po_inFlight := po_inFlight p - 1\<rparr>"

text \<open>The entry and the exit of \<^verbatim>\<open>runOne\<close> in the list of active tasks.\<close>

definition active_add :: "string \<Rightarrow> int \<Rightarrow> Pool \<Rightarrow> nat \<times> Pool" where
  "active_add name now p =
     (po_addresses p,
      p\<lparr>po_active := po_active p @ [\<lparr>at_address = po_addresses p, at_name = name, at_started = now\<rparr>],
        po_addresses := po_addresses p + 1\<rparr>)"

fun remove_entry :: "nat \<Rightarrow> activeTask list \<Rightarrow> activeTask list" where
  "remove_entry a [] = []"
| "remove_entry a (x # xs) = (if at_address x = a then xs else x # remove_entry a xs)"

definition active_remove :: "nat \<Rightarrow> Pool \<Rightarrow> Pool" where
  "active_remove a p = p\<lparr>po_active := remove_entry a (po_active p)\<rparr>"

text \<open>
  \<^verbatim>\<open>drain\<close> up to its wait: it replays a claimed result, or closes admission and then waits or not.
\<close>

datatype drain_begun = DrainReplays "pool_error option" | DrainReturns | DrainWaits

definition drain_begin :: "Pool \<Rightarrow> drain_begun \<times> Pool" where
  "drain_begin p =
     (if po_drainClaimed p then (DrainReplays (po_drainErr p), p)
      else
        (if po_stopped p \<or> \<not> sd_AwaitTermination (ac_Shutdown (po_cfg p)) then DrainReturns else DrainWaits,
         signalChangedLocked (p\<lparr>po_draining := True\<rparr>)))"

definition claimDrainResult :: "pool_error option \<Rightarrow> Pool \<Rightarrow> pool_error option \<times> Pool" where
  "claimDrainResult err p =
     (if po_stopped p \<and> \<not> po_drainClaimed p then (None, p)
      else
        let p = (if \<not> po_drainClaimed p then p\<lparr>po_drainClaimed := True, po_drainErr := err\<rparr> else p)
        in (po_drainErr p, p))"

text \<open>What an expired drain reports: the queued names and the executing tasks with their age.\<close>

definition logAbandonedTasks :: "int \<Rightarrow> Pool \<Rightarrow> (nat \<times> (string \<times> int) list \<times> string list) option" where
  "logAbandonedTasks now p =
     (if po_running p = 0 \<and> length (po_queue p) = 0 then None
      else Some (po_running p, map (\<lambda>t. (at_name t, now - at_started t)) (po_active p), map qt_name (po_queue p)))"

text \<open>The parts of \<^verbatim>\<open>stop\<close>: the section under the mutex, the cancellation, and what it reports at the end.\<close>

definition stop_begin :: "Pool \<Rightarrow> queuedTask list \<times> Pool" where
  "stop_begin p = (po_queue p, signalChangedLocked (p\<lparr>po_draining := True, po_stopped := True, po_queue := []\<rparr>))"

definition execCancel :: "Pool \<Rightarrow> Pool" where
  "execCancel p = p\<lparr>po_cancelled := True\<rparr>"

definition stop_end :: "pool_error option \<Rightarrow> pool_error option \<Rightarrow> Pool \<Rightarrow> Pool" where
  "stop_end waitErr releaseErr p =
     p\<lparr>po_stopErr := (case waitErr of None \<Rightarrow> releaseErr | Some e \<Rightarrow> Some e)\<rparr>"

section \<open>The goroutines that use a pool\<close>

text \<open>
  A goroutine is a caller that waits on a channel, a caller that holds a slot for a task and is about to
  hand it to the executor, a caller whose task the executor has rejected, a caller that looks for a queued
  task to give its slot to, a worker at one of the stages of \<^verbatim>\<open>runWorker\<close> and \<^verbatim>\<open>runOne\<close>, or a drain that
  waits or claims its result.
\<close>

datatype goroutine =
  Parked queuedTask nat
| Admitted queuedTask
| ExecRejected queuedTask
| HandsOff
| Starting queuedTask
| Registered queuedTask nat
| Executing queuedTask nat
| Leaving queuedTask nat
| Finishing queuedTask
| Picking
| DrainParked
| DrainClaims "pool_error option"

datatype stop_phase = NotStopped | Discards "queuedTask list" | StopWaits | StopFinished

text \<open>
  Besides the pool and its goroutines, a state records what happened: the tasks that \<^verbatim>\<open>admit\<close> accepted,
  those whose function was called, those the executor rejected, those dropped by a stop, and what
  drains returned.
\<close>

record pool_sys =
  ps_pool :: Pool
  ps_goroutines :: "goroutine multiset"
  ps_stop :: stop_phase
  ps_accepted :: "queuedTask multiset"
  ps_called :: "queuedTask multiset"
  ps_refused :: "queuedTask multiset"
  ps_dropped :: "queuedTask multiset"
  ps_results :: "pool_error option list"

definition admit_goroutine :: "queuedTask \<Rightarrow> admitOutcome \<Rightarrow> goroutine multiset" where
  "admit_goroutine q v = (case v of admitRunning \<Rightarrow> {#Admitted q#} | admitWaits c \<Rightarrow> {#Parked q c#} | _ \<Rightarrow> {#})"

definition admit_accepts :: "queuedTask \<Rightarrow> admitOutcome \<Rightarrow> queuedTask multiset" where
  "admit_accepts q v = (case v of admitRunning \<Rightarrow> {#q#} | admitQueued \<Rightarrow> {#q#} | _ \<Rightarrow> {#})"

definition next_goroutine :: "(queuedTask \<Rightarrow> goroutine) \<Rightarrow> queuedTask option \<Rightarrow> goroutine multiset" where
  "next_goroutine f out = (case out of Some q \<Rightarrow> {#f q#} | None \<Rightarrow> {#})"

inductive work_step :: "pool_sys \<Rightarrow> pool_sys \<Rightarrow> bool" where
  wakes: "ps_goroutines s = add_mset (Parked q c) gs \<Longrightarrow> c < po_changed (ps_pool s) \<Longrightarrow> admit q (ps_pool s) = (v, p) \<Longrightarrow>
    work_step s (s\<lparr>ps_pool := p, ps_goroutines := admit_goroutine q v + gs, ps_accepted := admit_accepts q v + ps_accepted s\<rparr>)"
| execs: "ps_goroutines s = add_mset (Admitted q) gs \<Longrightarrow>
    work_step s (s\<lparr>ps_goroutines := add_mset (Starting q) gs\<rparr>)"
| exec_fails: "ps_goroutines s = add_mset (Admitted q) gs \<Longrightarrow>
    work_step s (s\<lparr>ps_goroutines := add_mset (ExecRejected q) gs, ps_refused := add_mset q (ps_refused s)\<rparr>)"
| rejected_done: "ps_goroutines s = add_mset (ExecRejected q) gs \<Longrightarrow>
    work_step s (s\<lparr>ps_pool := inFlight_Done (ps_pool s), ps_goroutines := add_mset HandsOff gs\<rparr>)"
| hands_off: "ps_goroutines s = add_mset HandsOff gs \<Longrightarrow> nextOrRelease (ps_pool s) = (out, p) \<Longrightarrow>
    work_step s (s\<lparr>ps_pool := p, ps_goroutines := next_goroutine Admitted out + gs\<rparr>)"
| registers: "ps_goroutines s = add_mset (Starting q) gs \<Longrightarrow> active_add (qt_name q) now (ps_pool s) = (a, p) \<Longrightarrow>
    work_step s (s\<lparr>ps_pool := p, ps_goroutines := add_mset (Registered q a) gs\<rparr>)"
| calls: "ps_goroutines s = add_mset (Registered q a) gs \<Longrightarrow>
    work_step s (s\<lparr>ps_goroutines := add_mset (Executing q a) gs, ps_called := add_mset q (ps_called s)\<rparr>)"
| abandons: "ps_goroutines s = add_mset (Registered q a) gs \<Longrightarrow> po_cancelled (ps_pool s) \<Longrightarrow>
    work_step s (s\<lparr>ps_goroutines := add_mset (Leaving q a) gs, ps_dropped := add_mset q (ps_dropped s)\<rparr>)"
| task_ends: "ps_goroutines s = add_mset (Executing q a) gs \<Longrightarrow>
    work_step s (s\<lparr>ps_goroutines := add_mset (Leaving q a) gs\<rparr>)"
| leaves: "ps_goroutines s = add_mset (Leaving q a) gs \<Longrightarrow>
    work_step s (s\<lparr>ps_pool := active_remove a (ps_pool s), ps_goroutines := add_mset (Finishing q) gs\<rparr>)"
| finishes: "ps_goroutines s = add_mset (Finishing q) gs \<Longrightarrow>
    work_step s (s\<lparr>ps_pool := inFlight_Done (ps_pool s), ps_goroutines := add_mset Picking gs\<rparr>)"
| picks: "ps_goroutines s = add_mset Picking gs \<Longrightarrow> nextOrRelease (ps_pool s) = (out, p) \<Longrightarrow>
    work_step s (s\<lparr>ps_pool := p, ps_goroutines := next_goroutine Starting out + gs\<rparr>)"

inductive pool_step :: "pool_sys \<Rightarrow> pool_sys \<Rightarrow> bool" where
  works: "work_step s s' \<Longrightarrow> pool_step s s'"
| opens: "pool_open (ps_pool s) = (ok, p) \<Longrightarrow> pool_step s (s\<lparr>ps_pool := p\<rparr>)"
| spawns: "Spawn_check (Some (ps_pool s)) ctx (qt_name q) (Some (qt_task q)) = None \<Longrightarrow> admit q (ps_pool s) = (v, p) \<Longrightarrow>
    pool_step s (s\<lparr>ps_pool := p, ps_goroutines := admit_goroutine q v + ps_goroutines s,
      ps_accepted := admit_accepts q v + ps_accepted s\<rparr>)"
| gives_up: "ps_goroutines s = add_mset (Parked q c) gs \<Longrightarrow> pool_step s (s\<lparr>ps_goroutines := gs\<rparr>)"
| drain_replays: "drain_begin (ps_pool s) = (DrainReplays r, p) \<Longrightarrow>
    pool_step s (s\<lparr>ps_pool := p, ps_results := r # ps_results s\<rparr>)"
| drain_returns: "drain_begin (ps_pool s) = (DrainReturns, p) \<Longrightarrow>
    pool_step s (s\<lparr>ps_pool := p, ps_goroutines := add_mset (DrainClaims None) (ps_goroutines s)\<rparr>)"
| drain_waits: "drain_begin (ps_pool s) = (DrainWaits, p) \<Longrightarrow>
    pool_step s (s\<lparr>ps_pool := p, ps_goroutines := add_mset DrainParked (ps_goroutines s)\<rparr>)"
| drain_done: "ps_goroutines s = add_mset DrainParked gs \<Longrightarrow> po_inFlight (ps_pool s) = 0 \<Longrightarrow>
    pool_step s (s\<lparr>ps_goroutines := add_mset (DrainClaims None) gs\<rparr>)"
| drain_expires: "ps_goroutines s = add_mset DrainParked gs \<Longrightarrow>
    pool_step s (s\<lparr>ps_goroutines := add_mset (DrainClaims (Some e)) gs\<rparr>)"
| drain_claims: "ps_goroutines s = add_mset (DrainClaims e) gs \<Longrightarrow> claimDrainResult e (ps_pool s) = (r, p) \<Longrightarrow>
    pool_step s (s\<lparr>ps_pool := p, ps_goroutines := gs, ps_results := r # ps_results s\<rparr>)"
| stops: "ps_stop s = NotStopped \<Longrightarrow> stop_begin (ps_pool s) = (discarded, p) \<Longrightarrow>
    pool_step s (s\<lparr>ps_pool := p, ps_stop := Discards discarded\<rparr>)"
| stop_discards: "ps_stop s = Discards (q # qs) \<Longrightarrow>
    pool_step s (s\<lparr>ps_pool := inFlight_Done (ps_pool s), ps_stop := Discards qs, ps_dropped := add_mset q (ps_dropped s)\<rparr>)"
| stop_cancels: "ps_stop s = Discards [] \<Longrightarrow> pool_step s (s\<lparr>ps_pool := execCancel (ps_pool s), ps_stop := StopWaits\<rparr>)"
| stop_ends: "ps_stop s = StopWaits \<Longrightarrow> waitErr = None \<longrightarrow> po_inFlight (ps_pool s) = 0 \<Longrightarrow>
    pool_step s (s\<lparr>ps_pool := stop_end waitErr releaseErr (ps_pool s), ps_stop := StopFinished\<rparr>)"

definition pool_start :: "Pool \<Rightarrow> pool_sys" where
  "pool_start p = \<lparr>ps_pool = p, ps_goroutines = {#}, ps_stop = NotStopped, ps_accepted = {#}, ps_called = {#}, ps_refused = {#},
     ps_dropped = {#}, ps_results = []\<rparr>"

section \<open>The invariant\<close>

text \<open>What a goroutine holds: a running slot, a place in the counter, a task that was not called yet.\<close>

fun slot_of :: "goroutine \<Rightarrow> nat" where
  "slot_of (Parked q c) = 0"
| "slot_of DrainParked = 0"
| "slot_of (DrainClaims e) = 0"
| "slot_of g = 1"

fun place_of :: "goroutine \<Rightarrow> nat" where
  "place_of HandsOff = 0"
| "place_of Picking = 0"
| "place_of g = slot_of g"

fun pending_of :: "goroutine \<Rightarrow> queuedTask multiset" where
  "pending_of (Admitted q) = {#q#}"
| "pending_of (Starting q) = {#q#}"
| "pending_of (Registered q a) = {#q#}"
| "pending_of g = {#}"

fun entry_of :: "goroutine \<Rightarrow> nat multiset" where
  "entry_of (Registered q a) = {#a#}"
| "entry_of (Executing q a) = {#a#}"
| "entry_of (Leaving q a) = {#a#}"
| "entry_of g = {#}"

fun is_executing :: "goroutine \<Rightarrow> bool" where
  "is_executing (Executing q a) = True"
| "is_executing g = False"

definition slots :: "goroutine multiset \<Rightarrow> nat" where
  "slots gs = (\<Sum>g\<in>#gs. slot_of g)"

definition places :: "goroutine multiset \<Rightarrow> nat" where
  "places gs = (\<Sum>g\<in>#gs. place_of g)"

definition pending :: "goroutine multiset \<Rightarrow> queuedTask multiset" where
  "pending gs = (\<Sum>g\<in>#gs. pending_of g)"

definition entries :: "goroutine multiset \<Rightarrow> nat multiset" where
  "entries gs = (\<Sum>g\<in>#gs. entry_of g)"

lemma held_simps [simp]:
  "slots {#} = 0" "slots (add_mset g gs) = slot_of g + slots gs" "slots (gs + hs) = slots gs + slots hs"
  "places {#} = 0" "places (add_mset g gs) = place_of g + places gs" "places (gs + hs) = places gs + places hs"
  "pending {#} = {#}" "pending (add_mset g gs) = pending_of g + pending gs" "pending (gs + hs) = pending gs + pending hs"
  "entries {#} = {#}" "entries (add_mset g gs) = entry_of g + entries gs" "entries (gs + hs) = entries gs + entries hs"
  by (simp_all add: slots_def places_def pending_def entries_def)

fun discarding :: "stop_phase \<Rightarrow> queuedTask list" where
  "discarding (Discards qs) = qs"
| "discarding p = []"

definition blocked :: "Pool \<Rightarrow> bool" where
  "blocked p \<longleftrightarrow> po_admitting p \<and> \<not> po_draining p \<and> \<not> po_stopped p \<and> ac_MaxConcurrency (po_cfg p) \<noteq> 0 \<and>
     ac_MaxConcurrency (po_cfg p) \<le> int (po_running p) \<and> ac_QueueCapacity (po_cfg p) \<le> int (length (po_queue p)) \<and>
     ac_SubmitTimeout (po_cfg p) > 0"

text \<open>
  \<^item> The running slots and the counter are exactly what the goroutines, the queue and the stop hold.
  \<^item> Every accepted task is in exactly one place.
  \<^item> A caller that waits on the open channel has nothing to gain from looking again.
\<close>

definition counts_ok :: "pool_sys \<Rightarrow> bool" where
  "counts_ok s \<longleftrightarrow> po_running (ps_pool s) = slots (ps_goroutines s) \<and>
     po_inFlight (ps_pool s) = int (places (ps_goroutines s) + length (po_queue (ps_pool s)) + length (discarding (ps_stop s))) \<and>
     mset (map at_address (po_active (ps_pool s))) = entries (ps_goroutines s) \<and> (\<forall>a \<in># entries (ps_goroutines s). a < po_addresses (ps_pool s)) \<and>
     distinct (map at_address (po_active (ps_pool s)))"

definition tasks_ok :: "pool_sys \<Rightarrow> bool" where
  "tasks_ok s \<longleftrightarrow> ps_accepted s =
     pending (ps_goroutines s) + mset (po_queue (ps_pool s)) + mset (discarding (ps_stop s)) + ps_called s + ps_refused s + ps_dropped s"

definition limits_ok :: "Pool \<Rightarrow> bool" where
  "limits_ok p \<longleftrightarrow> (0 < ac_MaxConcurrency (po_cfg p) \<longrightarrow> int (po_running p) \<le> ac_MaxConcurrency (po_cfg p)) \<and>
     int (length (po_queue p)) \<le> ac_QueueCapacity (po_cfg p) \<and>
     (po_queue p \<noteq> [] \<longrightarrow> int (po_running p) = ac_MaxConcurrency (po_cfg p) \<and> 0 < ac_MaxConcurrency (po_cfg p)) \<and>
     (po_stopped p \<longrightarrow> po_queue p = [] \<and> po_draining p) \<and> (po_cancelled p \<longrightarrow> po_stopped p)"

definition waits_ok :: "pool_sys \<Rightarrow> bool" where
  "waits_ok s \<longleftrightarrow> (\<forall>q c. Parked q c \<in># ps_goroutines s \<longrightarrow> c \<le> po_changed (ps_pool s) \<and>
     (c = po_changed (ps_pool s) \<longrightarrow> blocked (ps_pool s)))"

definition shutdown_ok :: "pool_sys \<Rightarrow> bool" where
  "shutdown_ok s \<longleftrightarrow> (ps_stop s = NotStopped \<longleftrightarrow> \<not> po_stopped (ps_pool s)) \<and>
     (ps_dropped s \<noteq> {#} \<longrightarrow> po_stopped (ps_pool s)) \<and>
     (po_drainClaimed (ps_pool s) \<longrightarrow> po_draining (ps_pool s)) \<and>
     (DrainParked \<in># ps_goroutines s \<longrightarrow> po_draining (ps_pool s)) \<and>
     (\<forall>e. DrainClaims e \<in># ps_goroutines s \<longrightarrow> po_draining (ps_pool s)) \<and>
     (\<forall>r \<in> set (ps_results s). (po_drainClaimed (ps_pool s) \<longrightarrow> r = po_drainErr (ps_pool s)) \<and>
        (\<not> po_drainClaimed (ps_pool s) \<longrightarrow> r = None \<and> po_stopped (ps_pool s)))"

definition async_cfg_ok :: "AsyncConfig \<Rightarrow> bool" where
  "async_cfg_ok c \<longleftrightarrow> 0 \<le> ac_MaxConcurrency c \<and> 0 \<le> ac_QueueCapacity c \<and> (0 < ac_QueueCapacity c \<longrightarrow> 0 < ac_MaxConcurrency c)"

definition pool_ok :: "pool_sys \<Rightarrow> bool" where
  "pool_ok s \<longleftrightarrow> async_cfg_ok (po_cfg (ps_pool s)) \<and> counts_ok s \<and> tasks_ok s \<and> limits_ok (ps_pool s) \<and> waits_ok s \<and> shutdown_ok s"

lemma admit_cases:
  assumes "admit q p = (v, p')"
  obtains (refused) e where "v = admitRefused e" "p' = p"
  | (waits) "v = admitWaits (po_changed p)" "p' = p" "blocked p"
  | (runs) "v = admitRunning" "p' = p\<lparr>po_running := po_running p + 1, po_inFlight := po_inFlight p + 1, po_changed := po_changed p + 1\<rparr>"
      "\<not> po_draining p" "\<not> po_stopped p" "ac_MaxConcurrency (po_cfg p) = 0 \<or> int (po_running p) < ac_MaxConcurrency (po_cfg p)"
  | (queues) "v = admitQueued" "p' = p\<lparr>po_inFlight := po_inFlight p + 1, po_queue := po_queue p @ [q], po_changed := po_changed p + 1\<rparr>"
      "\<not> po_draining p" "\<not> po_stopped p" "ac_MaxConcurrency (po_cfg p) \<noteq> 0" "ac_MaxConcurrency (po_cfg p) \<le> int (po_running p)"
      "int (length (po_queue p)) < ac_QueueCapacity (po_cfg p)"
proof -
  let ?c = "po_cfg p"
  consider (closed) "\<not> po_admitting p \<or> po_draining p \<or> po_stopped p"
    | (free) "po_admitting p" "\<not> po_draining p" "\<not> po_stopped p" "ac_MaxConcurrency ?c = 0 \<or> int (po_running p) < ac_MaxConcurrency ?c"
    | (room) "po_admitting p" "\<not> po_draining p" "\<not> po_stopped p" "ac_MaxConcurrency ?c \<noteq> 0" "ac_MaxConcurrency ?c \<le> int (po_running p)"
        "int (length (po_queue p)) < ac_QueueCapacity ?c"
    | (full) "po_admitting p" "\<not> po_draining p" "\<not> po_stopped p" "ac_MaxConcurrency ?c \<noteq> 0" "ac_MaxConcurrency ?c \<le> int (po_running p)"
        "ac_QueueCapacity ?c \<le> int (length (po_queue p))"
    by linarith
  then show thesis
  proof cases
    case closed
    with assms show ?thesis by (intro refused [of ErrShuttingDown]) (simp_all add: admit_def)
  next
    case free
    with assms show ?thesis by (intro runs) (auto simp: admit_def signalChangedLocked_def)
  next
    case room
    with assms show ?thesis by (intro queues) (auto simp: admit_def signalChangedLocked_def)
  next
    case full
    with assms show ?thesis
      by (cases "ac_SubmitTimeout ?c > 0") (auto simp: admit_def blocked_def intro: refused waits)
  qed
qed

lemma next_cases:
  assumes "nextOrRelease p = (out, p')"
  obtains (pops) q rest where "out = Some q" "po_queue p = q # rest" "p' = p\<lparr>po_queue := rest, po_changed := po_changed p + 1\<rparr>" "\<not> po_stopped p"
  | (released) "out = None" "p' = p\<lparr>po_running := po_running p - 1, po_changed := po_changed p + 1\<rparr>" "po_stopped p \<or> po_queue p = []"
  using assms by (cases "po_queue p") (auto simp: nextOrRelease_def signalChangedLocked_def split: if_splits)

lemma remove_entry_mset:
  "distinct (map at_address xs) \<Longrightarrow> a \<in> at_address ` set xs \<Longrightarrow> mset (map at_address (remove_entry a xs)) = mset (map at_address xs) - {#a#}"
  by (induction xs) (auto simp: add_mset_remove_trivial_eq)

lemma remove_entry_distinct:
  "distinct (map at_address xs) \<Longrightarrow> distinct (map at_address (remove_entry a xs))"
proof (induction xs)
  case (Cons x xs)
  have "set (remove_entry a xs) \<subseteq> set xs" by (induction xs) auto
  with Cons show ?case by auto
qed simp

lemma goroutines_admit [simp]:
  "slots (admit_goroutine q v) = (if v = admitRunning then 1 else 0)"
  "places (admit_goroutine q v) = (if v = admitRunning then 1 else 0)"
  "pending (admit_goroutine q v) = (if v = admitRunning then {#q#} else {#})"
  "entries (admit_goroutine q v) = {#}"
  by (cases v; simp add: admit_goroutine_def)+

lemma counts_okD:
  assumes "counts_ok s"
  shows "po_running (ps_pool s) = slots (ps_goroutines s)"
    "po_inFlight (ps_pool s) = int (places (ps_goroutines s) + length (po_queue (ps_pool s)) + length (discarding (ps_stop s)))"
    "mset (map at_address (po_active (ps_pool s))) = entries (ps_goroutines s)" "a \<in># entries (ps_goroutines s) \<Longrightarrow> a < po_addresses (ps_pool s)"
    "distinct (map at_address (po_active (ps_pool s)))"
  using assms unfolding counts_ok_def by blast+

lemma counts_fresh: "counts_ok s \<Longrightarrow> x \<in> set (po_active (ps_pool s)) \<Longrightarrow> at_address x < po_addresses (ps_pool s)"
  by (rule counts_okD(4)) (simp_all add: counts_okD(3) [symmetric])

lemma counts_admit:
  assumes "counts_ok s" "admit q (ps_pool s) = (v, p)"
    and "slots (ps_goroutines s) = slots gs" "places (ps_goroutines s) = places gs" "entries (ps_goroutines s) = entries gs"
  shows "counts_ok (s\<lparr>ps_pool := p, ps_goroutines := admit_goroutine q v + gs, ps_accepted := acc\<rparr>)"
  by (rule admit_cases [OF assms(2)])
    (use counts_okD [OF assms(1)] assms(3-5) in \<open>auto simp: counts_ok_def\<close>)

lemma counts_next:
  assumes "counts_ok s" "nextOrRelease (ps_pool s) = (out, p)" "limits_ok (ps_pool s)"
    and "slots (ps_goroutines s) = Suc (slots gs)" "places (ps_goroutines s) = places gs" "entries (ps_goroutines s) = entries gs"
    and f: "\<And>q. slot_of (f q) = 1" "\<And>q. place_of (f q) = 1" "\<And>q. entry_of (f q) = {#}"
  shows "counts_ok (s\<lparr>ps_pool := p, ps_goroutines := next_goroutine f out + gs\<rparr>)"
  by (rule next_cases [OF assms(2)])
    (use counts_okD [OF assms(1)] assms(3-6) f in \<open>auto simp: counts_ok_def next_goroutine_def limits_ok_def\<close>)

lemma counts_work:
  assumes "work_step s s'" and ok: "counts_ok s" "limits_ok (ps_pool s)"
  shows "counts_ok s'"
  using assms(1)
proof (cases rule: work_step.cases)
  case (wakes q c gs v p)
  show ?thesis unfolding wakes(1)
    by (rule counts_admit [OF ok(1) wakes(4)]) (simp_all add: wakes(2))
next
  case (hands_off gs out p)
  show ?thesis unfolding hands_off(1)
    by (rule counts_next [OF ok(1) hands_off(3) ok(2)]) (simp_all add: hands_off(2))
next
  case (picks gs out p)
  show ?thesis unfolding picks(1)
    by (rule counts_next [OF ok(1) picks(3) ok(2)]) (simp_all add: picks(2))
next
  case (registers q gs now a p)
  then show ?thesis using counts_okD [OF ok(1)] counts_fresh [OF ok(1)]
    by (fastforce simp: counts_ok_def active_add_def less_SucI)
next
  case (leaves q a gs)
  have a: "a \<in># mset (map at_address (po_active (ps_pool s)))" unfolding counts_okD(3) [OF ok(1)] by (simp add: leaves(2) entries_def)
  then have "a \<in> at_address ` set (po_active (ps_pool s))" by auto
  from remove_entry_mset [OF counts_okD(5) [OF ok(1)] this] remove_entry_distinct [OF counts_okD(5) [OF ok(1)], of a]
  show ?thesis using counts_okD(1-4) [OF ok(1)] leaves
    by (auto simp: counts_ok_def active_remove_def)
qed (use counts_okD [OF ok(1)] in \<open>auto simp: counts_ok_def inFlight_Done_def\<close>)

lemma goroutines_accepted [simp]: "pending (next_goroutine Starting out) = (case out of None \<Rightarrow> {#} | Some q \<Rightarrow> {#q#})"
  "pending (next_goroutine Admitted out) = (case out of None \<Rightarrow> {#} | Some q \<Rightarrow> {#q#})"
  by (cases out; simp add: next_goroutine_def)+

lemma tasks_admit:
  assumes "tasks_ok s" "admit q (ps_pool s) = (v, p)" "pending (ps_goroutines s) = pending gs"
  shows "tasks_ok (s\<lparr>ps_pool := p, ps_goroutines := admit_goroutine q v + gs, ps_accepted := admit_accepts q v + ps_accepted s\<rparr>)"
  by (rule admit_cases [OF assms(2)]) (use assms(1,3) in \<open>auto simp: tasks_ok_def admit_accepts_def\<close>)

lemma tasks_next:
  assumes "tasks_ok s" "nextOrRelease (ps_pool s) = (out, p)" "pending (ps_goroutines s) = pending gs" "f = Starting \<or> f = Admitted"
  shows "tasks_ok (s\<lparr>ps_pool := p, ps_goroutines := next_goroutine f out + gs\<rparr>)"
  by (rule next_cases [OF assms(2)]) (use assms(1,3,4) in \<open>auto simp: tasks_ok_def\<close>)

lemma tasks_work:
  assumes "work_step s s'" and ok: "tasks_ok s"
  shows "tasks_ok s'"
  using assms(1)
proof (cases rule: work_step.cases)
  case (wakes q c gs v p)
  show ?thesis unfolding wakes(1) by (rule tasks_admit [OF ok wakes(4)]) (simp add: wakes(2))
next
  case (hands_off gs out p)
  show ?thesis unfolding hands_off(1) by (rule tasks_next [OF ok hands_off(3)]) (simp_all add: hands_off(2))
next
  case (picks gs out p)
  show ?thesis unfolding picks(1) by (rule tasks_next [OF ok picks(3)]) (simp_all add: picks(2))
next
  case (registers q gs now a p)
  with ok show ?thesis by (auto simp: tasks_ok_def active_add_def)
qed (use ok in \<open>simp_all add: tasks_ok_def inFlight_Done_def active_remove_def\<close>)

text \<open>The pool alone.\<close>

lemma limits_admit:
  assumes "limits_ok p" "async_cfg_ok (po_cfg p)" "admit q p = (v, p')"
  shows "limits_ok p' \<and> po_cfg p' = po_cfg p"
  by (rule admit_cases [OF assms(3)]) (use assms(1,2) in \<open>auto simp: limits_ok_def async_cfg_ok_def\<close>)

lemma limits_next:
  assumes "limits_ok p" "nextOrRelease p = (out, p')"
  shows "limits_ok p' \<and> po_cfg p' = po_cfg p"
  by (rule next_cases [OF assms(2)]) (use assms(1) in \<open>auto simp: limits_ok_def\<close>)

lemma limits_work:
  assumes "work_step s s'" and ok: "limits_ok (ps_pool s)" "async_cfg_ok (po_cfg (ps_pool s))"
  shows "limits_ok (ps_pool s') \<and> po_cfg (ps_pool s') = po_cfg (ps_pool s)"
  using assms(1)
proof (cases rule: work_step.cases)
  case (wakes q c gs v p)
  with limits_admit [OF ok wakes(4)] show ?thesis by simp
next
  case (hands_off gs out p)
  with limits_next [OF ok(1) hands_off(3)] show ?thesis by simp
next
  case (picks gs out p)
  with limits_next [OF ok(1) picks(3)] show ?thesis by simp
qed (use ok in \<open>auto simp: limits_ok_def inFlight_Done_def active_add_def active_remove_def\<close>)

text \<open>Whatever makes room or closes admission signals; nothing else touches what a waiting caller looks at.\<close>

definition signals :: "Pool \<Rightarrow> Pool \<Rightarrow> bool" where
  "signals p p' \<longleftrightarrow> po_changed p < po_changed p' \<or> po_changed p' = po_changed p \<and> (blocked p \<longrightarrow> blocked p')"

lemma waits_signals:
  assumes "waits_ok s" "signals (ps_pool s) (ps_pool s')"
    and "\<And>q c. Parked q c \<in># ps_goroutines s' \<Longrightarrow> Parked q c \<in># ps_goroutines s \<or> c = po_changed (ps_pool s') \<and> blocked (ps_pool s')"
  shows "waits_ok s'"
  unfolding waits_ok_def
proof (intro allI impI)
  fix q c assume "Parked q c \<in># ps_goroutines s'"
  with assms(3) consider "Parked q c \<in># ps_goroutines s" | "c = po_changed (ps_pool s')" "blocked (ps_pool s')" by blast
  then show "c \<le> po_changed (ps_pool s') \<and> (c = po_changed (ps_pool s') \<longrightarrow> blocked (ps_pool s'))"
  proof cases
    case 1
    with assms(1) have "c \<le> po_changed (ps_pool s)" "c = po_changed (ps_pool s) \<longrightarrow> blocked (ps_pool s)" by (auto simp: waits_ok_def)
    with assms(2) show ?thesis by (auto simp: signals_def)
  qed simp
qed

lemma signals_ops:
  "admit q p = (v, p') \<Longrightarrow> signals p p'" "nextOrRelease p = (out, p') \<Longrightarrow> signals p p'" "pool_open p = (ok, p') \<Longrightarrow> signals p p'"
  "drain_begin p = (d, p') \<Longrightarrow> signals p p'" "claimDrainResult e p = (r, p') \<Longrightarrow> signals p p'" "stop_begin p = (qs, p') \<Longrightarrow> signals p p'"
  "active_add name now p = (a, p') \<Longrightarrow> signals p p'" "signals p (active_remove a p)" "signals p (inFlight_Done p)" "signals p (execCancel p)"
  "signals p (stop_end w r p)" "signals p p"
proof -
  show "admit q p = (v, p') \<Longrightarrow> signals p p'" by (erule admit_cases) (simp_all add: signals_def)
  show "nextOrRelease p = (out, p') \<Longrightarrow> signals p p'" by (erule next_cases) (simp_all add: signals_def)
qed (auto simp: signals_def blocked_def pool_open_def drain_begin_def claimDrainResult_def stop_begin_def active_add_def active_remove_def
    inFlight_Done_def execCancel_def stop_end_def signalChangedLocked_def Let_def split: if_splits)

lemma parked_admitted:
  assumes "admit q p = (v, p')" "Parked q' c \<in># admit_goroutine q v"
  shows "c = po_changed p' \<and> blocked p'"
  by (rule admit_cases [OF assms(1)]) (use assms(2) in \<open>auto simp: admit_goroutine_def\<close>)

lemma parked_next: "(\<And>q q' c. f q \<noteq> Parked q' c) \<Longrightarrow> Parked q c \<notin># next_goroutine f out"
  by (cases out) (simp_all add: next_goroutine_def, metis)

lemma waits_work:
  assumes "work_step s s'" and ok: "waits_ok s"
  shows "waits_ok s'"
  using assms(1)
proof (cases rule: work_step.cases)
  case (wakes q c gs v p)
  show ?thesis by (rule waits_signals [OF ok]) (use wakes signals_ops(1) parked_admitted [OF wakes(4)] in auto)
next
  case (hands_off gs out p)
  show ?thesis by (rule waits_signals [OF ok]) (use hands_off signals_ops(2) parked_next [of Admitted] in auto)
next
  case (picks gs out p)
  show ?thesis by (rule waits_signals [OF ok]) (use picks signals_ops(2) parked_next [of Starting] in auto)
qed (rule waits_signals [OF ok]; auto simp: signals_ops)+

text \<open>Workers do not touch the shutdown flags.\<close>

lemma flags_work:
  assumes "work_step s s'"
  shows "ps_stop s' = ps_stop s \<and> po_stopped (ps_pool s') = po_stopped (ps_pool s) \<and> po_draining (ps_pool s') = po_draining (ps_pool s) \<and>
    po_drainClaimed (ps_pool s') = po_drainClaimed (ps_pool s) \<and> po_drainErr (ps_pool s') = po_drainErr (ps_pool s) \<and>
    ps_results s' = ps_results s \<and> (ps_dropped s' = ps_dropped s \<or> po_cancelled (ps_pool s)) \<and>
    po_cancelled (ps_pool s') = po_cancelled (ps_pool s)"
  using assms
proof (cases rule: work_step.cases)
  case (wakes q c gs v p)
  show ?thesis by (rule admit_cases [OF wakes(4)]) (simp_all add: wakes(1))
next
  case (hands_off gs out p)
  show ?thesis by (rule next_cases [OF hands_off(3)]) (simp_all add: hands_off(1))
next
  case (picks gs out p)
  show ?thesis by (rule next_cases [OF picks(3)]) (simp_all add: picks(1))
qed (auto simp: inFlight_Done_def active_add_def active_remove_def)

definition is_drain :: "goroutine \<Rightarrow> bool" where
  "is_drain g \<longleftrightarrow> g = DrainParked \<or> (\<exists>e. g = DrainClaims e)"

lemma drains_work: "work_step s s' \<Longrightarrow> is_drain g \<Longrightarrow> g \<in># ps_goroutines s' \<Longrightarrow> g \<in># ps_goroutines s"
  by (erule work_step.cases) (auto simp: is_drain_def admit_goroutine_def next_goroutine_def split: admitOutcome.splits option.splits)

lemma shutdown_work:
  assumes "work_step s s'" and "shutdown_ok s" "limits_ok (ps_pool s)"
  shows "shutdown_ok s'"
proof -
  note flags = flags_work [OF assms(1)]
  have "g \<in># ps_goroutines s' \<Longrightarrow> is_drain g \<Longrightarrow> po_draining (ps_pool s)" for g
    using drains_work [OF assms(1), of g] assms(2) by (auto simp: shutdown_ok_def is_drain_def)
  then have "DrainParked \<in># ps_goroutines s' \<longrightarrow> po_draining (ps_pool s)" "\<forall>e. DrainClaims e \<in># ps_goroutines s' \<longrightarrow> po_draining (ps_pool s)"
    by (auto simp: is_drain_def)
  moreover have "ps_dropped s \<noteq> {#} \<longrightarrow> po_stopped (ps_pool s)" "po_cancelled (ps_pool s) \<longrightarrow> po_stopped (ps_pool s)"
    using assms(2,3) unfolding shutdown_ok_def limits_ok_def by blast+
  moreover from this flags have "ps_dropped s' \<noteq> {#} \<longrightarrow> po_stopped (ps_pool s)" by metis
  ultimately show ?thesis using assms(2) flags unfolding shutdown_ok_def by simp
qed

lemma pool_work: "work_step s s' \<Longrightarrow> pool_ok s \<Longrightarrow> pool_ok s'"
  using counts_work [of s s'] tasks_work [of s s'] limits_work [of s s'] waits_work [of s s'] shutdown_work [of s s']
  by (simp add: pool_ok_def)

text \<open>The other steps.\<close>

lemma pool_okD:
  assumes "pool_ok s"
  shows "async_cfg_ok (po_cfg (ps_pool s))" "counts_ok s" "tasks_ok s" "limits_ok (ps_pool s)" "waits_ok s" "shutdown_ok s"
  using assms by (simp_all add: pool_ok_def)

lemma shutdown_okD:
  assumes "shutdown_ok s"
  shows "ps_stop s = NotStopped \<longleftrightarrow> \<not> po_stopped (ps_pool s)" "ps_dropped s \<noteq> {#} \<Longrightarrow> po_stopped (ps_pool s)"
    "po_drainClaimed (ps_pool s) \<Longrightarrow> po_draining (ps_pool s)" "DrainParked \<in># ps_goroutines s \<Longrightarrow> po_draining (ps_pool s)"
    "DrainClaims e \<in># ps_goroutines s \<Longrightarrow> po_draining (ps_pool s)"
    "r \<in> set (ps_results s) \<Longrightarrow> po_drainClaimed (ps_pool s) \<Longrightarrow> r = po_drainErr (ps_pool s)"
    "r \<in> set (ps_results s) \<Longrightarrow> \<not> po_drainClaimed (ps_pool s) \<Longrightarrow> r = None \<and> po_stopped (ps_pool s)"
  using assms unfolding shutdown_ok_def by blast+

lemma drain_begin_ok:
  assumes ok: "pool_ok s" and run: "drain_begin (ps_pool s) = (d, p)" and d: "d = DrainReturns \<or> d = DrainWaits"
    and g: "g = DrainParked \<or> g = DrainClaims None"
  shows "pool_ok (s\<lparr>ps_pool := p, ps_goroutines := add_mset g (ps_goroutines s)\<rparr>)" (is "pool_ok ?s")
proof -
  note a = pool_okD [OF ok]
  have p: "p = (ps_pool s)\<lparr>po_draining := True, po_changed := po_changed (ps_pool s) + 1\<rparr>"
    using run d by (auto simp: drain_begin_def signalChangedLocked_def split: if_splits)
  have "waits_ok ?s" by (rule waits_signals [OF a(5)]) (use signals_ops(4) [OF run] g in auto)
  moreover have "counts_ok ?s" using a(2) g unfolding counts_ok_def by (auto simp: p)
  moreover have "tasks_ok ?s" using a(3) g unfolding tasks_ok_def by (auto simp: p)
  moreover have "limits_ok p" using a(4) unfolding limits_ok_def by (simp add: p)
  moreover have "shutdown_ok ?s" using a(6) g unfolding shutdown_ok_def by (auto simp: p)
  ultimately show ?thesis using a(1) p by (simp add: pool_ok_def)
qed

lemma pool_other:
  assumes "pool_step s s'" and ok: "pool_ok s" and "\<not> work_step s s'"
  shows "pool_ok s'"
  using assms(1)
proof (cases rule: pool_step.cases)
  case works
  with assms(3) show ?thesis by blast
next
  case (spawns ctx q v p)
  note a = pool_okD [OF ok]
  have "counts_ok s'" unfolding spawns(1) by (rule counts_admit [OF a(2) spawns(3)]) simp_all
  moreover have "tasks_ok s'" unfolding spawns(1) by (rule tasks_admit [OF a(3) spawns(3)]) simp
  moreover have "waits_ok s'" by (rule waits_signals [OF a(5)]) (use spawns signals_ops(1) parked_admitted [OF spawns(3)] in auto)
  moreover have "shutdown_ok s'"
    by (rule admit_cases [OF spawns(3)]) (use a(6) spawns(1) in \<open>auto simp: shutdown_ok_def admit_goroutine_def\<close>)
  ultimately show ?thesis using limits_admit [OF a(4,1) spawns(3)] a(1) spawns(1) by (simp add: pool_ok_def)
next
  case (stops discarded p)
  note a = pool_okD [OF ok]
  have p: "p = (ps_pool s)\<lparr>po_draining := True, po_stopped := True, po_queue := [], po_changed := po_changed (ps_pool s) + 1\<rparr>" "discarded = po_queue (ps_pool s)"
    using stops(3) by (auto simp: stop_begin_def signalChangedLocked_def)
  have "waits_ok s'" by (rule waits_signals [OF a(5)]) (use stops signals_ops(6) in auto)
  moreover have "counts_ok s'" "tasks_ok s'" "limits_ok (ps_pool s')" "shutdown_ok s'"
    using a stops(1,2) unfolding p by (auto simp: counts_ok_def tasks_ok_def limits_ok_def async_cfg_ok_def shutdown_ok_def)
  ultimately show ?thesis using a(1) stops(1) p by (simp add: pool_ok_def)
next
  case (drain_claims e gs r p)
  note a = pool_okD [OF ok]
  have "shutdown_ok s'" using a(6) drain_claims shutdown_okD(5) [OF a(6), of e]
    by (auto simp: shutdown_ok_def claimDrainResult_def Let_def split: if_splits)
  moreover have "waits_ok s'" by (rule waits_signals [OF a(5)]) (use drain_claims signals_ops(5) in auto)
  moreover obtain b e' where "p = (ps_pool s)\<lparr>po_drainClaimed := b, po_drainErr := e'\<rparr>"
    using drain_claims(3) that [of "po_drainErr (ps_pool s)" "po_drainClaimed (ps_pool s)"] that [of e True]
    by (auto simp: claimDrainResult_def Let_def split: if_splits)
  then have "counts_ok s'" "tasks_ok s'" "limits_ok (ps_pool s')" "async_cfg_ok (po_cfg (ps_pool s'))"
    using a(1-4) drain_claims(1,2) by (simp_all add: counts_ok_def tasks_ok_def limits_ok_def)
  ultimately show ?thesis by (simp add: pool_ok_def)
next
  case (opens okay p)
  note a = pool_okD [OF ok]
  have "waits_ok s'" by (rule waits_signals [OF a(5)]) (use opens signals_ops(3) in auto)
  with a opens show ?thesis
    by (auto simp: pool_ok_def counts_ok_def tasks_ok_def limits_ok_def shutdown_ok_def pool_open_def split: if_splits)
next
  case (gives_up q c gs)
  with ok show ?thesis by (simp add: pool_ok_def counts_ok_def tasks_ok_def waits_ok_def shutdown_ok_def)
next
  case (drain_replays r p)
  with ok show ?thesis
    by (auto simp: pool_ok_def counts_ok_def tasks_ok_def waits_ok_def shutdown_ok_def drain_begin_def split: if_splits)
next
  case (drain_returns p)
  then show ?thesis using drain_begin_ok [OF ok drain_returns(2), of "DrainClaims None"] by simp
next
  case (drain_waits p)
  then show ?thesis using drain_begin_ok [OF ok drain_waits(2), of DrainParked] by simp
next
  case (stop_discards q qs)
  note a = pool_okD [OF ok]
  have "waits_ok s'" by (rule waits_signals [OF a(5)]) (use stop_discards signals_ops(9) in auto)
  with a stop_discards show ?thesis
    by (auto simp: pool_ok_def counts_ok_def tasks_ok_def limits_ok_def shutdown_ok_def inFlight_Done_def)
next
  case stop_cancels
  note a = pool_okD [OF ok]
  have "waits_ok s'" by (rule waits_signals [OF a(5)]) (use stop_cancels signals_ops(10) in auto)
  with a stop_cancels shutdown_okD(1) [OF a(6)] show ?thesis
    by (auto simp: pool_ok_def counts_ok_def tasks_ok_def limits_ok_def shutdown_ok_def execCancel_def)
next
  case (stop_ends w r)
  note a = pool_okD [OF ok]
  have "waits_ok s'" by (rule waits_signals [OF a(5)]) (use stop_ends signals_ops(11) in auto)
  with a stop_ends show ?thesis
    by (auto simp: pool_ok_def counts_ok_def tasks_ok_def limits_ok_def shutdown_ok_def stop_end_def)
qed (use ok in \<open>auto simp: pool_ok_def counts_ok_def tasks_ok_def waits_ok_def shutdown_ok_def\<close>)

lemma pool_step_ok: "pool_step s s' \<Longrightarrow> pool_ok s \<Longrightarrow> pool_ok s'"
  using pool_work pool_other by blast

lemma prepared_cfg_ok: "async_prepareConfig c = Inr cfg \<Longrightarrow> async_cfg_ok cfg"
  by (auto simp: async_prepareConfig_def async_validate_def async_cfg_ok_def Let_def split: if_splits option.splits)

lemma pool_start_ok: "async_prepareConfig c = Inr cfg \<Longrightarrow> pool_ok (pool_start (newPool cfg))"
  using prepared_cfg_ok [of c cfg]
  by (simp add: pool_start_def newPool_def pool_ok_def counts_ok_def tasks_ok_def limits_ok_def waits_ok_def shutdown_ok_def async_cfg_ok_def)

lemma pool_step_cfg: "pool_step s s' \<Longrightarrow> pool_ok s \<Longrightarrow> po_cfg (ps_pool s') = po_cfg (ps_pool s)"
proof (erule pool_step.cases)
  fix t t' assume "work_step t t'" "s = t" "s' = t'" "pool_ok s"
  then show ?thesis using limits_work pool_okD(1,4) by blast
next
  fix t ctx q v p acc gs
  assume "admit q (ps_pool t) = (v, p)" "s = t" "s' = t\<lparr>ps_pool := p, ps_goroutines := gs, ps_accepted := acc\<rparr>" "pool_ok s"
  then show ?thesis using limits_admit pool_okD(1,4) by fastforce
qed (auto simp: pool_open_def drain_begin_def claimDrainResult_def stop_begin_def inFlight_Done_def execCancel_def stop_end_def
    signalChangedLocked_def Let_def split: if_splits)

lemma pool_reach:
  assumes "async_prepareConfig c = Inr cfg" and "pool_step\<^sup>*\<^sup>* (pool_start (newPool cfg)) s"
  shows "pool_ok s \<and> po_cfg (ps_pool s) = cfg"
  using assms(2)
proof (induction rule: rtranclp_induct)
  case base
  show ?case using pool_start_ok [OF assms(1)] by (simp add: pool_start_def newPool_def)
next
  case (step t t')
  then show ?case using pool_step_ok pool_step_cfg by auto
qed

lemma executing_slots: "size (filter_mset is_executing gs) \<le> slots gs"
proof (induction gs)
  case (add g gs)
  then show ?case by (cases g) auto
qed simp

section \<open>A drain ends\<close>

text \<open>The work that is left once admission has closed: each step of a worker makes it smaller.\<close>

fun work_of :: "goroutine \<Rightarrow> nat" where
  "work_of (Parked q c) = 1"
| "work_of (Admitted q) = 7"
| "work_of (Starting q) = 6"
| "work_of (Registered q a) = 5"
| "work_of (Executing q a) = 4"
| "work_of (Leaving q a) = 3"
| "work_of (Finishing q) = 2"
| "work_of Picking = 1"
| "work_of (ExecRejected q) = 2"
| "work_of HandsOff = 1"
| "work_of g = 0"

definition work_left :: "pool_sys \<Rightarrow> nat" where
  "work_left s = (\<Sum>g\<in>#ps_goroutines s. work_of g) + 7 * length (po_queue (ps_pool s))"

lemma work_decreases:
  assumes "work_step s s'" and "po_draining (ps_pool s)"
  shows "work_left s' < work_left s"
  using assms(1)
proof (cases rule: work_step.cases)
  case (wakes q c gs v p)
  show ?thesis by (rule admit_cases [OF wakes(4)])
    (use wakes(1,2) assms(2) in \<open>auto simp: work_left_def admit_goroutine_def blocked_def\<close>)
next
  case (hands_off gs out p)
  show ?thesis by (rule next_cases [OF hands_off(3)]) (simp_all add: hands_off(1,2) work_left_def next_goroutine_def)
next
  case (picks gs out p)
  show ?thesis by (rule next_cases [OF picks(3)]) (simp_all add: picks(1,2) work_left_def next_goroutine_def)
qed (auto simp: work_left_def inFlight_Done_def active_add_def active_remove_def)

text \<open>Nothing is left to do exactly when only drains and callers on the open channel remain.\<close>

lemma work_enabled:
  assumes "g \<in># ps_goroutines s" "slot_of g = 1"
  shows "\<exists>s'. work_step s s'"
proof -
  obtain gs where gs: "ps_goroutines s = add_mset g gs" using assms(1) by (meson multi_member_split)
  show ?thesis
  proof (cases g)
    case (Starting q)
    with gs show ?thesis using work_step.registers [of s q gs] by (cases "active_add (qt_name q) 0 (ps_pool s)") blast
  next
    case HandsOff
    with gs show ?thesis using work_step.hands_off [of s gs] by (cases "nextOrRelease (ps_pool s)") blast
  next
    case Picking
    with gs show ?thesis using work_step.picks [of s gs] by (cases "nextOrRelease (ps_pool s)") blast
  qed (use gs assms(2) in \<open>simp; blast intro: execs rejected_done calls task_ends leaves finishes\<close>)+
qed

lemma idle_slots:
  assumes "\<forall>g \<in># gs. slot_of g \<noteq> 1"
  shows "slots gs = 0 \<and> places gs = 0 \<and> pending gs = {#} \<and> entries gs = {#}"
  using assms
proof (induction gs)
  case (add g gs)
  then show ?case by (cases g) auto
qed simp

lemma work_many:
  "(work_step ^^ n) s s' \<Longrightarrow> po_draining (ps_pool s) \<Longrightarrow> pool_ok s \<Longrightarrow>
    n + work_left s' \<le> work_left s \<and> po_draining (ps_pool s') \<and> pool_ok s' \<and> ps_stop s' = ps_stop s"
proof (induction n arbitrary: s')
  case (Suc n)
  then obtain t where t: "(work_step ^^ n) s t" "work_step t s'" by auto
  from Suc.IH [OF t(1) Suc.prems(2,3)] have "n + work_left t \<le> work_left s" "po_draining (ps_pool t)" "pool_ok t" "ps_stop t = ps_stop s" by auto
  with work_decreases [OF t(2)] flags_work [OF t(2)] pool_work [OF t(2)] show ?case by simp
qed simp

section \<open>The pool is safe and drains\<close>

text \<open>
  C11. However callers, workers, drains and the stop of a pool interleave: at most the configured number of
  tasks execute at once, at most the configured number are queued, and a queued task always has every
  slot busy with a worker that looks at the queue before it leaves, so no queued task is forgotten. Every accepted task is
  in exactly one place (held by a goroutine, queued, called, rejected by the executor, or dropped) and so is
  called at most once, and none is dropped before the pool is stopped. A caller that waits
  on a channel that was not closed would only wait again. And all drains return the same result.
\<close>

theorem pool_safety:
  assumes "async_prepareConfig c = Inr cfg" and "pool_step\<^sup>*\<^sup>* (pool_start (newPool cfg)) s"
  shows "(0 < ac_MaxConcurrency cfg \<longrightarrow> int (size (filter_mset is_executing (ps_goroutines s))) \<le> ac_MaxConcurrency cfg) \<and>
    int (length (po_queue (ps_pool s))) \<le> ac_QueueCapacity cfg \<and>
    (po_queue (ps_pool s) \<noteq> [] \<longrightarrow> int (slots (ps_goroutines s)) = ac_MaxConcurrency cfg \<and> 0 < ac_MaxConcurrency cfg) \<and>
    ps_accepted s = pending (ps_goroutines s) + mset (po_queue (ps_pool s)) + mset (discarding (ps_stop s)) +
      ps_called s + ps_refused s + ps_dropped s \<and>
    (\<not> po_stopped (ps_pool s) \<longrightarrow> ps_dropped s = {#}) \<and>
    po_inFlight (ps_pool s) = int (places (ps_goroutines s) + length (po_queue (ps_pool s)) + length (discarding (ps_stop s))) \<and>
    (\<forall>q c. Parked q c \<in># ps_goroutines s \<and> \<not> c < po_changed (ps_pool s) \<longrightarrow> admit q (ps_pool s) = (admitWaits c, ps_pool s)) \<and>
    (\<forall>r r'. r \<in> set (ps_results s) \<and> r' \<in> set (ps_results s) \<longrightarrow> r = r')"
proof -
  have ok: "pool_ok s" and cfg: "po_cfg (ps_pool s) = cfg" using pool_reach [OF assms] by auto
  note a = pool_okD [OF ok] and counts = counts_okD [OF pool_okD(2) [OF ok]] and shut = shutdown_okD [OF pool_okD(6) [OF ok]]
  show ?thesis
  proof (intro conjI allI impI)
    show "int (size (filter_mset is_executing (ps_goroutines s))) \<le> ac_MaxConcurrency cfg" if "0 < ac_MaxConcurrency cfg"
      using that a(4) cfg counts(1) executing_slots [of "ps_goroutines s"] by (simp add: limits_ok_def)
    show "int (length (po_queue (ps_pool s))) \<le> ac_QueueCapacity cfg"
      "po_queue (ps_pool s) \<noteq> [] \<Longrightarrow> int (slots (ps_goroutines s)) = ac_MaxConcurrency cfg"
      "po_queue (ps_pool s) \<noteq> [] \<Longrightarrow> 0 < ac_MaxConcurrency cfg"
      using a(4) cfg counts(1) by (simp_all add: limits_ok_def)
    show "ps_dropped s = {#}" if "\<not> po_stopped (ps_pool s)" using that shut(2) by blast
    show "admit q (ps_pool s) = (admitWaits c', ps_pool s)" if "Parked q c' \<in># ps_goroutines s \<and> \<not> c' < po_changed (ps_pool s)" for q c'
    proof -
      from that a(5) have "c' = po_changed (ps_pool s)" unfolding waits_ok_def by (meson le_neq_implies_less)
      with that a(5) have "c' = po_changed (ps_pool s)" "blocked (ps_pool s)" unfolding waits_ok_def by blast+
      then show ?thesis by (simp add: admit_def blocked_def)
    qed
    show "r = r'" if "r \<in> set (ps_results s) \<and> r' \<in> set (ps_results s)" for r r'
      using that shut(6,7) by metis
  qed (use a(3) counts(2) in \<open>simp_all add: tasks_ok_def\<close>)
qed

definition sample_async :: AsyncConfig where
  "sample_async = async_DefaultConfig\<lparr>ac_MaxConcurrency := 1, ac_QueueCapacity := 1\<rparr>"

definition sample_task :: "string \<Rightarrow> queuedTask" where
  "sample_task name = \<lparr>qt_name = name, qt_task = length name, qt_queuedAt = 0\<rparr>"

text \<open>A pool for one task with a queue of one: \<open>a\<close> has the slot and \<open>b\<close> is queued, then a drain begins.\<close>

definition sample_busy :: pool_sys where
  "sample_busy = (pool_start (snd (admit (sample_task ''b'') (snd (admit (sample_task ''a'') (snd (pool_open (newPool sample_async))))))))
     \<lparr>ps_goroutines := {#Admitted (sample_task ''a'')#}, ps_accepted := {#sample_task ''b'', sample_task ''a''#}\<rparr>"

definition sample_draining :: pool_sys where
  "sample_draining = sample_busy\<lparr>ps_pool := snd (drain_begin (ps_pool sample_busy)), ps_goroutines := add_mset DrainParked (ps_goroutines sample_busy)\<rparr>"

lemmas sample_pool_defs = sample_busy_def sample_draining_def sample_async_def async_DefaultConfig_def pool_start_def admit_def pool_open_def newPool_def
  signalChangedLocked_def drain_begin_def

lemma sample_prepared: "async_prepareConfig sample_async = Inr sample_async"
proof -
  have "ToLower (trim_space ''goroutine'') = ''goroutine''" by code_simp
  then show ?thesis
    by (simp add: async_prepareConfig_def sample_async_def async_DefaultConfig_def async_validate_def ExecutorGoroutine_def ExecutorAnts_def
        defaultAntsConfig_def Let_def)
qed

lemma sample_busy_reached: "pool_step\<^sup>*\<^sup>* (pool_start (newPool sample_async)) sample_busy"
proof -
  let ?s0 = "pool_start (newPool sample_async)" and ?a = "sample_task ''a''" and ?b = "sample_task ''b''"
  define s1 where "s1 = ?s0\<lparr>ps_pool := snd (pool_open (ps_pool ?s0))\<rparr>"
  define s2 where "s2 = s1\<lparr>ps_pool := snd (admit ?a (ps_pool s1)), ps_goroutines := {#Admitted ?a#}, ps_accepted := {#?a#}\<rparr>"
  have st1: "pool_step ?s0 s1" unfolding s1_def by (rule pool_step.opens) (rule prod.collapse [symmetric])
  have st2: "pool_step s1 s2"
    using pool_step.spawns [of s1 "Some None" ?a admitRunning "snd (admit ?a (ps_pool s1))"]
    by (simp add: s1_def s2_def Spawn_check_def sample_task_def sample_pool_defs admit_goroutine_def admit_accepts_def)
  have st3: "pool_step s2 sample_busy"
    using pool_step.spawns [of s2 "Some None" ?b admitQueued "snd (admit ?b (ps_pool s2))"]
    by (simp add: s1_def s2_def Spawn_check_def sample_task_def sample_pool_defs admit_goroutine_def admit_accepts_def add_mset_commute)
  show ?thesis
    by (rule converse_rtranclp_into_rtranclp [of pool_step, OF st1 converse_rtranclp_into_rtranclp [of pool_step, OF st2
          r_into_rtranclp [of pool_step, OF st3]]])
qed

theorem pool_safety_witness:
  "po_queue (ps_pool sample_busy) = [sample_task ''b''] \<and> int (slots (ps_goroutines sample_busy)) = ac_MaxConcurrency sample_async \<and>
   int (size (filter_mset is_executing (ps_goroutines sample_busy))) \<le> ac_MaxConcurrency sample_async"
proof -
  note safe = pool_safety [OF sample_prepared sample_busy_reached]
  have "po_queue (ps_pool sample_busy) = [sample_task ''b'']" "0 < ac_MaxConcurrency sample_async" by (simp_all add: sample_pool_defs)
  with safe show ?thesis by simp
qed

text \<open>
  C10. A drain ends. Once a drain has closed admission, nothing is admitted any more; whatever order the
  goroutines run in, they take at most \<open>work_left\<close> steps, provided the functions return and the quota
  answers; and when no step is left, every slot is free, the queue is empty, every accepted task has been called or
  is accounted for, and the counter the drain waits for is zero unless a stop is still discarding.
\<close>

theorem drain_completes:
  assumes "async_prepareConfig c = Inr cfg" and "pool_step\<^sup>*\<^sup>* (pool_start (newPool cfg)) s" and "po_draining (ps_pool s)"
    and "(work_step ^^ n) s s'"
  shows "n \<le> work_left s \<and> (\<forall>q. fst (admit q (ps_pool s')) = admitRefused ErrShuttingDown) \<and>
    ((\<nexists>s''. work_step s' s'') \<longrightarrow>
      po_running (ps_pool s') = 0 \<and> po_queue (ps_pool s') = [] \<and> po_active (ps_pool s') = [] \<and>
      po_inFlight (ps_pool s') = int (length (discarding (ps_stop s))) \<and>
      ps_accepted s' = mset (discarding (ps_stop s)) + ps_called s' + ps_refused s' + ps_dropped s')"
proof (intro conjI allI impI)
  note reach = pool_reach [OF assms(1,2)]
  note many = work_many [OF assms(4,3) conjunct1 [OF reach]]
  then have ok: "pool_ok s'" and stop: "ps_stop s' = ps_stop s" by auto
  show "n \<le> work_left s" using many by simp
  show "fst (admit q (ps_pool s')) = admitRefused ErrShuttingDown" for q using many by (simp add: admit_def)
  assume "\<nexists>s''. work_step s' s''"
  then have "\<forall>g \<in># ps_goroutines s'. slot_of g \<noteq> 1" using work_enabled by blast
  note idle = idle_slots [OF this]
  note a = pool_okD [OF ok] and counts = counts_okD [OF pool_okD(2) [OF ok]]
  show run: "po_running (ps_pool s') = 0" using counts(1) idle by simp
  with a(4) show queue: "po_queue (ps_pool s') = []" by (auto simp: limits_ok_def)
  show "po_active (ps_pool s') = []" using counts(3) idle by simp
  show "po_inFlight (ps_pool s') = int (length (discarding (ps_stop s)))" using counts(2) idle queue stop by simp
  show "ps_accepted s' = mset (discarding (ps_stop s)) + ps_called s' + ps_refused s' + ps_dropped s'"
    using a(3) idle queue stop by (simp add: tasks_ok_def)
qed


theorem drain_completes_witness:
  "1 \<le> work_left sample_draining \<and> fst (admit (sample_task ''c'') (ps_pool sample_draining)) = admitRefused ErrShuttingDown"
proof -
  have "pool_step sample_busy sample_draining"
    unfolding sample_draining_def by (rule pool_step.drain_waits) (simp add: sample_pool_defs)
  with sample_busy_reached have reach: "pool_step\<^sup>*\<^sup>* (pool_start (newPool sample_async)) sample_draining" by (rule rtranclp.rtrancl_into_rtrancl)
  have draining: "po_draining (ps_pool sample_draining)" by (simp add: sample_pool_defs)
  have "work_step sample_draining (sample_draining\<lparr>ps_goroutines := add_mset (Starting (sample_task ''a'')) {#DrainParked#}\<rparr>)"
    by (rule execs) (simp add: sample_draining_def sample_busy_def)
  then have "(work_step ^^ 1) sample_draining (sample_draining\<lparr>ps_goroutines := add_mset (Starting (sample_task ''a'')) {#DrainParked#}\<rparr>)"
    by (simp add: eq_OO)
  from drain_completes [OF sample_prepared reach draining this] show ?thesis by simp
qed

end
