(* ===== verification/Environment.thy ===== *)
theory Environment
  imports Universe
begin

text \<open>
  The environment layer (second part of \<^verbatim>\<open>config/universe.go\<close>): which configuration path a variable names, and the layer
  of values that the process environment sets.
  \<^item> The conversion of a text to a scalar (\<^verbatim>\<open>setScalar\<close>, by reflection) is an argument.
  \<^item> Names of variables are any bytes. An error holds the names its text quotes, unquoted.
\<close>

definition DefaultEnvPrefix :: string where "DefaultEnvPrefix = ''XBC_''"

section \<open>What a variable names\<close>

datatype env_hint = FreeformHint | InstanceHint string

record envCandidate =
  ca_path :: string
  ca_typ :: "conf_type option"
  ca_expressible :: bool
  ca_hint :: "env_hint option"
  ca_declared :: bool
  ca_section :: string
  ca_instance :: string

definition instance_char :: "char \<Rightarrow> bool" where
  "instance_char c \<longleftrightarrow> CHR ''a'' \<le> c \<and> c \<le> CHR ''z'' \<or> CHR ''0'' \<le> c \<and> c \<le> CHR ''9'' \<or> c = CHR ''_''"

definition instanceOf :: "string \<Rightarrow> string \<Rightarrow> string option" where
  "instanceOf tail suffix =
     (if length tail \<le> length suffix + 1 \<or> drop (length tail - (length suffix + 1)) tail \<noteq> ''_'' @ suffix then None
      else let inst = ToLower (take (length tail - length suffix - 1) tail)
           in if list_all instance_char inst then Some inst else None)"

definition toggle_candidate :: "string \<Rightarrow> envCandidate" where
  "toggle_candidate path = \<lparr>ca_path = path @ ''.'' @ enabledKey, ca_typ = Some TyBool, ca_expressible = True, ca_hint = None,
     ca_declared = True, ca_section = [], ca_instance = []\<rparr>"

definition leaf_candidate :: "string \<Rightarrow> envLeaf \<Rightarrow> envCandidate" where
  "leaf_candidate path l = \<lparr>ca_path = path @ ''.'' @ el_path l, ca_typ = Some (el_typ l), ca_expressible = el_expressible l, ca_hint = None,
     ca_declared = True, ca_section = [], ca_instance = []\<rparr>"

definition matchTyped :: "resolvedSection \<Rightarrow> string \<Rightarrow> envCandidate list" where
  "matchTyped r tail =
     (let path = sec_Path (rs_Section r) in
      map (leaf_candidate path) (filter (\<lambda>l. tail = el_suffix l) (rs_leaves r)) @
      (if sec_Toggle (rs_Section r) \<and> tail = ''ENABLED'' then [toggle_candidate path] else []))"

definition inferred :: "string \<Rightarrow> string \<Rightarrow> string \<Rightarrow> conf_type \<Rightarrow> bool \<Rightarrow> envCandidate" where
  "inferred path inst leaf typ expressible = \<lparr>ca_path = path @ ''.'' @ inst @ ''.'' @ leaf, ca_typ = Some typ, ca_expressible = expressible,
     ca_hint = None, ca_declared = False, ca_section = path, ca_instance = inst\<rparr>"

definition hinted :: "string \<Rightarrow> envLeaf \<Rightarrow> envCandidate" where
  "hinted path l = \<lparr>ca_path = path @ ''.'' @ el_path l, ca_typ = Some (el_typ l), ca_expressible = False,
     ca_hint = Some (InstanceHint (el_suffix l)), ca_declared = False, ca_section = [], ca_instance = []\<rparr>"

definition match_leaf :: "string \<Rightarrow> string \<Rightarrow> envLeaf \<Rightarrow> envCandidate list" where
  "match_leaf path tail l =
     (if tail = el_suffix l then [hinted path l]
      else
        (case instanceOf tail (el_suffix l) of
           Some inst \<Rightarrow> [inferred path inst (el_path l) (el_typ l) (el_expressible l)]
         | None \<Rightarrow> []))"

definition match_toggle :: "string \<Rightarrow> string \<Rightarrow> envCandidate list" where
  "match_toggle path tail = (case instanceOf tail ''ENABLED'' of Some inst \<Rightarrow> [inferred path inst enabledKey TyBool True] | None \<Rightarrow> [])"

definition matchInstanced :: "resolvedSection \<Rightarrow> string \<Rightarrow> envCandidate list" where
  "matchInstanced r tail =
     (let path = sec_Path (rs_Section r); toggle = sec_Toggle (rs_Section r) in
      (if toggle \<and> tail = ''ENABLED'' then [toggle_candidate path] else []) @
      (if toggle then match_toggle path tail else []) @
      concat (map (match_leaf path tail) (rs_leaves r)))"

record resolution =
  re_candidates :: "envCandidate list"
  re_claimed :: bool
  re_namespace :: string
  re_cleared :: bool

definition freeform_candidate :: "string \<Rightarrow> string \<Rightarrow> envCandidate" where
  "freeform_candidate path tail = \<lparr>ca_path = path @ ''.'' @ ToLower tail, ca_typ = None, ca_expressible = False, ca_hint = Some FreeformHint,
     ca_declared = False, ca_section = [], ca_instance = []\<rparr>"

definition add_candidates :: "envCandidate list \<Rightarrow> envCandidate list \<Rightarrow> envCandidate list" where
  "add_candidates new candidates = fold (\<lambda>c cs. if ca_path c \<in> set (map ca_path cs) then cs else cs @ [c]) new candidates"

definition consider_section :: "string \<Rightarrow> string \<Rightarrow> resolvedSection \<Rightarrow> resolution \<Rightarrow> resolution" where
  "consider_section prefix name r res =
     (let path = sec_Path (rs_Section r); sectionPrefix = envSectionPrefix prefix path in
      if take (length sectionPrefix) name \<noteq> sectionPrefix then res
      else
        let collapsed = (sectionPrefix = prefix); tail = drop (length sectionPrefix) name in
        if tail = [] then res\<lparr>re_claimed := re_claimed res \<or> \<not> collapsed\<rparr>
        else
          (case sec_Kind (rs_Section r) of
             SectionNamespace \<Rightarrow>
               if collapsed then res
               else res\<lparr>re_claimed := True, re_namespace := (if length path > length (re_namespace res) then path else re_namespace res)\<rparr>
           | SectionFreeform \<Rightarrow>
               res\<lparr>re_claimed := True, re_candidates := add_candidates [freeform_candidate path tail] (re_candidates res)\<rparr>
           | SectionTyped \<Rightarrow>
               let found = matchTyped r tail
               in res\<lparr>re_candidates := add_candidates found (re_candidates res),
                      re_claimed := re_claimed res \<or> found \<noteq> [] \<or> \<not> collapsed, re_cleared := re_cleared res \<or> \<not> collapsed\<rparr>
           | SectionInstanced \<Rightarrow>
               let found = matchInstanced r tail
               in res\<lparr>re_candidates := add_candidates found (re_candidates res),
                      re_claimed := re_claimed res \<or> found \<noteq> [] \<or> \<not> collapsed, re_cleared := re_cleared res \<or> \<not> collapsed\<rparr>))"

definition resolveWithNamespace :: "Universe \<Rightarrow> string \<Rightarrow> string \<Rightarrow> envCandidate list \<times> bool \<times> string" where
  "resolveWithNamespace u prefix name =
     (let res = fold (consider_section prefix name) (un_sections u)
            \<lparr>re_candidates = [], re_claimed = False, re_namespace = [], re_cleared = False\<rparr>
      in (re_candidates res, re_claimed res, if re_cleared res then [] else re_namespace res))"

definition declaredInstances :: "koanf \<Rightarrow> string \<Rightarrow> string list" where
  "declaredInstances k sectionPath =
     map fst (filter (\<lambda>(key, v). key \<noteq> enabledKey \<and> (case v of CMap _ \<Rightarrow> True | _ \<Rightarrow> False)) (kf_Cut k sectionPath))"

definition instanceIsDeclared :: "koanf option \<Rightarrow> envCandidate \<Rightarrow> bool" where
  "instanceIsDeclared existing c =
     (case existing of
        None \<Rightarrow> False
      | Some k \<Rightarrow> ca_instance c \<noteq> [] \<and> ca_instance c \<in> set (declaredInstances k (ca_section c)))"

definition preferDeclaredCandidates :: "envCandidate list \<Rightarrow> koanf option \<Rightarrow> envCandidate list" where
  "preferDeclaredCandidates candidates existing =
     (if \<not> list_ex ca_declared candidates then candidates
      else filter (\<lambda>c. ca_declared c \<or> instanceIsDeclared existing c) candidates)"

datatype env_error =
    NamesNoSection string "string list"
  | InstanceCollision string string string "string list"
  | NamesNoField string "string list option"
  | Ambiguous string "string list"
  | Unusable string string env_hint
  | NotExpressible string string
  | NotParsed string

fun checkInstanceCollision :: "string \<Rightarrow> envCandidate list \<Rightarrow> koanf \<Rightarrow> env_error option" where
  "checkInstanceCollision name [] k = None"
| "checkInstanceCollision name (c # cs) k =
     (if ca_instance c = [] \<or> ca_instance c \<in> set (declaredInstances k (ca_section c)) then checkInstanceCollision name cs k
      else
        (case filter (\<lambda>s. s \<noteq> ca_instance c \<and> envSegment s = envSegment (ca_instance c)) (declaredInstances k (ca_section c)) of
           [] \<Rightarrow> checkInstanceCollision name cs k
         | collisions \<Rightarrow> Some (InstanceCollision name (ca_instance c) (ca_section c) (sort collisions))))"

type_synonym scalars = "conf_type \<Rightarrow> string \<Rightarrow> cval option"

fun pointee :: "conf_type \<Rightarrow> conf_type" where
  "pointee (TyPointer t) = pointee t"
| "pointee t = t"

definition interpret_value :: "scalars \<Rightarrow> Universe \<Rightarrow> string \<Rightarrow> string \<Rightarrow> envCandidate list \<Rightarrow> string \<Rightarrow> (env_error, cval) result" where
  "interpret_value setScalar u name raw candidates namespace =
     (case candidates of
        [] \<Rightarrow> Inl (NamesNoField name (if namespace \<noteq> [] then Some (describeDeclared u namespace) else None))
      | [c] \<Rightarrow>
          (case ca_hint c of
             Some hint \<Rightarrow> Inl (Unusable name (ca_path c) hint)
           | None \<Rightarrow>
               if \<not> ca_expressible c then Inl (NotExpressible name (ca_path c))
               else
                 (case ca_typ c of
                    None \<Rightarrow> Inl (NotParsed name)
                  | Some t \<Rightarrow> (case setScalar (pointee t) raw of None \<Rightarrow> Inl (NotParsed name) | Some v \<Rightarrow> Inr v)))
      | _ \<Rightarrow> Inl (Ambiguous name (sort (map ca_path candidates))))"

text \<open>An entry of the environment that concerns the configuration: its name and value.\<close>

definition env_entry :: "string \<Rightarrow> string \<Rightarrow> (string \<times> string) option" where
  "env_entry prefix entry =
     (if CHR ''='' \<notin> set entry \<or> take (length prefix) entry \<noteq> prefix then None
      else let name = takeWhile (\<lambda>c. c \<noteq> CHR ''='') entry; raw = tl (dropWhile (\<lambda>c. c \<noteq> CHR ''='') entry); rest = drop (length prefix) name
           in if rest = [] \<or> rest \<in> set reservedEnvSuffixes then None else Some (name, raw))"

definition overlay_entry :: "scalars \<Rightarrow> Universe \<Rightarrow> string \<Rightarrow> koanf option \<Rightarrow> string \<times> string \<Rightarrow> (env_error, string \<times> cval) result" where
  "overlay_entry setScalar u prefix existing = (\<lambda>(name, raw).
     case resolveWithNamespace u prefix name of (candidates, claimed, namespace) \<Rightarrow>
       if \<not> claimed then Inl (NamesNoSection name (un_roots u))
       else
         let candidates = preferDeclaredCandidates candidates existing in
         (case (case existing of None \<Rightarrow> None | Some k \<Rightarrow> checkInstanceCollision name candidates k) of
            Some e \<Rightarrow> Inl e
          | None \<Rightarrow>
              (case interpret_value setScalar u name raw candidates namespace of
                 Inl e \<Rightarrow> Inl e
               | Inr v \<Rightarrow> Inr (ca_path (hd candidates), v))))"

definition overlay_step :: "scalars \<Rightarrow> Universe \<Rightarrow> string \<Rightarrow> koanf option \<Rightarrow> string \<Rightarrow> env_error list \<times> (string, cval) gomap \<Rightarrow> env_error list \<times> (string, cval) gomap" where
  "overlay_step setScalar u prefix existing entry acc =
     (case env_entry prefix entry of
        None \<Rightarrow> acc
      | Some nv \<Rightarrow>
          (case overlay_entry setScalar u prefix existing nv of
             Inl e \<Rightarrow> (fst acc @ [e], snd acc)
           | Inr (path, v) \<Rightarrow> (fst acc, gm_put path v (snd acc))))"

text \<open>The failures are a set to the caller, who sorts their texts.\<close>

definition envOverlay :: "scalars \<Rightarrow> Universe \<Rightarrow> string \<Rightarrow> string list \<Rightarrow> koanf option \<Rightarrow> (env_error list, (string, cval) gomap) result" where
  "envOverlay setScalar u prefix environ existing =
     (case fold (overlay_step setScalar u prefix existing) environ ([], []) of
        (failures, values) \<Rightarrow> if failures = [] then Inr values else Inl failures)"

section \<open>Spelling a path\<close>

lemma envSegment_simps [simp]: "envSegment [] = []" "envSegment (xs @ ys) = envSegment xs @ envSegment ys" "envSegment (c # s) = env_char c # envSegment s"
  "envSegment s = [] \<longleftrightarrow> s = []"
  by (simp_all add: envSegment_def)

lemma env_char_dot [simp]: "env_char CHR ''.'' = CHR ''_''"
  by (simp add: env_char_def)

lemma valid_path:
  assumes "validateSectionPath P = None"
  shows "P \<noteq> []" and "last P \<noteq> CHR ''.''"
  using assms by (auto simp: validateSectionPath_def split: if_splits)

text \<open>A key of a section is spelled by the prefix of the section and its own segment.\<close>

lemma envName_section:
  assumes "validateSectionPath P = None"
  shows "envName pre (P @ ''.'' @ l) = envSectionPrefix pre P @ envSegment l"
proof (cases "CHR ''.'' \<in> set P")
  case True
  let ?D = "\<lambda>c. c \<noteq> CHR ''.''"
  obtain R where R: "dropWhile ?D P = CHR ''.'' # R"
    using True hd_dropWhile [of ?D P] dropWhile_eq_Nil_conv [of ?D P] by (cases "dropWhile ?D P") auto
  have P: "P = takeWhile ?D P @ CHR ''.'' # R" using R takeWhile_dropWhile_id [of ?D P] by simp
  have "R \<noteq> []" using valid_path(2) [OF assms] P by (metis last_snoc)
  moreover have "takeWhile ?D (P @ ''.'' @ l) = takeWhile ?D P" "dropWhile ?D (P @ ''.'' @ l) = CHR ''.'' # R @ ''.'' @ l"
    using True R by (simp_all add: takeWhile_append1 [of "CHR ''.''"] dropWhile_append1 [of "CHR ''.''"])
  ultimately show ?thesis using R valid_path(1) [OF assms]
    by (simp add: envName_def envSectionPrefix_def envSpelling_def Cut_def Let_def)
next
  case False
  have t: "takeWhile (\<lambda>c. c \<noteq> CHR ''.'') P = P" "dropWhile (\<lambda>c. c \<noteq> CHR ''.'') P = []"
    using False by (auto simp: takeWhile_eq_all_conv dropWhile_eq_Nil_conv)
  have d: "takeWhile (\<lambda>c. c \<noteq> CHR ''.'') (P @ ''.'' @ l) = P" using False by (subst takeWhile_append2) auto
  have e: "dropWhile (\<lambda>c. c \<noteq> CHR ''.'') (P @ ''.'' @ l) = ''.'' @ l" using False by (subst dropWhile_append2) auto
  have "Cut P = (P, [], False)" unfolding Cut_def Let_def t by simp
  moreover have "Cut (P @ ''.'' @ l) = (P, l, True)" unfolding Cut_def Let_def d e by simp
  ultimately show ?thesis using valid_path(1) [OF assms]
    by (simp add: envName_def envSectionPrefix_def envSpelling_def)
qed

lemma section_prefix_ends: "\<exists>q. envSectionPrefix DefaultEnvPrefix P = q @ ''_''"
  unfolding envSectionPrefix_def Let_def DefaultEnvPrefix_def
  by (cases "envSpelling ''XBC_'' P = []") (auto intro: exI [of _ "''XBC''"] exI [of _ "''XBC_'' @ envSpelling ''XBC_'' P"])

lemma ToLower_underscore: "ToLower (xs @ CHR ''_'' # ys) = ToLower xs @ CHR ''_'' # ToLower ys"
proof -
  have us: "ascii_lower CHR ''_'' = CHR ''_''" by (simp add: ascii_lower_def less_eq_char_def)
  have start: "ToLower (CHR ''_'' # zs) = CHR ''_'' # ToLower zs" for zs
    by (subst ToLower.simps(2)) (auto simp: us split: list.split simp del: ToLower.simps(2))
  have two: "ToLower (a # CHR ''_'' # zs) = ascii_lower a # CHR ''_'' # ToLower zs" for a zs
    using start [of zs] by (subst ToLower.simps(2)) (auto split: list.split simp del: ToLower.simps(2))
  have plain: "ToLower (a # b # c # zs) = ascii_lower a # ToLower (b # c # zs)"
    if "\<not> (a = CHR 0xC4 \<and> b = CHR 0xB0)" "\<not> (a = CHR 0xE2 \<and> b = CHR 0x84 \<and> c = CHR 0xAA)" for a b c zs
    using that by (subst ToLower.simps(2)) (auto simp del: ToLower.simps(2))
  show ?thesis
  proof (induction xs rule: ToLower.induct)
    case 1
    then show ?case using start by simp
  next
    case (2 a s)
    show ?case
    proof (cases s)
      case Nil
      then show ?thesis using two by simp
    next
      case (Cons b t)
      show ?thesis
      proof (cases "a = CHR 0xC4 \<and> b = CHR 0xB0")
        case True
        then show ?thesis using "2.IH"(1) [OF Cons True] Cons by simp
      next
        case no: False
        show ?thesis
        proof (cases t)
          case Nil
          have "ToLower (a # b # CHR ''_'' # ys) = ascii_lower a # ToLower (b # CHR ''_'' # ys)"
            using no by (subst ToLower.simps(2)) (auto simp del: ToLower.simps(2))
          moreover have "ToLower [a, b] = [ascii_lower a, ascii_lower b]" using no by auto
          ultimately show ?thesis using Cons Nil two [of b ys] by (simp del: ToLower.simps(2))
        next
          case t: (Cons c v)
          show ?thesis
          proof (cases "a = CHR 0xE2 \<and> b = CHR 0x84 \<and> c = CHR 0xAA")
            case True
            then show ?thesis using "2.IH"(3) [OF Cons no t True] Cons t no by simp
          next
            case False
            show ?thesis using "2.IH"(4) [OF Cons no t False] Cons t plain [OF no False, of v] plain [OF no False, of "v @ CHR ''_'' # ys"]
              by (simp del: ToLower.simps(2))
          qed
        qed
      qed
    qed
  qed
qed

lemma ToLower_ascii: "\<forall>c \<in> set s. of_char c < (128 :: nat) \<Longrightarrow> ToLower s = map ascii_lower s"
proof (induction s rule: ToLower.induct)
  case (2 a s)
  then show ?case by (auto split: list.splits)
qed simp

lemma instance_spelling:
  assumes "list_all instance_char inst"
  shows "ToLower (envSegment inst) = inst"
proof -
  have c: "of_char (env_char c) < (128 :: nat) \<and> ascii_lower (env_char c) = c" if "instance_char c" for c
  proof -
    define n :: nat where "n = of_char c"
    have c: "c = char_of n" "n < 256" by (simp_all add: n_def)
    have "97 \<le> n \<and> n \<le> 122 \<or> 48 \<le> n \<and> n \<le> 57 \<or> n = 95"
      using that by (auto simp: instance_char_def less_eq_char_def n_def)
    moreover have "take_bit 8 n = n" using c(2) by (simp add: take_bit_nat_eq_self)
    ultimately show ?thesis
      by (auto simp: c env_char_def ascii_upper_def ascii_lower_def less_eq_char_def char_of_eq_iff)
  qed
  have "\<forall>c \<in> set (envSegment inst). of_char c < (128 :: nat)" using assms c by (auto simp: envSegment_def list_all_iff)
  then have "ToLower (envSegment inst) = map ascii_lower (envSegment inst)" by (rule ToLower_ascii)
  also have "\<dots> = inst" using assms c by (simp add: envSegment_def list_all_iff map_idI)
  finally show ?thesis .
qed

lemma instanceOf_Some:
  assumes "instanceOf tail suffix = Some inst"
  shows "\<exists>x. tail = x @ ''_'' @ suffix \<and> x \<noteq> [] \<and> inst = ToLower x \<and> list_all instance_char inst"
proof -
  let ?n = "length tail - (length suffix + 1)"
  have a: "length tail > length suffix + 1" "drop ?n tail = ''_'' @ suffix" "inst = ToLower (take (length tail - length suffix - 1) tail)"
    "list_all instance_char inst"
    using assms by (auto simp: instanceOf_def Let_def split: if_splits)
  have "tail = take ?n tail @ ''_'' @ suffix" using a(2) append_take_drop_id [of ?n tail] by simp
  moreover have "take ?n tail \<noteq> []" using a(1) by auto
  ultimately show ?thesis using a(3,4) by (intro exI [of _ "take ?n tail"]) simp
qed

section \<open>The readings of a variable\<close>

text \<open>What one section finds in a name.\<close>

definition section_finds :: "string \<Rightarrow> string \<Rightarrow> resolvedSection \<Rightarrow> envCandidate list" where
  "section_finds prefix name r =
     (let path = sec_Path (rs_Section r); sectionPrefix = envSectionPrefix prefix path; tail = drop (length sectionPrefix) name in
      if take (length sectionPrefix) name \<noteq> sectionPrefix \<or> tail = [] then []
      else (case sec_Kind (rs_Section r) of
          SectionNamespace \<Rightarrow> []
        | SectionFreeform \<Rightarrow> [freeform_candidate path tail]
        | SectionTyped \<Rightarrow> matchTyped r tail
        | SectionInstanced \<Rightarrow> matchInstanced r tail))"

lemma add_candidates_Nil [simp]: "add_candidates [] cs = cs"
  by (simp add: add_candidates_def)

lemma add_candidates_append: "add_candidates (xs @ ys) cs = add_candidates ys (add_candidates xs cs)"
  by (simp add: add_candidates_def)

lemma consider_candidates: "re_candidates (consider_section prefix name r res) = add_candidates (section_finds prefix name r) (re_candidates res)"
  by (auto simp: consider_section_def section_finds_def Let_def split: SectionKind.splits)

lemma fold_candidates:
  "re_candidates (fold (consider_section prefix name) rs res) = add_candidates (concat (map (section_finds prefix name) rs)) (re_candidates res)"
  by (induction rs arbitrary: res) (simp_all add: consider_candidates add_candidates_append)

lemma candidates_eq:
  "fst (resolveWithNamespace u prefix name) = add_candidates (concat (map (section_finds prefix name) (un_sections u))) []"
  by (simp add: resolveWithNamespace_def Let_def fold_candidates)

lemma add_candidates_sub: "set (add_candidates new cs) \<subseteq> set new \<union> set cs"
proof (induction new arbitrary: cs)
  case (Cons c new)
  have "add_candidates (c # new) cs = add_candidates new (if ca_path c \<in> set (map ca_path cs) then cs else cs @ [c])"
    by (simp add: add_candidates_def)
  with Cons.IH show ?case by (auto split: if_splits) fastforce+
qed simp

lemma add_candidates_paths: "ca_path ` set (add_candidates new cs) = ca_path ` set new \<union> ca_path ` set cs"
proof (induction new arbitrary: cs)
  case (Cons c new)
  have "add_candidates (c # new) cs = add_candidates new (if ca_path c \<in> set (map ca_path cs) then cs else cs @ [c])"
    by (simp add: add_candidates_def)
  with Cons.IH show ?case by auto
qed simp

text \<open>The leaves a section declares, its toggle included, and the paths they name.\<close>

definition leaf_of :: "schemas \<Rightarrow> Section \<Rightarrow> string \<Rightarrow> conf_type \<Rightarrow> bool" where
  "leaf_of sch s leaf typ \<longleftrightarrow>
     (\<exists>t leaves. sec_Schema s = Some t \<and> sch t = Inr leaves \<and> (leaf, typ) \<in> set leaves) \<or> sec_Toggle s \<and> leaf = enabledKey \<and> typ = TyBool"

definition names_path :: "schemas \<Rightarrow> Section \<Rightarrow> string \<Rightarrow> conf_type \<Rightarrow> bool" where
  "names_path sch s path typ \<longleftrightarrow> (\<exists>leaf. leaf_of sch s leaf typ \<and>
     (sec_Kind s = SectionTyped \<and> path = sec_Path s @ ''.'' @ leaf \<or>
      sec_Kind s = SectionInstanced \<and> (sec_Toggle s \<and> leaf = enabledKey \<and> path = sec_Path s @ ''.'' @ leaf \<or>
        (\<exists>inst. inst \<noteq> [] \<and> list_all instance_char inst \<and> path = sec_Path s @ ''.'' @ inst @ ''.'' @ leaf))))"

lemma resolved_leaf:
  assumes "resolveSection sch s = Inr r" "l \<in> set (rs_leaves r)"
  shows "leaf_of sch s (el_path l) (el_typ l)" and "el_suffix l = envSegment (el_path l)"
  using assms by (auto simp: resolveSection_def leaf_of_def split: option.splits if_splits sum.splits)

lemma envSegment_enabled: "envSegment enabledKey = ''ENABLED''"
  by code_simp

lemma ToLower_Nil_iff: "ToLower s = [] \<longleftrightarrow> s = []"
proof (cases s)
  case (Cons a t)
  then show ?thesis by (subst Cons, subst ToLower.simps(2)) (auto split: list.split simp del: ToLower.simps(2))
qed simp

lemma candidate_fields [simp]:
  "ca_path (toggle_candidate p) = p @ ''.'' @ enabledKey" "ca_typ (toggle_candidate p) = Some TyBool" "ca_declared (toggle_candidate p)"
  "ca_path (leaf_candidate p l) = p @ ''.'' @ el_path l" "ca_typ (leaf_candidate p l) = Some (el_typ l)" "ca_declared (leaf_candidate p l)"
  "ca_path (inferred p i f t e) = p @ ''.'' @ i @ ''.'' @ f" "ca_typ (inferred p i f t e) = Some t"
  "ca_path (hinted p l) = p @ ''.'' @ el_path l" "ca_hint (hinted p l) \<noteq> None"
  "ca_path (freeform_candidate p x) = p @ ''.'' @ ToLower x" "ca_hint (freeform_candidate p x) \<noteq> None"
  by (simp_all add: toggle_candidate_def leaf_candidate_def inferred_def hinted_def freeform_candidate_def)

lemma matchTyped_set:
  "c \<in> set (matchTyped r tail) \<longleftrightarrow> (\<exists>l \<in> set (rs_leaves r). tail = el_suffix l \<and> c = leaf_candidate (sec_Path (rs_Section r)) l) \<or>
     sec_Toggle (rs_Section r) \<and> tail = ''ENABLED'' \<and> c = toggle_candidate (sec_Path (rs_Section r))"
  by (auto simp: matchTyped_def Let_def)

lemma match_leaf_set:
  "c \<in> set (match_leaf p tail l) \<longleftrightarrow> (if tail = el_suffix l then c = hinted p l
     else \<exists>i. instanceOf tail (el_suffix l) = Some i \<and> c = inferred p i (el_path l) (el_typ l) (el_expressible l))"
  by (cases "instanceOf tail (el_suffix l)") (simp_all add: match_leaf_def)

lemma match_toggle_set:
  "c \<in> set (match_toggle p tail) \<longleftrightarrow> (\<exists>i. instanceOf tail ''ENABLED'' = Some i \<and> c = inferred p i enabledKey TyBool True)"
  by (cases "instanceOf tail ''ENABLED''") (simp_all add: match_toggle_def)

lemma matchInstanced_set:
  "c \<in> set (matchInstanced r tail) \<longleftrightarrow>
     sec_Toggle (rs_Section r) \<and> tail = ''ENABLED'' \<and> c = toggle_candidate (sec_Path (rs_Section r)) \<or>
     (\<exists>i. sec_Toggle (rs_Section r) \<and> instanceOf tail ''ENABLED'' = Some i \<and> c = inferred (sec_Path (rs_Section r)) i enabledKey TyBool True) \<or>
     (\<exists>l \<in> set (rs_leaves r). c \<in> set (match_leaf (sec_Path (rs_Section r)) tail l))"
  by (auto simp: matchInstanced_def match_toggle_set Let_def)

text \<open>A usable reading is spelled like its path, up to the case of an instance.\<close>

lemma section_finds_sound:
  assumes c: "c \<in> set (section_finds DefaultEnvPrefix name r)" and hint: "ca_hint c = None"
    and r: "resolved_from sch sections r" and valid: "validateSectionPath (sec_Path (rs_Section r)) = None"
  shows "\<exists>typ. ca_typ c = Some typ \<and> names_path sch (rs_Section r) (ca_path c) typ \<and>
    ToLower name = ToLower (envName DefaultEnvPrefix (ca_path c))"
proof -
  let ?s = "rs_Section r"
  let ?P = "sec_Path ?s"
  let ?sp = "envSectionPrefix DefaultEnvPrefix ?P"
  define tail where "tail = drop (length ?sp) name"
  have name: "name = ?sp @ tail"
  proof -
    have "take (length ?sp) name = ?sp" using c by (auto simp: section_finds_def Let_def split: if_splits)
    then show ?thesis using append_take_drop_id [of "length ?sp" name] by (simp add: tail_def)
  qed
  have res: "resolveSection sch ?s = Inr r" using r by (simp add: resolved_from_def)
  have exact: "name = envName DefaultEnvPrefix (?P @ ''.'' @ l)" if "tail = envSegment l" for l
    using name that envName_section [OF valid] by simp
  have inst: "inst \<noteq> [] \<and> list_all instance_char inst \<and> ToLower name = ToLower (envName DefaultEnvPrefix (?P @ ''.'' @ inst @ ''.'' @ l))"
    if i: "instanceOf tail (envSegment l) = Some inst" for inst l
  proof -
    obtain x where x: "tail = x @ ''_'' @ envSegment l" "x \<noteq> []" "inst = ToLower x" "list_all instance_char inst"
      using instanceOf_Some [OF i] by blast
    obtain q where q: "?sp = q @ ''_''" using section_prefix_ends by blast
    have n: "name = q @ CHR ''_'' # x @ CHR ''_'' # envSegment l" using name x(1) q by simp
    have "envName DefaultEnvPrefix (?P @ ''.'' @ inst @ ''.'' @ l) = q @ CHR ''_'' # envSegment inst @ CHR ''_'' # envSegment l"
      using envName_section [OF valid, of DefaultEnvPrefix "inst @ ''.'' @ l"] q by simp
    then show ?thesis using n x instance_spelling [OF x(4)] by (simp add: ToLower_underscore ToLower_Nil_iff)
  qed
  show ?thesis
  proof (cases "sec_Kind ?s")
    case SectionTyped
    then have "c \<in> set (matchTyped r tail)" using c by (auto simp: section_finds_def tail_def Let_def split: if_splits)
    then consider l where "l \<in> set (rs_leaves r)" "tail = el_suffix l" "ca_path c = ?P @ ''.'' @ el_path l" "ca_typ c = Some (el_typ l)"
      | "sec_Toggle ?s" "tail = ''ENABLED''" "ca_path c = ?P @ ''.'' @ enabledKey" "ca_typ c = Some TyBool"
      by (auto simp: matchTyped_set)
    then show ?thesis
    proof cases
      case (1 l)
      with resolved_leaf [OF res 1(1)] exact [of "el_path l"] SectionTyped show ?thesis
        by (auto simp: names_path_def)
    next
      case 2
      with exact [of enabledKey] envSegment_enabled SectionTyped show ?thesis
        by (auto simp: names_path_def leaf_of_def)
    qed
  next
    case SectionInstanced
    then have "c \<in> set (matchInstanced r tail)" using c by (auto simp: section_finds_def tail_def Let_def split: if_splits)
    then consider "sec_Toggle ?s" "tail = ''ENABLED''" "ca_path c = ?P @ ''.'' @ enabledKey" "ca_typ c = Some TyBool"
      | i where "sec_Toggle ?s" "instanceOf tail ''ENABLED'' = Some i" "ca_path c = ?P @ ''.'' @ i @ ''.'' @ enabledKey" "ca_typ c = Some TyBool"
      | l i where "l \<in> set (rs_leaves r)" "instanceOf tail (el_suffix l) = Some i" "ca_path c = ?P @ ''.'' @ i @ ''.'' @ el_path l" "ca_typ c = Some (el_typ l)"
      using hint unfolding matchInstanced_set match_leaf_set by (auto split: if_splits)
    then show ?thesis
    proof cases
      case 1
      with exact [of enabledKey] envSegment_enabled SectionInstanced show ?thesis
        by (auto simp: names_path_def leaf_of_def)
    next
      case (2 i)
      with inst [of enabledKey i] envSegment_enabled SectionInstanced show ?thesis
        by (auto simp: names_path_def leaf_of_def)
    next
      case (3 l i)
      with resolved_leaf [OF res 3(1)] inst [of "el_path l" i] SectionInstanced show ?thesis
        by (auto simp: names_path_def)
    qed
  next
    case SectionFreeform
    then show ?thesis using c hint by (auto simp: section_finds_def Let_def split: if_splits)
  next
    case SectionNamespace
    then show ?thesis using c by (auto simp: section_finds_def Let_def split: if_splits)
  qed
qed

lemma section_finds_path:
  assumes "c \<in> set (section_finds prefix name r)"
  shows "under (sec_Path (rs_Section r)) (ca_path c)" and "sec_Kind (rs_Section r) = SectionTyped \<Longrightarrow> ca_declared c"
    and "sec_Kind (rs_Section r) \<noteq> SectionNamespace"
proof -
  obtain tail where t: "c \<in> set (case sec_Kind (rs_Section r) of SectionNamespace \<Rightarrow> []
      | SectionFreeform \<Rightarrow> [freeform_candidate (sec_Path (rs_Section r)) tail]
      | SectionTyped \<Rightarrow> matchTyped r tail | SectionInstanced \<Rightarrow> matchInstanced r tail)"
    using assms unfolding section_finds_def Let_def by (auto split: if_splits)
  show "under (sec_Path (rs_Section r)) (ca_path c)"
    using t by (cases "sec_Kind (rs_Section r)") (auto simp: matchTyped_set matchInstanced_set match_leaf_set under_def split: if_splits)
  show "sec_Kind (rs_Section r) = SectionTyped \<Longrightarrow> ca_declared c" using t by (auto simp: matchTyped_set)
  show "sec_Kind (rs_Section r) \<noteq> SectionNamespace" using t by auto
qed

lemma section_finds_complete:
  assumes "resolveSection sch s = Inr r" "rs_Section r = s" "sec_Kind s = SectionTyped" "leaf_of sch s leaf typ" "leaf \<noteq> []"
    and valid: "validateSectionPath (sec_Path s) = None" and name: "name = envName prefix (sec_Path s @ ''.'' @ leaf)"
  shows "\<exists>c \<in> set (section_finds prefix name r). ca_path c = sec_Path s @ ''.'' @ leaf"
proof -
  have n: "name = envSectionPrefix prefix (sec_Path s) @ envSegment leaf" using name envName_section [OF valid] by simp
  have "\<exists>c \<in> set (matchTyped r (envSegment leaf)). ca_path c = sec_Path s @ ''.'' @ leaf"
  proof (cases "sec_Toggle s \<and> leaf = enabledKey")
    case True
    then show ?thesis using assms(2) envSegment_enabled
      by (intro bexI [of _ "toggle_candidate (sec_Path s)"]) (auto simp: matchTyped_set)
  next
    case False
    with assms(4) obtain t leaves where "sec_Schema s = Some t" "sch t = Inr leaves" "(leaf, typ) \<in> set leaves" by (auto simp: leaf_of_def)
    with assms(1,3) obtain l where "l \<in> set (rs_leaves r)" "el_path l = leaf" "el_suffix l = envSegment leaf"
      by (force simp: resolveSection_def)
    then have "leaf_candidate (sec_Path s) l \<in> set (matchTyped r (envSegment leaf))"
      unfolding matchTyped_set using assms(2) by (intro disjI1 bexI [of _ l]) simp_all
    then show ?thesis using \<open>el_path l = leaf\<close> by (intro bexI) auto
  qed
  with n assms(2,3,5) show ?thesis by (simp add: section_finds_def Let_def)
qed

section \<open>The environment layer\<close>

text \<open>
  \<open>reads\<close>: the variable \<open>name\<close> with the text \<open>raw\<close> sets \<open>path\<close> to \<open>v\<close>. The path is a leaf that some section declares, the name spells it
  up to the case of an instance name, the text is a value of its type, and every leaf of a typed section with
  exactly this spelling is that path.
\<close>

definition reads :: "schemas \<Rightarrow> scalars \<Rightarrow> Section list \<Rightarrow> string \<Rightarrow> string \<Rightarrow> string \<Rightarrow> cval \<Rightarrow> bool" where
  "reads sch setScalar sections name raw path v \<longleftrightarrow>
     (\<exists>s \<in> set sections. \<exists>typ. names_path sch s path typ \<and> setScalar (pointee typ) raw = Some v) \<and>
     ToLower name = ToLower (envName DefaultEnvPrefix path) \<and>
     (\<forall>s \<in> set sections. \<forall>leaf typ. sec_Kind s = SectionTyped \<and> leaf_of sch s leaf typ \<and> leaf \<noteq> [] \<and>
        name = envName DefaultEnvPrefix (sec_Path s @ ''.'' @ leaf) \<longrightarrow> path = sec_Path s @ ''.'' @ leaf)"

lemma under_comparable:
  assumes "under p x" "under q x"
  shows "p = q \<or> under p q \<or> under q p"
proof -
  obtain a b where ab: "p @ ''.'' @ a = q @ ''.'' @ b" using assms by (auto simp: under_def)
  have step: "us = [] \<or> (\<exists>r. us = ''.'' @ r)" if "us @ ''.'' @ y = ''.'' @ z" for us y z :: string
    using that by (cases us) auto
  from append_eq_append_conv2 [THEN iffD1, OF ab] obtain us where
    "p = q @ us \<and> us @ ''.'' @ a = ''.'' @ b \<or> p @ us = q \<and> ''.'' @ a = us @ ''.'' @ b" by blast
  then show ?thesis using step [of us a b] step [of us b a] by (fastforce simp: under_def)
qed

lemma interpret_Inr:
  assumes "interpret_value setScalar u name raw cs namespace = Inr v"
  obtains c t where "cs = [c]" "ca_hint c = None" "ca_typ c = Some t" "setScalar (pointee t) raw = Some v"
  using assms by (auto simp: interpret_value_def split: list.splits option.splits if_splits)

lemma candidates_found:
  assumes u: "NewUniverse sch sections = Inr u" and c: "c \<in> set (fst (resolveWithNamespace u DefaultEnvPrefix name))"
  obtains r where "r \<in> set (un_sections u)" "resolved_from sch sections r" "validateSectionPath (sec_Path (rs_Section r)) = None"
    "c \<in> set (section_finds DefaultEnvPrefix name r)"
proof -
  obtain r where r: "r \<in> set (un_sections u)" "c \<in> set (section_finds DefaultEnvPrefix name r)"
    using c add_candidates_sub [of "concat (map (section_finds DefaultEnvPrefix name) (un_sections u))" "[]"]
    unfolding candidates_eq by auto
  moreover note NewUniverse_parts(3) [OF u r(1)]
  moreover have "rs_Section r \<in> set sections" using NewUniverse_parts(3) [OF u r(1)] by (simp add: resolved_from_def)
  ultimately show thesis using that NewUniverse_parts(5) [OF u] by blast
qed

lemma typed_leaf_candidate:
  assumes u: "NewUniverse sch sections = Inr u" and s: "s \<in> set sections" "sec_Kind s = SectionTyped" "leaf_of sch s leaf typ" "leaf \<noteq> []"
    and name: "name = envName DefaultEnvPrefix (sec_Path s @ ''.'' @ leaf)"
  obtains d where "d \<in> set (fst (resolveWithNamespace u DefaultEnvPrefix name))" "ca_path d = sec_Path s @ ''.'' @ leaf" "ca_declared d"
proof -
  obtain r where r: "r \<in> set (un_sections u)" "rs_Section r = s" using NewUniverse_parts(4) [OF u s(1)] by blast
  have "resolveSection sch s = Inr r" using NewUniverse_parts(3) [OF u r(1)] r(2) by (simp add: resolved_from_def)
  from section_finds_complete [OF this r(2) s(2-4) NewUniverse_parts(5) [OF u s(1)] name]
  have "sec_Path s @ ''.'' @ leaf \<in> ca_path ` set (concat (map (section_finds DefaultEnvPrefix name) (un_sections u)))"
    using r(1) by force
  then obtain d where d: "d \<in> set (fst (resolveWithNamespace u DefaultEnvPrefix name))" "ca_path d = sec_Path s @ ''.'' @ leaf"
    using add_candidates_paths [of "concat (map (section_finds DefaultEnvPrefix name) (un_sections u))" "[]"]
    unfolding candidates_eq by (metis (no_types, lifting) imageE list.set(1) image_empty sup_bot_right)
  from candidates_found [OF u d(1)] obtain r2 where r2: "resolved_from sch sections r2" "d \<in> set (section_finds DefaultEnvPrefix name r2)"
    by metis
  let ?t = "rs_Section r2"
  have t: "?t \<in> set sections" using r2(1) by (simp add: resolved_from_def)
  have "sec_Path s = sec_Path ?t \<or> under (sec_Path s) (sec_Path ?t) \<or> under (sec_Path ?t) (sec_Path s)"
    using section_finds_path(1) [OF r2(2)] d(2) by (intro under_comparable [of _ "ca_path d"]) (auto simp: under_def)
  then have "sec_Path s = sec_Path ?t"
    using sections_disjoint [OF u s(1) t] sections_disjoint [OF u t s(1)] s(2) section_finds_path(3) [OF r2(2)] by auto
  then have "s = ?t" using NewUniverse_parts(1) [OF u, of "sec_Path s" s] NewUniverse_parts(1) [OF u, of "sec_Path s" ?t] s(1) t by auto
  with section_finds_path(2) [OF r2(2)] s(2) d that show thesis by blast
qed

lemma overlay_entry_reads:
  assumes u: "NewUniverse sch sections = Inr u"
    and run: "overlay_entry setScalar u DefaultEnvPrefix existing (name, raw) = Inr (path, v)"
  shows "reads sch setScalar sections name raw path v"
proof -
  define cs where "cs = fst (resolveWithNamespace u DefaultEnvPrefix name)"
  obtain namespace where i: "interpret_value setScalar u name raw (preferDeclaredCandidates cs existing) namespace = Inr v"
    and path: "path = ca_path (hd (preferDeclaredCandidates cs existing))"
    using run by (auto simp: overlay_entry_def cs_def Let_def split: prod.splits if_splits option.splits sum.splits)
  obtain c ty where c: "preferDeclaredCandidates cs existing = [c]" "ca_hint c = None" "ca_typ c = Some ty" "setScalar (pointee ty) raw = Some v"
    using interpret_Inr [OF i] by blast
  have pc: "path = ca_path c" using path c(1) by simp
  have "set (preferDeclaredCandidates cs existing) \<subseteq> set cs" by (auto simp: preferDeclaredCandidates_def)
  then have "c \<in> set cs" using c(1) by simp
  from candidates_found [OF u this [unfolded cs_def]] obtain r where r: "resolved_from sch sections r"
    "validateSectionPath (sec_Path (rs_Section r)) = None" "c \<in> set (section_finds DefaultEnvPrefix name r)" by metis
  from section_finds_sound [OF r(3) c(2) r(1,2)] c(3) have sound: "names_path sch (rs_Section r) path ty"
    "ToLower name = ToLower (envName DefaultEnvPrefix path)" by (auto simp: pc)
  have "rs_Section r \<in> set sections" using r(1) by (simp add: resolved_from_def)
  moreover have "path = sec_Path s @ ''.'' @ leaf"
    if s: "s \<in> set sections" "sec_Kind s = SectionTyped" "leaf_of sch s leaf t" "leaf \<noteq> []"
      and name: "name = envName DefaultEnvPrefix (sec_Path s @ ''.'' @ leaf)" for s leaf t
  proof -
    obtain d where d: "d \<in> set cs" "ca_path d = sec_Path s @ ''.'' @ leaf" "ca_declared d"
      using typed_leaf_candidate [OF u s name] unfolding cs_def by metis
    then have "d \<in> set (preferDeclaredCandidates cs existing)" by (auto simp: preferDeclaredCandidates_def)
    with c(1) d(2) pc show ?thesis by simp
  qed
  ultimately show ?thesis using sound c(4) unfolding reads_def by blast
qed

lemma overlay_fold:
  assumes "fold (overlay_step setScalar u prefix existing) environ (fs, m) = ([], m')"
  shows "fs = [] \<and> (\<forall>path. gm_get m path \<noteq> None \<longrightarrow> gm_get m' path \<noteq> None) \<and>
    (\<forall>entry \<in> set environ. \<forall>nv. env_entry prefix entry = Some nv \<longrightarrow>
       (\<exists>path v. overlay_entry setScalar u prefix existing nv = Inr (path, v) \<and> gm_get m' path \<noteq> None)) \<and>
    (\<forall>path v. gm_get m' path = Some v \<longrightarrow> gm_get m path = Some v \<or>
       (\<exists>entry \<in> set environ. \<exists>nv. env_entry prefix entry = Some nv \<and> overlay_entry setScalar u prefix existing nv = Inr (path, v)))"
  using assms
proof (induction environ arbitrary: fs m)
  case (Cons e es)
  obtain fs1 m1 where s: "overlay_step setScalar u prefix existing e (fs, m) = (fs1, m1)" by fastforce
  with Cons.prems have "fold (overlay_step setScalar u prefix existing) es (fs1, m1) = ([], m')" by simp
  note IH = Cons.IH [OF this]
  show ?case
  proof (cases "env_entry prefix e")
    case None
    then have "fs1 = fs" "m1 = m" using s by (simp_all add: overlay_step_def)
    with IH None show ?thesis by auto
  next
    case (Some nv)
    show ?thesis
    proof (cases "overlay_entry setScalar u prefix existing nv")
      case (Inl err)
      then show ?thesis using IH s Some by (auto simp: overlay_step_def)
    next
      case (Inr pv)
      obtain path v where pv: "pv = (path, v)" by (cases pv)
      then have fm: "fs1 = fs" "m1 = gm_put path v m" using s Some Inr by (simp_all add: overlay_step_def)
      have "gm_get m' path \<noteq> None" using IH fm(2) by simp
      moreover have "gm_get m' p \<noteq> None" if "gm_get m p \<noteq> None" for p using IH fm(2) that by (cases "p = path") auto
      moreover have "gm_get m p = Some w \<or> (p = path \<and> w = v)" if "gm_get m1 p = Some w" for p w using that fm(2) by (auto split: if_splits)
      moreover have "\<exists>entry \<in> set (e # es). \<exists>nv. env_entry prefix entry = Some nv \<and> overlay_entry setScalar u prefix existing nv = Inr (p, w)"
        if g: "gm_get m' p = Some w" "gm_get m p \<noteq> Some w" for p w
      proof (cases "gm_get m1 p = Some w")
        case True
        with calculation(3) [of p w] g(2) have "p = path" "w = v" by auto
        with Some Inr pv show ?thesis by (intro bexI [of _ e]) auto
      next
        case False
        then have "\<exists>entry \<in> set es. \<exists>nv. env_entry prefix entry = Some nv \<and> overlay_entry setScalar u prefix existing nv = Inr (p, w)"
          using IH g(1) by blast
        then show ?thesis by (meson list.set_intros(2))
      qed
      moreover have "\<exists>p w. overlay_entry setScalar u prefix existing n = Inr (p, w) \<and> gm_get m' p \<noteq> None"
        if "entry \<in> set (e # es)" "env_entry prefix entry = Some n" for entry n
      proof (cases "entry = e")
        case True
        with that Some Inr pv calculation(1) show ?thesis by auto
      next
        case False
        with that have "entry \<in> set es" by simp
        with IH that(2) show ?thesis by blast
      qed
      ultimately show ?thesis using IH fm(1) by blast
    qed
  qed
qed simp

text \<open>
  C35. What the environment layer does with the process environment when it succeeds. Every variable that carries the
  reserved prefix sets a leaf that a section declares, whose path it spells and whose type its value has; none is
  dropped, and a name that spells a leaf of a typed section sets that leaf and no other. Nothing else is set.
\<close>

theorem envOverlay_exact:
  assumes "NewUniverse sch sections = Inr u" and "envOverlay setScalar u DefaultEnvPrefix environ existing = Inr values"
  shows "(\<forall>entry \<in> set environ. \<forall>name raw. env_entry DefaultEnvPrefix entry = Some (name, raw) \<longrightarrow>
      (\<exists>path v. reads sch setScalar sections name raw path v \<and> gm_get values path \<noteq> None)) \<and>
    (\<forall>path v. gm_get values path = Some v \<longrightarrow>
      (\<exists>entry \<in> set environ. \<exists>name raw. env_entry DefaultEnvPrefix entry = Some (name, raw) \<and> reads sch setScalar sections name raw path v))"
proof -
  have "fold (overlay_step setScalar u DefaultEnvPrefix existing) environ ([], []) = ([], values)"
    using assms(2) by (auto simp: envOverlay_def split: prod.splits if_splits)
  note f = overlay_fold [OF this]
  note rd = overlay_entry_reads [OF assms(1)]
  show ?thesis
  proof (intro conjI ballI allI impI)
    fix entry name raw
    assume "entry \<in> set environ" "env_entry DefaultEnvPrefix entry = Some (name, raw)"
    with f obtain path v where "overlay_entry setScalar u DefaultEnvPrefix existing (name, raw) = Inr (path, v)" "gm_get values path \<noteq> None" by metis
    with rd show "\<exists>path v. reads sch setScalar sections name raw path v \<and> gm_get values path \<noteq> None" by blast
  next
    fix path v
    assume "gm_get values path = Some v"
    with f obtain entry nv where "entry \<in> set environ" "env_entry DefaultEnvPrefix entry = Some nv"
      "overlay_entry setScalar u DefaultEnvPrefix existing nv = Inr (path, v)"
      by (metis map_of.simps(1) option.distinct(1))
    with rd show "\<exists>entry \<in> set environ. \<exists>name raw. env_entry DefaultEnvPrefix entry = Some (name, raw) \<and> reads sch setScalar sections name raw path v"
      by (cases nv) blast
  qed
qed

section \<open>A composition with plugins and its variables\<close>

definition sample_scalars :: scalars where
  "sample_scalars t raw = (if t = TyBool then (if raw = ''true'' then Some (CBool True) else None) else Some (CString raw))"

definition sample_overlay :: "string list \<Rightarrow> koanf option \<Rightarrow> (env_error list, (string, cval) gomap) result option" where
  "sample_overlay environ existing = map_option (\<lambda>u. envOverlay sample_scalars u DefaultEnvPrefix environ existing) sample_universe"

text \<open>
  A declared sibling wins over an inferred instance, unless that instance is declared as well; an instance that cannot be spelled apart is not forked.
\<close>

lemma sample_overlays:
  "sample_overlay [''XBC_PLUGINS_REDIS_LEASE_ENABLED=true''] None = Some (Inr [(''plugins.redis-lease.enabled'', CBool True)])"
  "sample_overlay [''XBC_PLUGINS_REDIS_LEASE_ENABLED=true''] (Some \<lparr>kf_Raw = [], kf_Cut = (\<lambda>p. if p = ''plugins.redis'' then [(''lease'', CMap [])] else [])\<rparr>) =
     Some (Inl [Ambiguous ''XBC_PLUGINS_REDIS_LEASE_ENABLED'' [''plugins.redis-lease.enabled'', ''plugins.redis.lease.enabled'']])"
  "sample_overlay [''XBC_PLUGINS_REDIS_MY_DB_ADDR=a''] (Some \<lparr>kf_Raw = [], kf_Cut = (\<lambda>p. if p = ''plugins.redis'' then [(''my-db'', CMap [])] else [])\<rparr>) =
     Some (Inl [InstanceCollision ''XBC_PLUGINS_REDIS_MY_DB_ADDR'' ''my_db'' ''plugins.redis'' [''my-db'']])"
  by code_simp+

theorem envOverlay_exact_witness:
  "\<exists>u values path v. NewUniverse sample_schemas sample_sections = Inr u \<and>
     envOverlay sample_scalars u DefaultEnvPrefix [''XBC_SHUTDOWN_TIMEOUT=5s''] None = Inr values \<and>
     reads sample_schemas sample_scalars sample_sections ''XBC_SHUTDOWN_TIMEOUT'' ''5s'' path v \<and> gm_get values path \<noteq> None"
proof -
  obtain u where u: "NewUniverse sample_schemas sample_sections = Inr u" "sample_universe = Some u" using sample_universe_built by blast
  have ov: "sample_overlay [''XBC_SHUTDOWN_TIMEOUT=5s''] None = Some (Inr [(''xbc.shutdown_timeout'', CString ''5s'')])" by code_simp
  have run: "envOverlay sample_scalars u DefaultEnvPrefix [''XBC_SHUTDOWN_TIMEOUT=5s''] None = Inr [(''xbc.shutdown_timeout'', CString ''5s'')]"
    using ov unfolding sample_overlay_def u(2) by simp
  have "env_entry DefaultEnvPrefix ''XBC_SHUTDOWN_TIMEOUT=5s'' = Some (''XBC_SHUTDOWN_TIMEOUT'', ''5s'')" by code_simp
  with envOverlay_exact [OF u(1) run] have "\<exists>path v. reads sample_schemas sample_scalars sample_sections ''XBC_SHUTDOWN_TIMEOUT'' ''5s'' path v \<and>
    gm_get [(''xbc.shutdown_timeout'', CString ''5s'')] path \<noteq> None" by (meson list.set_intros(1))
  with u(1) run show ?thesis by blast
qed

end
